(* ===== verification/Prelude.thy ===== *)
theory Prelude
  imports Main "HOL-Library.Word" "HOL-Library.Multiset"
begin

text \<open>
  What every component of the development shares: the machine integers and byte slices of the
  Go code, panics as values of a result type, checked indexing and slicing, big-endian integers
  (\<open>encoding/binary\<close>), \<open>bytes.Compare\<close>, and in-place writes into a byte buffer.
\<close>

subsection \<open>Types\<close>

type_synonym byte = "8 word"
type_synonym bytes = "byte list"
type_synonym uint32 = "32 word"
type_synonym uint64 = "64 word"

text \<open>
  A Go panic is a value. The constructors name the place the panic comes from: a failed check of
  package \<open>d\<close>, an index or slice out of range, a nil dereference, an integer division by zero, an
  explicit panic with its message, or an error of the file system that the code turns into a panic.
  \<open>Diverges\<close> stands for a computation that does not return: a loop that never ends, or a recursion
  that exceeds every given depth of the stack.
\<close>

datatype panic =
    ChkFailed
  | IndexOutOfRange
  | NilDereference
  | DivideByZero
  | Panic string
  | IOError string
  | Diverges

type_synonym 'a res = "panic + 'a"

named_theorems res_simps \<open>rewriting of panicking computations\<close>
named_theorems byte_simps \<open>big-endian integers, slices and writes\<close>

subsection \<open>Sequencing of computations that may panic\<close>

definition rbind :: "'a res \<Rightarrow> ('a \<Rightarrow> 'b res) \<Rightarrow> 'b res" where
  "rbind m k = (case m of Inl e \<Rightarrow> Inl e | Inr x \<Rightarrow> k x)"

lemma rbind_Inr [simp, res_simps]: "rbind (Inr x) k = k x"
  by (simp add: rbind_def)

lemma rbind_Inl [simp, res_simps]: "rbind (Inl e) k = Inl e"
  by (simp add: rbind_def)

lemma rbind_eq_Inr [res_simps]: "rbind m k = Inr y \<longleftrightarrow> (\<exists>x. m = Inr x \<and> k x = Inr y)"
  by (simp add: rbind_def split: sum.splits)

lemma rbind_cong [fundef_cong]:
  "m = m' \<Longrightarrow> (\<And>x. m' = Inr x \<Longrightarrow> k x = k' x) \<Longrightarrow> rbind m k = rbind m' k'"
  by (simp add: rbind_def split: sum.splits)

lemma rbind_assoc [res_simps]: "rbind (rbind m k) l = rbind m (\<lambda>x. rbind (k x) l)"
  by (simp add: rbind_def split: sum.splits)

text \<open>\<open>d.Chk.True\<close>, \<open>d.PanicIfFalse\<close> and their relatives: continue only when the check holds.\<close>

definition chk :: "bool \<Rightarrow> 'a res \<Rightarrow> 'a res" where
  "chk b m = (if b then m else Inl ChkFailed)"

lemma chk_True [simp, res_simps]: "chk True m = m"
  by (simp add: chk_def)

lemma chk_eq_Inr [res_simps]: "chk b m = Inr x \<longleftrightarrow> b \<and> m = Inr x"
  by (simp add: chk_def)

lemma chk_cong [fundef_cong]: "b = b' \<Longrightarrow> (b' \<Longrightarrow> m = m') \<Longrightarrow> chk b m = chk b' m'"
  by (simp add: chk_def)

text \<open>Indexing \<open>xs[i]\<close> and slicing \<open>xs[i:j]\<close>, \<open>xs[i:]\<close> panic out of range.\<close>

definition nth_res :: "'a list \<Rightarrow> nat \<Rightarrow> 'a res" where
  "nth_res xs i = (if i < length xs then Inr (xs ! i) else Inl IndexOutOfRange)"

definition slice_res :: "'a list \<Rightarrow> nat \<Rightarrow> nat \<Rightarrow> 'a list res" where
  "slice_res xs i j =
     (if i \<le> j \<and> j \<le> length xs then Inr (take (j - i) (drop i xs)) else Inl IndexOutOfRange)"

definition from_res :: "'a list \<Rightarrow> nat \<Rightarrow> 'a list res" where
  "from_res xs i = (if i \<le> length xs then Inr (drop i xs) else Inl IndexOutOfRange)"

lemma nth_res_ok [simp, res_simps]: "i < length xs \<Longrightarrow> nth_res xs i = Inr (xs ! i)"
  by (simp add: nth_res_def)

lemma nth_res_eq_Inr [res_simps]: "nth_res xs i = Inr x \<longleftrightarrow> i < length xs \<and> x = xs ! i"
  by (auto simp: nth_res_def)

lemma slice_res_ok [simp, res_simps]:
  "i \<le> j \<Longrightarrow> j \<le> length xs \<Longrightarrow> slice_res xs i j = Inr (take (j - i) (drop i xs))"
  by (simp add: slice_res_def)

lemma from_res_ok [simp, res_simps]: "i \<le> length xs \<Longrightarrow> from_res xs i = Inr (drop i xs)"
  by (simp add: from_res_def)

lemma drop_take_append_mid [byte_simps]:
  "length a = i \<Longrightarrow> length b = n \<Longrightarrow> take n (drop i (a @ b @ c)) = b"
  by simp

text \<open>A loop that panics as soon as one of its iterations does.\<close>

fun mapM_res :: "('a \<Rightarrow> 'b res) \<Rightarrow> 'a list \<Rightarrow> 'b list res" where
  "mapM_res f [] = Inr []"
| "mapM_res f (x # xs) = rbind (f x) (\<lambda>y. rbind (mapM_res f xs) (\<lambda>ys. Inr (y # ys)))"

lemma mapM_res_eq_Inr: "mapM_res f xs = Inr ys \<longleftrightarrow> list_all2 (\<lambda>x y. f x = Inr y) xs ys"
proof (induction xs arbitrary: ys)
  case (Cons x xs)
  then show ?case by (auto simp: rbind_eq_Inr list_all2_Cons1)
qed auto

lemma mapM_res_InrD: "mapM_res f xs = Inr ys \<Longrightarrow> x \<in> set xs \<Longrightarrow> \<exists>y. f x = Inr y"
  by (induction xs arbitrary: ys) (auto simp: rbind_eq_Inr)

lemma mapM_res_Inr: "(\<And>x. x \<in> set xs \<Longrightarrow> f x = Inr (g x)) \<Longrightarrow> mapM_res f xs = Inr (map g xs)"
  by (induction xs) auto

fun foldM_res :: "('s \<Rightarrow> 'a \<Rightarrow> 's res) \<Rightarrow> 's \<Rightarrow> 'a list \<Rightarrow> 's res" where
  "foldM_res f s [] = Inr s"
| "foldM_res f s (x # xs) = rbind (f s x) (\<lambda>s'. foldM_res f s' xs)"

lemma foldM_res_append [res_simps]:
  "foldM_res f s (xs @ ys) = rbind (foldM_res f s xs) (\<lambda>s'. foldM_res f s' ys)"
  by (induction xs arbitrary: s) (auto simp: rbind_def split: sum.splits)

subsection \<open>Big-endian integers\<close>

text \<open>\<open>binary.BigEndian.PutUint32\<close> and \<open>PutUint64\<close> write the bytes most significant first.\<close>

primrec be_encode :: "nat \<Rightarrow> nat \<Rightarrow> bytes" where
  "be_encode 0 v = []"
| "be_encode (Suc n) v = be_encode n (v div 256) @ [of_nat (v mod 256)]"

definition be_decode :: "bytes \<Rightarrow> nat" where
  "be_decode bs = foldl (\<lambda>a b. a * 256 + unat b) 0 bs"

lemma length_be_encode [simp, byte_simps]: "length (be_encode n v) = n"
  by (induction n arbitrary: v) auto

lemma be_decode_Nil [simp]: "be_decode [] = 0"
  by (simp add: be_decode_def)

lemma be_decode_snoc [simp]: "be_decode (bs @ [b]) = be_decode bs * 256 + unat b"
  by (simp add: be_decode_def)

lemma unat_byte_of_nat [simp]: "unat (of_nat (v mod 256) :: byte) = v mod 256"
  by (simp add: unat_of_nat)

lemma be_decode_encode [byte_simps]: "be_decode (be_encode n v) = v mod 256 ^ n"
proof (induction n arbitrary: v)
  case 0
  show ?case by simp
next
  case (Suc n)
  have "be_decode (be_encode (Suc n) v) = (v div 256) mod 256 ^ n * 256 + v mod 256"
    using Suc.IH by simp
  also have "\<dots> = v mod (256 * 256 ^ n)"
    by (simp add: mod_mult2_eq)
  finally show ?case by simp
qed

lemma be_decode_bound: "be_decode bs < 256 ^ length bs"
proof (induction bs rule: rev_induct)
  case Nil
  show ?case by simp
next
  case (snoc b bs)
  have "unat b < 256"
    using unsigned_less [of b, where ?'a = nat] by simp
  with snoc.IH have "be_decode bs * 256 + unat b < (be_decode bs + 1) * 256"
    by simp
  also have "\<dots> \<le> 256 ^ length bs * 256"
    using snoc.IH by (intro mult_le_mono1) simp
  finally show ?case by simp
qed

lemma be_encode_decode [byte_simps]: "be_encode (length bs) (be_decode bs) = bs"
proof (induction bs rule: rev_induct)
  case Nil
  show ?case by simp
next
  case (snoc b bs)
  have "unat b < 256"
    using unsigned_less [of b, where ?'a = nat] by simp
  then show ?case
    using snoc.IH by simp
qed

lemma be_decode_inject:
  assumes "length a = length b" and "be_decode a = be_decode b"
  shows "a = b"
  by (metis assms be_encode_decode)

lemma be_decode_append: "be_decode (a @ b) = be_decode a * 256 ^ length b + be_decode b"
  by (induction b rule: rev_induct)
    (simp_all add: append_assoc [symmetric] algebra_simps del: append_assoc)

definition put_uint32 :: "uint32 \<Rightarrow> bytes" where
  "put_uint32 w = be_encode 4 (unat w)"

definition put_uint64 :: "uint64 \<Rightarrow> bytes" where
  "put_uint64 w = be_encode 8 (unat w)"

text \<open>\<open>binary.BigEndian.Uint32(b)\<close> reads the first four bytes and panics when there are fewer.\<close>

definition get_uint32 :: "bytes \<Rightarrow> uint32 res" where
  "get_uint32 bs = (if length bs < 4 then Inl IndexOutOfRange else Inr (of_nat (be_decode (take 4 bs))))"

definition get_uint64 :: "bytes \<Rightarrow> uint64 res" where
  "get_uint64 bs = (if length bs < 8 then Inl IndexOutOfRange else Inr (of_nat (be_decode (take 8 bs))))"

lemma length_put_uint32 [simp, byte_simps]: "length (put_uint32 w) = 4"
  by (simp add: put_uint32_def)

lemma length_put_uint64 [simp, byte_simps]: "length (put_uint64 w) = 8"
  by (simp add: put_uint64_def)

lemma put_uint_neq_Nil [simp]:
  "put_uint32 w \<noteq> []" "[] \<noteq> put_uint32 w" "put_uint64 v \<noteq> []" "[] \<noteq> put_uint64 v"
  by (metis length_put_uint32 list.size(3) zero_neq_numeral, metis length_put_uint32 list.size(3) zero_neq_numeral,
      metis length_put_uint64 list.size(3) zero_neq_numeral, metis length_put_uint64 list.size(3) zero_neq_numeral)

lemma get_put_uint32 [simp, byte_simps]: "get_uint32 (put_uint32 w @ bs) = Inr w"
proof -
  have "unat w < 256 ^ 4"
    using unsigned_less [of w, where ?'a = nat] by simp
  then show ?thesis
    by (simp add: get_uint32_def put_uint32_def be_decode_encode)
qed

lemma get_put_uint64 [simp, byte_simps]: "get_uint64 (put_uint64 w @ bs) = Inr w"
proof -
  have "unat w < 256 ^ 8"
    using unsigned_less [of w, where ?'a = nat] by simp
  then show ?thesis
    by (simp add: get_uint64_def put_uint64_def be_decode_encode)
qed

lemma put_uint64_of_decode [byte_simps]:
  assumes "length bs = 8"
  shows "put_uint64 (of_nat (be_decode bs)) = bs"
proof -
  have "be_decode bs < 256 ^ 8"
    using be_decode_bound [of bs] assms by simp
  then have "unat (of_nat (be_decode bs) :: uint64) = be_decode bs"
    by (simp add: unat_of_nat)
  then show ?thesis
    using be_encode_decode [of bs] assms by (simp add: put_uint64_def)
qed

subsection \<open>Comparing byte slices\<close>

fun bytes_Compare :: "bytes \<Rightarrow> bytes \<Rightarrow> int" where
  "bytes_Compare [] [] = 0"
| "bytes_Compare [] (b # bs) = -1"
| "bytes_Compare (a # as) [] = 1"
| "bytes_Compare (a # as) (b # bs) =
     (if a < b then -1 else if b < a then 1 else bytes_Compare as bs)"

lemma bytes_Compare_eq_0 [simp]: "bytes_Compare a b = 0 \<longleftrightarrow> a = b"
  by (induction a b rule: bytes_Compare.induct) auto

lemma bytes_Compare_self [simp]: "bytes_Compare a a = 0"
  by simp

lemma be_decode_Cons: "be_decode (b # bs) = unat b * 256 ^ length bs + be_decode bs"
  using be_decode_append [of "[b]" bs] by (simp add: be_decode_def)

lemma bytes_Compare_less:
  "length a = length b \<Longrightarrow> bytes_Compare a b < 0 \<longleftrightarrow> be_decode a < be_decode b"
proof (induction a b rule: bytes_Compare.induct)
  case (4 a as b bs)
  then have len: "length as = length bs" by simp
  have *: "be_decode as < 256 ^ length bs" "be_decode bs < 256 ^ length bs"
    using be_decode_bound [of as] be_decode_bound [of bs] len by auto
  have lt: "x * n + r < y * n + s" if "x < y" "r < n" for x y n r s :: nat
  proof -
    have "x * n + r < Suc x * n" using that by simp
    also have "\<dots> \<le> y * n" using that by (intro mult_le_mono1) simp
    finally show ?thesis by simp
  qed
  show ?case
  proof (cases a b rule: linorder_cases)
    case less
    then have "unat a < unat b" by (simp add: word_less_nat_alt)
    with less lt [OF this *(1)] show ?thesis
      by (simp add: be_decode_Cons len)
  next
    case equal
    with 4 len show ?thesis by (simp add: be_decode_Cons)
  next
    case greater
    then have "unat b < unat a" by (simp add: word_less_nat_alt)
    with greater lt [OF this *(2)] show ?thesis
      by (simp add: be_decode_Cons len less_not_sym)
  qed
qed simp_all

lemma bytes_Compare_greater:
  "length a = length b \<Longrightarrow> bytes_Compare a b > 0 \<longleftrightarrow> be_decode b < be_decode a"
  using bytes_Compare_less [of a b] bytes_Compare_eq_0 [of a b] be_decode_inject [of a b]
  by (cases "bytes_Compare a b" "0::int" rule: linorder_cases;
      cases "be_decode a" "be_decode b" rule: linorder_cases) auto

subsection \<open>Writing into a buffer\<close>

text \<open>
  \<open>copy(buff[pos:], bs)\<close> and the \<open>PutUint\<close> functions, for a write that fits: the bytes from
  \<open>pos\<close> on are replaced and the buffer keeps its length.
\<close>

definition write_at :: "nat \<Rightarrow> bytes \<Rightarrow> bytes \<Rightarrow> bytes" where
  "write_at pos bs buff = take pos buff @ bs @ drop (pos + length bs) buff"

definition write_res :: "nat \<Rightarrow> bytes \<Rightarrow> bytes \<Rightarrow> bytes res" where
  "write_res pos bs buff =
     (if pos + length bs \<le> length buff then Inr (write_at pos bs buff) else Inl IndexOutOfRange)"

lemma length_write_at [simp, byte_simps]:
  "pos + length bs \<le> length buff \<Longrightarrow> length (write_at pos bs buff) = length buff"
  by (simp add: write_at_def)

lemma write_res_ok [simp, res_simps]:
  "pos + length bs \<le> length buff \<Longrightarrow> write_res pos bs buff = Inr (write_at pos bs buff)"
  by (simp add: write_res_def)

lemma take_write_at [byte_simps]:
  "pos + length bs \<le> length buff \<Longrightarrow> take (pos + length bs) (write_at pos bs buff) = take pos buff @ bs"
  by (simp add: write_at_def)

lemma take_write_at_before [byte_simps]:
  "n \<le> pos \<Longrightarrow> pos + length bs \<le> length buff \<Longrightarrow> take n (write_at pos bs buff) = take n buff"
  by (simp add: write_at_def min_def)

lemma nth_write_at:
  "pos + length bs \<le> length buff \<Longrightarrow> i < length buff \<Longrightarrow>
     write_at pos bs buff ! i = (if pos \<le> i \<and> i < pos + length bs then bs ! (i - pos) else buff ! i)"
  by (auto simp: write_at_def nth_append min_def)

lemma write_at_commute:
  assumes "p + length a \<le> length buff" and "q + length b \<le> length buff"
    and "p + length a \<le> q \<or> q + length b \<le> p"
  shows "write_at p a (write_at q b buff) = write_at q b (write_at p a buff)"
  using assms by (intro nth_equalityI) (auto simp: nth_write_at)

text \<open>
  A sequence of writes at given offsets. Writes to disjoint places can be done in any order, and
  consecutive ones put their concatenation into the buffer: this is how a loop that fills several
  regions of a table at once is compared with the table's layout.
\<close>

definition apply_writes :: "(nat \<times> bytes) list \<Rightarrow> bytes \<Rightarrow> bytes" where
  "apply_writes ws buff = foldl (\<lambda>b (p, d). write_at p d b) buff ws"

definition writes_fit :: "nat \<Rightarrow> (nat \<times> bytes) list \<Rightarrow> bool" where
  "writes_fit n ws \<longleftrightarrow> (\<forall>(p, d) \<in> set ws. p + length d \<le> n)"

definition disjoint_writes :: "nat \<times> bytes \<Rightarrow> nat \<times> bytes \<Rightarrow> bool" where
  "disjoint_writes v w \<longleftrightarrow>
     fst v + length (snd v) \<le> fst w \<or> fst w + length (snd w) \<le> fst v"

fun tile :: "nat \<Rightarrow> bytes list \<Rightarrow> (nat \<times> bytes) list" where
  "tile p [] = []"
| "tile p (d # ds) = (p, d) # tile (p + length d) ds"

lemma apply_writes_Nil [simp]: "apply_writes [] buff = buff"
  by (simp add: apply_writes_def)

lemma apply_writes_Cons [simp]: "apply_writes ((p, d) # ws) buff = apply_writes ws (write_at p d buff)"
  by (simp add: apply_writes_def)

lemma apply_writes_append [simp]: "apply_writes (vs @ ws) buff = apply_writes ws (apply_writes vs buff)"
  by (simp add: apply_writes_def)

lemma writes_fit_simps [simp]:
  "writes_fit n []"
  "writes_fit n (w # ws) \<longleftrightarrow> fst w + length (snd w) \<le> n \<and> writes_fit n ws"
  "writes_fit n (vs @ ws) \<longleftrightarrow> writes_fit n vs \<and> writes_fit n ws"
  by (auto simp: writes_fit_def)

lemma length_apply_writes [simp]:
  "writes_fit (length buff) ws \<Longrightarrow> length (apply_writes ws buff) = length buff"
  by (induction ws arbitrary: buff) auto

lemma disjoint_writes_sym: "disjoint_writes v w \<Longrightarrow> disjoint_writes w v"
  by (auto simp: disjoint_writes_def)

lemma apply_writes_move_front:
  assumes "writes_fit (length buff) ws" and "p + length d \<le> length buff"
    and "\<And>w. w \<in> set ws \<Longrightarrow> disjoint_writes (p, d) w"
  shows "apply_writes ws (write_at p d buff) = write_at p d (apply_writes ws buff)"
  using assms
proof (induction ws arbitrary: buff)
  case (Cons w ws)
  obtain q e where w: "w = (q, e)" by (cases w)
  have "write_at q e (write_at p d buff) = write_at p d (write_at q e buff)"
    using Cons.prems(1,2) Cons.prems(3) [of w] w
    by (intro write_at_commute) (auto simp: disjoint_writes_def)
  with Cons w show ?case by simp
qed simp

lemma apply_writes_perm:
  assumes "mset vs = mset ws" and "writes_fit (length buff) ws" and "distinct ws"
    and "pairwise disjoint_writes (set ws)"
  shows "apply_writes vs buff = apply_writes ws buff"
  using assms
proof (induction vs arbitrary: ws buff)
  case (Cons v vs)
  obtain p d where v: "v = (p, d)" by (cases v)
  have "v \<in> set ws"
    using Cons.prems(1) by (metis list.set_intros(1) set_mset_mset)
  then obtain as bs where ws: "ws = as @ v # bs"
    by (meson split_list)
  have disj: "disjoint_writes (p, d) w" if "w \<in> set as" for w
  proof -
    have "w \<noteq> (p, d)" and "w \<in> set ws" and "(p, d) \<in> set ws"
      using Cons.prems(3) ws v that by auto
    with Cons.prems(4) show ?thesis
      by (auto simp: pairwise_def)
  qed
  have "apply_writes vs (write_at p d buff) = apply_writes (as @ bs) (write_at p d buff)"
  proof (rule Cons.IH)
    show "mset vs = mset (as @ bs)" using Cons.prems(1) ws by simp
    show "writes_fit (length (write_at p d buff)) (as @ bs)" using Cons.prems(2) ws v by simp
    show "distinct (as @ bs)" using Cons.prems(3) ws by auto
    show "pairwise disjoint_writes (set (as @ bs))"
      using Cons.prems(4) ws by (auto simp: pairwise_def)
  qed
  also have "\<dots> = apply_writes ws buff"
    using Cons.prems(2) ws v disj apply_writes_move_front [of buff as p d] by simp
  finally show ?case by (simp add: v)
qed simp

lemma set_tile_ge: "w \<in> set (tile p ds) \<Longrightarrow> p \<le> fst w"
  by (induction ds arbitrary: p) force+

lemma tile_append [simp]: "tile p (ds @ es) = tile p ds @ tile (p + length (concat ds)) es"
  by (induction ds arbitrary: p) (simp_all add: add.assoc)

lemma writes_fit_tile [simp]:
  "ds \<noteq> [] \<Longrightarrow> writes_fit n (tile p ds) \<longleftrightarrow> p + length (concat ds) \<le> n"
proof (induction ds arbitrary: p)
  case (Cons d ds)
  show ?case
  proof (cases "ds = []")
    case False
    with Cons.IH [of "p + length d"] show ?thesis by auto
  qed simp
qed simp

lemma tile_disjoint:
  assumes "\<And>d. d \<in> set ds \<Longrightarrow> d \<noteq> []"
  shows "distinct (tile p ds) \<and> pairwise disjoint_writes (set (tile p ds))"
  using assms
proof (induction ds arbitrary: p)
  case (Cons d ds)
  have "0 < length d"
    using Cons.prems by auto
  then have "(p, d) \<notin> set (tile (p + length d) ds)"
    using set_tile_ge [of "(p, d)" "p + length d" ds] by auto
  moreover have "disjoint_writes (p, d) w" if "w \<in> set (tile (p + length d) ds)" for w
    using set_tile_ge [OF that] by (simp add: disjoint_writes_def)
  ultimately show ?case
    using Cons.IH [of "p + length d"] Cons.prems
    by (auto simp: pairwise_insert dest: disjoint_writes_sym)
qed simp

lemma apply_writes_tile:
  "p + length (concat ds) \<le> length buff \<Longrightarrow> apply_writes (tile p ds) buff = write_at p (concat ds) buff"
proof (induction ds arbitrary: p buff)
  case Nil
  then show ?case by (simp add: write_at_def)
next
  case (Cons d ds)
  then show ?case
    by (simp add: write_at_def algebra_simps)
qed

text \<open>The writes of a loop that tiles a region out of order leave the region's concatenation.\<close>

lemma apply_writes_tile_perm:
  assumes "mset ws = mset (tile p ds)" and "p + length (concat ds) \<le> length buff"
    and "\<And>d. d \<in> set ds \<Longrightarrow> d \<noteq> []"
  shows "apply_writes ws buff = write_at p (concat ds) buff"
proof (cases "ds = []")
  case True
  with assms show ?thesis by (simp add: write_at_def)
next
  case False
  have "apply_writes ws buff = apply_writes (tile p ds) buff"
    using assms False tile_disjoint [OF assms(3), of ds p]
    by (intro apply_writes_perm) auto
  then show ?thesis
    using apply_writes_tile [OF assms(2)] by simp
qed

end
