(* ===== verification/GoStd.thy ===== *)
theory GoStd
  imports Prelude
begin

text \<open>
  What the code uses of Go's standard library: \<open>crypto/sha512\<close>, \<open>hash/crc32\<close> with the Castagnoli
  polynomial, \<open>encoding/base32\<close> with the alphabet 0-9a-v, \<open>strings.Split\<close> and \<open>strings.Join\<close>,
  \<open>strconv.FormatUint\<close> and \<open>strconv.ParseUint\<close>, and \<open>sort.Sort\<close>.
\<close>

unbundle bit_operations_syntax

subsection \<open>crypto/sha512\<close>

text \<open>
  The constants are the first 64 bits of the fractional parts of the cube roots of the first eighty
  primes and of the square roots of the first eight. \<open>root_bits\<close> finds the integer part of a root bit
  by bit; the conversion to a word drops the integer part of the root itself.
\<close>

primrec root_bits :: "nat \<Rightarrow> nat \<Rightarrow> nat \<Rightarrow> nat \<Rightarrow> nat" where
  "root_bits k n 0 r = r"
| "root_bits k n (Suc b) r = root_bits k n b (if (r + 2 ^ b) ^ k \<le> n then r + 2 ^ b else r)"

definition root_fraction :: "nat \<Rightarrow> nat \<Rightarrow> uint64" where
  "root_fraction k p = of_nat (root_bits k (p * 2 ^ (64 * k)) 68 0)"

definition sha512_primes :: "nat list" where
  "sha512_primes = filter (\<lambda>n. list_all (\<lambda>d. n mod d \<noteq> 0) [2..<n]) [2..<410]"

definition sha512_K :: "uint64 list" where
  "sha512_K = map (root_fraction 3) sha512_primes"

definition sha512_init :: "uint64 list" where
  "sha512_init = map (root_fraction 2) [2, 3, 5, 7, 11, 13, 17, 19]"

definition sha512_sigma0 :: "uint64 \<Rightarrow> uint64" where
  "sha512_sigma0 x = word_rotr 1 x XOR word_rotr 8 x XOR drop_bit 7 x"

definition sha512_sigma1 :: "uint64 \<Rightarrow> uint64" where
  "sha512_sigma1 x = word_rotr 19 x XOR word_rotr 61 x XOR drop_bit 6 x"

text \<open>The message schedule, latest word first.\<close>

fun sha512_expand :: "nat \<Rightarrow> uint64 list \<Rightarrow> uint64 list" where
  "sha512_expand 0 ws = ws"
| "sha512_expand (Suc n) ws =
     sha512_expand n
       ((sha512_sigma1 (ws ! 1) + ws ! 6 + sha512_sigma0 (ws ! 14) + ws ! 15) # ws)"

fun sha512_round :: "uint64 list \<Rightarrow> uint64 \<times> uint64 \<Rightarrow> uint64 list" where
  "sha512_round [a, b, c, d, e, f, g, h] (k, w) =
     (let t1 = h + (word_rotr 14 e XOR word_rotr 18 e XOR word_rotr 41 e)
                 + ((e AND f) XOR (NOT e AND g)) + k + w;
          t2 = (word_rotr 28 a XOR word_rotr 34 a XOR word_rotr 39 a)
                 + ((a AND b) XOR (a AND c) XOR (b AND c))
      in [t1 + t2, a, b, c, d + t1, e, f, g])"
| "sha512_round s _ = s"

fun words64 :: "bytes \<Rightarrow> uint64 list" where
  "words64 bs = (if length bs < 8 then [] else of_nat (be_decode (take 8 bs)) # words64 (drop 8 bs))"

definition sha512_block :: "uint64 list \<Rightarrow> bytes \<Rightarrow> uint64 list" where
  "sha512_block s blk =
     map2 (+) s (foldl sha512_round s
       (zip sha512_K (rev (sha512_expand 64 (rev (words64 blk))))))"

fun sha512_blocks :: "uint64 list \<Rightarrow> bytes \<Rightarrow> uint64 list" where
  "sha512_blocks s bs =
     (if length bs < 128 then s else sha512_blocks (sha512_block s (take 128 bs)) (drop 128 bs))"

definition sha512_pad :: "bytes \<Rightarrow> bytes" where
  "sha512_pad bs =
     bs @ [0x80] @ replicate ((239 - length bs mod 128) mod 128) 0 @ be_encode 16 (8 * length bs)"

definition Sum512 :: "bytes \<Rightarrow> bytes" where
  "Sum512 bs = concat (map put_uint64 (sha512_blocks sha512_init (sha512_pad bs)))"

declare words64.simps [simp del] sha512_blocks.simps [simp del]

lemma length_sha512_round [simp]: "length (sha512_round s kw) = length s"
  by (induction s kw rule: sha512_round.induct) (simp_all add: Let_def)

lemma length_sha512_rounds [simp]: "length (foldl sha512_round s kws) = length s"
  by (induction kws arbitrary: s) auto

lemma length_sha512_block [simp]: "length (sha512_block s blk) = length s"
  by (simp add: sha512_block_def)

lemma length_sha512_blocks [simp]: "length (sha512_blocks s bs) = length s"
proof (induction s bs rule: sha512_blocks.induct)
  case (1 s bs)
  then show ?case by (simp add: sha512_blocks.simps [of s bs])
qed

lemma length_concat_put_uint64: "length (concat (map put_uint64 ws)) = 8 * length ws"
  by (induction ws) auto

lemma length_Sum512 [simp]: "length (Sum512 bs) = 64"
  by (simp add: Sum512_def length_concat_put_uint64 sha512_init_def)

subsection \<open>hash/crc32\<close>

primrec crc_bits :: "nat \<Rightarrow> uint32 \<Rightarrow> uint32" where
  "crc_bits 0 c = c"
| "crc_bits (Suc n) c = crc_bits n (if bit c 0 then drop_bit 1 c XOR 0x82f63b78 else drop_bit 1 c)"

definition crc_table :: "byte \<Rightarrow> uint32" where
  "crc_table i = crc_bits 8 (ucast i)"

definition crc32_Update :: "uint32 \<Rightarrow> bytes \<Rightarrow> uint32" where
  "crc32_Update c bs =
     NOT (foldl (\<lambda>c v. crc_table (ucast c XOR v) XOR drop_bit 8 c) (NOT c) bs)"

subsection \<open>encoding/base32\<close>

definition b32_alphabet :: string where
  "b32_alphabet = ''0123456789abcdefghijklmnopqrstuv''"

definition b32_char :: "nat \<Rightarrow> char" where
  "b32_char d = b32_alphabet ! d"

definition b32_val :: "char \<Rightarrow> nat option" where
  "b32_val c =
     (let n = (of_char c :: nat)
      in if 48 \<le> n \<and> n \<le> 57 then Some (n - 48)
         else if 97 \<le> n \<and> n \<le> 118 then Some (n - 87) else None)"

primrec b32_digits :: "nat \<Rightarrow> nat \<Rightarrow> nat list" where
  "b32_digits 0 v = []"
| "b32_digits (Suc n) v = b32_digits n (v div 32) @ [v mod 32]"

definition b32_value :: "nat list \<Rightarrow> nat" where
  "b32_value ds = foldl (\<lambda>a d. a * 32 + d) 0 ds"

text \<open>Five bytes become eight characters; a shorter rest is padded with the sign \<open>=\<close>.\<close>

function EncodeToString :: "bytes \<Rightarrow> string" where
  "EncodeToString bs =
     (if bs = [] then []
      else if length bs < 5
        then let n = (8 * length bs + 4) div 5
             in take n (map b32_char (b32_digits 8 (be_decode (bs @ replicate (5 - length bs) 0))))
                @ replicate (8 - n) (CHR ''='')
        else map b32_char (b32_digits 8 (be_decode (take 5 bs))) @ EncodeToString (drop 5 bs))"
  by pat_completeness auto
termination
  by (relation "measure length") auto

text \<open>
  Decoding reads quanta of eight characters. \<open>b32_quantum\<close> reads one: the digits, whether padding
  ended the input, and the characters left; \<open>None\<close> is a \<open>CorruptInputError\<close>.
\<close>

fun b32_quantum :: "nat list \<Rightarrow> string \<Rightarrow> (nat list \<times> bool \<times> string) option" where
  "b32_quantum ds [] = (if length ds = 8 then Some (ds, False, []) else None)"
| "b32_quantum ds (c # src) =
     (if length ds = 8 then Some (ds, False, c # src)
      else if c = CHR ''='' \<and> 2 \<le> length ds \<and> length src < 8 then
        (if length src + length ds < 7 then None
         else if (\<exists>k \<in> {0..<7 - length ds}. k < length src \<and> src ! k \<noteq> CHR ''='') then None
         else if length ds = 3 \<or> length ds = 6 then None
         else Some (ds, True, src))
      else case b32_val c of
             None \<Rightarrow> None
           | Some d \<Rightarrow> b32_quantum (ds @ [d]) src)"

definition b32_bytes :: "nat list \<Rightarrow> bytes" where
  "b32_bytes ds =
     take (5 * length ds div 8) (be_encode 5 (b32_value (ds @ replicate (8 - length ds) 0)))"

lemma b32_quantum_shorter:
  assumes "b32_quantum ds src = Some (es, e, rest)"
  shows "length rest \<le> length src \<and> (length ds < 8 \<longrightarrow> length rest < length src)"
  using assms
proof (induction ds src rule: b32_quantum.induct)
  case (2 ds c src)
  show ?case
  proof (cases "b32_val c")
    case None
    with 2 show ?thesis by (auto split: if_splits)
  next
    case (Some d)
    with 2 show ?thesis by (auto split: if_splits)
  qed
qed (auto split: if_splits)

text \<open>The bytes decoded before the input ends or the first corrupt quantum.\<close>

function b32_decode :: "string \<Rightarrow> bytes" where
  "b32_decode src =
     (if src = [] then []
      else case b32_quantum [] src of
             None \<Rightarrow> []
           | Some (ds, end_, rest) \<Rightarrow>
               b32_bytes ds @ (if end_ then [] else b32_decode rest))"
  by pat_completeness auto
termination
  by (relation "measure length") (auto dest: b32_quantum_shorter)

definition DecodeString :: "string \<Rightarrow> bytes" where
  "DecodeString s = b32_decode (filter (\<lambda>c. c \<noteq> CHR 0x0A \<and> c \<noteq> CHR 0x0D) s)"

declare EncodeToString.simps [simp del] b32_decode.simps [simp del]

lemma b32_char_val [simp]: "d < 32 \<Longrightarrow> b32_val (b32_char d) = Some d"
proof -
  have "\<forall>d \<in> set [0..<32]. b32_val (b32_char d) = Some d" by code_simp
  then show "d < 32 \<Longrightarrow> b32_val (b32_char d) = Some d" by simp
qed

lemma of_char_b32_char: "d < 32 \<Longrightarrow> (of_char (b32_char d) :: nat) = (if d < 10 then d + 48 else d + 87)"
proof -
  have "\<forall>d \<in> set [0..<32]. (of_char (b32_char d) :: nat) = (if d < 10 then d + 48 else d + 87)"
    by code_simp
  then show "d < 32 \<Longrightarrow> (of_char (b32_char d) :: nat) = (if d < 10 then d + 48 else d + 87)"
    by simp
qed

lemma b32_val_char:
  assumes "b32_val c = Some d"
  shows "d < 32 \<and> b32_char d = c"
proof -
  have "d < 32 \<and> (of_char c :: nat) = (if d < 10 then d + 48 else d + 87)"
    using assms by (auto simp: b32_val_def Let_def split: if_splits)
  then have "d < 32" and "(of_char (b32_char d) :: nat) = of_char c"
    using of_char_b32_char [of d] by auto
  then show ?thesis by simp
qed

lemma b32_char_plain [simp]:
  "d < 32 \<Longrightarrow> b32_char d \<noteq> CHR ''=''" "d < 32 \<Longrightarrow> b32_char d \<noteq> CHR 0x0A"
  "d < 32 \<Longrightarrow> b32_char d \<noteq> CHR 0x0D" "d < 32 \<Longrightarrow> b32_char d \<noteq> CHR '':''"
proof -
  have "\<forall>d \<in> set [0..<32]. b32_char d \<notin> set [CHR ''='', CHR 0x0A, CHR 0x0D, CHR '':'']"
    by code_simp
  then show "d < 32 \<Longrightarrow> b32_char d \<noteq> CHR ''=''" "d < 32 \<Longrightarrow> b32_char d \<noteq> CHR 0x0A"
    "d < 32 \<Longrightarrow> b32_char d \<noteq> CHR 0x0D" "d < 32 \<Longrightarrow> b32_char d \<noteq> CHR '':''"
    by auto
qed

lemma length_b32_digits [simp]: "length (b32_digits n v) = n"
  by (induction n arbitrary: v) auto

lemma b32_digits_less: "d \<in> set (b32_digits n v) \<Longrightarrow> d < 32"
  by (induction n arbitrary: v) auto

lemma b32_value_snoc [simp]: "b32_value (ds @ [d]) = b32_value ds * 32 + d"
  by (simp add: b32_value_def)

lemma b32_value_digits [simp]: "b32_value (b32_digits n v) = v mod 32 ^ n"
proof (induction n arbitrary: v)
  case 0
  show ?case by (simp add: b32_value_def)
next
  case (Suc n)
  have "b32_value (b32_digits (Suc n) v) = (v div 32) mod 32 ^ n * 32 + v mod 32"
    using Suc.IH by simp
  also have "\<dots> = v mod (32 * 32 ^ n)"
    by (simp add: mod_mult2_eq)
  finally show ?case by simp
qed

lemma b32_value_bound: "(\<And>d. d \<in> set ds \<Longrightarrow> d < 32) \<Longrightarrow> b32_value ds < 32 ^ length ds"
proof (induction ds rule: rev_induct)
  case Nil
  show ?case by (simp add: b32_value_def)
next
  case (snoc d ds)
  then have IH: "b32_value ds < 32 ^ length ds" and "d < 32" by simp_all
  then have "b32_value ds * 32 + d < (b32_value ds + 1) * 32" by simp
  also have "\<dots> \<le> 32 ^ length ds * 32"
    using IH by (intro mult_le_mono1) simp
  finally show ?case by simp
qed

lemma b32_digits_value: "(\<And>d. d \<in> set ds \<Longrightarrow> d < 32) \<Longrightarrow> b32_digits (length ds) (b32_value ds) = ds"
  by (induction ds rule: rev_induct) auto

lemma b32_quantum_chars:
  assumes "\<And>d. d \<in> set es \<Longrightarrow> d < 32" and "length ds + length es = 8"
  shows "b32_quantum ds (map b32_char es @ rest) = Some (ds @ es, False, rest)"
  using assms
proof (induction es arbitrary: ds)
  case Nil
  then show ?case by (cases rest) auto
qed auto

lemma b32_bytes_8: "length ds = 8 \<Longrightarrow> b32_bytes ds = be_encode 5 (b32_value ds)"
  by (simp add: b32_bytes_def)

lemma EncodeToString_5: "length q = 5 \<Longrightarrow>
  EncodeToString (q @ bs) = map b32_char (b32_digits 8 (be_decode q)) @ EncodeToString bs"
  by (subst EncodeToString.simps) auto

lemma EncodeToString_Nil [simp]: "EncodeToString [] = []"
  by (simp add: EncodeToString.simps)

lemma b32_decode_Nil [simp]: "b32_decode [] = []"
  by (simp add: b32_decode.simps)

lemma b32_decode_8:
  assumes "\<And>d. d \<in> set ds \<Longrightarrow> d < 32" and "length ds = 8"
  shows "b32_decode (map b32_char ds @ rest) = be_encode 5 (b32_value ds) @ b32_decode rest"
  using assms b32_quantum_chars [of ds "[]" rest]
  by (subst b32_decode.simps) (auto simp: b32_bytes_8)

text \<open>Slices whose length is a multiple of five are encoded in whole quanta, without padding.\<close>

lemma length_multiple_induct [consumes 1, case_names pos Nil block]:
  assumes "n dvd length xs" and "0 < n" and "P []"
    and "\<And>q ys. length q = n \<Longrightarrow> n dvd length ys \<Longrightarrow> P ys \<Longrightarrow> P (q @ ys)"
  shows "P xs"
  using assms(1)
proof (induction "length xs" arbitrary: xs rule: less_induct)
  case less
  show ?case
  proof (cases "xs = []")
    case True
    with assms(3) show ?thesis by simp
  next
    case False
    with less.prems have n: "n \<le> length xs"
      by (simp add: dvd_imp_le)
    then have "n dvd length (drop n xs)"
      using less.prems by (simp add: dvd_minus_self)
    moreover have "length (drop n xs) < length xs"
      using False assms(2) by simp
    ultimately have "P (drop n xs)"
      using less.hyps by blast
    then have "P (take n xs @ drop n xs)"
      using n \<open>n dvd length (drop n xs)\<close> by (intro assms(4)) auto
    then show ?thesis by simp
  qed
qed

lemma be_decode_5: "length q = 5 \<Longrightarrow> be_decode q < 32 ^ 8"
  using be_decode_bound [of q] by simp

lemma b32_decode_encode:
  assumes "5 dvd length bs"
  shows "b32_decode (EncodeToString bs) = bs"
  using assms
proof (induction bs rule: length_multiple_induct)
  case (block q ys)
  have "be_encode 5 (be_decode q) = q"
    using be_encode_decode [of q] block by simp
  moreover have "b32_value (b32_digits 8 (be_decode q)) = be_decode q"
    using be_decode_5 [OF block(1)] by simp
  ultimately show ?case
    using block b32_digits_less
    by (simp add: EncodeToString_5 b32_decode_8 del: b32_value_digits)
qed simp_all

lemma set_EncodeToString:
  assumes "5 dvd length bs" and "c \<in> set (EncodeToString bs)"
  shows "\<exists>d < 32. c = b32_char d"
  using assms
  by (induction bs rule: length_multiple_induct)
    (auto simp: EncodeToString_5 dest: b32_digits_less)

lemma length_EncodeToString:
  assumes "5 dvd length bs"
  shows "5 * length (EncodeToString bs) = 8 * length bs"
  using assms by (induction bs rule: length_multiple_induct) (auto simp: EncodeToString_5)

lemma DecodeString_EncodeToString:
  assumes "5 dvd length bs"
  shows "DecodeString (EncodeToString bs) = bs"
proof -
  have "c \<noteq> CHR 0x0A \<and> c \<noteq> CHR 0x0D" if "c \<in> set (EncodeToString bs)" for c
    using set_EncodeToString [OF assms that] by auto
  then have "filter (\<lambda>c. c \<noteq> CHR 0x0A \<and> c \<noteq> CHR 0x0D) (EncodeToString bs) = EncodeToString bs"
    by (intro filter_True) blast
  then show ?thesis
    using b32_decode_encode [OF assms] by (simp add: DecodeString_def)
qed

lemma b32_string_digits:
  assumes "\<And>c. c \<in> set s \<Longrightarrow> b32_val c \<noteq> None"
  shows "\<exists>ds. s = map b32_char ds \<and> (\<forall>d \<in> set ds. d < 32)"
  using assms
proof (induction s)
  case (Cons c s)
  then obtain ds where ds: "s = map b32_char ds" "\<forall>d \<in> set ds. d < 32" by auto
  obtain d where "b32_val c = Some d" using Cons.prems by (meson list.set_intros(1) not_None_eq)
  then have "c = b32_char d" and "d < 32" using b32_val_char by auto
  with ds show ?case by (intro exI [of _ "d # ds"]) simp
qed simp

lemma EncodeToString_decode:
  assumes "8 dvd length s" and "\<And>c. c \<in> set s \<Longrightarrow> b32_val c \<noteq> None"
  shows "EncodeToString (b32_decode s) = s \<and> 8 * length (b32_decode s) = 5 * length s"
  using assms
proof (induction s rule: length_multiple_induct)
  case (block q ys)
  obtain ds where ds: "q = map b32_char ds" and small: "\<forall>d \<in> set ds. d < 32"
    using b32_string_digits [of q] block.prems by auto
  then have len: "length ds = 8" using block by simp
  have dec: "b32_decode (q @ ys) = be_encode 5 (b32_value ds) @ b32_decode ys"
    using b32_decode_8 [of ds ys] small len ds by simp
  have "b32_value ds < 32 ^ 8"
    using b32_value_bound [of ds] small len by simp
  then have "be_decode (be_encode 5 (b32_value ds)) = b32_value ds"
    by (simp add: be_decode_encode)
  then show ?case
    using block b32_digits_value [of ds] small len dec ds by (simp add: EncodeToString_5)
qed simp_all

subsection \<open>strings and strconv\<close>

text \<open>\<open>strings.Split\<close> and \<open>strings.Join\<close> with a separator of one character.\<close>

fun Split :: "char \<Rightarrow> string \<Rightarrow> string list" where
  "Split c [] = [[]]"
| "Split c (x # xs) =
     (if x = c then [] # Split c xs
      else case Split c xs of [] \<Rightarrow> [[x]] | y # ys \<Rightarrow> (x # y) # ys)"

fun Join :: "char \<Rightarrow> string list \<Rightarrow> string" where
  "Join c [] = []"
| "Join c [s] = s"
| "Join c (s # t # ss) = s @ c # Join c (t # ss)"

lemma Split_nonempty [simp]: "Split c s \<noteq> []"
  by (induction s) (auto split: list.splits)

lemma Split_plain: "c \<notin> set s \<Longrightarrow> Split c s = [s]"
  by (induction s) auto

lemma Split_append: "c \<notin> set s \<Longrightarrow> Split c (s @ c # t) = s # Split c t"
  by (induction s) auto

lemma Split_Join:
  assumes "\<And>s. s \<in> set ss \<Longrightarrow> c \<notin> set s" and "ss \<noteq> []"
  shows "Split c (Join c ss) = ss"
  using assms by (induction c ss rule: Join.induct) (auto simp: Split_plain Split_append)

lemma Join_Split: "Join c (Split c s) = s"
proof (induction s)
  case (Cons x xs)
  obtain y ys where "Split c xs = y # ys" by (cases "Split c xs") auto
  with Cons show ?case by (cases ys) auto
qed simp

definition digit_char :: "nat \<Rightarrow> char" where
  "digit_char d = char_of (48 + d)"

definition char_digit :: "char \<Rightarrow> nat option" where
  "char_digit c =
     (let n = (of_char c :: nat) in if 48 \<le> n \<and> n \<le> 57 then Some (n - 48) else None)"

fun FormatUint :: "nat \<Rightarrow> string" where
  "FormatUint n = (if n < 10 then [digit_char n] else FormatUint (n div 10) @ [digit_char (n mod 10)])"

declare FormatUint.simps [simp del]

fun digits_value :: "nat \<Rightarrow> string \<Rightarrow> nat option" where
  "digits_value a [] = Some a"
| "digits_value a (c # cs) =
     (case char_digit c of None \<Rightarrow> None | Some d \<Rightarrow> digits_value (10 * a + d) cs)"

text \<open>\<open>strconv.ParseUint(s, 10, bits)\<close>: a syntax error or a value out of range is \<open>None\<close>.\<close>

definition ParseUint :: "nat \<Rightarrow> string \<Rightarrow> nat option" where
  "ParseUint bits s =
     (if s = [] then None
      else case digits_value 0 s of
             None \<Rightarrow> None
           | Some v \<Rightarrow> if v < 2 ^ bits then Some v else None)"

lemma char_digit_char [simp]: "d < 10 \<Longrightarrow> char_digit (digit_char d) = Some d"
  by (simp add: char_digit_def digit_char_def)

lemma digit_char_not_colon [simp]: "d < 10 \<Longrightarrow> digit_char d \<noteq> CHR '':''"
proof -
  have "\<forall>d \<in> set [0..<10]. digit_char d \<noteq> CHR '':''" by code_simp
  then show "d < 10 \<Longrightarrow> digit_char d \<noteq> CHR '':''" by simp
qed

lemma digits_value_append:
  "digits_value a (s @ t) = (case digits_value a s of None \<Rightarrow> None | Some v \<Rightarrow> digits_value v t)"
  by (induction a s rule: digits_value.induct) (auto split: option.splits)

lemma digits_value_FormatUint: "digits_value 0 (FormatUint n) = Some n"
proof (induction n rule: FormatUint.induct)
  case (1 n)
  then show ?case
    by (subst FormatUint.simps) (auto simp: digits_value_append)
qed

lemma FormatUint_nonempty [simp]: "FormatUint n \<noteq> []"
  by (subst FormatUint.simps) simp

lemma ParseUint_FormatUint: "n < 2 ^ bits \<Longrightarrow> ParseUint bits (FormatUint n) = Some n"
  by (simp add: ParseUint_def digits_value_FormatUint)

lemma FormatUint_no_colon [simp]: "CHR '':'' \<notin> set (FormatUint n)"
proof (induction n rule: FormatUint.induct)
  case (1 n)
  then show ?case
    using digit_char_not_colon [of n] digit_char_not_colon [of "n mod 10"]
    by (subst FormatUint.simps) (auto simp del: digit_char_not_colon)
qed

subsection \<open>sort.Sort\<close>

text \<open>
  \<open>sort.Sort\<close> with an order given by a key. Go promises a sorted permutation and leaves the order
  of elements with equal keys open; the model takes the stable permutation.
\<close>

definition Sort :: "('a \<Rightarrow> 'k::linorder) \<Rightarrow> 'a list \<Rightarrow> 'a list" where
  "Sort key xs = sort_key key xs"

lemma Sort_Nil [simp]: "Sort key [] = []"
  by (simp add: Sort_def)

lemma mset_Sort [simp]: "mset (Sort key xs) = mset xs"
  by (simp add: Sort_def)

lemma set_Sort [simp]: "set (Sort key xs) = set xs"
  by (simp add: Sort_def)

lemma length_Sort [simp]: "length (Sort key xs) = length xs"
  by (simp add: Sort_def)

lemma sorted_Sort [simp]: "sorted (map key (Sort key xs))"
  by (simp add: Sort_def)

lemma distinct_Sort [simp]: "distinct (map f (Sort key xs)) = distinct (map f xs)"
  by (rule mset_eq_imp_distinct_iff) simp

lemma Sort_restore:
  assumes "mset ys = mset xs" and "sorted (map key xs)" and "distinct (map key xs)"
  shows "Sort key ys = xs"
  unfolding Sort_def
  using assms mset_eq_setD [OF assms(1)]
  by (intro sort_key_inj_key_eq) (auto simp: distinct_map)

end
