(* ===== verification/NomsHash.thy ===== *)
theory NomsHash
  imports GoStd
begin

text \<open>
  Package \<open>go/hash\<close>: the 20-byte hash, its base32 text, parsing, the order, hash sets and hash
  slices. A Go array \<open>[20]byte\<close> always has 20 elements, so the hash is a type of its own.
\<close>

subsection \<open>The hash type\<close>

abbreviation (input) ByteLen :: nat where
  "ByteLen \<equiv> 20"

abbreviation (input) StringLen :: nat where
  "StringLen \<equiv> 32"

typedef hash = "{bs :: bytes. length bs = ByteLen}"
  morphisms hash_bytes Abs_hash
  by (intro exI [of _ "replicate 20 0"]) simp

text \<open>\<open>h := Hash{}; copy(h[:], data)\<close>: at most 20 bytes are copied, the others stay zero.\<close>

definition copy_hash :: "bytes \<Rightarrow> hash" where
  "copy_hash bs = Abs_hash (take ByteLen (bs @ replicate ByteLen 0))"

definition emptyHash :: hash where
  "emptyHash = copy_hash []"

definition IsEmpty :: "hash \<Rightarrow> bool" where
  "IsEmpty h \<longleftrightarrow> h = emptyHash"

definition hash_String :: "hash \<Rightarrow> string" where
  "hash_String h = EncodeToString (hash_bytes h)"

definition hash_Of :: "bytes \<Rightarrow> hash" where
  "hash_Of data = copy_hash (take ByteLen (Sum512 data))"

definition hash_New :: "bytes \<Rightarrow> hash res" where
  "hash_New data = chk (length data = ByteLen) (Inr (copy_hash data))"

text \<open>The regular expression \<open>^([0-9a-v]{32})$\<close>.\<close>

definition hash_pattern :: "string \<Rightarrow> bool" where
  "hash_pattern s \<longleftrightarrow> length s = StringLen \<and> list_all (\<lambda>c. b32_val c \<noteq> None) s"

definition MaybeParse :: "string \<Rightarrow> (hash \<times> bool) res" where
  "MaybeParse s =
     (if \<not> hash_pattern s then Inr (emptyHash, False)
      else rbind (hash_New (DecodeString s)) (\<lambda>h. Inr (h, True)))"

definition hash_Parse :: "string \<Rightarrow> hash res" where
  "hash_Parse s =
     rbind (MaybeParse s) (\<lambda>(r, ok).
       if ok then Inr r else Inl (Panic ''Cound not parse Hash''))"

definition Less :: "hash \<Rightarrow> hash \<Rightarrow> bool" where
  "Less h other \<longleftrightarrow> bytes_Compare (hash_bytes h) (hash_bytes other) < 0"

definition Greater :: "hash \<Rightarrow> hash \<Rightarrow> bool" where
  "Greater h other \<longleftrightarrow> bytes_Compare (hash_bytes h) (hash_bytes other) > 0"

subsection \<open>Hash sets and hash slices\<close>

text \<open>\<open>type HashSet map[Hash]struct{}\<close>: only the keys carry information.\<close>

type_synonym HashSet = "hash \<Rightarrow> unit option"

definition HashSet_Insert :: "HashSet \<Rightarrow> hash \<Rightarrow> HashSet" where
  "HashSet_Insert hs h = hs(h \<mapsto> ())"

definition HashSet_Has :: "HashSet \<Rightarrow> hash \<Rightarrow> bool" where
  "HashSet_Has hs h \<longleftrightarrow> hs h \<noteq> None"

definition HashSet_Remove :: "HashSet \<Rightarrow> hash \<Rightarrow> HashSet" where
  "HashSet_Remove hs h = hs(h := None)"

type_synonym HashSlice = "hash list"

definition HashSlice_Len :: "HashSlice \<Rightarrow> nat" where
  "HashSlice_Len rs = length rs"

definition HashSlice_Less :: "HashSlice \<Rightarrow> nat \<Rightarrow> nat \<Rightarrow> bool res" where
  "HashSlice_Less rs i j =
     rbind (nth_res rs i) (\<lambda>a. rbind (nth_res rs j) (\<lambda>b. Inr (Less a b)))"

definition HashSlice_Swap :: "HashSlice \<Rightarrow> nat \<Rightarrow> nat \<Rightarrow> HashSlice res" where
  "HashSlice_Swap rs i j =
     rbind (nth_res rs j) (\<lambda>b. rbind (nth_res rs i) (\<lambda>a. Inr (rs[i := b, j := a])))"

fun HashSlice_Equals :: "HashSlice \<Rightarrow> HashSlice \<Rightarrow> bool" where
  "HashSlice_Equals rs other =
     (if length rs \<noteq> length other then False
      else list_all (\<lambda>i. rs ! i = other ! i) [0..<length rs])"

subsection \<open>The bytes of a hash\<close>

lemma length_hash_bytes [simp]: "length (hash_bytes h) = 20"
  using hash_bytes [of h] by simp

lemma hash_abstype [code abstype]: "Abs_hash (hash_bytes h) = h"
  by (rule hash_bytes_inverse)

lemma hash_bytes_copy_hash [code abstract]:
  "hash_bytes (copy_hash bs) = take ByteLen (bs @ replicate ByteLen 0)"
  by (simp add: copy_hash_def Abs_hash_inverse)

lemma hash_bytes_copy [simp]: "length bs = 20 \<Longrightarrow> hash_bytes (copy_hash bs) = bs"
  by (simp add: hash_bytes_copy_hash)

lemma copy_hash_bytes [simp]: "copy_hash (hash_bytes h) = h"
  by (metis hash_bytes_copy hash_bytes_inject length_hash_bytes)

lemma hash_bytes_inject_iff [simp]: "hash_bytes h = hash_bytes g \<longleftrightarrow> h = g"
  by (rule hash_bytes_inject)

lemma copy_hash_eq_iff: "length a = 20 \<Longrightarrow> length b = 20 \<Longrightarrow> copy_hash a = copy_hash b \<longleftrightarrow> a = b"
  by (metis hash_bytes_copy)

lemma be_decode_hash_inject: "be_decode (hash_bytes h) = be_decode (hash_bytes g) \<longleftrightarrow> h = g"
  using be_decode_inject [of "hash_bytes h" "hash_bytes g"] by auto

text \<open>The order of hashes is the numerical order of their bytes, a linear order.\<close>

lemma Less_be_decode: "Less h g \<longleftrightarrow> be_decode (hash_bytes h) < be_decode (hash_bytes g)"
  by (simp add: Less_def bytes_Compare_less)

lemma Greater_be_decode: "Greater h g \<longleftrightarrow> be_decode (hash_bytes g) < be_decode (hash_bytes h)"
  by (simp add: Greater_def bytes_Compare_greater)

instantiation hash :: linorder
begin

definition less_eq_hash :: "hash \<Rightarrow> hash \<Rightarrow> bool" where
  "less_eq_hash h g \<longleftrightarrow> be_decode (hash_bytes h) \<le> be_decode (hash_bytes g)"

definition less_hash :: "hash \<Rightarrow> hash \<Rightarrow> bool" where
  "less_hash h g \<longleftrightarrow> be_decode (hash_bytes h) < be_decode (hash_bytes g)"

instance
  by standard (auto simp: less_eq_hash_def less_hash_def be_decode_hash_inject)

end

instantiation hash :: equal
begin

definition equal_hash :: "hash \<Rightarrow> hash \<Rightarrow> bool" where
  "equal_hash h g \<longleftrightarrow> hash_bytes h = hash_bytes g"

instance
  by standard (simp add: equal_hash_def)

end

lemma Less_iff [simp]: "Less h g \<longleftrightarrow> h < g"
  by (simp add: Less_be_decode less_hash_def)

lemma Greater_iff [simp]: "Greater h g \<longleftrightarrow> g < h"
  by (simp add: Greater_be_decode less_hash_def)

subsection \<open>Text of a hash\<close>

lemma length_hash_String [simp]: "length (hash_String h) = 32"
  using length_EncodeToString [of "hash_bytes h"] by (simp add: hash_String_def)

lemma set_hash_String: "c \<in> set (hash_String h) \<Longrightarrow> \<exists>d < 32. c = b32_char d"
  using set_EncodeToString [of "hash_bytes h" c] by (simp add: hash_String_def)

lemma hash_String_no_colon [simp]: "CHR '':'' \<notin> set (hash_String h)"
  using set_hash_String [of "CHR '':''" h] b32_char_plain(4) by metis

lemma hash_pattern_String [simp]: "hash_pattern (hash_String h)"
  using set_hash_String [of _ h] by (fastforce simp: hash_pattern_def list_all_iff)

lemma DecodeString_hash_String [simp]: "DecodeString (hash_String h) = hash_bytes h"
  by (simp add: hash_String_def DecodeString_EncodeToString)

lemma MaybeParse_String [simp]: "MaybeParse (hash_String h) = Inr (h, True)"
  by (simp add: MaybeParse_def hash_New_def)

lemma hash_Parse_String [simp]: "hash_Parse (hash_String h) = Inr h"
  by (simp add: hash_Parse_def)

lemma DecodeString_pattern:
  assumes "hash_pattern s"
  shows "length (DecodeString s) = 20 \<and> EncodeToString (DecodeString s) = s"
proof -
  have all: "b32_val c \<noteq> None" if "c \<in> set s" for c
    using assms that by (auto simp: hash_pattern_def list_all_iff)
  have "c \<noteq> CHR 0x0A \<and> c \<noteq> CHR 0x0D" if "c \<in> set s" for c
    using all [OF that] by (auto simp: b32_val_def)
  then have "filter (\<lambda>c. c \<noteq> CHR 0x0A \<and> c \<noteq> CHR 0x0D) s = s"
    by (intro filter_True) blast
  moreover have "length s = 32"
    using assms by (simp add: hash_pattern_def)
  ultimately show ?thesis
    using EncodeToString_decode [of s] all by (simp add: DecodeString_def)
qed

text \<open>
  C1. Parsing a hash never panics, accepts exactly the strings of 32 characters 0-9a-v, and inverts
  printing: the hash it returns prints as the string that was parsed, and every printed hash parses
  to itself.
\<close>

theorem MaybeParse_inverts_String:
  "MaybeParse s = (if hash_pattern s then Inr (copy_hash (DecodeString s), True) else Inr (emptyHash, False))
   \<and> (hash_pattern s \<longleftrightarrow> (\<exists>h. s = hash_String h \<and> MaybeParse s = Inr (h, True)))"
proof -
  have "hash_String (copy_hash (DecodeString s)) = s" if "hash_pattern s"
    using DecodeString_pattern [OF that] by (simp add: hash_String_def)
  moreover have "MaybeParse s = Inr (copy_hash (DecodeString s), True)" if "hash_pattern s"
    using DecodeString_pattern [OF that] that by (simp add: MaybeParse_def hash_New_def)
  ultimately show ?thesis
    by (auto simp: MaybeParse_def)
qed

subsection \<open>Textual order\<close>

fun text_less :: "string \<Rightarrow> string \<Rightarrow> bool" where
  "text_less s [] = False"
| "text_less [] (d # t) = True"
| "text_less (c # s) (d # t) =
     ((of_char c :: nat) < of_char d \<or> c = d \<and> text_less s t)"

lemma b32_value_Cons: "b32_value (d # ds) = d * 32 ^ length ds + b32_value ds"
  by (induction ds rule: rev_induct) (simp_all add: b32_value_def algebra_simps)

lemma b32_value_append: "b32_value (ds @ es) = b32_value ds * 32 ^ length es + b32_value es"
  by (induction ds) (simp_all add: b32_value_Cons power_add algebra_simps, simp add: b32_value_def)

lemma digit_place_less:
  fixes x y n r s :: nat
  assumes "x < y" and "r < n"
  shows "x * n + r < y * n + s"
proof -
  have "x * n + r < Suc x * n" using assms by simp
  also have "\<dots> \<le> y * n" using assms by (intro mult_le_mono1) simp
  finally show ?thesis by simp
qed

lemma b32_char_less:
  assumes "d < 32" and "e < 32"
  shows "(of_char (b32_char d) :: nat) < of_char (b32_char e) \<longleftrightarrow> d < e"
  unfolding of_char_b32_char [OF assms(1)] of_char_b32_char [OF assms(2)] by auto

lemma b32_char_inject: "d < 32 \<Longrightarrow> e < 32 \<Longrightarrow> b32_char d = b32_char e \<longleftrightarrow> d = e"
  by (metis b32_char_val option.inject)

lemma text_less_b32:
  assumes "length ds = length es" and "\<forall>d \<in> set ds. d < 32" and "\<forall>d \<in> set es. d < 32"
  shows "text_less (map b32_char ds) (map b32_char es) \<longleftrightarrow> b32_value ds < b32_value es"
  using assms
proof (induction ds es rule: list_induct2)
  case (Cons d ds e es)
  have small: "b32_value ds < 32 ^ length es" "b32_value es < 32 ^ length es"
    using b32_value_bound [of ds] b32_value_bound [of es] Cons by auto
  have chars: "(of_char (b32_char d) :: nat) < of_char (b32_char e) \<longleftrightarrow> d < e"
    "b32_char d = b32_char e \<longleftrightarrow> d = e"
    using Cons.prems by (simp_all add: b32_char_less b32_char_inject)
  show ?case
  proof (cases d e rule: linorder_cases)
    case less
    then show ?thesis
      using chars digit_place_less [OF less small(1), of "b32_value es"] Cons.hyps
      by (simp add: b32_value_Cons)
  next
    case equal
    then show ?thesis
      using Cons chars by (simp add: b32_value_Cons)
  next
    case greater
    then show ?thesis
      using chars digit_place_less [OF greater small(2), of "b32_value ds"] Cons.hyps
      by (simp add: b32_value_Cons)
  qed
qed (simp add: b32_value_def)

lemma EncodeToString_digits:
  assumes "5 dvd length bs"
  shows "\<exists>ds. EncodeToString bs = map b32_char ds \<and> (\<forall>d \<in> set ds. d < 32)
           \<and> b32_value ds = be_decode bs \<and> 5 * length ds = 8 * length bs"
  using assms
proof (induction bs rule: length_multiple_induct)
  case (block q ys)
  then obtain ds where ds: "EncodeToString ys = map b32_char ds" "\<forall>d \<in> set ds. d < 32"
    "b32_value ds = be_decode ys" "5 * length ds = 8 * length ys" by auto
  obtain k where k: "length ys = 5 * k"
    using block(2) by (auto elim: dvdE)
  with ds(4) have "length ds = 8 * k" by simp
  then have "(32::nat) ^ length ds = 256 ^ length ys"
    by (simp add: k power_mult)
  then have "b32_value (b32_digits 8 (be_decode q) @ ds) = be_decode (q @ ys)"
    using ds(3) be_decode_5 [OF block(1)] by (simp add: b32_value_append be_decode_append)
  then show ?case
    using ds block(1) b32_digits_less
    by (intro exI [of _ "b32_digits 8 (be_decode q) @ ds"]) (auto simp: EncodeToString_5)
qed (simp_all add: b32_value_def)

text \<open>
  C2. Sorted hashes are sorted textually: one hash is less than another exactly when its base32
  text comes first in the order of the character codes.
\<close>

theorem Less_textual: "Less h g \<longleftrightarrow> text_less (hash_String h) (hash_String g)"
proof -
  obtain ds where ds: "hash_String h = map b32_char ds" "\<forall>d \<in> set ds. d < 32"
    "b32_value ds = be_decode (hash_bytes h)" "length ds = 32"
    using EncodeToString_digits [of "hash_bytes h"] by (auto simp: hash_String_def)
  obtain es where es: "hash_String g = map b32_char es" "\<forall>d \<in> set es. d < 32"
    "b32_value es = be_decode (hash_bytes g)" "length es = 32"
    using EncodeToString_digits [of "hash_bytes g"] by (auto simp: hash_String_def)
  show ?thesis
    using ds es text_less_b32 [of ds es] by (simp add: Less_be_decode del: Less_iff)
qed

lemma HashSlice_Equals_eq: "HashSlice_Equals rs other \<longleftrightarrow> rs = other"
  by (auto simp: list_all_iff intro: nth_equalityI)

lemma HashSet_Has_Insert [simp]: "HashSet_Has (HashSet_Insert hs h) g \<longleftrightarrow> g = h \<or> HashSet_Has hs g"
  by (simp add: HashSet_Has_def HashSet_Insert_def)

lemma HashSet_Has_Remove [simp]: "HashSet_Has (HashSet_Remove hs h) g \<longleftrightarrow> g \<noteq> h \<and> HashSet_Has hs g"
  by (simp add: HashSet_Has_def HashSet_Remove_def)

end
