(* ===== verification/GoVarint.thy ===== *)
theory GoVarint
  imports Prelude
begin

text \<open>
  The variable-length integers of Go's \<open>encoding/binary\<close>, which the codec of values and the compressor use.
\<close>

unbundle bit_operations_syntax

text \<open>
  \<open>binary.PutUvarint\<close> stores seven bits per byte, least significant first; the top bit of a byte
  says that more follow. \<open>binary.Uvarint\<close> returns the number of bytes it read, 0 when the buffer
  ends too early, and a negative count when the value does not fit into 64 bits.
\<close>

lemma unat_drop7: "unat (drop_bit 7 (x :: uint64)) = unat x div 2 ^ 7"
  by (subst unat_drop_bit_eq) (rule drop_bit_eq_div)

function PutUvarint :: "uint64 \<Rightarrow> bytes" where
  "PutUvarint x = (if x \<ge> 0x80 then (ucast x OR 0x80) # PutUvarint (drop_bit 7 x) else [ucast x])"
  by auto
termination
proof (relation "measure unat")
  fix x :: uint64
  assume "0x80 \<le> x"
  then have "unat x div 2 ^ 7 < unat x" by (simp add: word_le_nat_alt)
  then show "(drop_bit 7 x, x) \<in> measure unat" by (simp only: in_measure unat_drop7)
qed simp

definition PutVarint :: "uint64 \<Rightarrow> bytes" where
  "PutVarint x =
     (let ux = push_bit 1 x
      in PutUvarint (if x <s 0 then NOT ux else ux))"

fun Uvarint_loop :: "nat \<Rightarrow> uint64 \<Rightarrow> nat \<Rightarrow> bytes \<Rightarrow> uint64 \<times> int" where
  "Uvarint_loop i x s [] = (0, 0)"
| "Uvarint_loop i x s (b # buf) =
     (if b < 0x80
      then if i > 9 \<or> i = 9 \<and> b > 1 then (0, - (int i + 1)) else (x OR push_bit s (ucast b), int i + 1)
      else Uvarint_loop (i + 1) (x OR push_bit s (ucast (b AND 0x7f))) (s + 7) buf)"

definition Uvarint :: "bytes \<Rightarrow> uint64 \<times> int" where
  "Uvarint buf = Uvarint_loop 0 0 0 buf"

definition Varint :: "bytes \<Rightarrow> uint64 \<times> int" where
  "Varint buf =
     (case Uvarint buf of (ux, n) \<Rightarrow>
        let x = drop_bit 1 ux in (if ux AND 1 \<noteq> 0 then NOT x else x, n))"

declare PutUvarint.simps [simp del]

lemma PutUvarint_low: "(ucast ((ucast x OR 0x80 :: byte) AND 0x7f) :: uint64) = take_bit 7 x"
proof -
  have "(mask 7 :: byte) = 0x7f" by (simp add: mask_eq_exp_minus_1)
  then have m: "bit (0x7f :: byte) n \<longleftrightarrow> n < 7" for n
    using bit_mask_iff [of 7 n, where ?'a = byte] by (simp only: possible_bit_word) auto
  have "(2 ^ 7 :: byte) = 0x80" by simp
  then have b: "bit (0x80 :: byte) n \<longleftrightarrow> n = 7" for n
    using bit_exp_iff [of 7 n, where ?'a = byte] by (simp only: possible_bit_word) auto
  show ?thesis
    by (intro bit_word_eqI) (simp only: bit_unsigned_iff bit_and_iff bit_or_iff bit_take_bit_iff m b possible_bit_word, auto)
qed

lemma ucast_byte_small: "x < 0x80 \<Longrightarrow> unat (ucast x :: byte) = unat (x :: uint64)"
  by (simp add: unsigned_ucast_eq take_bit_eq_mod word_less_nat_alt)

lemma Uvarint_loop_PutUvarint:
  assumes "i \<le> 9" "unat x < 2 ^ (64 - 7 * i)"
  shows "Uvarint_loop i acc (7 * i) (PutUvarint x @ rest)
      = (acc OR push_bit (7 * i) x, int (i + length (PutUvarint x)))"
  using assms
proof (induction x arbitrary: i acc rule: PutUvarint.induct)
  case (1 x)
  show ?case
  proof (cases "x \<ge> 0x80")
    case True
    have big: "\<not> (ucast x OR 0x80 :: byte) < 0x80" unfolding not_less by (metis le_word_or2 or.commute)
    have "2 ^ 7 \<le> unat x" using True by (simp add: word_le_nat_alt)
    then have "(2::nat) ^ 7 < 2 ^ (64 - 7 * i)" using "1.prems"(2) by (rule le_less_trans)
    then have "7 < 64 - 7 * i" by (simp only: power_strict_increasing_iff)
    then have i: "i + 1 \<le> 9" "64 - 7 * i = 64 - 7 * (i + 1) + 7" by simp_all
    have "unat x div 2 ^ 7 < 2 ^ (64 - 7 * (i + 1))"
      using "1.prems"(2) unfolding i(2) power_add by (simp add: less_mult_imp_div_less)
    then have "unat (drop_bit 7 x) < 2 ^ (64 - 7 * (i + 1))" by (simp only: unat_drop7)
    note IH = "1.IH" [OF True i(1) this, of "acc OR push_bit (7 * i) (take_bit 7 x)"]
    have "acc OR push_bit (7 * i) (take_bit 7 x) OR push_bit (7 * (i + 1)) (drop_bit 7 x) = acc OR push_bit (7 * i) x"
      by (rule bit_word_eqI) (auto simp: bit_simps, metis diff_diff_left le_add_diff_inverse linorder_not_less add.commute)
    then show ?thesis
      using IH big by (simp add: PutUvarint.simps [of x] True PutUvarint_low algebra_simps or.assoc)
  next
    case False
    then have small: "x < 0x80" by simp
    note u = ucast_byte_small [OF this]
    have b: "(ucast x :: byte) < 0x80" using small by (simp add: word_less_nat_alt u)
    have "\<not> (ucast x :: byte) > 1" if "i = 9"
      using "1.prems"(2) that by (simp add: word_less_nat_alt u)
    moreover have "ucast (ucast x :: byte) = x" by (rule unsigned_word_eqI [where ?'a = nat])
        (use small in \<open>simp add: unsigned_ucast_eq take_bit_eq_mod unat_mod_distrib word_less_nat_alt\<close>)
    ultimately show ?thesis
      using b "1.prems"(1) False by (simp add: PutUvarint.simps [of x])
  qed
qed

lemma Uvarint_PutUvarint: "Uvarint (PutUvarint x @ rest) = (x, int (length (PutUvarint x)))"
  using Uvarint_loop_PutUvarint [of 0 x 0 rest] unsigned_less [of x, where ?'a = nat] by (simp add: Uvarint_def)

lemma length_PutUvarint_aux: "unat x < 2 ^ (7 * n) \<Longrightarrow> 0 < n \<Longrightarrow> length (PutUvarint x) \<le> n"
proof (induction x arbitrary: n rule: PutUvarint.induct)
  case (1 x)
  show ?case
  proof (cases "x \<ge> 0x80")
    case True
    obtain m where n: "n = Suc m" using "1.prems"(2) by (cases n) auto
    have "m \<noteq> 0" using True "1.prems"(1) n by (cases m) (auto simp: word_le_nat_alt)
    moreover have "unat x div 2 ^ 7 < 2 ^ (7 * m)"
      using "1.prems"(1) n by (simp add: power_add less_mult_imp_div_less mult.commute)
    then have "unat (drop_bit 7 x) < 2 ^ (7 * m)" by (simp only: unat_drop7)
    ultimately show ?thesis using "1.IH" [OF True, of m] True n by (simp add: PutUvarint.simps [of x])
  next
    case False
    then show ?thesis using "1.prems" by (simp add: PutUvarint.simps [of x])
  qed
qed

text \<open>\<open>binary.MaxVarintLen64\<close> bytes are enough.\<close>

lemma length_PutUvarint: "length (PutUvarint x) \<le> 10"
  using length_PutUvarint_aux [of x 10] unsigned_less [of x, where ?'a = nat] by simp

lemma length_PutVarint: "length (PutVarint x) \<le> 10"
  by (simp add: PutVarint_def Let_def length_PutUvarint)

lemma zigzag:
  fixes x :: uint64
  shows "bit x 63 \<Longrightarrow> NOT (drop_bit 1 (NOT (push_bit 1 x))) = x" "bit x 63 \<Longrightarrow> NOT (push_bit 1 x) AND 1 = 1"
    and "\<not> bit x 63 \<Longrightarrow> drop_bit 1 (push_bit 1 x) = x" "push_bit 1 x AND 1 = 0"
proof -
  define k :: nat where "k = 1"
  have last: "n = 63" if "n < 64" "\<not> k + n < 64" for n using that by (simp add: k_def)
  have "NOT (drop_bit k (NOT (push_bit k x))) = x" if "bit x 63"
    using that last by (intro bit_word_eqI) (auto simp: bit_simps)
  then show "bit x 63 \<Longrightarrow> NOT (drop_bit 1 (NOT (push_bit 1 x))) = x" unfolding k_def .
  have "drop_bit k (push_bit k x) = x" if "\<not> bit x 63"
    using that last by (intro bit_word_eqI) (auto simp: bit_simps)
  then show "\<not> bit x 63 \<Longrightarrow> drop_bit 1 (push_bit 1 x) = x" unfolding k_def .
  have 0: "\<not> bit (push_bit k x) 0" by (simp only: bit_push_bit_iff k_def) simp
  then have "push_bit k x AND 1 = 0" by (simp add: and_one_eq bit_0 mod_2_eq_odd)
  then show "push_bit 1 x AND 1 = 0" by (simp only: k_def)
  have "NOT (push_bit k x) AND 1 = 1" using 0 by (simp add: and_one_eq bit_0 mod_2_eq_odd)
  then show "bit x 63 \<Longrightarrow> NOT (push_bit 1 x) AND 1 = 1" by (simp only: k_def)
qed

lemma Varint_PutVarint: "Varint (PutVarint x @ rest) = (x, int (length (PutVarint x)))"
proof (cases "x <s 0")
  case True
  then have "bit x 63" using bit_last_iff [of x] by (simp add: word_sless_alt)
  note z = zigzag(1,2) [OF this]
  show ?thesis using True by (simp only: Varint_def PutVarint_def Uvarint_PutUvarint Let_def z prod.case if_True if_False simp_thms one_neq_zero)
next
  case False
  then have "\<not> bit x 63" using bit_last_iff [of x] by (simp add: word_sless_alt)
  note z = zigzag(3) [OF this] zigzag(4) [of x]
  show ?thesis using False by (simp only: Varint_def PutVarint_def Uvarint_PutUvarint Let_def z prod.case if_True if_False simp_thms one_neq_zero)
qed

end
