(* ===== verification/Snappy.thy ===== *)
theory Snappy
  imports GoVarint
begin

text \<open>
  The vendored block compressor \<open>github.com/golang/snappy\<close>: \<open>Encode\<close> and \<open>Decode\<close> with the portable versions
  of their loops (\<open>encode_other.go\<close>, \<open>decode_other.go\<close>), which the assembly ones are documented to equal. The
  lemmas show that decoding inverts encoding and how long an encoding can be.

  The functions that write to \<open>dst\<close> return the bytes they write, since they write them one after the other;
  \<open>Encode\<close> has the check that they fit. Reads of \<open>src\<close> are checked. The loops have the length of the input as
  their fuel. The streaming reader and writer of the package are not modelled.
\<close>

subsection \<open>Encoding (encode.go, encode_other.go)\<close>

definition inputMargin :: nat where
  "inputMargin = 16 - 1"

definition minNonLiteralBlockSize :: nat where
  "minNonLiteralBlockSize = 1 + 1 + inputMargin"

definition maxBlockSize :: nat where
  "maxBlockSize = 65536"

definition MaxEncodedLen :: "nat \<Rightarrow> int" where
  "MaxEncodedLen srcLen =
     (if srcLen > 0xffffffff then -1
      else let n = 32 + srcLen + srcLen div 6 in if n > 0xffffffff then -1 else int n)"

text \<open>Little-endian integers.\<close>

fun le_word :: "bytes \<Rightarrow> 'a::len word" where
  "le_word [] = 0"
| "le_word (b # bs) = ucast b OR push_bit 8 (le_word bs)"

definition load32 :: "bytes \<Rightarrow> nat \<Rightarrow> uint32 res" where
  "load32 b i = rbind (slice_res b i (i + 4)) (\<lambda>b. Inr (le_word b))"

definition load64 :: "bytes \<Rightarrow> nat \<Rightarrow> uint64 res" where
  "load64 b i = rbind (slice_res b i (i + 8)) (\<lambda>b. Inr (le_word b))"

definition emitLiteral :: "bytes \<Rightarrow> bytes" where
  "emitLiteral lit =
     (let n = of_nat (length lit) - 1 :: uint64
      in (if n < 60 then [push_bit 2 (ucast n)]
          else if n < 256 then [push_bit 2 60, ucast n]
          else [push_bit 2 61, ucast n, ucast (drop_bit 8 n)]) @ lit)"

text \<open>The three bytes of a copy of up to 64 bytes.\<close>

definition copy2 :: "nat \<Rightarrow> nat \<Rightarrow> bytes" where
  "copy2 offset len = [push_bit 2 (of_nat (len - 1)) OR 2, of_nat offset, of_nat (drop_bit 8 offset)]"

fun emitCopy :: "nat \<Rightarrow> nat \<Rightarrow> bytes" where
  "emitCopy offset len =
     (if len \<ge> 68 then copy2 offset 64 @ emitCopy offset (len - 64)
      else if len > 64 then copy2 offset 60 @ emitCopy offset (len - 60)
      else if len \<ge> 12 \<or> offset \<ge> 2048 then copy2 offset len
      else [push_bit 5 (of_nat (drop_bit 8 offset)) OR push_bit 2 (of_nat (len - 4)) OR 1, of_nat offset])"

function extendMatch :: "bytes \<Rightarrow> nat \<Rightarrow> nat \<Rightarrow> nat res" where
  "extendMatch src i j =
     (if j < length src
      then rbind (nth_res src i) (\<lambda>a. rbind (nth_res src j) (\<lambda>b. if a = b then extendMatch src (i + 1) (j + 1) else Inr j))
      else Inr j)"
  by auto
termination by (relation "measure (\<lambda>(src, i, j). length src - j)") auto

definition snappy_hash :: "uint32 \<Rightarrow> nat \<Rightarrow> uint32" where
  "snappy_hash u shift = drop_bit shift (u * 0x1e35a7bd)"

definition tableMask :: uint32 where
  "tableMask = 2 ^ 14 - 1"

text \<open>The array of \<open>1 << 14\<close> positions, indexed by masked hashes.\<close>

type_synonym hashTable = "uint32 \<Rightarrow> 16 word"

text \<open>The loop that doubles \<open>tableSize\<close> from 256 and decrements \<open>shift\<close> from 24.\<close>

definition table_shift :: "nat \<Rightarrow> nat" where
  "table_shift len = 24 - length (takeWhile (\<lambda>tableSize. tableSize < len) (map (\<lambda>i. 2 ^ i) [8..<14]))"

text \<open>The inner loop that looks for a match; \<open>None\<close> is the jump to \<open>emitRemainder\<close>.\<close>

primrec search_match ::
    "nat \<Rightarrow> bytes \<Rightarrow> nat \<Rightarrow> nat \<Rightarrow> nat \<Rightarrow> nat \<Rightarrow> uint32 \<Rightarrow> hashTable \<Rightarrow> (nat \<times> nat \<times> hashTable) option res" where
  "search_match 0 = (\<lambda>src shift sLimit nextS skip nextHash table. Inl Diverges)"
| "search_match (Suc k) = (\<lambda>src shift sLimit nextS skip nextHash table.
     let s = nextS; bytesBetweenHashLookups = skip div 32; nextS = s + bytesBetweenHashLookups; skip = skip + bytesBetweenHashLookups
     in if nextS > sLimit then Inr None
        else let candidate = unat (table (nextHash AND tableMask)); table = table(nextHash AND tableMask := of_nat s)
             in rbind (load32 src nextS) (\<lambda>u. rbind (load32 src s) (\<lambda>a. rbind (load32 src candidate) (\<lambda>b.
                  if a = b then Inr (Some (s, candidate, table))
                  else search_match k src shift sLimit nextS skip (snappy_hash u shift) table))))"

text \<open>The inner loop that emits copies: it ends with the jump to \<open>emitRemainder\<close> or goes on with the main loop.\<close>

datatype after_copies = Remainder nat bytes | Again nat nat uint32 hashTable bytes

primrec emit_copies ::
    "nat \<Rightarrow> bytes \<Rightarrow> nat \<Rightarrow> nat \<Rightarrow> nat \<Rightarrow> nat \<Rightarrow> hashTable \<Rightarrow> bytes \<Rightarrow> after_copies res" where
  "emit_copies 0 = (\<lambda>src shift sLimit base candidate table out. Inl Diverges)"
| "emit_copies (Suc k) = (\<lambda>src shift sLimit base candidate table out.
     rbind (extendMatch src (candidate + 4) (base + 4)) (\<lambda>s.
     let out = out @ emitCopy (base - candidate) (s - base)
     in if s \<ge> sLimit then Inr (Remainder s out)
        else rbind (load64 src (s - 1)) (\<lambda>x.
             let prevHash = snappy_hash (ucast x) shift;
                 table = table(prevHash AND tableMask := of_nat (s - 1));
                 currHash = snappy_hash (ucast (drop_bit 8 x)) shift;
                 candidate = unat (table (currHash AND tableMask));
                 table = table(currHash AND tableMask := of_nat s)
             in rbind (load32 src candidate) (\<lambda>u.
                  if ucast (drop_bit 8 x) \<noteq> u
                  then Inr (Again (s + 1) s (snappy_hash (ucast (drop_bit 16 x)) shift) table out)
                  else emit_copies k src shift sLimit s candidate table out))))"

primrec block_loop ::
    "nat \<Rightarrow> bytes \<Rightarrow> nat \<Rightarrow> nat \<Rightarrow> nat \<Rightarrow> nat \<Rightarrow> uint32 \<Rightarrow> hashTable \<Rightarrow> bytes \<Rightarrow> (nat \<times> bytes) res" where
  "block_loop 0 = (\<lambda>src shift sLimit s nextEmit nextHash table out. Inl Diverges)"
| "block_loop (Suc k) = (\<lambda>src shift sLimit s nextEmit nextHash table out.
     rbind (search_match (length src) src shift sLimit s 32 nextHash table) (\<lambda>found.
       case found of
         None \<Rightarrow> Inr (nextEmit, out)
       | Some (s, candidate, table) \<Rightarrow>
           rbind (slice_res src nextEmit s) (\<lambda>lit.
           rbind (emit_copies (length src) src shift sLimit s candidate table (out @ emitLiteral lit)) (\<lambda>r.
             case r of
               Remainder nextEmit out \<Rightarrow> Inr (nextEmit, out)
             | Again s nextEmit nextHash table out \<Rightarrow> block_loop k src shift sLimit s nextEmit nextHash table out))))"

definition encodeBlock :: "bytes \<Rightarrow> bytes res" where
  "encodeBlock src =
     (let shift = table_shift (length src); sLimit = length src - inputMargin
      in rbind (load32 src 1) (\<lambda>u.
         rbind (block_loop (length src) src shift sLimit 1 0 (snappy_hash u shift) (\<lambda>_. 0) []) (\<lambda>(nextEmit, out).
           if nextEmit < length src then rbind (from_res src nextEmit) (\<lambda>lit. Inr (out @ emitLiteral lit))
           else Inr out)))"

function encode_blocks :: "bytes \<Rightarrow> bytes res" where
  "encode_blocks src =
     (if src = [] then Inr []
      else let p = take maxBlockSize src; src' = drop maxBlockSize src
           in rbind (if length p < minNonLiteralBlockSize then Inr (emitLiteral p) else encodeBlock p) (\<lambda>b.
              rbind (encode_blocks src') (\<lambda>bs. Inr (b @ bs))))"
  by auto
termination by (relation "measure length") (auto simp: maxBlockSize_def)

definition Encode :: "bytes \<Rightarrow> bytes res" where
  "Encode src =
     (if MaxEncodedLen (length src) < 0 then Inl (Panic ''snappy: decoded block is too large'')
      else rbind (encode_blocks src) (\<lambda>bs.
             let out = PutUvarint (of_nat (length src)) @ bs
             in if int (length out) \<le> MaxEncodedLen (length src) then Inr out else Inl IndexOutOfRange))"

subsection \<open>Decoding (decode.go, decode_other.go)\<close>

datatype decodeErrCode = decodeErrCodeCorrupt | decodeErrCodeUnsupportedLiteralLength

text \<open>The byte-by-byte copy, which may read bytes it has written.\<close>

primrec forwardCopy :: "nat \<Rightarrow> nat \<Rightarrow> bytes \<Rightarrow> bytes" where
  "forwardCopy offset 0 dst = dst"
| "forwardCopy offset (Suc n) dst = forwardCopy offset n (dst @ [dst ! (length dst - offset)])"

text \<open>
  One round of the loop of \<open>decode\<close>, after the tag byte \<open>t\<close>: \<open>src\<close> are the bytes after it, \<open>dst\<close> those
  written so far and \<open>dLen\<close> the length of the destination. It gives the number of bytes used after the tag and
  the bytes written. A length is a positive \<open>int\<close> of 64 bits, so the code for unsupported lengths is never used.
\<close>

definition decode_literal :: "nat \<Rightarrow> byte \<Rightarrow> bytes \<Rightarrow> bytes \<Rightarrow> decodeErrCode + nat \<times> bytes" where
  "decode_literal dLen t src dst =
     (let x = ucast (drop_bit 2 t) :: uint32; k = (if x < 60 then 0 else unat x - 59)
      in if length src < k then Inl decodeErrCodeCorrupt
         else let x = (if k = 0 then x else le_word (take k src)); len = unat x + 1
              in if len > dLen - length dst \<or> len > length src - k then Inl decodeErrCodeCorrupt
                 else Inr (k + len, dst @ take len (drop k src)))"

definition decode_copy :: "nat \<Rightarrow> byte \<Rightarrow> bytes \<Rightarrow> bytes \<Rightarrow> decodeErrCode + nat \<times> bytes" where
  "decode_copy dLen t src dst =
     (let k = (if t AND 3 = 1 then 1 else if t AND 3 = 2 then 2 else 4)
      in if length src < k then Inl decodeErrCodeCorrupt
         else let len = (if t AND 3 = 1 then 4 + unat (drop_bit 2 t AND 7) else 1 + unat (drop_bit 2 t));
                  offset = (if t AND 3 = 1 then unat (push_bit 3 (ucast t AND 0xe0) OR ucast (src ! 0) :: uint32)
                            else unat (le_word (take k src) :: uint32))
              in if offset = 0 \<or> length dst < offset \<or> len > dLen - length dst then Inl decodeErrCodeCorrupt
                 else Inr (k, forwardCopy offset len dst))"

function decode :: "nat \<Rightarrow> bytes \<Rightarrow> bytes \<Rightarrow> decodeErrCode + bytes" where
  "decode dLen [] dst = (if length dst \<noteq> dLen then Inl decodeErrCodeCorrupt else Inr dst)"
| "decode dLen (t # src) dst =
     (case (if t AND 3 = 0 then decode_literal dLen t src dst else decode_copy dLen t src dst) of
        Inl e \<Rightarrow> Inl e
      | Inr (k, dst) \<Rightarrow> decode dLen (drop k src) dst)"
  by pat_completeness auto
termination by (relation "measure (\<lambda>(dLen, src, dst). length src)") auto

definition decodedLen :: "bytes \<Rightarrow> (nat \<times> nat) option" where
  "decodedLen src = (case Uvarint src of (v, n) \<Rightarrow> if n \<le> 0 \<or> v > 0xffffffff then None else Some (unat v, nat n))"

definition Decode :: "bytes \<Rightarrow> bytes option" where
  "Decode src =
     (case decodedLen src of
        None \<Rightarrow> None
      | Some (dLen, s) \<Rightarrow> (case decode dLen (drop s src) [] of Inl _ \<Rightarrow> None | Inr dst \<Rightarrow> Some dst))"

declare emitCopy.simps [simp del] extendMatch.simps [simp del] encode_blocks.simps [simp del] decode.simps(2) [simp del]

subsection \<open>Words and bytes\<close>

lemma bit_le_word:
  "bit (le_word bs :: 'a::len word) i \<longleftrightarrow> i < LENGTH('a) \<and> i div 8 < length bs \<and> bit (bs ! (i div 8)) (i mod 8)"
proof (induction bs arbitrary: i)
  case (Cons b bs)
  show ?case
  proof (cases "i < 8")
    case False
    then have "i div 8 = Suc ((i - 8) div 8)" "(i - 8) mod 8 = i mod 8"
      by (simp_all add: div_if mod_if)
    moreover have "\<not> bit b i"
      using False bit_imp_le_length [of b i] by auto
    ultimately show ?thesis
      using False by (auto simp: bit_simps Cons.IH)
  qed (auto simp: bit_simps)
qed simp

lemma le_word_inj:
  assumes "(le_word a :: 'a::len word) = le_word b" and "length a = length b" and "8 * length a \<le> LENGTH('a)"
  shows "a = b"
proof (rule nth_equalityI)
  fix k assume k: "k < length a"
  show "a ! k = b ! k"
  proof (rule bit_word_eqI)
    fix n assume n: "n < LENGTH(8)"
    have "bit (le_word a :: 'a word) (8 * k + n) = bit (le_word b :: 'a word) (8 * k + n)"
      using assms(1) by simp
    then show "bit (a ! k) n = bit (b ! k) n"
      using n k assms(2,3) by (simp add: bit_le_word)
  qed
qed (use assms in simp)

lemma load32_eq: "i + 4 \<le> length src \<Longrightarrow> load32 src i = Inr (le_word (take 4 (drop i src)))"
  by (simp add: load32_def slice_res_def)

lemma load64_eq: "i + 8 \<le> length src \<Longrightarrow> load64 src i = Inr (le_word (take 8 (drop i src)))"
  by (simp add: load64_def slice_res_def)

lemma load64_load32:
  assumes "i + 8 \<le> length src"
  shows "ucast (drop_bit 8 (le_word (take 8 (drop i src)) :: uint64)) = (le_word (take 4 (drop (Suc i) src)) :: uint32)"
proof (rule bit_word_eqI)
  fix n :: nat
  have "(8 + n) div 8 = Suc (n div 8)"
    by simp
  then show "bit (ucast (drop_bit 8 (le_word (take 8 (drop i src)) :: uint64)) :: uint32) n
      = bit (le_word (take 4 (drop (Suc i) src)) :: uint32) n"
    using assms by (auto simp: bit_simps bit_le_word simp del: div_add_self1)
qed

lemma le_word_2:
  assumes "v < 65536"
  shows "le_word [of_nat v, of_nat (drop_bit 8 v)] = (of_nat v :: uint32)"
proof (rule bit_word_eqI)
  fix i :: nat assume "i < LENGTH(32)"
  have "take_bit 16 v = v"
    using assms by (simp add: take_bit_nat_eq_self)
  then have "bit v i \<Longrightarrow> i < 16"
    by (metis bit_take_bit_iff)
  then show "bit (le_word [of_nat v, of_nat (drop_bit 8 v)] :: uint32) i = bit (of_nat v :: uint32) i"
    by (auto simp: bit_simps)
qed

lemma le_word_1: "v < 256 \<Longrightarrow> le_word [of_nat v] = (of_nat v :: uint32)"
  by (simp add: unsigned_of_nat take_bit_nat_eq_self)

lemma tag_all:
  "list_all (\<lambda>m. (push_bit 2 (of_nat m) :: byte) AND 3 = 0 \<and> unat (drop_bit 2 (push_bit 2 (of_nat m)) :: byte) = m
      \<and> (push_bit 2 (of_nat m) OR 2 :: byte) AND 3 = 2 \<and> unat (drop_bit 2 (push_bit 2 (of_nat m) OR 2) :: byte) = m) [0..<64]"
  by code_simp

lemma tag1_all:
  "list_all (\<lambda>a. list_all (\<lambda>l. let t = push_bit 5 (of_nat a) OR push_bit 2 (of_nat l) OR 1 :: byte
      in t AND 3 = 1 \<and> unat (drop_bit 2 t AND 7) = l \<and> (push_bit 3 (ucast t AND 0xe0) :: uint32) = of_nat (256 * a)) [0..<8]) [0..<8]"
  by code_simp

lemma literal_tag:
  assumes "m < 64"
  shows "(push_bit 2 (of_nat m) :: byte) AND 3 = 0" "unat (drop_bit 2 (push_bit 2 (of_nat m)) :: byte) = m"
  using tag_all assms by (simp_all add: list_all_iff)

lemma copy2_tag:
  assumes "m < 64"
  shows "(push_bit 2 (of_nat m) OR 2 :: byte) AND 3 = 2" "unat (drop_bit 2 (push_bit 2 (of_nat m) OR 2) :: byte) = m"
  using tag_all assms by (simp_all add: list_all_iff)

lemma copy1_tag:
  assumes "a < 8" and "l < 8"
  shows "(push_bit 5 (of_nat a) OR push_bit 2 (of_nat l) OR 1 :: byte) AND 3 = 1"
    "unat (drop_bit 2 (push_bit 5 (of_nat a) OR push_bit 2 (of_nat l) OR 1 :: byte) AND 7) = l"
    "(push_bit 3 (ucast (push_bit 5 (of_nat a) OR push_bit 2 (of_nat l) OR 1 :: byte) AND 0xe0) :: uint32) = of_nat (256 * a)"
  using tag1_all assms by (simp_all add: list_all_iff Let_def)

subsection \<open>What the emitted items decode to\<close>

text \<open>Decoding the items \<open>bs\<close> goes from the bytes \<open>out\<close> to the bytes \<open>out'\<close>, whatever follows them.\<close>

definition produces :: "bytes \<Rightarrow> bytes \<Rightarrow> bytes \<Rightarrow> bool" where
  "produces bs out out' \<longleftrightarrow> length out \<le> length out' \<and>
     (\<forall>n rest. length out' \<le> n \<longrightarrow> decode n (bs @ rest) out = decode n rest out')"

lemma produces_Nil [simp]: "produces [] out out"
  by (simp add: produces_def)

lemma produces_append: "produces a x y \<Longrightarrow> produces b y z \<Longrightarrow> produces (a @ b) x z"
  unfolding produces_def by (metis append.assoc order_trans)

lemma length_forwardCopy [simp]: "length (forwardCopy offset n dst) = length dst + n"
  by (induction n arbitrary: dst) auto

lemma forwardCopy_add: "forwardCopy offset (a + b) dst = forwardCopy offset b (forwardCopy offset a dst)"
  by (induction a arbitrary: dst) auto

lemma produces_literal:
  assumes "lit \<noteq> []" and "length lit \<le> 65536"
  shows "produces (emitLiteral lit) out (out @ lit)"
proof -
  define m where "m = length lit - 1"
  have m: "length lit = Suc m" "m < 65536"
    using assms by (auto simp: m_def)
  have n: "of_nat (length lit) - 1 = (of_nat m :: uint64)" "unat (of_nat m :: uint64) = m"
    using m by (simp_all add: unat_of_nat)
  consider "m < 60" | "60 \<le> m" "m < 256" | "256 \<le> m"
    by linarith
  then show ?thesis
  proof cases
    case 1
    then have "emitLiteral lit = push_bit 2 (of_nat m) # lit"
      by (simp add: emitLiteral_def n word_less_nat_alt unsigned_of_nat take_bit_nat_eq_self)
    moreover have "ucast (drop_bit 2 (push_bit 2 (of_nat m)) :: byte) = (of_nat m :: uint32)"
      using 1 literal_tag(2) [of m] of_nat_unat [of "drop_bit 2 (push_bit 2 (of_nat m)) :: byte", where ?'a = uint32] by simp
    ultimately show ?thesis
      using 1 m literal_tag(1) [of m]
      by (auto simp: produces_def decode.simps decode_literal_def Let_def word_less_nat_alt unat_of_nat)
  next
    case 2
    then have "emitLiteral lit = push_bit 2 60 # of_nat m # lit"
      by (simp add: emitLiteral_def n word_less_nat_alt unsigned_of_nat take_bit_nat_eq_self)
    moreover have "le_word [of_nat m] = (of_nat m :: uint32)"
      using 2 by (rule_tac le_word_1)
    ultimately show ?thesis
      using 2 m
      by (auto simp: produces_def decode.simps decode_literal_def Let_def unat_of_nat simp del: le_word.simps)
  next
    case 3
    then have "emitLiteral lit = push_bit 2 61 # of_nat m # of_nat (drop_bit 8 m) # lit"
      using m by (simp add: emitLiteral_def n word_less_nat_alt unsigned_of_nat take_bit_nat_eq_self)
        (rule bit_word_eqI, simp add: bit_simps)
    moreover have "le_word [of_nat m, of_nat (drop_bit 8 m)] = (of_nat m :: uint32)"
      using m by (rule_tac le_word_2)
    ultimately show ?thesis
      using 3 m
      by (auto simp: produces_def decode.simps decode_literal_def Let_def unat_of_nat simp del: le_word.simps)
  qed
qed

lemma produces_copy2:
  assumes "0 < len" and "len \<le> 64" and "0 < offset" and "offset \<le> length out" and "offset < 65536"
  shows "produces (copy2 offset len) out (forwardCopy offset len out)"
proof -
  have "len - 1 < 64"
    using assms by simp
  note t = copy2_tag [OF this] le_word_2 [OF assms(5)]
  then show ?thesis
    using assms by (auto simp: copy2_def produces_def decode.simps decode_copy_def Let_def unat_of_nat simp del: le_word.simps)
qed

lemma produces_copy1:
  assumes "4 \<le> len" and "len < 12" and "0 < offset" and "offset \<le> length out" and "offset < 2048"
  shows "produces [push_bit 5 (of_nat (drop_bit 8 offset)) OR push_bit 2 (of_nat (len - 4)) OR 1, of_nat offset] out
    (forwardCopy offset len out)"
proof -
  have small: "drop_bit 8 offset < 8" "len - 4 < 8"
    using assms by (simp_all add: drop_bit_eq_div)
  have or: "of_nat (256 * drop_bit 8 offset) OR ucast (of_nat offset :: byte) = (of_nat offset :: uint32)"
  proof -
    have "of_nat (256 * drop_bit 8 offset) = (push_bit 8 (of_nat (drop_bit 8 offset)) :: uint32)"
      by (simp add: push_bit_eq_mult)
    then show ?thesis
      by (simp only:) (rule bit_word_eqI, auto simp: bit_simps)
  qed
  show ?thesis
    using assms copy1_tag [OF small] or
    by (auto simp: produces_def decode.simps decode_copy_def Let_def unat_of_nat simp del: le_word.simps)
qed

lemma produces_emitCopy:
  "4 \<le> len \<Longrightarrow> 0 < offset \<Longrightarrow> offset \<le> length out \<Longrightarrow> offset < 65536 \<Longrightarrow>
   produces (emitCopy offset len) out (forwardCopy offset len out)"
proof (induction offset len arbitrary: out rule: emitCopy.induct)
  case (1 offset len)
  consider "68 \<le> len" | "64 < len" "len < 68" | "len \<le> 64" "12 \<le> len \<or> 2048 \<le> offset" | "len < 12" "offset < 2048"
    by linarith
  then show ?case
  proof cases
    case 1
    then have "produces (emitCopy offset (len - 64)) (forwardCopy offset 64 out) (forwardCopy offset len out)"
      using "1.IH"(1) [of "forwardCopy offset 64 out"] "1.prems" by (simp flip: forwardCopy_add)
    then show ?thesis
      using 1 "1.prems" by (simp add: emitCopy.simps [of offset len] produces_append [OF produces_copy2])
  next
    case 2
    then have "produces (emitCopy offset (len - 60)) (forwardCopy offset 60 out) (forwardCopy offset len out)"
      using "1.IH"(2) [of "forwardCopy offset 60 out"] "1.prems" by (simp flip: forwardCopy_add)
    then show ?thesis
      using 2 "1.prems" by (simp add: emitCopy.simps [of offset len] produces_append [OF produces_copy2])
  next
    case 3
    then show ?thesis
      using "1.prems" produces_copy2 [of len offset out] by (simp add: emitCopy.simps [of offset len])
  next
    case 4
    then show ?thesis
      using "1.prems" produces_copy1 [of len offset out] by (simp add: emitCopy.simps [of offset len])
  qed
qed

lemma forwardCopy_match:
  "candidate < base \<Longrightarrow> base + len \<le> length src \<Longrightarrow> \<forall>m<len. src ! (candidate + m) = src ! (base + m) \<Longrightarrow>
   forwardCopy (base - candidate) len (pre @ take base src) = pre @ take (base + len) src"
proof (induction len arbitrary: base candidate)
  case (Suc n)
  have "(pre @ take base src) ! (length (pre @ take base src) - (base - candidate)) = src ! base"
    using Suc.prems by (auto simp: nth_append)
  then have "forwardCopy (base - candidate) (Suc n) (pre @ take base src)
      = forwardCopy (Suc base - Suc candidate) n (pre @ take (Suc base) src)"
    using Suc.prems by (simp add: take_Suc_conv_app_nth)
  also have "\<dots> = pre @ take (base + Suc n) src"
    using Suc.IH [of "Suc candidate" "Suc base"] Suc.prems by fastforce
  finally show ?case .
qed simp

subsection \<open>How long the items are\<close>

lemma length_emitLiteral:
  assumes "lit \<noteq> []" and "length lit \<le> 65536"
  shows "60 * length (emitLiteral lit) \<le> 61 * length lit + 60"
proof -
  have "unat (of_nat (length lit) - 1 :: uint64) = length lit - 1"
    using assms by (subst unat_sub) (auto simp: word_le_nat_alt unat_of_nat Suc_le_eq)
  then show ?thesis
    by (auto simp: emitLiteral_def Let_def word_less_nat_alt)
qed

lemma length_emitCopy: "4 \<le> len \<Longrightarrow> length (emitCopy offset len) < len"
  by (induction offset len rule: emitCopy.induct) (subst emitCopy.simps, fastforce simp: copy2_def le_diff_conv2)

lemma extendMatch_spec:
  "i < j \<Longrightarrow> j \<le> length src \<Longrightarrow>
   \<exists>r. extendMatch src i j = Inr r \<and> j \<le> r \<and> r \<le> length src \<and> (\<forall>m < r - j. src ! (i + m) = src ! (j + m))"
proof (induction src i j rule: extendMatch.induct)
  case (1 src i j)
  show ?case
  proof (cases "j < length src \<and> src ! i = src ! j")
    case True
    then obtain r where r: "extendMatch src (i + 1) (j + 1) = Inr r" "j + 1 \<le> r" "r \<le> length src"
      "\<forall>m < r - (j + 1). src ! (i + 1 + m) = src ! (j + 1 + m)"
      using 1 by auto
    have "src ! (i + m) = src ! (j + m)" if "m < r - j" for m
      using r(4) True that by (cases m) auto
    then show ?thesis
      using True r 1(2) by (simp add: extendMatch.simps [of src i j])
  qed (use 1(2,3) in \<open>auto simp: extendMatch.simps [of src i j]\<close>)
qed

subsection \<open>A block\<close>

text \<open>The positions in the hash table lie before \<open>s\<close>.\<close>

definition hashTable_ok :: "hashTable \<Rightarrow> nat \<Rightarrow> bool" where
  "hashTable_ok table s \<longleftrightarrow> (\<forall>h. unat (table h) < s)"

lemma hashTable_ok_upd: "hashTable_ok table s \<Longrightarrow> s \<le> t \<Longrightarrow> p < t \<Longrightarrow> hashTable_ok (table(h := of_nat p)) t"
  by (auto simp: hashTable_ok_def unat_of_nat intro: order_less_le_trans le_less_trans [OF mod_less_eq_dividend])

text \<open>The bytes at \<open>candidate\<close> and at \<open>s\<close> agree.\<close>

definition match4 :: "bytes \<Rightarrow> nat \<Rightarrow> nat \<Rightarrow> bool" where
  "match4 src candidate s \<longleftrightarrow> candidate < s \<and> s + 4 \<le> length src \<and> take 4 (drop candidate src) = take 4 (drop s src)"

lemma match4_nth: "match4 src candidate s \<Longrightarrow> m < 4 \<Longrightarrow> src ! (candidate + m) = src ! (s + m)"
  by (auto simp: match4_def dest!: arg_cong [where f = "\<lambda>l. l ! m"])

lemma match4I:
  "(le_word (take 4 (drop candidate src)) :: uint32) = le_word (take 4 (drop s src)) \<Longrightarrow>
   candidate < s \<Longrightarrow> s + 4 \<le> length src \<Longrightarrow> match4 src candidate s"
  by (auto simp: match4_def dest!: le_word_inj)

lemma search_match_ok:
  assumes "32 \<le> skip" and "hashTable_ok table nextS" and "length src < k + nextS" and "0 < k" and "sLimit + 15 = length src"
  shows "\<exists>r. search_match k src shift sLimit nextS skip nextHash table = Inr r \<and>
    (\<forall>s candidate table'. r = Some (s, candidate, table') \<longrightarrow>
       nextS \<le> s \<and> s < sLimit \<and> match4 src candidate s \<and> hashTable_ok table' (Suc s))"
  using assms
proof (induction k arbitrary: nextS skip nextHash table)
  case (Suc k)
  define d where "d = skip div 32"
  define c where "c = unat (table (nextHash AND tableMask))"
  define T where "T = table(nextHash AND tableMask := of_nat nextS)"
  note unf = search_match.simps(2) Let_def d_def [symmetric] c_def [symmetric] T_def [symmetric]
  have d: "0 < d" using Suc.prems(1) by (simp add: d_def)
  have c: "c < nextS" using Suc.prems(2) by (simp add: c_def hashTable_ok_def)
  have T: "hashTable_ok T (Suc nextS)"
    unfolding T_def using Suc.prems(2) by (rule hashTable_ok_upd) auto
  show ?case
  proof (cases "nextS + d > sLimit")
    case False
    then have loads: "load32 src (nextS + d) = Inr (le_word (take 4 (drop (nextS + d) src)))"
      "load32 src nextS = Inr (le_word (take 4 (drop nextS src)))" "load32 src c = Inr (le_word (take 4 (drop c src)))"
      using Suc.prems(5) c by (simp_all add: load32_eq)
    show ?thesis
    proof (cases "(le_word (take 4 (drop nextS src)) :: uint32) = le_word (take 4 (drop c src))")
      case True
      then have "match4 src c nextS"
        using c False Suc.prems(5) by (intro match4I) auto
      then show ?thesis
        using False True T d by (simp add: unf loads)
    next
      case ne: False
      have "hashTable_ok T (nextS + d)"
        using T d by (auto simp: hashTable_ok_def intro: order_less_le_trans)
      then show ?thesis
        using False ne Suc.IH [of "skip + d" T "nextS + d" "snappy_hash (le_word (take 4 (drop (nextS + d) src))) shift"] Suc.prems d
        by (fastforce simp: unf loads)
    qed
  qed (simp add: unf)
qed simp

text \<open>
  The bytes \<open>out\<close> encode the first \<open>n\<close> bytes of the block and are hardly longer than these: by one in sixty, and by
  \<open>slack\<close> sixtieths.
\<close>

definition encodes :: "nat \<Rightarrow> bytes \<Rightarrow> bytes \<Rightarrow> nat \<Rightarrow> bool" where
  "encodes slack src out n \<longleftrightarrow> n \<le> length src \<and> 60 * length out \<le> 61 * n + slack \<and>
     (\<forall>pre. produces out pre (pre @ take n src))"

lemma encodes_literal:
  assumes "encodes 0 src out n" and "n < s" and "s \<le> length src" and "length src \<le> 65536"
  shows "encodes 60 src (out @ emitLiteral (take (s - n) (drop n src))) s"
proof -
  let ?lit = "take (s - n) (drop n src)"
  have lit: "?lit \<noteq> []" "length ?lit = s - n" "length ?lit \<le> 65536" and split: "take s src = take n src @ ?lit"
    using assms take_add [of n "s - n" src] by auto
  have "produces (out @ emitLiteral ?lit) pre (pre @ take s src)" for pre
    using assms(1) produces_append [OF _ produces_literal [OF lit(1,3), of "pre @ take n src"]]
    by (simp add: encodes_def split)
  then show ?thesis
    using assms length_emitLiteral [OF lit(1,3)] lit(2) by (auto simp: encodes_def)
qed

lemma encodes_copy:
  assumes "encodes 60 src out base" and "candidate < base" and "base + 4 \<le> s" and "s \<le> length src" and "length src \<le> 65536"
    and "\<forall>m < s - base. src ! (candidate + m) = src ! (base + m)"
  shows "encodes 0 src (out @ emitCopy (base - candidate) (s - base)) s"
proof -
  have "produces (out @ emitCopy (base - candidate) (s - base)) pre (pre @ take s src)" for pre
  proof (rule produces_append)
    show "produces out pre (pre @ take base src)"
      using assms(1) by (simp add: encodes_def)
    show "produces (emitCopy (base - candidate) (s - base)) (pre @ take base src) (pre @ take s src)"
      using produces_emitCopy [of "s - base" "base - candidate" "pre @ take base src"]
        forwardCopy_match [of candidate base "s - base" src pre] assms by simp
  qed
  moreover have "length (emitCopy (base - candidate) (s - base)) < s - base"
    using assms(3) by (intro length_emitCopy) simp
  ultimately show ?thesis
    using assms(1,3,4) by (auto simp: encodes_def)
qed

lemma encodes_mono: "encodes slack src out n \<Longrightarrow> slack \<le> slack' \<Longrightarrow> encodes slack' src out n"
  by (auto simp: encodes_def)

lemma emit_copies_ok:
  assumes "match4 src candidate base" and "encodes 60 src out base" and "hashTable_ok table (Suc base)"
    and "length src < k + base" and "sLimit + 15 = length src" and "length src \<le> 65536"
  shows "\<exists>r. emit_copies k src shift sLimit base candidate table out = Inr r \<and>
    (\<forall>n out'. r = Remainder n out' \<longrightarrow> encodes 0 src out' n) \<and>
    (\<forall>s n h table' out'. r = Again s n h table' out' \<longrightarrow>
       s = Suc n \<and> base < n \<and> n < sLimit \<and> encodes 0 src out' n \<and> hashTable_ok table' s)"
  using assms
proof (induction k arbitrary: base candidate table out)
  case (Suc k)
  have c: "candidate < base" "base + 4 \<le> length src"
    using Suc.prems(1) by (simp_all add: match4_def)
  then obtain s where s: "extendMatch src (candidate + 4) (base + 4) = Inr s" "base + 4 \<le> s" "s \<le> length src"
    and more: "\<forall>m < s - (base + 4). src ! (candidate + 4 + m) = src ! (base + 4 + m)"
    using extendMatch_spec [of "candidate + 4" "base + 4" src] by auto
  have "src ! (candidate + m) = src ! (base + m)" if "m < s - base" for m
    using match4_nth [OF Suc.prems(1), of m] more [rule_format, of "m - 4"] that by (cases "m < 4") auto
  then have e: "encodes 0 src (out @ emitCopy (base - candidate) (s - base)) s"
    using encodes_copy [OF Suc.prems(2) c(1) s(2,3) Suc.prems(6)] by blast
  show ?case
  proof (cases "s \<ge> sLimit")
    case False
    define x where "x = (le_word (take 8 (drop (s - 1) src)) :: uint64)"
    define T where "T = table(snappy_hash (ucast x) shift AND tableMask := of_nat (s - 1))"
    define h where "h = snappy_hash (ucast (drop_bit 8 x)) shift AND tableMask"
    have T: "hashTable_ok T s"
      unfolding T_def using Suc.prems(3) by (rule hashTable_ok_upd) (use s in auto)
    then have h: "unat (T h) < s"
      by (simp add: hashTable_ok_def)
    have T': "hashTable_ok (T(h := of_nat s)) (Suc s)"
      using T by (rule hashTable_ok_upd) auto
    have loads: "load64 src (s - 1) = Inr x" "load32 src (unat (T h)) = Inr (le_word (take 4 (drop (unat (T h)) src)))"
      using False Suc.prems(5) h s by (simp_all add: load64_eq load32_eq x_def)
    have step: "emit_copies (Suc k) src shift sLimit base candidate table out =
        rbind (load32 src (unat (T h))) (\<lambda>u.
          if ucast (drop_bit 8 x) \<noteq> u
          then Inr (Again (s + 1) s (snappy_hash (ucast (drop_bit 16 x)) shift) (T(h := of_nat s))
                 (out @ emitCopy (base - candidate) (s - base)))
          else emit_copies k src shift sLimit s (unat (T h)) (T(h := of_nat s)) (out @ emitCopy (base - candidate) (s - base)))"
      using False by (simp only: emit_copies.simps(2) s(1) Let_def rbind_Inr loads(1) if_False T_def h_def)
    have x: "ucast (drop_bit 8 x) = (le_word (take 4 (drop s src)) :: uint32)"
      using load64_load32 [of "s - 1" src] False Suc.prems(5) s by (simp add: x_def)
    show ?thesis
    proof (cases "(le_word (take 4 (drop (unat (T h)) src)) :: uint32) = le_word (take 4 (drop s src))")
      case True
      then have "match4 src (unat (T h)) s"
        using h False Suc.prems(5) by (intro match4I) auto
      moreover have "length src < k + s"
        using Suc.prems(4) s(2) by simp
      ultimately obtain r where r: "emit_copies k src shift sLimit s (unat (T h)) (T(h := of_nat s))
          (out @ emitCopy (base - candidate) (s - base)) = Inr r" "\<forall>n out'. r = Remainder n out' \<longrightarrow> encodes 0 src out' n"
        "\<forall>s' n h table' out'. r = Again s' n h table' out' \<longrightarrow>
           s' = Suc n \<and> s < n \<and> n < sLimit \<and> encodes 0 src out' n \<and> hashTable_ok table' s'"
        using Suc.IH [OF _ encodes_mono [OF e] T' _ Suc.prems(5,6), of "unat (T h)"] by blast
      then show ?thesis
        using s(2) True by (intro exI [of _ r]) (auto simp: step loads(2) x simp del: emit_copies.simps)
    qed (use False s(2) e T' in \<open>simp add: step loads(2) x del: emit_copies.simps\<close>)
  qed (use e in \<open>simp add: emit_copies.simps(2) s(1) Let_def\<close>)
qed (simp add: match4_def)

lemma block_loop_ok:
  assumes "nextEmit < s" and "hashTable_ok table s" and "encodes 0 src out nextEmit" and "length src < k + s" and "0 < k"
    and "sLimit + 15 = length src" and "length src \<le> 65536"
  shows "\<exists>n out'. block_loop k src shift sLimit s nextEmit nextHash table out = Inr (n, out') \<and> encodes 0 src out' n"
  using assms
proof (induction k arbitrary: s nextEmit nextHash table out)
  case (Suc k)
  have "src \<noteq> []"
    using Suc.prems(6) by auto
  then obtain r where r: "search_match (length src) src shift sLimit s 32 nextHash table = Inr r"
    and found: "\<And>s' c T. r = Some (s', c, T) \<Longrightarrow> s \<le> s' \<and> s' < sLimit \<and> match4 src c s' \<and> hashTable_ok T (Suc s')"
    using search_match_ok [of 32 table s src "length src" sLimit shift nextHash] Suc.prems by auto
  show ?case
  proof (cases r)
    case (Some p)
    obtain s' c T where p: "r = Some (s', c, T)"
      using Some by (metis prod_cases3)
    note f = found [OF p]
    define out1 where "out1 = out @ emitLiteral (take (s' - nextEmit) (drop nextEmit src))"
    have lit: "encodes 60 src out1 s'" "slice_res src nextEmit s' = Inr (take (s' - nextEmit) (drop nextEmit src))"
      using encodes_literal [OF Suc.prems(3), of s'] f Suc.prems by (auto simp: out1_def slice_res_def)
    obtain a where a: "emit_copies (length src) src shift sLimit s' c T out1 = Inr a"
      and rem: "\<And>n out'. a = Remainder n out' \<Longrightarrow> encodes 0 src out' n"
      and again: "\<And>s'' n h T' out'. a = Again s'' n h T' out' \<Longrightarrow>
        s'' = Suc n \<and> s' < n \<and> n < sLimit \<and> encodes 0 src out' n \<and> hashTable_ok T' s''"
      using emit_copies_ok [of src c s' out1 T "length src" sLimit shift] f lit Suc.prems by force
    show ?thesis
    proof (cases a)
      case (Again s'' n h T' out')
      have "n < s''" "hashTable_ok T' s''" "encodes 0 src out' n" "length src < k + s''" "0 < k"
        using again [OF Again] f Suc.prems by auto
      then show ?thesis
        using Suc.IH [OF _ _ _ _ _ Suc.prems(6,7), of n s'' T' out'] by (simp add: r p lit(2) a Again out1_def [symmetric])
    qed (use rem in \<open>simp add: r p lit(2) a out1_def [symmetric]\<close>)
  qed (use Suc.prems(3) in \<open>simp add: r\<close>)
qed simp

lemma encodeBlock_ok:
  assumes "minNonLiteralBlockSize \<le> length src" and "length src \<le> maxBlockSize"
  shows "\<exists>out. encodeBlock src = Inr out \<and> encodes 60 src out (length src)"
proof -
  have l: "17 \<le> length src" "length src \<le> 65536"
    using assms by (simp_all add: minNonLiteralBlockSize_def inputMargin_def maxBlockSize_def)
  then have "src \<noteq> []" by auto
  define h where "h = snappy_hash (le_word (take 4 (drop 1 src))) (table_shift (length src))"
  obtain n out where b: "block_loop (length src) src (table_shift (length src)) (length src - inputMargin) 1 0 h (\<lambda>_. 0) []
      = Inr (n, out)" and e: "encodes 0 src out n"
    using block_loop_ok [of 0 1 "\<lambda>_. 0" src "[]" "length src" "length src - inputMargin" "table_shift (length src)" h] l \<open>src \<noteq> []\<close>
    by (auto simp: inputMargin_def hashTable_ok_def encodes_def)
  note unf = encodeBlock_def Let_def load32_eq [of "Suc 0" src] b [unfolded h_def One_nat_def]
  show ?thesis
  proof (cases "n < length src")
    case True
    then show ?thesis
      using encodes_literal [OF e, of "length src"] l by (simp add: unf)
  next
    case False
    then have "n = length src"
      using e by (simp add: encodes_def)
    then show ?thesis
      using encodes_mono [OF e] l by (simp add: unf)
  qed
qed

subsection \<open>Encoding and decoding\<close>

lemma encode_blocks_ok:
  "\<exists>bs. encode_blocks src = Inr bs \<and> 60 * length bs \<le> 62 * length src + 60 \<and> (\<forall>pre. produces bs pre (pre @ src))"
proof (induction src rule: encode_blocks.induct)
  case (1 src)
  show ?case
  proof (cases "src = []")
    case False
    define p where "p = take maxBlockSize src"
    obtain b where b: "(if length p < minNonLiteralBlockSize then Inr (emitLiteral p) else encodeBlock p) = Inr b"
      and e: "encodes 60 p b (length p)"
    proof (cases "length p < minNonLiteralBlockSize")
      case True
      then have "encodes 60 p (emitLiteral p) (length p)"
        using encodes_literal [of p "[]" 0 "length p"] False
        by (auto simp: encodes_def p_def minNonLiteralBlockSize_def inputMargin_def maxBlockSize_def)
      then show ?thesis
        using that True by simp
    next
      case False
      moreover have "length p \<le> maxBlockSize"
        by (simp add: p_def)
      ultimately show ?thesis
        using that encodeBlock_ok [of p] by force
    qed
    obtain bs where bs: "encode_blocks (drop maxBlockSize src) = Inr bs" "60 * length bs \<le> 62 * length (drop maxBlockSize src) + 60"
      "\<And>pre. produces bs pre (pre @ drop maxBlockSize src)"
      using "1.IH" [OF False p_def refl b] by blast
    have "produces (b @ bs) pre (pre @ src)" for pre
    proof -
      have "produces b pre (pre @ p)"
        using e by (simp add: encodes_def)
      from produces_append [OF this bs(3)] show ?thesis
        by (simp add: p_def)
    qed
    moreover have "60 * length (b @ bs) \<le> 62 * length src + 60"
    proof (cases "length src \<le> maxBlockSize")
      case True
      then have "bs = []"
        using bs(1) by (simp add: encode_blocks.simps)
      then show ?thesis
        using e True by (simp add: encodes_def p_def)
    next
      case False
      then show ?thesis
        using e bs(2) by (auto simp: encodes_def p_def maxBlockSize_def)
    qed
    moreover have "encode_blocks src = Inr (b @ bs)"
      using False b bs(1) by (simp add: encode_blocks.simps [of src] Let_def p_def [symmetric])
    ultimately show ?thesis
      by blast
  qed (simp add: encode_blocks.simps)
qed

lemma PutUvarint_not_Nil: "PutUvarint x \<noteq> []"
  by (subst PutUvarint.simps) simp

text \<open>
  Every input that is not too large has an encoding, which decodes to it and is at most \<open>30 + n + n / 6\<close> bytes
  long.
\<close>

lemma Encode_ok:
  assumes "0 \<le> MaxEncodedLen (length src)"
  shows "\<exists>bs. Encode src = Inr bs \<and> Decode bs = Some src \<and> length bs \<le> 30 + length src + length src div 6"
proof -
  define n where "n = length src"
  have n: "32 + n + n div 6 \<le> 0xffffffff" and max: "MaxEncodedLen n = int (32 + n + n div 6)"
    using assms by (auto simp: MaxEncodedLen_def n_def Let_def split: if_splits)
  have w: "unat (of_nat n :: uint64) = n"
    using n by (simp add: unat_of_nat)
  have h: "length (PutUvarint (of_nat n)) \<le> 5"
    using n by (intro length_PutUvarint_aux) (simp_all add: w)
  obtain bs where bs: "encode_blocks src = Inr bs" "60 * length bs \<le> 62 * n + 60" "\<And>pre. produces bs pre (pre @ src)"
    using encode_blocks_ok [of src] by (auto simp: n_def)
  define out where "out = PutUvarint (of_nat n) @ bs"
  have len: "length out \<le> 30 + n + n div 6"
    using h bs(2) by (simp add: out_def)
  have "decodedLen out = Some (n, length (PutUvarint (of_nat n)))"
    using n by (auto simp: decodedLen_def out_def Uvarint_PutUvarint w word_less_nat_alt PutUvarint_not_Nil)
  moreover have "decode n bs [] = Inr src"
  proof -
    have "decode n (bs @ []) [] = decode n [] src"
      using bs(3) [of "[]"] unfolding produces_def n_def by (metis append_Nil order_refl)
    then show ?thesis
      by (simp add: n_def)
  qed
  ultimately have "Decode out = Some src"
    by (simp add: Decode_def out_def)
  then show ?thesis
    using len bs(1) max by (auto simp: Encode_def Let_def n_def out_def)
qed

text \<open>
  C5. Decoding inverts encoding: every input that is not too large has an encoding that decodes to it, no read or
  write of the encoder is out of bounds, and the encoding of \<open>n\<close> bytes has at most \<open>30 + n + n / 6\<close>, two less
  than the documented bound. For an input that is too large \<open>Encode\<close> panics.
\<close>

theorem Decode_Encode:
  "if MaxEncodedLen (length src) < 0 then Encode src = Inl (Panic ''snappy: decoded block is too large'')
   else \<exists>bs. Encode src = Inr bs \<and> Decode bs = Some src \<and> length bs \<le> 30 + length src + length src div 6"
  using Encode_ok [of src] by (simp add: Encode_def)

end
