(* ===== verification/NbsTable.thy ===== *)
theory NbsTable
  imports NomsHash Snappy
begin

text \<open>
  The format of block store tables: addresses and records (\<open>go/nbs/table.go\<close>) and the table writer
  (\<open>go/nbs/table_writer.go\<close>). The writer fills a buffer of fixed size in place, several regions at
  once; \<open>table_image\<close> is the layout the documentation of \<open>table.go\<close> draws, and the lemmas at the end
  show that the writer produces it.
\<close>

subsection \<open>Sizes (table.go)\<close>

abbreviation (input) addrSize :: nat where "addrSize \<equiv> 20"
abbreviation (input) addrPrefixSize :: nat where "addrPrefixSize \<equiv> 8"
abbreviation (input) addrSuffixSize :: nat where "addrSuffixSize \<equiv> 12"
abbreviation (input) uint64Size :: nat where "uint64Size \<equiv> 8"
abbreviation (input) uint32Size :: nat where "uint32Size \<equiv> 4"
abbreviation (input) ordinalSize :: nat where "ordinalSize \<equiv> 4"
abbreviation (input) lengthSize :: nat where "lengthSize \<equiv> 4"
abbreviation (input) magicNumberSize :: nat where "magicNumberSize \<equiv> 8"
abbreviation (input) footerSize :: nat where "footerSize \<equiv> 20"
abbreviation (input) prefixTupleSize :: nat where "prefixTupleSize \<equiv> 12"
abbreviation (input) checksumSize :: nat where "checksumSize \<equiv> 4"
abbreviation (input) maxChunkSize :: nat where "maxChunkSize \<equiv> 0xffffffff"

definition magicNumber :: bytes where
  "magicNumber = [0xff, 0xb5, 0xd8, 0xc2, 0x24, 0x63, 0xee, 0x50]"

definition crc :: "bytes \<Rightarrow> uint32" where
  "crc b = crc32_Update 0 b"

subsection \<open>Addresses (table.go)\<close>

text \<open>\<open>type addr [addrSize]byte\<close>: the conversions between \<open>addr\<close> and \<open>hash.Hash\<close> are identities.\<close>

type_synonym addr = hash

definition computeAddrDefault :: "bytes \<Rightarrow> addr" where
  "computeAddrDefault data = copy_hash (take addrSize (Sum512 data))"

definition addr_String :: "addr \<Rightarrow> string" where
  "addr_String a = EncodeToString (hash_bytes a)"

definition Prefix :: "addr \<Rightarrow> uint64" where
  "Prefix a = of_nat (be_decode (take 8 (hash_bytes a)))"

definition Checksum :: "addr \<Rightarrow> uint32" where
  "Checksum a = of_nat (be_decode (drop (addrSize - checksumSize) (hash_bytes a)))"

text \<open>
  \<open>encoding.Decode(h[:], b)\<close> writes the decoded bytes into the zeroed array, and panics when a
  further quantum does not fit; its error result is ignored.
\<close>

definition ParseAddr :: "string \<Rightarrow> addr res" where
  "ParseAddr b =
     (let out = DecodeString b
      in if length out \<le> addrSize then Inr (copy_hash out) else Inl IndexOutOfRange)"

text \<open>The slice \<open>h[addrPrefixSize:]\<close>.\<close>

definition Suffix :: "addr \<Rightarrow> bytes" where
  "Suffix a = drop addrPrefixSize (hash_bytes a)"

subsection \<open>Requests (table.go)\<close>

record hasRecord =
  hr_a :: addr
  hr_prefix :: uint64
  hr_order :: nat
  hr_has :: bool

definition hasRecordByPrefix :: "hasRecord list \<Rightarrow> hasRecord list" where
  "hasRecordByPrefix hs = Sort hr_prefix hs"

definition hasRecordByOrder :: "hasRecord list \<Rightarrow> hasRecord list" where
  "hasRecordByOrder hs = Sort hr_order hs"

record getRecord =
  gr_a :: addr
  gr_prefix :: uint64
  gr_order :: nat
  gr_found :: bool
  gr_data :: "bytes option"

definition getRecordByPrefix :: "getRecord list \<Rightarrow> getRecord list" where
  "getRecordByPrefix hs = Sort gr_prefix hs"

definition getRecordByOrder :: "getRecord list \<Rightarrow> getRecord list" where
  "getRecordByOrder hs = Sort gr_order hs"

record extractRecord =
  er_a :: addr
  er_data :: bytes

datatype EnumerationOrder = InsertOrder | ReverseOrder

subsection \<open>Libraries\<close>

record prefixIndexRec =
  pi_prefix :: uint64
  pi_suffix :: bytes
  pi_order :: uint32
  pi_size :: uint32

text \<open>
  The library functions that decide how the bytes of a table look. \<open>snappy.Encode\<close> and \<open>snappy.Decode\<close> (an error is
  \<open>None\<close>) are the compressor; \<open>sorted_prefixes\<close> is the order in which \<open>sort.Sort\<close> leaves the entries of an index,
  since it promises nothing about entries with equal prefixes.
\<close>

record libs =
  snappy_encode :: "bytes \<Rightarrow> bytes"
  snappy_decode :: "bytes \<Rightarrow> bytes option"
  sorted_prefixes :: "prefixIndexRec list \<Rightarrow> prefixIndexRec list"

text \<open>
  \<open>sort.Sort(prefixIndexSlice)\<close>: any permutation that is ordered by prefix. A list that is not one stands for the
  stable one.
\<close>

definition sort_Sort :: "libs \<Rightarrow> prefixIndexRec list \<Rightarrow> prefixIndexRec list" where
  "sort_Sort sn ps =
     (let qs = sorted_prefixes sn ps
      in if mset qs = mset ps \<and> sorted (map pi_prefix qs) then qs else Sort pi_prefix ps)"

lemma mset_sort_Sort [simp]: "mset (sort_Sort sn ps) = mset ps"
  by (simp add: sort_Sort_def Let_def)

lemma sorted_sort_Sort [simp]: "sorted (map pi_prefix (sort_Sort sn ps))"
  by (simp add: sort_Sort_def Let_def)

lemma length_sort_Sort [simp]: "length (sort_Sort sn ps) = length ps"
  by (metis mset_sort_Sort size_mset)

lemma sort_Sort_Nil [simp]: "sort_Sort sn [] = []"
  by (metis length_0_conv length_sort_Sort)

lemma set_sort_Sort [simp]: "set (sort_Sort sn ps) = set ps"
  by (metis mset_sort_Sort set_mset_mset)

text \<open>
  What the writer and the readers need of the compressor: for every input that it takes, decoding inverts encoding,
  and the encoding of \<open>n\<close> bytes has at most \<open>30 + n + n/6\<close> bytes. The package documents two bytes more,
  with which \<open>maxTableSize\<close> would be too small; \<open>snappy_ok_vendored\<close> shows that the vendored package keeps the bound.
\<close>

definition snappy_ok :: "libs \<Rightarrow> bool" where
  "snappy_ok sn \<longleftrightarrow>
     (\<forall>d. 0 \<le> MaxEncodedLen (length d) \<longrightarrow>
        snappy_decode sn (snappy_encode sn d) = Some d \<and>
        length (snappy_encode sn d) \<le> 30 + length d + length d div 6)"

definition vendored :: "(prefixIndexRec list \<Rightarrow> prefixIndexRec list) \<Rightarrow> libs" where
  "vendored srt =
     \<lparr>snappy_encode = (\<lambda>d. case Encode d of Inr bs \<Rightarrow> bs | Inl _ \<Rightarrow> []), snappy_decode = Decode, sorted_prefixes = srt\<rparr>"

lemma snappy_ok_vendored: "snappy_ok (vendored srt)"
  unfolding snappy_ok_def vendored_def using Encode_ok by force

subsection \<open>The table writer (table_writer.go)\<close>

text \<open>\<open>tw_blockHash\<close> holds the bytes written to the running SHA-512 digest.\<close>

record tableWriter =
  tw_buff :: bytes
  tw_pos :: nat
  tw_totalPhysicalData :: nat
  tw_prefixes :: "prefixIndexRec list"
  tw_blockHash :: bytes

text \<open>The arguments are \<open>uint64\<close>, and so are the product and the sum.\<close>

definition maxTableSize :: "nat \<Rightarrow> nat \<Rightarrow> nat res" where
  "maxTableSize numChunks totalData =
     (if numChunks = 0 then Inl DivideByZero
      else let avgChunkSize = totalData div numChunks
           in chk (avgChunkSize < maxChunkSize)
                (let maxSnappySize = MaxEncodedLen avgChunkSize
                 in chk (maxSnappySize > 0)
                      (Inr ((numChunks * (prefixTupleSize + lengthSize + addrSuffixSize + checksumSize
                              + nat maxSnappySize) + footerSize) mod 2 ^ 64))))"

definition indexSize :: "uint32 \<Rightarrow> nat" where
  "indexSize numChunks = unat numChunks * (addrSuffixSize + lengthSize + prefixTupleSize)"

definition newTableWriter :: "bytes \<Rightarrow> tableWriter" where
  "newTableWriter buff =
     \<lparr>tw_buff = buff, tw_pos = 0, tw_totalPhysicalData = 0, tw_prefixes = [], tw_blockHash = []\<rparr>"

text \<open>
  \<open>snappy.Encode(dst, data)\<close> compresses straight into \<open>dst\<close> when \<open>dst\<close> can hold any encoding of
  the data, and into a new slice otherwise; \<open>dst\<close> then keeps its bytes.
\<close>

definition snappy_Encode :: "libs \<Rightarrow> bytes \<Rightarrow> nat \<Rightarrow> bytes \<Rightarrow> (bytes \<times> bytes) res" where
  "snappy_Encode sn buff pos data =
     (let n = MaxEncodedLen (length data); compressed = snappy_encode sn data
      in if n < 0 then Inl (Panic ''snappy: decoded block is too large'')
         else if length buff < pos then Inl IndexOutOfRange
         else if int (length buff - pos) < n then Inr (buff, compressed)
         else Inr (write_at pos compressed buff, compressed))"

definition tw_addChunk :: "libs \<Rightarrow> tableWriter \<Rightarrow> addr \<Rightarrow> bytes \<Rightarrow> tableWriter res" where
  "tw_addChunk sn tw h data =
     (if length data = 0 then Inl (Panic ''NBS blocks cannont be zero length'')
      else rbind (snappy_Encode sn (tw_buff tw) (tw_pos tw) data) (\<lambda>(buff, compressed).
        let dataLength = length compressed; pos = tw_pos tw + dataLength
        in rbind (write_res pos (put_uint32 (crc data)) buff) (\<lambda>buff'.
             Inr (tw\<lparr>tw_buff := buff',
                     tw_pos := pos + checksumSize,
                     tw_totalPhysicalData := tw_totalPhysicalData tw + dataLength,
                     tw_prefixes := tw_prefixes tw @
                       [\<lparr>pi_prefix = Prefix h, pi_suffix = Suffix h,
                         pi_order = of_nat (length (tw_prefixes tw)),
                         pi_size = of_nat (checksumSize + dataLength)\<rparr>]\<rparr>))))"

text \<open>\<open>copy(buff[pos:], bs)\<close> followed by the check that all of \<open>bs\<close> was copied.\<close>

definition copy_chk :: "nat \<Rightarrow> bytes \<Rightarrow> bytes \<Rightarrow> bytes res" where
  "copy_chk pos bs buff =
     (if length buff < pos then Inl IndexOutOfRange
      else chk (pos + length bs \<le> length buff) (Inr (write_at pos bs buff)))"

definition writeIndex_step ::
    "nat \<Rightarrow> nat \<Rightarrow> bytes \<times> nat \<times> bytes \<Rightarrow> prefixIndexRec \<Rightarrow> (bytes \<times> nat \<times> bytes) res" where
  "writeIndex_step lengthsOffset suffixesOffset s p =
     (case s of (buff, pos, digest) \<Rightarrow>
        let pfxScratch = put_uint64 (pi_prefix p);
            digest' = digest @ pfxScratch @ pi_suffix p
        in rbind (copy_chk pos pfxScratch buff) (\<lambda>buff1.
           let pos1 = pos + addrPrefixSize
           in rbind (write_res pos1 (put_uint32 (pi_order p)) buff1) (\<lambda>buff2.
              let pos2 = pos1 + ordinalSize;
                  offset = lengthsOffset + unat (pi_order p) * lengthSize
              in rbind (write_res offset (put_uint32 (pi_size p)) buff2) (\<lambda>buff3.
                 let offset' = suffixesOffset + unat (pi_order p) * addrSuffixSize
                 in rbind (copy_chk offset' (pi_suffix p) buff3) (\<lambda>buff4.
                      Inr (buff4, pos2, digest'))))))"

definition writeIndex :: "libs \<Rightarrow> tableWriter \<Rightarrow> tableWriter res" where
  "writeIndex sn tw =
     (let prefixes = sort_Sort sn (tw_prefixes tw);
          numRecords = length prefixes;
          lengthsOffset = tw_pos tw + numRecords * prefixTupleSize;
          suffixesOffset = lengthsOffset + numRecords * lengthSize
      in rbind (foldM_res (writeIndex_step lengthsOffset suffixesOffset)
                  (tw_buff tw, tw_pos tw, tw_blockHash tw) prefixes)
           (\<lambda>(buff, pos, digest).
              Inr (tw\<lparr>tw_buff := buff, tw_pos := suffixesOffset + numRecords * addrSuffixSize,
                      tw_prefixes := prefixes, tw_blockHash := digest\<rparr>)))"

definition writeFooter :: "tableWriter \<Rightarrow> tableWriter res" where
  "writeFooter tw =
     rbind (write_res (tw_pos tw) (put_uint32 (of_nat (length (tw_prefixes tw)))) (tw_buff tw)) (\<lambda>buff.
       let pos = tw_pos tw + uint32Size
       in rbind (write_res pos (put_uint64 (of_nat (tw_totalPhysicalData tw))) buff) (\<lambda>buff'.
            let pos' = pos + uint64Size
            in if length buff' < pos' then Inl IndexOutOfRange
               else Inr (tw\<lparr>tw_buff := write_at pos' (take (length buff' - pos') magicNumber) buff',
                            tw_pos := pos' + magicNumberSize\<rparr>)))"

definition finish :: "libs \<Rightarrow> tableWriter \<Rightarrow> (tableWriter \<times> nat \<times> addr) res" where
  "finish sn tw =
     rbind (writeIndex sn tw) (\<lambda>tw1. rbind (writeFooter tw1) (\<lambda>tw2.
       Inr (tw2, tw_pos tw2, copy_hash (Sum512 (tw_blockHash tw2)))))"

subsection \<open>The layout of a table\<close>

text \<open>A table is built from chunks in insertion order, each under its address.\<close>

type_synonym table_chunk = "addr \<times> bytes"

definition chunk_record :: "libs \<Rightarrow> bytes \<Rightarrow> bytes" where
  "chunk_record sn d = snappy_encode sn d @ put_uint32 (crc d)"

definition chunk_records :: "libs \<Rightarrow> table_chunk list \<Rightarrow> bytes" where
  "chunk_records sn cs = concat (map (\<lambda>c. chunk_record sn (snd c)) cs)"

definition index_entry :: "libs \<Rightarrow> nat \<Rightarrow> table_chunk \<Rightarrow> prefixIndexRec" where
  "index_entry sn i c =
     \<lparr>pi_prefix = Prefix (fst c), pi_suffix = Suffix (fst c), pi_order = of_nat i,
      pi_size = of_nat (length (chunk_record sn (snd c)))\<rparr>"

definition index_entries :: "libs \<Rightarrow> table_chunk list \<Rightarrow> prefixIndexRec list" where
  "index_entries sn cs = map (\<lambda>i. index_entry sn i (cs ! i)) [0..<length cs]"

definition prefix_map_image :: "prefixIndexRec list \<Rightarrow> bytes" where
  "prefix_map_image ps = concat (concat (map (\<lambda>p. [put_uint64 (pi_prefix p), put_uint32 (pi_order p)]) ps))"

definition index_image :: "libs \<Rightarrow> prefixIndexRec list \<Rightarrow> bytes" where
  "index_image sn es =
     prefix_map_image (sort_Sort sn es)
     @ concat (map (\<lambda>p. put_uint32 (pi_size p)) es) @ concat (map pi_suffix es)"

definition footer_image :: "libs \<Rightarrow> table_chunk list \<Rightarrow> bytes" where
  "footer_image sn cs =
     put_uint32 (of_nat (length cs))
     @ put_uint64 (of_nat (sum_list (map (\<lambda>c. length (snappy_encode sn (snd c))) cs)))
     @ magicNumber"

definition table_image :: "libs \<Rightarrow> table_chunk list \<Rightarrow> bytes" where
  "table_image sn cs = chunk_records sn cs @ index_image sn (index_entries sn cs) @ footer_image sn cs"

definition table_name :: "libs \<Rightarrow> table_chunk list \<Rightarrow> addr" where
  "table_name sn cs =
     copy_hash (Sum512 (concat (map (\<lambda>p. put_uint64 (pi_prefix p) @ pi_suffix p)
       (sort_Sort sn (index_entries sn cs)))))"

lemma length_magicNumber [simp]: "length magicNumber = 8"
  by (simp add: magicNumber_def)

lemma length_Suffix [simp]: "length (Suffix a) = 12"
  by (simp add: Suffix_def)

lemma length_chunk_record [simp]: "length (chunk_record sn d) = 4 + length (snappy_encode sn d)"
  by (simp add: chunk_record_def)

lemma index_entries_snoc:
  "index_entries sn (cs @ [c]) = index_entries sn cs @ [index_entry sn (length cs) c]"
  by (auto simp: index_entries_def nth_append)

lemma length_index_entries [simp]: "length (index_entries sn cs) = length cs"
  by (simp add: index_entries_def)

lemma nth_index_entries [simp]: "i < length cs \<Longrightarrow> index_entries sn cs ! i = index_entry sn i (cs ! i)"
  by (simp add: index_entries_def)

lemma chunk_records_simps [simp]:
  "chunk_records sn [] = []"
  "chunk_records sn (c # cs) = chunk_record sn (snd c) @ chunk_records sn cs"
  "chunk_records sn (cs @ ds) = chunk_records sn cs @ chunk_records sn ds"
  by (simp_all add: chunk_records_def)

lemma length_concat_const: "(\<And>x. x \<in> set xss \<Longrightarrow> length x = n) \<Longrightarrow> length (concat xss) = n * length xss"
  by (induction xss) auto

lemma length_prefix_map_image [simp]: "length (prefix_map_image ps) = 12 * length ps"
  unfolding prefix_map_image_def by (induction ps) auto

lemma length_index_image:
  assumes "\<And>e. e \<in> set es \<Longrightarrow> length (pi_suffix e) = 12"
  shows "length (index_image sn es) = 28 * length es"
proof -
  have "length (concat (map pi_suffix es)) = 12 * length es"
    using length_concat_const [of "map pi_suffix es" 12] assms by auto
  moreover have "length (concat (map (\<lambda>p. put_uint32 (pi_size p)) es)) = 4 * length es"
    by (induction es) auto
  ultimately show ?thesis by (simp add: index_image_def)
qed

lemma suffix_index_entries: "e \<in> set (index_entries sn cs) \<Longrightarrow> length (pi_suffix e) = 12"
  by (auto simp: index_entries_def index_entry_def)

lemma length_footer_image [simp]: "length (footer_image sn cs) = 20"
  by (simp add: footer_image_def)

lemma length_table_image:
  "length (table_image sn cs) = length (chunk_records sn cs) + 28 * length cs + 20"
  using length_index_image [of "index_entries sn cs"] suffix_index_entries
  by (simp add: table_image_def)

subsection \<open>Adding chunks\<close>

definition writer_state :: "libs \<Rightarrow> bytes \<Rightarrow> table_chunk list \<Rightarrow> tableWriter" where
  "writer_state sn buff cs =
     \<lparr>tw_buff = write_at 0 (chunk_records sn cs) buff,
      tw_pos = length (chunk_records sn cs),
      tw_totalPhysicalData = sum_list (map (\<lambda>c. length (snappy_encode sn (snd c))) cs),
      tw_prefixes = index_entries sn cs,
      tw_blockHash = []\<rparr>"

lemma writer_state_Nil [simp]: "writer_state sn buff [] = newTableWriter buff"
  by (simp add: writer_state_def newTableWriter_def index_entries_def write_at_def)

lemma write_at_write_at_end:
  "length a + length b \<le> length buff \<Longrightarrow>
     write_at (length a) b (write_at 0 a buff) = write_at 0 (a @ b) buff"
  by (simp add: write_at_def add.commute)

lemma tw_addChunk_step:
  assumes d: "d \<noteq> []" and max: "0 \<le> MaxEncodedLen (length d)"
    and room: "int (length (chunk_records sn cs)) + MaxEncodedLen (length d) \<le> int (length buff)"
    and fits: "length (chunk_records sn cs) + length (chunk_record sn d) \<le> length buff"
  shows "tw_addChunk sn (writer_state sn buff cs) h d = Inr (writer_state sn buff (cs @ [(h, d)]))"
proof -
  let ?pos = "length (chunk_records sn cs)" and ?enc = "snappy_encode sn d"
  have len: "length (write_at 0 (chunk_records sn cs) buff) = length buff"
    using fits by simp
  have enc: "snappy_Encode sn (write_at 0 (chunk_records sn cs) buff) ?pos d
      = Inr (write_at 0 (chunk_records sn cs @ ?enc) buff, ?enc)"
    using max room fits len
    by (simp add: snappy_Encode_def Let_def chunk_record_def write_at_write_at_end)
  have "write_at (?pos + length ?enc) (put_uint32 (crc d)) (write_at 0 (chunk_records sn cs @ ?enc) buff)
      = write_at 0 (chunk_records sn cs @ chunk_record sn d) buff"
    using fits write_at_write_at_end [of "chunk_records sn cs @ ?enc" "put_uint32 (crc d)" buff]
    by (simp add: chunk_record_def)
  then have wr: "write_res (?pos + length ?enc) (put_uint32 (crc d))
        (write_at 0 (chunk_records sn cs @ ?enc) buff)
      = Inr (write_at 0 (chunk_records sn cs @ chunk_record sn d) buff)"
    using fits by (simp add: write_res_def)
  show ?thesis
    using d unfolding tw_addChunk_def writer_state_def
    by (simp add: enc wr Let_def index_entries_snoc index_entry_def)
qed

text \<open>What the writer needs of its buffer: room for any encoding, at every chunk.\<close>

definition writer_room :: "libs \<Rightarrow> nat \<Rightarrow> table_chunk list \<Rightarrow> bool" where
  "writer_room sn n cs \<longleftrightarrow>
     (\<forall>i < length cs.
        snd (cs ! i) \<noteq> [] \<and> 0 \<le> MaxEncodedLen (length (snd (cs ! i))) \<and>
        int (length (chunk_records sn (take i cs))) + MaxEncodedLen (length (snd (cs ! i))) \<le> int n \<and>
        length (chunk_records sn (take (Suc i) cs)) \<le> n)"

lemma writer_room_snoc:
  assumes "writer_room sn n (cs @ [c])"
  shows "writer_room sn n cs"
    and "snd c \<noteq> []" and "0 \<le> MaxEncodedLen (length (snd c))"
    and "int (length (chunk_records sn cs)) + MaxEncodedLen (length (snd c)) \<le> int n"
    and "length (chunk_records sn cs) + length (chunk_record sn (snd c)) \<le> n"
proof -
  note room = assms [unfolded writer_room_def, rule_format]
  show "writer_room sn n cs"
    unfolding writer_room_def
  proof (intro allI impI)
    fix i assume i: "i < length cs"
    with room [of i] show "snd (cs ! i) \<noteq> [] \<and> 0 \<le> MaxEncodedLen (length (snd (cs ! i))) \<and>
        int (length (chunk_records sn (take i cs))) + MaxEncodedLen (length (snd (cs ! i))) \<le> int n \<and>
        length (chunk_records sn (take (Suc i) cs)) \<le> n"
      by (simp add: nth_append)
  qed
  show "snd c \<noteq> []" and "0 \<le> MaxEncodedLen (length (snd c))"
    and "int (length (chunk_records sn cs)) + MaxEncodedLen (length (snd c)) \<le> int n"
    and "length (chunk_records sn cs) + length (chunk_record sn (snd c)) \<le> n"
    using room [of "length cs"] by simp_all
qed

lemma tw_addChunks:
  assumes "writer_room sn (length buff) cs"
  shows "foldM_res (\<lambda>tw c. tw_addChunk sn tw (fst c) (snd c)) (newTableWriter buff) cs
           = Inr (writer_state sn buff cs)"
  using assms
proof (induction cs rule: rev_induct)
  case (snoc c cs)
  note room = writer_room_snoc [OF snoc.prems]
  then show ?case
    using snoc.IH tw_addChunk_step [OF room(2-5), of "fst c"] by (simp add: foldM_res_append)
qed simp

subsection \<open>Finishing a table\<close>

fun index_writes :: "nat \<Rightarrow> nat \<Rightarrow> nat \<Rightarrow> prefixIndexRec list \<Rightarrow> (nat \<times> bytes) list" where
  "index_writes lo so pos [] = []"
| "index_writes lo so pos (p # ps) =
     [(pos, put_uint64 (pi_prefix p)), (pos + 8, put_uint32 (pi_order p)),
      (lo + unat (pi_order p) * 4, put_uint32 (pi_size p)),
      (so + unat (pi_order p) * 12, pi_suffix p)] @ index_writes lo so (pos + 12) ps"

lemma writeIndex_loop:
  assumes "writes_fit (length buff) (index_writes lo so pos ps)"
  shows "foldM_res (writeIndex_step lo so) (buff, pos, digest) ps
    = Inr (apply_writes (index_writes lo so pos ps) buff, pos + 12 * length ps,
           digest @ concat (map (\<lambda>p. put_uint64 (pi_prefix p) @ pi_suffix p) ps))"
  using assms
proof (induction ps arbitrary: buff pos digest)
  case (Cons p ps)
  have "writeIndex_step lo so (buff, pos, digest) p
      = Inr (apply_writes (index_writes lo so pos [p]) buff, pos + 12,
             digest @ put_uint64 (pi_prefix p) @ pi_suffix p)"
    using Cons.prems by (simp add: writeIndex_step_def copy_chk_def Let_def)
  then show ?case
    using Cons by (simp add: algebra_simps)
qed simp

lemma tile_map_const:
  assumes "\<And>i. i < length es \<Longrightarrow> length (f (es ! i)) = w \<and> k (es ! i) = i"
  shows "tile p (map f es) = map (\<lambda>e. (p + k e * w, f e)) es"
  using assms
proof (induction es rule: rev_induct)
  case (snoc e es)
  have IH: "tile p (map f es) = map (\<lambda>e. (p + k e * w, f e)) es"
    using snoc.prems by (intro snoc.IH) (metis length_append_singleton less_SucI nth_append)
  have "length (concat (map f es)) = w * length (map f es)"
    using snoc.prems
    by (intro length_concat_const)
      (auto simp: in_set_conv_nth, metis length_append_singleton less_SucI nth_append)
  moreover have "k e = length es"
    using snoc.prems [of "length es"] by simp
  ultimately show ?case
    by (simp add: IH mult.commute)
qed simp

lemma mset_index_writes:
  "mset (index_writes lo so pos ps) =
     mset (tile pos (concat (map (\<lambda>p. [put_uint64 (pi_prefix p), put_uint32 (pi_order p)]) ps)))
     + image_mset (\<lambda>p. (lo + unat (pi_order p) * 4, put_uint32 (pi_size p))) (mset ps)
     + image_mset (\<lambda>p. (so + unat (pi_order p) * 12, pi_suffix p)) (mset ps)"
  by (induction ps arbitrary: pos) (simp_all add: add.assoc)

lemma index_entries_order:
  assumes "length cs < 2 ^ 32" and "i < length cs"
  shows "unat (pi_order (index_entries sn cs ! i)) = i"
  using assms by (simp add: index_entry_def unat_of_nat)

lemma mset_index_writes_tile:
  fixes sn cs pos
  defines "es \<equiv> index_entries sn cs"
  assumes n: "length cs < 2 ^ 32"
  shows "mset (index_writes (pos + length cs * 12) (pos + length cs * 12 + length cs * 4) pos (sort_Sort sn es))
    = mset (tile pos (concat (map (\<lambda>p. [put_uint64 (pi_prefix p), put_uint32 (pi_order p)]) (sort_Sort sn es))
              @ map (\<lambda>p. put_uint32 (pi_size p)) es @ map pi_suffix es))"
proof -
  have order: "unat (pi_order (es ! i)) = i" if "i < length es" for i
    using index_entries_order [OF n, of i sn] that by (simp add: es_def)
  have suffix: "length (pi_suffix (es ! i)) = 12" if "i < length es" for i
    using that by (simp add: es_def index_entry_def)
  have lens: "tile lo (map (\<lambda>p. put_uint32 (pi_size p)) es)
      = map (\<lambda>e. (lo + unat (pi_order e) * 4, put_uint32 (pi_size e))) es" for lo
    using order by (intro tile_map_const) simp
  have sufs: "tile so (map pi_suffix es) = map (\<lambda>e. (so + unat (pi_order e) * 12, pi_suffix e)) es" for so
    using order suffix by (intro tile_map_const) simp
  have tuples: "length (concat (concat (map (\<lambda>p. [put_uint64 (pi_prefix p), put_uint32 (pi_order p)])
      (sort_Sort sn es)))) = length cs * 12"
    using length_prefix_map_image [of "sort_Sort sn es"] by (simp add: prefix_map_image_def es_def)
  have "length (concat (map (\<lambda>p. put_uint32 (pi_size p)) xs)) = length xs * 4"
    for xs :: "prefixIndexRec list"
    by (induction xs) auto
  then have sizes: "length (concat (map (\<lambda>p. put_uint32 (pi_size p)) es)) = length cs * 4"
    by (simp add: es_def)
  show ?thesis
    unfolding mset_index_writes tile_append lens sufs tuples sizes by (simp add: add.assoc)
qed

lemma concat_tuple: "concat (concat (map (\<lambda>p. [f p, g p]) ps)) = concat (map (\<lambda>p. f p @ g p) ps)"
  by (induction ps) auto

lemma writeIndex_image:
  fixes sn cs
  defines "es \<equiv> index_entries sn cs"
  assumes es: "tw_prefixes tw = es" and n: "length cs < 2 ^ 32"
    and fits: "tw_pos tw + 28 * length cs \<le> length (tw_buff tw)"
  shows "writeIndex sn tw =
    Inr (tw\<lparr>tw_buff := write_at (tw_pos tw) (index_image sn es) (tw_buff tw),
            tw_pos := tw_pos tw + 28 * length cs,
            tw_prefixes := sort_Sort sn es,
            tw_blockHash := tw_blockHash tw
              @ concat (map (\<lambda>p. put_uint64 (pi_prefix p) @ pi_suffix p) (sort_Sort sn es))\<rparr>)"
proof -
  let ?pos = "tw_pos tw" and ?ps = "sort_Sort sn es"
  let ?lo = "?pos + length cs * 12"
  let ?so = "?lo + length cs * 4"
  let ?ws = "index_writes ?lo ?so ?pos ?ps"
  let ?ds = "concat (map (\<lambda>p. [put_uint64 (pi_prefix p), put_uint32 (pi_order p)]) ?ps)
              @ map (\<lambda>p. put_uint32 (pi_size p)) es @ map pi_suffix es"
  have ms: "mset ?ws = mset (tile ?pos ?ds)"
    unfolding es_def by (rule mset_index_writes_tile [OF n])
  have img: "concat ?ds = index_image sn es"
    by (simp add: index_image_def prefix_map_image_def)
  have len: "?pos + length (concat ?ds) \<le> length (tw_buff tw)"
    using fits length_index_image [of es] suffix_index_entries [of _ sn cs]
    unfolding img by (simp add: es_def)
  have "d \<noteq> []" if "d \<in> set ?ds" for d
    using that suffix_index_entries [of _ sn cs] by (force simp: es_def)
  then have writes: "apply_writes ?ws (tw_buff tw) = write_at ?pos (index_image sn es) (tw_buff tw)"
    using apply_writes_tile_perm [OF ms len] img by simp
  have "writes_fit (length (tw_buff tw)) (tile ?pos ?ds)"
    using len by (cases "?ds = []") (auto simp del: tile_append)
  then have fit: "writes_fit (length (tw_buff tw)) ?ws"
    using mset_eq_setD [OF ms] by (simp only: writes_fit_def)
  have "length es = length cs" by (simp add: es_def)
  then show ?thesis
    using writeIndex_loop [OF fit, of "tw_blockHash tw"] writes
    by (simp add: writeIndex_def es Let_def mult.commute)
qed

lemma writeFooter_image:
  assumes buff: "tw_buff tw = write_at 0 a buff" and pos: "tw_pos tw = length a"
    and fits: "length a + 20 \<le> length buff"
  shows "writeFooter tw =
    Inr (tw\<lparr>tw_buff := write_at 0 (a @ put_uint32 (of_nat (length (tw_prefixes tw)))
               @ put_uint64 (of_nat (tw_totalPhysicalData tw)) @ magicNumber) buff,
            tw_pos := length a + 20\<rparr>)"
proof -
  let ?c = "put_uint32 (of_nat (length (tw_prefixes tw)))"
  let ?t = "put_uint64 (of_nat (tw_totalPhysicalData tw))"
  have w1: "write_at (length a) ?c (write_at 0 a buff) = write_at 0 (a @ ?c) buff"
    using fits by (intro write_at_write_at_end) simp
  have w2: "write_at (length a + 4) ?t (write_at 0 (a @ ?c) buff) = write_at 0 (a @ ?c @ ?t) buff"
    using fits write_at_write_at_end [of "a @ ?c" ?t buff] by simp
  have w3: "write_at (length a + 12) magicNumber (write_at 0 (a @ ?c @ ?t) buff)
      = write_at 0 (a @ ?c @ ?t @ magicNumber) buff"
    using fits write_at_write_at_end [of "a @ ?c @ ?t" magicNumber buff] by simp
  have p: "length a + 4 + 8 = length a + 12" "length a + 12 + 8 = length a + 20"
    by simp_all
  show ?thesis
    using fits unfolding writeFooter_def buff pos Let_def p
    by (simp add: w1 w2 w3 add.commute)
qed

text \<open>
  The writer, given room for every chunk and a buffer that holds the image, leaves the image at the
  front of its buffer and names the table by the digest of its sorted addresses.
\<close>

lemma finish_image:
  assumes n: "length cs < 2 ^ 32" and fits: "length (table_image sn cs) \<le> length buff"
  shows "\<exists>tw. finish sn (writer_state sn buff cs) = Inr (tw, length (table_image sn cs), table_name sn cs)
    \<and> take (length (table_image sn cs)) (tw_buff tw) = table_image sn cs"
proof -
  let ?es = "index_entries sn cs" and ?recs = "chunk_records sn cs"
  let ?tw = "writer_state sn buff cs"
  have lens: "length ?recs + 28 * length cs + 20 \<le> length buff"
    using fits by (simp add: length_table_image)
  have li: "length (index_image sn ?es) = 28 * length cs"
    using length_index_image [of ?es] suffix_index_entries [of _ sn cs] by simp
  have index: "writeIndex sn ?tw =
    Inr (?tw\<lparr>tw_buff := write_at 0 (?recs @ index_image sn ?es) buff,
             tw_pos := length ?recs + 28 * length cs, tw_prefixes := sort_Sort sn ?es,
             tw_blockHash := concat (map (\<lambda>p. put_uint64 (pi_prefix p) @ pi_suffix p) (sort_Sort sn ?es))\<rparr>)"
    using lens writeIndex_image [of ?tw sn cs] n write_at_write_at_end [of ?recs "index_image sn ?es" buff] li
    by (simp add: writer_state_def)
  have image: "(?recs @ index_image sn ?es) @ put_uint32 (of_nat (length cs))
      @ put_uint64 (of_nat (tw_totalPhysicalData ?tw)) @ magicNumber = table_image sn cs"
    by (simp add: table_image_def footer_image_def writer_state_def)
  let ?tw1 = "?tw\<lparr>tw_buff := write_at 0 (?recs @ index_image sn ?es) buff,
             tw_pos := length ?recs + 28 * length cs, tw_prefixes := sort_Sort sn ?es,
             tw_blockHash := concat (map (\<lambda>p. put_uint64 (pi_prefix p) @ pi_suffix p) (sort_Sort sn ?es))\<rparr>"
  have "writeFooter ?tw1 = Inr (?tw1\<lparr>tw_buff := write_at 0 (table_image sn cs) buff,
      tw_pos := length (table_image sn cs)\<rparr>)"
    using writeFooter_image [of ?tw1 "?recs @ index_image sn ?es" buff] lens li image
    by (simp add: length_table_image)
  then show ?thesis
    using fits unfolding finish_def index
    by (simp add: table_name_def write_at_def)
qed

subsection \<open>The buffer is large enough\<close>

abbreviation data_size :: "table_chunk list \<Rightarrow> nat" where
  "data_size cs \<equiv> sum_list (map (\<lambda>c. length (snd c)) cs)"

lemma length_chunk_records_bound:
  assumes "snappy_ok sn" and "\<And>c. c \<in> set cs \<Longrightarrow> 0 \<le> MaxEncodedLen (length (snd c))"
  shows "length (chunk_records sn cs) \<le> 34 * length cs + data_size cs + data_size cs div 6"
  using assms(2)
proof (induction cs)
  case (Cons c cs)
  have "length (snappy_encode sn (snd c)) \<le> 30 + length (snd c) + length (snd c) div 6"
    using assms(1) Cons.prems [of c] by (simp add: snappy_ok_def)
  moreover have "length (chunk_records sn cs) \<le> 34 * length cs + data_size cs + data_size cs div 6"
    using Cons by simp
  ultimately show ?case by simp
qed simp

text \<open>The size of a table of \<open>n\<close> chunks with \<open>tot\<close> bytes is computed without wrapping around.\<close>

definition size_fits :: "nat \<Rightarrow> nat \<Rightarrow> bool" where
  "size_fits n tot \<longleftrightarrow> n * (64 + tot div n + tot div n div 6) + 20 < 2 ^ 64"

lemma maxTableSize_value:
  assumes "maxTableSize n tot = Inr sz" and "size_fits n tot"
  shows "0 < n" and "sz = n * (64 + tot div n + tot div n div 6) + 20"
proof -
  show "0 < n"
    using assms(1) by (auto simp: maxTableSize_def split: if_splits)
  have "nat (32 + int a + int b) = 32 + a + b" for a b
    by (simp add: nat_add_distrib)
  then show "sz = n * (64 + tot div n + tot div n div 6) + 20"
    using assms
    by (auto simp: maxTableSize_def size_fits_def MaxEncodedLen_def Let_def chk_def add.assoc split: if_splits)
qed

lemma maxTableSize_lower:
  assumes "maxTableSize n tot = Inr sz" and "size_fits n tot"
  shows "62 * n + tot + tot div 6 + 20 \<le> sz"
proof -
  define a q where "a = tot div n" and "q = a div 6"
  have n: "0 < n" and sz: "sz = n * (64 + a + q) + 20"
    using maxTableSize_value [OF assms] by (simp_all add: a_def q_def)
  have t: "tot + 1 \<le> n * a + n"
  proof -
    have "tot = n * a + tot mod n" by (simp add: a_def)
    moreover have "tot mod n < n" using n by simp
    ultimately show ?thesis by linarith
  qed
  have "a \<le> 6 * q + 5" by (simp add: q_def)
  then have "n * a \<le> n * (6 * q + 5)" by (rule mult_le_mono2)
  then have na: "n * a \<le> 6 * (n * q) + 5 * n" by (simp add: algebra_simps)
  have "tot div 6 \<le> n * q + n"
    using t na by linarith
  then show ?thesis
    using t sz by (simp add: algebra_simps)
qed

lemma chunk_records_take_le:
  "length (chunk_records sn (take i cs)) \<le> length (chunk_records sn cs)"
proof -
  have "chunk_records sn cs = chunk_records sn (take i cs) @ chunk_records sn (drop i cs)"
    by (metis append_take_drop_id chunk_records_simps(3))
  then show ?thesis by simp
qed

lemma data_size_take: "i < length cs \<Longrightarrow> data_size (take i cs) + length (snd (cs ! i)) \<le> data_size cs"
proof -
  assume "i < length cs"
  then have "cs = take i cs @ cs ! i # drop (Suc i) cs"
    by (simp add: id_take_nth_drop)
  then have "data_size cs = data_size (take i cs @ cs ! i # drop (Suc i) cs)"
    by simp
  then show ?thesis by simp
qed

lemma maxTableSize_room:
  assumes ok: "snappy_ok sn" and sz: "maxTableSize n tot = Inr sz" and nowrap: "size_fits n tot"
    and n: "length cs \<le> n" and tot: "data_size cs \<le> tot"
    and cs: "\<And>c. c \<in> set cs \<Longrightarrow> snd c \<noteq> [] \<and> 0 \<le> MaxEncodedLen (length (snd c))"
  shows "writer_room sn sz cs \<and> length (table_image sn cs) \<le> sz"
proof
  have bound: "length (chunk_records sn cs) \<le> 34 * length cs + data_size cs + data_size cs div 6"
    using cs by (intro length_chunk_records_bound [OF ok]) simp
  then have recs: "length (chunk_records sn cs) \<le> 34 * n + tot + tot div 6"
    using n tot div_le_mono [OF tot, of 6] by linarith
  have low: "62 * n + tot + tot div 6 + 20 \<le> sz"
    by (rule maxTableSize_lower [OF sz nowrap])
  show "length (table_image sn cs) \<le> sz"
    using bound n tot div_le_mono [OF tot, of 6] low
    unfolding length_table_image by linarith
  show "writer_room sn sz cs"
    unfolding writer_room_def
  proof (intro allI impI conjI)
    fix i assume i: "i < length cs"
    let ?l = "length (snd (cs ! i))"
    have c: "snd (cs ! i) \<noteq> [] \<and> 0 \<le> MaxEncodedLen ?l"
      using cs i by simp
    then show "snd (cs ! i) \<noteq> []" and "0 \<le> MaxEncodedLen ?l" by simp_all
    have max: "MaxEncodedLen ?l = int (32 + ?l + ?l div 6)"
      using c by (auto simp: MaxEncodedLen_def Let_def split: if_splits)
    have "length (chunk_records sn (take i cs)) \<le> 34 * i + data_size (take i cs) + data_size (take i cs) div 6"
      using length_chunk_records_bound [OF ok, of "take i cs"] cs in_set_takeD [of _ i cs] i by simp
    moreover have "data_size (take i cs) + ?l \<le> tot"
      using data_size_take [OF i] tot by simp
    ultimately have "length (chunk_records sn (take i cs)) + (32 + ?l + ?l div 6)
        \<le> 34 * i + 32 + tot + tot div 6"
      by linarith
    then show "int (length (chunk_records sn (take i cs))) + MaxEncodedLen ?l \<le> int sz"
      using max low i n by linarith
    show "length (chunk_records sn (take (Suc i) cs)) \<le> sz"
      using chunk_records_take_le [of sn "Suc i" cs] recs low by linarith
  qed
qed

lemma average_le:
  assumes "cs \<noteq> []"
  shows "\<exists>c \<in> set cs. data_size cs div length cs \<le> length (snd c)"
proof (rule ccontr)
  let ?a = "data_size cs div length cs"
  assume "\<not> (\<exists>c \<in> set cs. ?a \<le> length (snd c))"
  then have small: "length (snd c) < ?a" if "c \<in> set cs" for c
    using that by auto
  have "ds \<noteq> [] \<Longrightarrow> set ds \<subseteq> set cs \<Longrightarrow> data_size ds < length ds * ?a" for ds
  proof (induction ds)
    case (Cons d ds)
    then show ?case
      using small [of d] by (cases ds) (auto intro: add_less_mono)
  qed simp
  from this [of cs] have "data_size cs < length cs * ?a"
    using assms by simp
  moreover have "length cs * ?a \<le> data_size cs"
    by (rule times_div_less_eq_dividend)
  ultimately show False by simp
qed

lemma maxTableSize_defined:
  assumes "cs \<noteq> []" and cs: "\<And>c. c \<in> set cs \<Longrightarrow> 0 \<le> MaxEncodedLen (length (snd c))"
  shows "\<exists>sz. maxTableSize (length cs) (data_size cs) = Inr sz"
proof -
  let ?a = "data_size cs div length cs"
  obtain c where c: "c \<in> set cs" and le: "?a \<le> length (snd c)"
    using average_le [OF assms(1)] ..
  then have "32 + length (snd c) + length (snd c) div 6 \<le> 0xffffffff"
    using cs [OF c] by (auto simp: MaxEncodedLen_def Let_def split: if_splits)
  moreover have "?a div 6 \<le> length (snd c) div 6"
    using le by (rule div_le_mono)
  ultimately have "32 + ?a + ?a div 6 \<le> 0xffffffff"
    using le by linarith
  then show ?thesis
    using assms(1) by (auto simp: maxTableSize_def MaxEncodedLen_def Let_def chk_def)
qed

text \<open>
  C6. With the vendored compressor a buffer of \<open>maxTableSize\<close> bytes is large enough, if computing that size does
  not wrap around: whichever of the chunks counted for it are written, none of them empty or too large for the
  compressor, every chunk is compressed in place, no write leaves the buffer, and the finished buffer starts with the
  documented layout of the table, which \<open>finish\<close> names by its sorted addresses. The index is in whichever order
  by prefix the sort leaves it.
\<close>

theorem tableWriter_layout:
  assumes "maxTableSize n tot = Inr sz" and "size_fits n tot" and "length buff = sz"
    and "length cs \<le> n" and "data_size cs \<le> tot" and "length cs < 2 ^ 32"
    and "list_all (\<lambda>c. snd c \<noteq> [] \<and> 0 \<le> MaxEncodedLen (length (snd c))) cs"
  shows "\<exists>tw. rbind (foldM_res (\<lambda>tw c. tw_addChunk (vendored srt) tw (fst c) (snd c)) (newTableWriter buff) cs)
        (finish (vendored srt)) = Inr (tw, length (table_image (vendored srt) cs), table_name (vendored srt) cs)
    \<and> take (length (table_image (vendored srt) cs)) (tw_buff tw) = table_image (vendored srt) cs"
proof -
  have "writer_room (vendored srt) (length buff) cs" and "length (table_image (vendored srt) cs) \<le> length buff"
    using maxTableSize_room [OF snappy_ok_vendored assms(1,2,4,5)] assms(3,7) by (auto simp: list_all_iff)
  then show ?thesis
    using finish_image [OF assms(6)] by (simp add: tw_addChunks)
qed

text \<open>A codec that stores its input, and the stable order, for the witnesses.\<close>

definition stored :: libs where
  "stored = \<lparr>snappy_encode = (\<lambda>d. d), snappy_decode = Some, sorted_prefixes = (\<lambda>ps. ps)\<rparr>"

lemma snappy_ok_stored: "snappy_ok stored"
  by (simp add: snappy_ok_def stored_def)

theorem tableWriter_layout_witness:
  "\<exists>tw. rbind (foldM_res (\<lambda>tw c. tw_addChunk (vendored rev) tw (fst c) (snd c)) (newTableWriter (replicate 85 0))
           [(emptyHash, [7])]) (finish (vendored rev))
      = Inr (tw, length (table_image (vendored rev) [(emptyHash, [7])]), table_name (vendored rev) [(emptyHash, [7])])
    \<and> take (length (table_image (vendored rev) [(emptyHash, [7])])) (tw_buff tw) = table_image (vendored rev) [(emptyHash, [7])]"
proof -
  have "maxTableSize 1 1 = Inr 85"
    by (simp add: maxTableSize_def MaxEncodedLen_def)
  then show ?thesis
    by (rule tableWriter_layout) (simp_all add: MaxEncodedLen_def size_fits_def)
qed

end
