(* ===== verification/NbsReader.thy ===== *)
theory NbsReader
  imports NbsTable
begin

text \<open>
  Reading tables (\<open>go/nbs/table_reader.go\<close>): parsing the index of a table, looking up addresses by
  binary search over the prefixes, single and batched membership tests, reading and checking chunk
  records, and enumerating a table. Batched reads are in the theory after this one.
\<close>

subsection \<open>The index\<close>

record tableIndex =
  ti_chunkCount :: uint32
  ti_prefixes :: "uint64 list"
  ti_offsets :: "uint64 list"
  ti_lengths :: "uint32 list"
  ti_ordinals :: "uint32 list"
  ti_suffixes :: bytes

text \<open>
  \<open>pos -= n\<close> on an unsigned position: when it wraps around, the slice at the new position is out of
  range and panics.
\<close>

definition back_res :: "nat \<Rightarrow> nat \<Rightarrow> nat res" where
  "back_res pos n = (if n \<le> pos then Inr (pos - n) else Inl IndexOutOfRange)"

function computeOffsets_loop ::
    "nat \<Rightarrow> bytes \<Rightarrow> nat \<Rightarrow> uint32 list \<Rightarrow> uint64 list \<Rightarrow> (uint32 list \<times> uint64 list) res" where
  "computeOffsets_loop cnt buff i lengths offsets =
     (if i < cnt
      then rbind (from_res buff (i * lengthSize)) (\<lambda>b. rbind (get_uint32 b) (\<lambda>l.
             computeOffsets_loop cnt buff (Suc i) (lengths @ [l])
               (offsets @ [last offsets + ucast (last lengths)])))
      else Inr (lengths, offsets))"
  by pat_completeness auto
termination
  by (relation "measure (\<lambda>(cnt, buff, i, lengths, offsets). cnt - i)") auto

definition computeOffsets :: "uint32 \<Rightarrow> bytes \<Rightarrow> (uint32 list \<times> uint64 list) res" where
  "computeOffsets cnt buff =
     (if cnt = 0 then Inl IndexOutOfRange
      else rbind (get_uint32 buff) (\<lambda>l. computeOffsets_loop (unat cnt) buff 1 [l] [0]))"

definition computePrefixes :: "uint32 \<Rightarrow> bytes \<Rightarrow> (uint64 list \<times> uint32 list) res" where
  "computePrefixes cnt buff =
     rbind (mapM_res
       (\<lambda>i. let idx = i * prefixTupleSize
            in rbind (from_res buff idx) (\<lambda>b. rbind (get_uint64 b) (\<lambda>p.
               rbind (from_res buff (idx + addrPrefixSize)) (\<lambda>b'. rbind (get_uint32 b') (\<lambda>ord.
                 Inr (p, ord))))))
       [0..<unat cnt])
     (\<lambda>tuples. Inr (map fst tuples, map snd tuples))"

definition parseTableIndex :: "bytes \<Rightarrow> tableIndex res" where
  "parseTableIndex buff =
     rbind (back_res (length buff) magicNumberSize) (\<lambda>pos.
     chk (drop pos buff = magicNumber) (
     rbind (back_res pos uint64Size) (\<lambda>pos.
     rbind (back_res pos uint32Size) (\<lambda>pos.
     rbind (get_uint32 (drop pos buff)) (\<lambda>chunkCount.
     let suffixesSize = unat chunkCount * addrSuffixSize
     in rbind (back_res pos suffixesSize) (\<lambda>pos.
     let suffixes = take suffixesSize (drop pos buff);
         lengthsSize = unat chunkCount * lengthSize
     in rbind (back_res pos lengthsSize) (\<lambda>pos.
     rbind (computeOffsets chunkCount (take lengthsSize (drop pos buff))) (\<lambda>(lengths, offsets).
     let tuplesSize = unat chunkCount * prefixTupleSize
     in rbind (back_res pos tuplesSize) (\<lambda>pos.
     rbind (computePrefixes chunkCount (take tuplesSize (drop pos buff))) (\<lambda>(prefixes, ordinals).
     Inr \<lparr>ti_chunkCount = chunkCount, ti_prefixes = prefixes, ti_offsets = offsets,
          ti_lengths = lengths, ti_ordinals = ordinals, ti_suffixes = suffixes\<rparr>))))))))))"

definition prefixIdxToOrdinal :: "tableIndex \<Rightarrow> nat \<Rightarrow> uint32 res" where
  "prefixIdxToOrdinal ti idx = nth_res (ti_ordinals ti) idx"

text \<open>The midpoint \<open>idx + (j-idx)/2\<close> of the binary search, in 32-bit arithmetic.\<close>

definition mid :: "uint32 \<Rightarrow> uint32 \<Rightarrow> uint32" where
  "mid idx j = idx + (j - idx) div 2"

lemma mid_unat:
  assumes "idx < j"
  shows "unat (mid idx j) = unat idx + (unat j - unat idx) div 2"
proof -
  have le: "unat idx < unat j" using assms by (simp add: word_less_nat_alt)
  then have diff: "unat (j - idx) = unat j - unat idx"
    using assms by (simp add: unat_sub word_le_nat_alt)
  have "unat ((j - idx) div 2) = (unat j - unat idx) div 2"
    by (simp add: unat_div diff)
  moreover have "unat idx + (unat j - unat idx) div 2 < 2 ^ 32"
  proof -
    have "unat idx + (unat j - unat idx) div 2 \<le> unat j" using le by linarith
    also have "\<dots> < 2 ^ 32" using unsigned_less [of j, where ?'a = nat] by simp
    finally show ?thesis .
  qed
  ultimately show ?thesis
    by (simp add: mid_def unat_word_ariths)
qed

lemma mid_bounds: "idx < j \<Longrightarrow> idx \<le> mid idx j \<and> mid idx j < j"
  by (simp add: word_le_nat_alt word_less_nat_alt mid_unat)

lemma mid_Suc: "idx < j \<Longrightarrow> unat (mid idx j + 1) = Suc (unat (mid idx j))"
proof -
  assume "idx < j"
  then have "Suc (unat (mid idx j)) \<le> unat j"
    using mid_bounds [of idx j] by (simp add: word_less_nat_alt)
  also have "unat j < 2 ^ 32" using unsigned_less [of j, where ?'a = nat] by simp
  finally show ?thesis by (simp add: unat_word_ariths)
qed

function prefixIdx_loop :: "uint64 list \<Rightarrow> uint64 \<Rightarrow> uint32 \<Rightarrow> uint32 \<Rightarrow> uint32 res" where
  "prefixIdx_loop prefixes prefix idx j =
     (if idx < j
      then let h = mid idx j
           in rbind (nth_res prefixes (unat h)) (\<lambda>p.
                if p < prefix then prefixIdx_loop prefixes prefix (h + 1) j
                else prefixIdx_loop prefixes prefix idx h)
      else Inr idx)"
  by pat_completeness auto
termination
proof (relation "measure (\<lambda>(prefixes, prefix, idx, j). unat j - unat idx)", goal_cases)
  case 1
  show ?case by simp
next
  case (2 prefixes prefix idx j h p)
  then show ?case
    using mid_Suc [of idx j] mid_bounds [of idx j]
    by (simp add: word_le_nat_alt word_less_nat_alt) linarith
next
  case (3 prefixes prefix idx j h p)
  then show ?case
    using mid_bounds [of idx j] by (simp add: word_le_nat_alt word_less_nat_alt) linarith
qed

definition prefixIdx :: "tableIndex \<Rightarrow> uint64 \<Rightarrow> uint32 res" where
  "prefixIdx ti prefix = prefixIdx_loop (ti_prefixes ti) prefix 0 (ti_chunkCount ti)"

definition ordinalSuffixMatches :: "tableIndex \<Rightarrow> uint32 \<Rightarrow> addr \<Rightarrow> bool res" where
  "ordinalSuffixMatches ti ordinal h =
     (let li = unat ordinal * addrSuffixSize
      in rbind (slice_res (ti_suffixes ti) li (li + addrSuffixSize)) (\<lambda>s.
           Inr (bytes_Compare (Suffix h) s = 0)))"

function lookupOrdinal_loop :: "tableIndex \<Rightarrow> addr \<Rightarrow> uint64 \<Rightarrow> uint32 \<Rightarrow> uint32 res" where
  "lookupOrdinal_loop ti h prefix idx =
     (if idx < ti_chunkCount ti
      then rbind (nth_res (ti_prefixes ti) (unat idx)) (\<lambda>p.
             if p \<noteq> prefix then Inr (ti_chunkCount ti)
             else rbind (prefixIdxToOrdinal ti (unat idx)) (\<lambda>ordinal.
                  rbind (ordinalSuffixMatches ti ordinal h) (\<lambda>m.
                    if m then Inr ordinal else lookupOrdinal_loop ti h prefix (idx + 1))))
      else Inr (ti_chunkCount ti))"
  by pat_completeness auto
termination
proof (relation "measure (\<lambda>(ti, h, prefix, idx). unat (ti_chunkCount ti) - unat idx)", goal_cases)
  case 1
  show ?case by simp
next
  case (2 ti h prefix idx)
  then have "unat idx < unat (ti_chunkCount ti)" by (simp add: word_less_nat_alt)
  moreover have "unat (ti_chunkCount ti) < 2 ^ 32"
    using unsigned_less [of "ti_chunkCount ti", where ?'a = nat] by simp
  ultimately show ?case by (simp add: unat_word_ariths)
qed

definition lookupOrdinal :: "tableIndex \<Rightarrow> addr \<Rightarrow> uint32 res" where
  "lookupOrdinal ti h =
     (let prefix = Prefix h
      in rbind (prefixIdx ti prefix) (\<lambda>idx. lookupOrdinal_loop ti h prefix idx))"

declare computeOffsets_loop.simps [simp del] prefixIdx_loop.simps [simp del]
  lookupOrdinal_loop.simps [simp del]

subsection \<open>The reader\<close>

text \<open>\<open>tr_r\<close> is the content of the table file the reader was given.\<close>

record tableReader =
  tr_index :: tableIndex
  tr_r :: bytes
  tr_blockSize :: uint64
  tr_maxReadSize :: uint64
  tr_readAmpThresh :: uint64

definition newTableReader :: "tableIndex \<Rightarrow> bytes \<Rightarrow> uint64 \<Rightarrow> uint64 \<Rightarrow> uint64 \<Rightarrow> tableReader" where
  "newTableReader index r blockSize maxReadSize readAmpThresh =
     \<lparr>tr_index = index, tr_r = r, tr_blockSize = blockSize, tr_maxReadSize = maxReadSize,
      tr_readAmpThresh = readAmpThresh\<rparr>"

text \<open>\<open>for filterIdx < filterLen \&\& prefix > prefixes[filterIdx] { filterIdx++ }\<close>\<close>

function advance :: "uint64 list \<Rightarrow> uint64 \<Rightarrow> nat \<Rightarrow> nat" where
  "advance prefixes prefix filterIdx =
     (if filterIdx < length prefixes \<and> prefixes ! filterIdx < prefix
      then advance prefixes prefix (Suc filterIdx) else filterIdx)"
  by pat_completeness auto
termination
  by (relation "measure (\<lambda>(prefixes, prefix, filterIdx). length prefixes - filterIdx)") auto

text \<open>Search the run of equal prefixes from \<open>j\<close> on for a matching suffix.\<close>

function hasSuffix :: "tableIndex \<Rightarrow> addr \<Rightarrow> uint64 \<Rightarrow> nat \<Rightarrow> bool res" where
  "hasSuffix ti a prefix j =
     (if j < length (ti_prefixes ti) \<and> prefix = ti_prefixes ti ! j
      then rbind (prefixIdxToOrdinal ti j) (\<lambda>ordinal.
           rbind (ordinalSuffixMatches ti ordinal a) (\<lambda>m.
             if m then Inr True else hasSuffix ti a prefix (Suc j)))
      else Inr False)"
  by pat_completeness auto
termination
  by (relation "measure (\<lambda>(ti, a, prefix, j). length (ti_prefixes ti) - j)") auto

declare advance.simps [simp del] hasSuffix.simps [simp del]

fun tr_hasMany_loop ::
    "tableIndex \<Rightarrow> nat \<Rightarrow> bool \<Rightarrow> hasRecord list \<Rightarrow> (hasRecord list \<times> bool) res" where
  "tr_hasMany_loop ti filterIdx remaining [] = Inr ([], remaining)"
| "tr_hasMany_loop ti filterIdx remaining (a # as) =
     (if hr_has a
      then rbind (tr_hasMany_loop ti filterIdx remaining as) (\<lambda>(as', r). Inr (a # as', r))
      else let filterIdx' = advance (ti_prefixes ti) (hr_prefix a) filterIdx
           in if filterIdx' \<ge> length (ti_prefixes ti) then Inr (a # as, True)
              else if hr_prefix a \<noteq> ti_prefixes ti ! filterIdx'
              then rbind (tr_hasMany_loop ti filterIdx' True as) (\<lambda>(as', r). Inr (a # as', r))
              else rbind (hasSuffix ti (hr_a a) (hr_prefix a) filterIdx') (\<lambda>found.
                   rbind (tr_hasMany_loop ti filterIdx' (remaining \<or> \<not> found) as) (\<lambda>(as', r).
                     Inr (a\<lparr>hr_has := found\<rparr> # as', r))))"

definition tr_hasMany :: "tableReader \<Rightarrow> hasRecord list \<Rightarrow> (hasRecord list \<times> bool) res" where
  "tr_hasMany tr addrs = tr_hasMany_loop (tr_index tr) 0 False addrs"

definition tr_count :: "tableReader \<Rightarrow> uint32" where
  "tr_count tr = ti_chunkCount (tr_index tr)"

definition tr_has :: "tableReader \<Rightarrow> addr \<Rightarrow> bool res" where
  "tr_has tr h = rbind (lookupOrdinal (tr_index tr) h) (\<lambda>ordinal. Inr (ordinal < tr_count tr))"

definition parseChunk :: "libs \<Rightarrow> bytes \<Rightarrow> bytes res" where
  "parseChunk sn buff =
     rbind (back_res (length buff) checksumSize) (\<lambda>dataLen.
       case snappy_decode sn (take dataLen buff) of
         None \<Rightarrow> Inl ChkFailed
       | Some data \<Rightarrow>
           rbind (get_uint32 (drop dataLen buff)) (\<lambda>chksum. chk (chksum = crc data) (Inr data)))"

text \<open>\<open>r.ReadAt(buff, off)\<close> with the checks that there was no error and that all bytes were read.\<close>

definition ReadAt :: "bytes \<Rightarrow> nat \<Rightarrow> nat \<Rightarrow> bytes res" where
  "ReadAt r off len = chk (off + len \<le> length r) (Inr (take len (drop off r)))"

definition tr_get :: "libs \<Rightarrow> tableReader \<Rightarrow> addr \<Rightarrow> bytes option res" where
  "tr_get sn tr h =
     rbind (lookupOrdinal (tr_index tr) h) (\<lambda>ordinal.
       if ordinal = tr_count tr then Inr None
       else rbind (nth_res (ti_offsets (tr_index tr)) (unat ordinal)) (\<lambda>offset.
            rbind (nth_res (ti_lengths (tr_index tr)) (unat ordinal)) (\<lambda>len.
            rbind (ReadAt (tr_r tr) (unat offset) (unat len)) (\<lambda>buff.
            rbind (parseChunk sn buff) (\<lambda>data. Inr (Some data))))))"

text \<open>The table from ordinals to addresses that \<open>extract\<close> builds before it enumerates the chunks.\<close>

definition extract_hashes :: "tableIndex \<Rightarrow> addr list res" where
  "extract_hashes ti =
     foldM_res (\<lambda>hashes idx.
       rbind (nth_res (ti_prefixes ti) idx) (\<lambda>prefix.
       rbind (prefixIdxToOrdinal ti idx) (\<lambda>ordinal.
       rbind (nth_res hashes (unat ordinal)) (\<lambda>_.
       let li = unat ordinal * addrSuffixSize
       in rbind (slice_res (ti_suffixes ti) li (li + addrSuffixSize)) (\<lambda>suffix.
            Inr (hashes[unat ordinal := copy_hash (put_uint64 prefix @ suffix)]))))))
       (replicate (length (ti_prefixes ti)) emptyHash) [0..<length (ti_prefixes ti)]"

definition sendChunk :: "libs \<Rightarrow> tableIndex \<Rightarrow> addr list \<Rightarrow> bytes \<Rightarrow> nat \<Rightarrow> extractRecord res" where
  "sendChunk sn ti hashes buff i =
     rbind (nth_res (ti_offsets ti) i) (\<lambda>off. rbind (nth_res (ti_offsets ti) 0) (\<lambda>off0.
     rbind (nth_res (ti_lengths ti) i) (\<lambda>len. rbind (nth_res hashes i) (\<lambda>h.
     let localOffset = unat (off - off0)
     in rbind (slice_res buff localOffset (localOffset + unat len)) (\<lambda>b.
        rbind (parseChunk sn b) (\<lambda>data. Inr \<lparr>er_a = h, er_data = data\<rparr>))))))"

definition tr_extract :: "libs \<Rightarrow> tableReader \<Rightarrow> EnumerationOrder \<Rightarrow> extractRecord list res" where
  "tr_extract sn tr ord =
     (let ti = tr_index tr; n = unat (ti_chunkCount ti)
      in rbind (extract_hashes ti) (\<lambda>hashes.
         rbind (if n = 0 then Inl IndexOutOfRange else nth_res (ti_offsets ti) (n - 1)) (\<lambda>lastOff.
         rbind (nth_res (ti_lengths ti) (n - 1)) (\<lambda>lastLen.
         rbind (nth_res (ti_offsets ti) 0) (\<lambda>off0.
         rbind (ReadAt (tr_r tr) (unat off0) (unat (lastOff + ucast lastLen))) (\<lambda>buff.
           mapM_res (sendChunk sn ti hashes buff)
             (case ord of ReverseOrder \<Rightarrow> map (\<lambda>i. n - i) [1..<Suc n] | InsertOrder \<Rightarrow> [0..<n])))))))"

subsection \<open>Parsing an index\<close>

lemma back_res_ok [simp, res_simps]: "n \<le> pos \<Longrightarrow> back_res pos n = Inr (pos - n)"
  by (simp add: back_res_def)

lemma map_nth_upt: "map (\<lambda>i. f (xs ! i)) [0..<length xs] = map f xs"
  by (rule nth_equalityI) auto

lemma drop_concat_map:
  "(\<And>x. length (f x) = k) \<Longrightarrow> drop (i * k) (concat (map f xs)) = concat (map f (drop i xs))"
proof (induction xs arbitrary: i)
  case (Cons x xs)
  then show ?case by (cases i) auto
qed simp

text \<open>The offset of record \<open>i\<close>, from the stored lengths, in 64-bit arithmetic.\<close>

definition offset_sum :: "uint32 list \<Rightarrow> nat \<Rightarrow> uint64" where
  "offset_sum ls i = sum_list (map ucast (take i ls))"

lemma offset_sum_0 [simp]: "offset_sum ls 0 = 0"
  by (simp add: offset_sum_def)

lemma offset_sum_Suc: "i < length ls \<Longrightarrow> offset_sum ls (Suc i) = offset_sum ls i + ucast (ls ! i)"
  by (simp add: offset_sum_def take_Suc_conv_app_nth)

lemma get_uint32_nth:
  assumes "i < length ls"
  shows "get_uint32 (drop (i * 4) (concat (map put_uint32 ls))) = Inr (ls ! i)"
proof -
  have "drop (i * 4) (concat (map put_uint32 ls)) = concat (map put_uint32 (drop i ls))"
    by (rule drop_concat_map) simp
  also have "\<dots> = put_uint32 (ls ! i) @ concat (map put_uint32 (drop (Suc i) ls))"
    using assms by (simp flip: Cons_nth_drop_Suc)
  finally show ?thesis by simp
qed

lemma length_concat_put_uint32: "length (concat (map put_uint32 ls)) = length ls * 4"
  by (induction ls) auto

lemma computeOffsets_loop_ok:
  assumes "buff = concat (map put_uint32 ls)" "1 \<le> i" "i \<le> length ls"
  shows "computeOffsets_loop (length ls) buff i (take i ls) (map (offset_sum ls) [0..<i])
    = Inr (ls, map (offset_sum ls) [0..<length ls])"
  using assms(2,3)
proof (induction "length ls - i" arbitrary: i)
  case 0
  then show ?case by (simp add: computeOffsets_loop.simps)
next
  case (Suc m)
  then have i: "i < length ls" by simp
  obtain k where k: "i = Suc k" using Suc.prems(1) by (cases i) auto
  have "i * 4 \<le> length buff" using i by (simp add: assms(1) length_concat_put_uint32)
  moreover have "last (map (offset_sum ls) [0..<i]) + ucast (last (take i ls)) = offset_sum ls i"
    using i by (simp add: k last_map offset_sum_Suc take_Suc_conv_app_nth)
  moreover have "computeOffsets_loop (length ls) buff (Suc i) (take i ls @ [ls ! i])
      (map (offset_sum ls) [0..<i] @ [offset_sum ls i])
    = Inr (ls, map (offset_sum ls) [0..<length ls])"
    using Suc.hyps(1) [of "Suc i"] Suc.hyps(2) i by (simp add: take_Suc_conv_app_nth)
  ultimately show ?case
    using i get_uint32_nth [OF i]
    by (subst computeOffsets_loop.simps) (simp add: assms(1))
qed

lemma computeOffsets_ok:
  assumes "ls \<noteq> []" "length ls < 2 ^ 32"
  shows "computeOffsets (of_nat (length ls)) (concat (map put_uint32 ls))
    = Inr (ls, map (offset_sum ls) [0..<length ls])"
proof -
  have n: "unat (of_nat (length ls) :: uint32) = length ls"
    using assms(2) by (simp add: unat_of_nat take_bit_nat_eq_self)
  then have "(of_nat (length ls) :: uint32) \<noteq> 0"
    using assms(1) by (metis length_0_conv unat_0)
  moreover have "get_uint32 (concat (map put_uint32 ls)) = Inr (ls ! 0)"
    using get_uint32_nth [of 0 ls] assms(1) by simp
  moreover have "take 1 ls = [ls ! 0]" using assms(1) by (cases ls) auto
  ultimately show ?thesis
    using computeOffsets_loop_ok [OF refl, of 1 ls] assms(1) n
    by (cases ls) (simp_all add: computeOffsets_def)
qed

lemma prefix_map_image_concat:
  "prefix_map_image ps = concat (map (\<lambda>p. put_uint64 (pi_prefix p) @ put_uint32 (pi_order p)) ps)"
  by (simp add: prefix_map_image_def concat_tuple)

lemma computePrefixes_ok:
  assumes "length ps < 2 ^ 32"
  shows "computePrefixes (of_nat (length ps)) (prefix_map_image ps)
    = Inr (map pi_prefix ps, map pi_order ps)"
proof -
  let ?b = "prefix_map_image ps"
  have n: "unat (of_nat (length ps) :: uint32) = length ps"
    using assms by (simp add: unat_of_nat take_bit_nat_eq_self)
  have tuple: "drop (i * 12) ?b = put_uint64 (pi_prefix (ps ! i)) @ put_uint32 (pi_order (ps ! i))
      @ prefix_map_image (drop (Suc i) ps)" if "i < length ps" for i
  proof -
    have "drop (i * 12) ?b = prefix_map_image (drop i ps)"
      unfolding prefix_map_image_concat by (rule drop_concat_map) simp
    then show ?thesis
      using that by (simp add: prefix_map_image_concat flip: Cons_nth_drop_Suc)
  qed
  have ord: "drop (i * 12 + 8) ?b = put_uint32 (pi_order (ps ! i)) @ prefix_map_image (drop (Suc i) ps)"
    if "i < length ps" for i
  proof -
    have "drop (i * 12 + 8) ?b = drop 8 (drop (i * 12) ?b)" by (simp add: add.commute)
    then show ?thesis using that by (simp add: tuple)
  qed
  have "mapM_res (\<lambda>i. let idx = i * prefixTupleSize
            in rbind (from_res ?b idx) (\<lambda>b. rbind (get_uint64 b) (\<lambda>p.
               rbind (from_res ?b (idx + addrPrefixSize)) (\<lambda>b'. rbind (get_uint32 b') (\<lambda>ord.
                 Inr (p, ord)))))) [0..<length ps]
    = Inr (map (\<lambda>i. (pi_prefix (ps ! i), pi_order (ps ! i))) [0..<length ps])"
    by (rule mapM_res_Inr) (auto simp: tuple ord Let_def)
  then show ?thesis
    by (simp add: computePrefixes_def n comp_def map_nth_upt)
qed

definition table_index :: "libs \<Rightarrow> table_chunk list \<Rightarrow> tableIndex" where
  "table_index sn cs =
     (let es = index_entries sn cs; ps = sort_Sort sn es; ls = map pi_size es
      in \<lparr>ti_chunkCount = of_nat (length cs), ti_prefixes = map pi_prefix ps,
          ti_offsets = map (offset_sum ls) [0..<length cs], ti_lengths = ls,
          ti_ordinals = map pi_order ps, ti_suffixes = concat (map pi_suffix es)\<rparr>)"

lemma index_entries_eq_Nil [simp]: "index_entries sn cs = [] \<longleftrightarrow> cs = []"
  by (simp add: index_entries_def)

lemma take_drop_back:
  "buff = a @ b @ c \<Longrightarrow> pos = length a \<Longrightarrow> n = length b \<Longrightarrow> take n (drop pos buff) = b"
  by simp

lemma parseTableIndex_image:
  assumes "cs \<noteq> []" "length cs < 2 ^ 32"
  shows "parseTableIndex (pre @ index_image sn (index_entries sn cs) @ footer_image sn cs)
    = Inr (table_index sn cs)"
proof -
  let ?n = "length cs" and ?es = "index_entries sn cs"
  let ?A = "prefix_map_image (sort_Sort sn ?es)" and ?ls = "map pi_size ?es"
  let ?L = "concat (map put_uint32 ?ls)" and ?S = "concat (map pi_suffix ?es)"
  let ?c = "put_uint32 (of_nat ?n)"
  let ?d = "put_uint64 (of_nat (sum_list (map (\<lambda>c. length (snappy_encode sn (snd c))) cs)))"
  define buff where "buff = pre @ ?A @ ?L @ ?S @ ?c @ ?d @ magicNumber"
  have n: "unat (of_nat ?n :: uint32) = ?n"
    using assms(2) by (simp add: unat_of_nat take_bit_nat_eq_self)
  have lenL: "length ?L = 4 * ?n"
    by (subst length_concat_put_uint32) simp
  have lenA: "length ?A = 12 * ?n" and lenS: "length ?S = 12 * ?n"
    using length_concat_const [of "map pi_suffix ?es" 12] suffix_index_entries [of _ sn cs]
    by auto
  note len = lenA lenL lenS lenL [unfolded map_map]
  have total: "length buff = length pre + 28 * ?n + 20"
    by (simp add: buff_def len)
  have d1: "drop (12 + (length pre + 28 * ?n)) buff = magicNumber"
    by (simp add: buff_def len)
  have d2: "drop (length pre + 28 * ?n) buff = ?c @ ?d @ magicNumber"
    by (simp add: buff_def len)
  have d3: "take (?n * 12) (drop (length pre + 16 * ?n) buff) = ?S"
    by (rule take_drop_back [of _ "pre @ ?A @ ?L" _ "?c @ ?d @ magicNumber"]) (simp_all add: buff_def len)
  have d4: "take (?n * 4) (drop (length pre + 12 * ?n) buff) = ?L"
    by (rule take_drop_back [of _ "pre @ ?A" _ "?S @ ?c @ ?d @ magicNumber"]) (simp_all add: buff_def len)
  have d5: "take (?n * 12) (drop (length pre) buff) = ?A"
    by (rule take_drop_back [of _ pre _ "?L @ ?S @ ?c @ ?d @ magicNumber"]) (simp_all add: buff_def len)
  have off: "computeOffsets (of_nat ?n) ?L = Inr (?ls, map (offset_sum ?ls) [0..<?n])"
    using computeOffsets_ok [of ?ls] assms by (simp del: map_map)
  have pre: "computePrefixes (of_nat ?n) ?A
      = Inr (map pi_prefix (sort_Sort sn ?es), map pi_order (sort_Sort sn ?es))"
    using computePrefixes_ok [of "sort_Sort sn ?es"] assms(2) by simp
  have pos: "length pre + 28 * ?n + 20 - 8 - 8 - 4 = length pre + 28 * ?n"
    "length pre + 28 * ?n - ?n * 12 = length pre + 16 * ?n"
    "length pre + 16 * ?n - ?n * 4 = length pre + 12 * ?n"
    "length pre + 12 * ?n - ?n * 12 = length pre" by simp_all
  have "parseTableIndex buff = Inr (table_index sn cs)"
    unfolding parseTableIndex_def
    by (simp add: total pos d1 d2 n d3 d4 d5 off pre Let_def table_index_def del: diff_diff_left map_map)
  moreover have "pre @ index_image sn ?es @ footer_image sn cs = buff"
    by (simp add: buff_def index_image_def footer_image_def comp_def)
  ultimately show ?thesis by simp
qed

subsection \<open>Looking up addresses\<close>

text \<open>
  What the lookups rely on: the prefixes are in order, the ordinals are a permutation, and prefix and
  suffix of an entry belong to the address with its ordinal. The order of entries with equal
  prefixes is left open.
\<close>

definition index_ok :: "tableIndex \<Rightarrow> addr list \<Rightarrow> bool" where
  "index_ok ti as \<longleftrightarrow>
     length as < 2 ^ 32 \<and> ti_chunkCount ti = of_nat (length as) \<and> sorted (ti_prefixes ti)
     \<and> ti_suffixes ti = concat (map Suffix as)
     \<and> mset (map unat (ti_ordinals ti)) = mset [0..<length as]
     \<and> ti_prefixes ti = map (\<lambda>ordinal. Prefix (as ! unat ordinal)) (ti_ordinals ti)"

abbreviation entry :: "tableIndex \<Rightarrow> addr list \<Rightarrow> nat \<Rightarrow> addr" where
  "entry ti as j \<equiv> as ! unat (ti_ordinals ti ! j)"

lemma Prefix_Suffix_inject:
  assumes "Prefix a = Prefix b" "Suffix a = Suffix b"
  shows "a = b"
proof -
  have bound: "be_decode (take 8 (hash_bytes x)) < 2 ^ LENGTH(64)" for x
    using be_decode_bound [of "take 8 (hash_bytes x)"] by simp
  have "be_decode (take 8 (hash_bytes a)) = be_decode (take 8 (hash_bytes b))"
    using assms(1) bound [of a] bound [of b]
    by (simp add: Prefix_def word_of_nat_eq_iff take_bit_nat_eq_self)
  then have "take 8 (hash_bytes a) = take 8 (hash_bytes b)"
    by (intro be_decode_inject) auto
  then show ?thesis
    using assms(2) unfolding Suffix_def by (metis append_take_drop_id hash_bytes_inject)
qed

lemma index_facts:
  assumes "index_ok ti as"
  shows "length (ti_ordinals ti) = length as" and "length (ti_prefixes ti) = length as"
    and "unat (ti_chunkCount ti) = length as"
    and "j < length as \<Longrightarrow> unat (ti_ordinals ti ! j) < length as"
    and "j < length as \<Longrightarrow> ti_prefixes ti ! j = Prefix (entry ti as j)"
    and "i < length as \<Longrightarrow> \<exists>j < length as. unat (ti_ordinals ti ! j) = i"
proof -
  have perm: "mset (map unat (ti_ordinals ti)) = mset [0..<length as]"
    using assms by (simp add: index_ok_def)
  then show len: "length (ti_ordinals ti) = length as"
    using mset_eq_length by fastforce
  then show "length (ti_prefixes ti) = length as"
    using assms by (simp add: index_ok_def)
  show "unat (ti_chunkCount ti) = length as"
    using assms by (simp add: index_ok_def unat_of_nat take_bit_nat_eq_self)
  have set: "set (map unat (ti_ordinals ti)) = {0..<length as}"
    using perm by (metis mset_eq_setD atLeastLessThan_upt)
  show "unat (ti_ordinals ti ! j) < length as" if "j < length as"
  proof -
    have "unat (ti_ordinals ti ! j) \<in> set (map unat (ti_ordinals ti))" using that len by simp
    then show ?thesis using set by simp
  qed
  show "ti_prefixes ti ! j = Prefix (entry ti as j)" if "j < length as"
    using assms that len by (simp add: index_ok_def)
  show "\<exists>j < length as. unat (ti_ordinals ti ! j) = i" if "i < length as"
  proof -
    have "i \<in> set (map unat (ti_ordinals ti))" using that set by simp
    then show ?thesis using len by (auto simp: in_set_conv_nth)
  qed
qed

lemmas index_length = index_facts(1,2)
lemmas index_count = index_facts(3)
lemmas index_ordinal = index_facts(4)
lemmas index_prefix = index_facts(5)
lemmas index_surj = index_facts(6)

lemma set_entries: "index_ok ti as \<Longrightarrow> h \<in> set as \<longleftrightarrow> (\<exists>j < length as. entry ti as j = h)"
  by (metis in_set_conv_nth index_ordinal index_surj)

lemma index_sorted:
  "index_ok ti as \<Longrightarrow> i \<le> j \<Longrightarrow> j < length as \<Longrightarrow> ti_prefixes ti ! i \<le> ti_prefixes ti ! j"
  by (metis index_ok_def index_length(2) sorted_nth_mono)

lemma ordinalSuffixMatches_ok:
  assumes "index_ok ti as" "unat ordinal < length as"
  shows "ordinalSuffixMatches ti ordinal h = Inr (Suffix h = Suffix (as ! unat ordinal))"
proof -
  let ?i = "unat ordinal"
  have suffixes: "ti_suffixes ti = concat (map Suffix as)"
    using assms(1) by (simp add: index_ok_def)
  have "length (concat (map Suffix as)) = 12 * length as"
    by (induction as) auto
  then have "?i * 12 + 12 \<le> length (ti_suffixes ti)"
    using assms(2) by (simp add: suffixes)
  moreover have "drop (?i * 12) (ti_suffixes ti) = Suffix (as ! ?i) @ concat (map Suffix (drop (Suc ?i) as))"
    using drop_concat_map [of Suffix 12 ?i as] assms(2)
    by (simp add: suffixes flip: Cons_nth_drop_Suc)
  ultimately show ?thesis
    by (simp add: ordinalSuffixMatches_def Let_def)
qed

lemma prefixIdx_loop_ok:
  assumes "index_ok ti as" "unat j \<le> length as" "idx \<le> j"
    and "\<forall>k < unat idx. ti_prefixes ti ! k < prefix"
    and "\<forall>k. unat j \<le> k \<and> k < length as \<longrightarrow> prefix \<le> ti_prefixes ti ! k"
  shows "\<exists>r. prefixIdx_loop (ti_prefixes ti) prefix idx j = Inr r \<and> unat r \<le> length as
    \<and> (\<forall>k < unat r. ti_prefixes ti ! k < prefix)
    \<and> (\<forall>k. unat r \<le> k \<and> k < length as \<longrightarrow> prefix \<le> ti_prefixes ti ! k)"
  using assms(2-5)
proof (induction "unat j - unat idx" arbitrary: idx j rule: less_induct)
  case less
  show ?case
  proof (cases "idx < j")
    case False
    then have "idx = j" using less.prems(2) by simp
    then show ?thesis using less.prems by (simp add: prefixIdx_loop.simps)
  next
    case True
    let ?h = "mid idx j"
    have mid: "unat idx \<le> unat ?h" "unat ?h < unat j" "unat (?h + 1) = Suc (unat ?h)"
      using mid_bounds [OF True] mid_Suc [OF True] by (simp_all add: word_le_nat_alt word_less_nat_alt)
    then have h: "unat ?h < length as" using less.prems(1) by simp
    show ?thesis
    proof (cases "ti_prefixes ti ! unat ?h < prefix")
      case lt: True
      have below: "\<forall>k < unat (?h + 1). ti_prefixes ti ! k < prefix"
        using lt h index_sorted [OF assms(1), of _ "unat ?h"] by (auto simp: mid(3) less_Suc_eq_le intro: le_less_trans)
      have "prefixIdx_loop (ti_prefixes ti) prefix idx j = prefixIdx_loop (ti_prefixes ti) prefix (?h + 1) j"
        using True h lt index_length(2) [OF assms(1)] by (subst prefixIdx_loop.simps) (simp add: Let_def)
      then show ?thesis
        using less.hyps [of j "?h + 1"] less.prems(1,4) mid below by (simp add: word_le_nat_alt)
    next
      case ge: False
      have above: "\<forall>k. unat ?h \<le> k \<and> k < length as \<longrightarrow> prefix \<le> ti_prefixes ti ! k"
        using ge index_sorted [OF assms(1), of "unat ?h"] by fastforce
      have "prefixIdx_loop (ti_prefixes ti) prefix idx j = prefixIdx_loop (ti_prefixes ti) prefix idx ?h"
        using True h ge index_length(2) [OF assms(1)] by (subst prefixIdx_loop.simps) (simp add: Let_def)
      then show ?thesis
        using less.hyps [of ?h idx] less.prems(3) mid above h by (simp add: word_le_nat_alt)
    qed
  qed
qed

lemma prefixIdx_ok:
  assumes "index_ok ti as"
  shows "\<exists>r. prefixIdx ti prefix = Inr r \<and> unat r \<le> length as
    \<and> (\<forall>k < unat r. ti_prefixes ti ! k < prefix)
    \<and> (\<forall>k. unat r \<le> k \<and> k < length as \<longrightarrow> prefix \<le> ti_prefixes ti ! k)"
  unfolding prefixIdx_def
  by (rule prefixIdx_loop_ok) (use assms index_count [OF assms] in auto)

text \<open>From the first entry that is not below the prefix of \<open>h\<close> on, the run of equal prefixes decides.\<close>

lemma beyond_prefix:
  assumes "index_ok ti as" "Prefix h < ti_prefixes ti ! j" "j \<le> k" "k < length as"
  shows "entry ti as k \<noteq> h"
  using assms index_sorted [OF assms(1,3,4)] index_prefix [OF assms(1,4)] by auto

lemma below_prefix:
  assumes "index_ok ti as" "\<forall>k < idx. ti_prefixes ti ! k < Prefix h" "k < idx" "k < length as"
  shows "entry ti as k \<noteq> h"
  using assms(2,3) index_prefix [OF assms(1,4)] by auto

lemma entry_eq_iff:
  assumes "index_ok ti as" "j < length as" "ti_prefixes ti ! j = Prefix h"
  shows "Suffix h = Suffix (entry ti as j) \<longleftrightarrow> entry ti as j = h"
  using assms(3) index_prefix [OF assms(1,2)] Prefix_Suffix_inject by auto

definition ordinal_of :: "addr list \<Rightarrow> addr \<Rightarrow> uint32 \<Rightarrow> bool" where
  "ordinal_of as h r \<longleftrightarrow>
     (if h \<in> set as then unat r < length as \<and> as ! unat r = h else r = of_nat (length as))"

lemma lookupOrdinal_loop_ok:
  assumes "index_ok ti as" "unat idx \<le> length as"
    and "\<forall>k < unat idx. entry ti as k \<noteq> h"
    and "\<forall>k. unat idx \<le> k \<and> k < length as \<longrightarrow> Prefix h \<le> ti_prefixes ti ! k"
  shows "\<exists>r. lookupOrdinal_loop ti h (Prefix h) idx = Inr r \<and> ordinal_of as h r"
  using assms(2-4)
proof (induction "length as - unat idx" arbitrary: idx rule: less_induct)
  case less
  note loop = lookupOrdinal_loop.simps [of ti h "Prefix h" idx]
  have cnt: "ti_chunkCount ti = of_nat (length as)" using assms(1) by (simp add: index_ok_def)
  show ?case
  proof (cases "idx < ti_chunkCount ti")
    case False
    then have "unat idx = length as"
      using less.prems(1) index_count [OF assms(1)] by (simp add: word_less_nat_alt)
    then have "h \<notin> set as" using less.prems(2) set_entries [OF assms(1)] by auto
    then show ?thesis using False by (simp add: loop ordinal_of_def cnt)
  next
    case True
    then have idx: "unat idx < length as"
      using index_count [OF assms(1)] by (simp add: word_less_nat_alt)
    note here = index_length [OF assms(1)] index_ordinal [OF assms(1) idx]
    show ?thesis
    proof (cases "ti_prefixes ti ! unat idx = Prefix h")
      case False
      then have "Prefix h < ti_prefixes ti ! unat idx"
        using less.prems(3) idx by (meson le_refl not_less order_le_less)
      then have "h \<notin> set as"
        using less.prems(2) set_entries [OF assms(1)] beyond_prefix [OF assms(1)] not_le_imp_less
        by metis
      then show ?thesis using True False idx here by (simp add: loop ordinal_of_def cnt)
    next
      case eq: True
      have step: "lookupOrdinal_loop ti h (Prefix h) idx =
          (if entry ti as (unat idx) = h then Inr (ti_ordinals ti ! unat idx)
           else lookupOrdinal_loop ti h (Prefix h) (idx + 1))"
        using True eq idx here entry_eq_iff [OF assms(1) idx eq]
        by (simp add: loop prefixIdxToOrdinal_def ordinalSuffixMatches_ok [OF assms(1)])
      show ?thesis
      proof (cases "entry ti as (unat idx) = h")
        case True
        then have "h \<in> set as" using here(3) nth_mem by metis
        then show ?thesis using True here(3) by (simp add: step ordinal_of_def)
      next
        case False
        have suc: "unat (idx + 1) = Suc (unat idx)"
          using idx assms(1) by (simp add: unat_word_ariths index_ok_def)
        have "\<forall>k < unat (idx + 1). entry ti as k \<noteq> h"
          using False less.prems(2) by (simp add: suc less_Suc_eq)
        then show ?thesis
          using less.hyps [of "idx + 1"] less.prems(3) idx False by (simp add: step suc)
      qed
    qed
  qed
qed

lemma lookupOrdinal_ok:
  assumes "index_ok ti as"
  shows "\<exists>r. lookupOrdinal ti h = Inr r \<and> ordinal_of as h r"
proof -
  obtain idx where idx: "prefixIdx ti (Prefix h) = Inr idx" "unat idx \<le> length as"
    "\<forall>k < unat idx. ti_prefixes ti ! k < Prefix h"
    "\<forall>k. unat idx \<le> k \<and> k < length as \<longrightarrow> Prefix h \<le> ti_prefixes ti ! k"
    using prefixIdx_ok [OF assms] by blast
  have "\<forall>k < unat idx. entry ti as k \<noteq> h"
    using below_prefix [OF assms idx(3)] idx(2) by auto
  then show ?thesis
    using lookupOrdinal_loop_ok [OF assms idx(2) _ idx(4)] idx(1) by (simp add: lookupOrdinal_def)
qed

subsection \<open>Batched membership\<close>

lemma advance_ok:
  assumes "\<forall>k < i. ps ! k < prefix" "i \<le> length ps"
  shows "i \<le> advance ps prefix i \<and> advance ps prefix i \<le> length ps
    \<and> (\<forall>k < advance ps prefix i. ps ! k < prefix)
    \<and> (advance ps prefix i < length ps \<longrightarrow> prefix \<le> ps ! advance ps prefix i)"
  using assms
proof (induction "length ps - i" arbitrary: i)
  case 0
  then show ?case by (simp add: advance.simps)
next
  case (Suc m)
  show ?case
  proof (cases "ps ! i < prefix")
    case True
    then have "\<forall>k < Suc i. ps ! k < prefix" using Suc.prems(1) by (simp add: less_Suc_eq)
    then show ?thesis
      using Suc.hyps(1) [of "Suc i"] Suc.hyps(2) True
      by (simp add: advance.simps [of ps prefix i]) linarith
  next
    case False
    then have "advance ps prefix i = i" "prefix \<le> ps ! i" by (simp_all add: advance.simps)
    then show ?thesis using Suc.prems by simp
  qed
qed

lemma hasSuffix_ok:
  assumes "index_ok ti as" "j \<le> length as" "j < length as \<longrightarrow> Prefix h \<le> ti_prefixes ti ! j"
  shows "hasSuffix ti h (Prefix h) j = Inr (\<exists>k. j \<le> k \<and> k < length as \<and> entry ti as k = h)"
  using assms(2,3)
proof (induction "length as - j" arbitrary: j)
  case 0
  then show ?case using index_length(2) [OF assms(1)] by (simp add: hasSuffix.simps)
next
  case (Suc m)
  then have j: "j < length as" by simp
  note here = index_length [OF assms(1)] index_ordinal [OF assms(1) j]
  show ?case
  proof (cases "ti_prefixes ti ! j = Prefix h")
    case False
    then have "Prefix h < ti_prefixes ti ! j" using Suc.prems(2) j by simp
    then have "\<not> (\<exists>k. j \<le> k \<and> k < length as \<and> entry ti as k = h)"
      using beyond_prefix [OF assms(1)] by blast
    then show ?thesis using False by (simp add: hasSuffix.simps)
  next
    case eq: True
    have "Suc j < length as \<longrightarrow> Prefix h \<le> ti_prefixes ti ! Suc j"
      using eq index_sorted [OF assms(1), of j "Suc j"] by simp
    then have "hasSuffix ti h (Prefix h) (Suc j)
        = Inr (\<exists>k. Suc j \<le> k \<and> k < length as \<and> entry ti as k = h)"
      using Suc.hyps(1) [of "Suc j"] Suc.hyps(2) j by simp
    moreover have "hasSuffix ti h (Prefix h) j =
        (if entry ti as j = h then Inr True else hasSuffix ti h (Prefix h) (Suc j))"
      using eq j here entry_eq_iff [OF assms(1) j eq]
      by (subst hasSuffix.simps) (simp add: prefixIdxToOrdinal_def ordinalSuffixMatches_ok [OF assms(1)])
    moreover have "(\<exists>k. j \<le> k \<and> k < length as \<and> entry ti as k = h) \<longleftrightarrow>
        entry ti as j = h \<or> (\<exists>k. Suc j \<le> k \<and> k < length as \<and> entry ti as k = h)"
      using j by (metis Suc_leD Suc_leI le_neq_implies_less le_refl)
    ultimately show ?thesis by simp
  qed
qed

text \<open>A batch of requests as the callers prepare it: each with its prefix, sorted by prefix.\<close>

definition has_request :: "hasRecord list \<Rightarrow> bool" where
  "has_request rs \<longleftrightarrow> sorted (map hr_prefix rs) \<and> list_all (\<lambda>r. hr_prefix r = Prefix (hr_a r)) rs"

lemma has_request_Cons:
  "has_request (r # rs) \<longleftrightarrow>
     hr_prefix r = Prefix (hr_a r) \<and> has_request rs \<and> (\<forall>x \<in> set rs. hr_prefix r \<le> hr_prefix x)"
  by (auto simp: has_request_def)

definition answered :: "addr set \<Rightarrow> hasRecord \<Rightarrow> hasRecord" where
  "answered A r = r\<lparr>hr_has := hr_has r \<or> hr_a r \<in> A\<rparr>"

lemma answered_has [simp]: "hr_has r \<Longrightarrow> answered A r = r"
  by (simp add: answered_def)

lemma answered_absent [simp]: "hr_a r \<notin> A \<Longrightarrow> answered A r = r"
  by (simp add: answered_def)

lemma tr_hasMany_loop_ok:
  assumes "index_ok ti as" "has_request rs" "filterIdx \<le> length as"
    and "\<forall>r \<in> set rs. \<forall>k < filterIdx. ti_prefixes ti ! k < hr_prefix r"
  shows "tr_hasMany_loop ti filterIdx remaining rs
    = Inr (map (answered (set as)) rs, remaining \<or> \<not> list_all (\<lambda>r. hr_has (answered (set as) r)) rs)"
  using assms(2-4)
proof (induction rs arbitrary: filterIdx remaining)
  case Nil
  then show ?case by simp
next
  case (Cons r rs)
  let ?ps = "ti_prefixes ti" and ?A = "set as"
  have pr: "hr_prefix r = Prefix (hr_a r)" and rs: "has_request rs"
    and le: "\<forall>x \<in> set rs. hr_prefix r \<le> hr_prefix x"
    using Cons.prems(1) by (auto simp: has_request_Cons)
  have len: "length ?ps = length as" using index_length(2) [OF assms(1)] .
  show ?case
  proof (cases "hr_has r")
    case True
    then show ?thesis using Cons.IH [OF rs Cons.prems(2)] Cons.prems(3) by simp
  next
    case unknown: False
    define f where "f = advance ?ps (hr_prefix r) filterIdx"
    have f: "f \<le> length as" "\<forall>k < f. ?ps ! k < hr_prefix r" "f < length as \<longrightarrow> hr_prefix r \<le> ?ps ! f"
      using advance_ok [of filterIdx ?ps "hr_prefix r"] Cons.prems(2,3) by (auto simp: f_def len)
    have below: "\<forall>x \<in> set rs. \<forall>k < f. ?ps ! k < hr_prefix x"
      using f(2) le by (meson less_le_trans)
    have IH: "tr_hasMany_loop ti f rem rs
      = Inr (map (answered ?A) rs, rem \<or> \<not> list_all (\<lambda>r. hr_has (answered ?A r)) rs)" for rem
      by (rule Cons.IH [OF rs f(1) below])
    have mem: "hr_a r \<in> ?A \<longleftrightarrow> (\<exists>k. f \<le> k \<and> k < length as \<and> entry ti as k = hr_a r)"
      using set_entries [OF assms(1)] below_prefix [OF assms(1), of f "hr_a r"] f(2) pr
      by (metis not_le_imp_less)
    show ?thesis
    proof (cases "f < length as")
      case False
      have absent: "hr_a x \<notin> ?A" if "x \<in> set (r # rs)" for x
      proof -
        have "hr_prefix x = Prefix (hr_a x)"
          using Cons.prems(1) that by (auto simp: has_request_def list_all_iff)
        moreover have "\<forall>k < length as. ?ps ! k < hr_prefix x"
          using f False below that by auto
        ultimately show ?thesis
          using set_entries [OF assms(1)] below_prefix [OF assms(1), of "length as" "hr_a x"] by auto
      qed
      then have "map (answered ?A) (r # rs) = r # rs"
        by (intro map_idI) simp
      then show ?thesis
        using unknown False absent [of r] by (simp add: len flip: f_def)
    next
      case in_range: True
      show ?thesis
      proof (cases "hr_prefix r = ?ps ! f")
        case False
        then have "Prefix (hr_a r) < ?ps ! f" using f(3) in_range pr by simp
        then have "hr_a r \<notin> ?A"
          using mem beyond_prefix [OF assms(1)] by blast
        then show ?thesis
          using unknown in_range False IH [of True] by (simp add: len Let_def flip: f_def)
      next
        case True
        have "hasSuffix ti (hr_a r) (hr_prefix r) f = Inr (hr_a r \<in> ?A)"
          using hasSuffix_ok [OF assms(1) f(1), of "hr_a r"] f(3) pr mem by simp
        then show ?thesis
          using unknown in_range IH by (auto simp: len Let_def answered_def [of _ r] simp flip: f_def True)
      qed
    qed
  qed
qed

lemma tr_hasMany_ok:
  assumes "index_ok (tr_index tr) as" "has_request rs"
  shows "tr_hasMany tr rs
    = Inr (map (answered (set as)) rs, \<not> list_all (\<lambda>r. hr_has (answered (set as) r)) rs)"
  using tr_hasMany_loop_ok [OF assms, of 0 False] by (simp add: tr_hasMany_def)

subsection \<open>Reading chunks\<close>

text \<open>The writer stores counts and record lengths in 32 bits, and the compressor takes every chunk.\<close>

definition table_fits :: "libs \<Rightarrow> table_chunk list \<Rightarrow> bool" where
  "table_fits sn cs \<longleftrightarrow>
     cs \<noteq> [] \<and> length cs < 2 ^ 32 \<and> list_all (\<lambda>c. length (chunk_record sn (snd c)) < 2 ^ 32) cs
     \<and> list_all (\<lambda>c. 0 \<le> MaxEncodedLen (length (snd c))) cs"

lemma table_fits_encodable: "table_fits sn cs \<Longrightarrow> i < length cs \<Longrightarrow> 0 \<le> MaxEncodedLen (length (snd (cs ! i)))"
  by (simp add: table_fits_def list_all_length)

text \<open>A reader of a table that holds \<open>cs\<close>, in insertion order.\<close>

definition table_ok :: "libs \<Rightarrow> tableReader \<Rightarrow> table_chunk list \<Rightarrow> bool" where
  "table_ok sn tr cs \<longleftrightarrow>
     table_fits sn cs \<and> index_ok (tr_index tr) (map fst cs)
     \<and> ti_lengths (tr_index tr) = map (\<lambda>c. of_nat (length (chunk_record sn (snd c)))) cs
     \<and> ti_offsets (tr_index tr) = map (\<lambda>i. of_nat (length (chunk_records sn (take i cs)))) [0..<length cs]
     \<and> take (length (chunk_records sn cs)) (tr_r tr) = chunk_records sn cs"

lemma chunk_records_size:
  assumes "list_all (\<lambda>c. length (chunk_record sn (snd c)) < 2 ^ 32) cs"
  shows "length (chunk_records sn cs) \<le> length cs * (2 ^ 32 - 1)"
  using assms by (induction cs) auto

lemma table_fits_size:
  assumes "table_fits sn cs"
  shows "length (chunk_records sn cs) < 2 ^ 64"
proof -
  have "length (chunk_records sn cs) \<le> length cs * (2 ^ 32 - 1)"
    using assms by (simp only: table_fits_def chunk_records_size)
  also have "\<dots> \<le> (2 ^ 32 - 1) * (2 ^ 32 - 1)"
    using assms by (intro mult_right_mono) (auto simp: table_fits_def)
  finally show ?thesis by simp
qed

lemma unat_of_nat32: "n < 2 ^ 32 \<Longrightarrow> unat (of_nat n :: uint32) = n"
  by (simp add: unat_of_nat take_bit_nat_eq_self)

lemma unat_of_nat64: "n < 2 ^ 64 \<Longrightarrow> unat (of_nat n :: uint64) = n"
  by (simp add: unat_of_nat take_bit_nat_eq_self)

lemma unat_ucast32: "unat (ucast (w :: uint32) :: uint64) = unat w"
  using unsigned_less [of w, where ?'a = nat]
  by (simp add: unsigned_ucast_eq take_bit_nat_eq_self)

lemma ucast_of_nat32: "n < 2 ^ 32 \<Longrightarrow> ucast (of_nat n :: uint32) = (of_nat n :: uint64)"
  by (simp add: unsigned_of_nat take_bit_nat_eq_self)

lemma offset_sum_records:
  assumes "list_all (\<lambda>c. length (chunk_record sn (snd c)) < 2 ^ 32) cs" "i \<le> length cs"
  shows "offset_sum (map (\<lambda>c. of_nat (length (chunk_record sn (snd c)))) cs) i
    = of_nat (length (chunk_records sn (take i cs)))"
  using assms(2)
proof (induction i)
  case (Suc i)
  then have "length (chunk_record sn (snd (cs ! i))) < 2 ^ 32"
    using assms(1) by (simp add: list_all_length)
  then have "(ucast (of_nat (length (chunk_record sn (snd (cs ! i)))) :: uint32) :: uint64)
      = of_nat (length (chunk_record sn (snd (cs ! i))))"
    by (rule ucast_of_nat32)
  then show ?case
    using Suc by (simp add: offset_sum_Suc take_Suc_conv_app_nth)
qed simp

lemma index_ok_table_index:
  assumes "length cs < 2 ^ 32"
  shows "index_ok (table_index sn cs) (map fst cs)"
proof -
  let ?es = "index_entries sn cs"
  have ord: "unat (of_nat i :: uint32) = i" if "i < length cs" for i
    using that assms by (simp add: unat_of_nat take_bit_nat_eq_self)
  have "map (\<lambda>e. unat (pi_order e)) ?es = [0..<length cs]"
    by (rule nth_equalityI) (simp_all add: index_entry_def ord)
  then have perm: "mset (map (\<lambda>e. unat (pi_order e)) (sort_Sort sn ?es)) = mset [0..<length cs]"
    by (metis mset_sort_Sort mset_map)
  have pre: "map pi_prefix (sort_Sort sn ?es)
      = map (\<lambda>e. Prefix (map fst cs ! unat (pi_order e))) (sort_Sort sn ?es)"
    by (rule map_cong) (auto simp: index_entries_def index_entry_def ord)
  have suf: "map pi_suffix ?es = map (\<lambda>c. Suffix (fst c)) cs"
    by (rule nth_equalityI) (simp_all add: index_entry_def)
  show ?thesis
    unfolding index_ok_def table_index_def Let_def
    using assms perm pre by (simp add: suf comp_def)
qed

lemma table_ok_newTableReader:
  assumes "table_fits sn cs"
  shows "table_ok sn (newTableReader (table_index sn cs) (table_image sn cs) b m a) cs"
proof -
  have "map pi_size (index_entries sn cs) = map (\<lambda>c. of_nat (length (chunk_record sn (snd c)))) cs"
    by (rule nth_equalityI) (simp_all add: index_entry_def)
  then show ?thesis
    using assms index_ok_table_index [of cs sn] offset_sum_records [of sn cs]
    by (auto simp: table_ok_def table_fits_def newTableReader_def table_index_def Let_def table_image_def)
qed

lemma chunk_records_nth:
  assumes "i < length cs"
  shows "chunk_records sn cs = chunk_records sn (take i cs) @ chunk_record sn (snd (cs ! i))
    @ chunk_records sn (drop (Suc i) cs)"
proof -
  have "cs = take i cs @ cs ! i # drop (Suc i) cs" using assms by (rule id_take_nth_drop)
  then show ?thesis by (metis chunk_records_simps(2,3))
qed

lemma parseChunk_record:
  assumes "snappy_ok sn" "table_ok sn tr cs" "i < length cs"
  shows "parseChunk sn (chunk_record sn (snd (cs ! i))) = Inr (snd (cs ! i))"
  using assms(1) table_fits_encodable [of sn cs i] assms(2,3) get_put_uint32 [of "crc (snd (cs ! i))" "[]"]
  by (simp add: parseChunk_def chunk_record_def snappy_ok_def table_ok_def)

lemma table_offset:
  assumes "table_ok sn tr cs" "i < length cs"
  shows "unat (ti_offsets (tr_index tr) ! i) = length (chunk_records sn (take i cs))"
    and "length (ti_offsets (tr_index tr)) = length cs"
    and "unat (ti_lengths (tr_index tr) ! i) = length (chunk_record sn (snd (cs ! i)))"
    and "length (ti_lengths (tr_index tr)) = length cs"
proof -
  have fits: "table_fits sn cs" using assms(1) by (simp add: table_ok_def)
  have "length (chunk_records sn (take i cs)) \<le> length (chunk_records sn cs)"
    using chunk_records_nth [OF assms(2), of sn] by simp
  then have "length (chunk_records sn (take i cs)) < 2 ^ 64"
    using table_fits_size [OF fits] by simp
  then show "unat (ti_offsets (tr_index tr) ! i) = length (chunk_records sn (take i cs))"
    using assms by (simp add: table_ok_def unat_of_nat64)
  have "length (chunk_record sn (snd (cs ! i))) < 2 ^ 32"
    using fits assms(2) by (simp only: table_fits_def list_all_length)
  then have "unat (of_nat (length (chunk_record sn (snd (cs ! i)))) :: uint32) = length (chunk_record sn (snd (cs ! i)))"
    by (rule unat_of_nat32)
  then show "unat (ti_lengths (tr_index tr) ! i) = length (chunk_record sn (snd (cs ! i)))"
    using assms by (simp only: table_ok_def nth_map)
  show "length (ti_offsets (tr_index tr)) = length cs" "length (ti_lengths (tr_index tr)) = length cs"
    using assms(1) by (simp_all add: table_ok_def)
qed

text \<open>A record inside a range of bytes read from the table.\<close>

lemma table_record_slice:
  assumes "table_ok sn tr cs" "i < length cs"
    and "off = length (chunk_records sn (take i cs))" "len = length (chunk_record sn (snd (cs ! i)))"
    and "lo \<le> off" "off + len \<le> hi"
  shows "take len (drop (off - lo) (take (hi - lo) (drop lo (tr_r tr)))) = chunk_record sn (snd (cs ! i))"
    and "off + len \<le> length (chunk_records sn cs)"
    and "length (chunk_records sn cs) \<le> length (tr_r tr)"
proof -
  let ?R = "chunk_records sn cs"
  have R: "take (length ?R) (tr_r tr) = ?R" using assms(1) by (simp add: table_ok_def)
  define rest where "rest = drop (length ?R) (tr_r tr)"
  have r: "tr_r tr = ?R @ rest"
    using append_take_drop_id [of "length ?R" "tr_r tr"] by (simp add: R rest_def)
  then show "length ?R \<le> length (tr_r tr)" by simp
  have split: "?R = chunk_records sn (take i cs) @ chunk_record sn (snd (cs ! i))
      @ chunk_records sn (drop (Suc i) cs)"
    by (rule chunk_records_nth [OF assms(2)])
  then show end_le: "off + len \<le> length ?R"
    using assms(3,4) by simp
  have "tr_r tr = chunk_records sn (take i cs) @ chunk_record sn (snd (cs ! i))
      @ chunk_records sn (drop (Suc i) cs) @ rest"
    using r split by simp
  then have *: "take len (drop off (tr_r tr)) = chunk_record sn (snd (cs ! i))"
    by (simp add: assms(3,4))
  have "drop (off - lo) (take (hi - lo) (drop lo (tr_r tr))) = take (hi - off) (drop off (tr_r tr))"
    using assms(5,6) by (simp add: drop_take)
  then show "take len (drop (off - lo) (take (hi - lo) (drop lo (tr_r tr)))) = chunk_record sn (snd (cs ! i))"
    using * assms(6) by simp
qed

lemma tr_get_ok:
  assumes "snappy_ok sn" "table_ok sn tr cs" "distinct (map fst cs)"
  shows "tr_get sn tr h = Inr (map_of cs h)"
proof -
  let ?as = "map fst cs"
  have index: "index_ok (tr_index tr) ?as" using assms(2) by (simp add: table_ok_def)
  obtain r where r: "lookupOrdinal (tr_index tr) h = Inr r" "ordinal_of ?as h r"
    using lookupOrdinal_ok [OF index] by blast
  show ?thesis
  proof (cases "h \<in> set ?as")
    case False
    then have "r = tr_count tr"
      using r(2) index by (simp add: ordinal_of_def tr_count_def index_ok_def)
    moreover have "map_of cs h = None" using False by (simp add: map_of_eq_None_iff)
    ultimately show ?thesis using r(1) by (simp add: tr_get_def)
  next
    case True
    let ?i = "unat r"
    have i: "?i < length cs" "fst (cs ! ?i) = h"
      using r(2) True by (auto simp: ordinal_of_def)
    then have "r \<noteq> tr_count tr"
      using index_count [OF index] by (auto simp: tr_count_def)
    note off = table_offset [OF assms(2) i(1)]
    note slice = table_record_slice [OF assms(2) i(1) refl refl order_refl order_refl]
    have "ReadAt (tr_r tr) (unat (ti_offsets (tr_index tr) ! ?i)) (unat (ti_lengths (tr_index tr) ! ?i))
        = Inr (chunk_record sn (snd (cs ! ?i)))"
      using slice by (simp add: ReadAt_def off del: length_chunk_record)
    moreover have "map_of cs h = Some (snd (cs ! ?i))"
      using assms(3) i by (metis map_of_eq_Some_iff nth_mem prod.collapse)
    ultimately show ?thesis
      using r(1) \<open>r \<noteq> tr_count tr\<close> i(1) off parseChunk_record [OF assms(1,2)]
      by (simp add: tr_get_def)
  qed
qed

lemma tr_has_ok:
  assumes "index_ok (tr_index tr) as"
  shows "tr_has tr h = Inr (h \<in> set as)"
proof -
  obtain r where r: "lookupOrdinal (tr_index tr) h = Inr r" "ordinal_of as h r"
    using lookupOrdinal_ok [OF assms] by blast
  have "r < tr_count tr \<longleftrightarrow> h \<in> set as"
    using r(2) index_count [OF assms] assms
    by (auto simp: ordinal_of_def tr_count_def word_less_nat_alt index_ok_def split: if_splits)
  then show ?thesis by (simp add: tr_has_def r(1))
qed

subsection \<open>Enumerating a table\<close>

lemma copy_hash_Prefix_Suffix: "copy_hash (put_uint64 (Prefix a) @ Suffix a) = a"
  by (simp add: Prefix_def Suffix_def put_uint64_of_decode)

lemma extract_hashes_ok:
  assumes "index_ok ti as"
  shows "extract_hashes ti = Inr as"
proof -
  let ?n = "length as" and ?os = "ti_ordinals ti"
  have len: "length (ti_prefixes ti) = ?n" "length ?os = ?n" using index_length [OF assms] by auto
  have suffixes: "ti_suffixes ti = concat (map Suffix as)" using assms by (simp add: index_ok_def)
  have total: "length (concat (map Suffix as)) = 12 * ?n" by (induction as) auto
  define step where "step = (\<lambda>hashes idx.
       rbind (nth_res (ti_prefixes ti) idx) (\<lambda>prefix.
       rbind (prefixIdxToOrdinal ti idx) (\<lambda>ordinal.
       rbind (nth_res hashes (unat ordinal)) (\<lambda>_.
       let li = unat ordinal * addrSuffixSize
       in rbind (slice_res (ti_suffixes ti) li (li + addrSuffixSize)) (\<lambda>suffix.
            Inr (hashes[unat ordinal := copy_hash (put_uint64 prefix @ suffix)]))))))"
  have step: "step hs j = Inr (hs[unat (?os ! j) := entry ti as j])" if "j < ?n" "length hs = ?n" for hs j
  proof -
    let ?i = "unat (?os ! j)"
    have i: "?i < ?n" by (rule index_ordinal [OF assms that(1)])
    have "drop (?i * 12) (ti_suffixes ti) = Suffix (as ! ?i) @ concat (map Suffix (drop (Suc ?i) as))"
      using drop_concat_map [of Suffix 12 ?i as] i by (simp add: suffixes flip: Cons_nth_drop_Suc)
    moreover have "?i * 12 + 12 \<le> length (ti_suffixes ti)" using i by (simp add: suffixes total)
    ultimately show ?thesis
      using that i len index_prefix [OF assms that(1)]
      by (simp add: step_def prefixIdxToOrdinal_def Let_def copy_hash_Prefix_Suffix)
  qed
  have "\<exists>hs. foldM_res step (replicate ?n emptyHash) [0..<k] = Inr hs \<and> length hs = ?n
      \<and> (\<forall>j < k. hs ! unat (?os ! j) = entry ti as j)" if "k \<le> ?n" for k
    using that
  proof (induction k)
    case (Suc k)
    then obtain hs where hs: "foldM_res step (replicate ?n emptyHash) [0..<k] = Inr hs" "length hs = ?n"
      "\<forall>j < k. hs ! unat (?os ! j) = entry ti as j" by auto
    let ?hs = "hs[unat (?os ! k) := entry ti as k]"
    have "foldM_res step (replicate ?n emptyHash) [0..<Suc k] = Inr ?hs"
      using hs(1,2) Suc.prems by (simp add: foldM_res_append step)
    moreover have "\<forall>j < Suc k. ?hs ! unat (?os ! j) = entry ti as j"
      using hs(2,3) Suc.prems index_ordinal [OF assms, of k]
      by (auto simp: nth_list_update less_Suc_eq)
    ultimately show ?case using hs(2) by auto
  qed simp
  then obtain hs where hs: "foldM_res step (replicate ?n emptyHash) [0..<?n] = Inr hs" "length hs = ?n"
    "\<forall>j < ?n. hs ! unat (?os ! j) = entry ti as j" by blast
  have "hs = as"
  proof (rule nth_equalityI)
    fix i assume "i < length hs"
    then show "hs ! i = as ! i" using hs(2,3) index_surj [OF assms, of i] by auto
  qed (rule hs(2))
  then show ?thesis using hs(1) by (simp add: extract_hashes_def len step_def)
qed

definition extracted :: "table_chunk \<Rightarrow> extractRecord" where
  "extracted c = \<lparr>er_a = fst c, er_data = snd c\<rparr>"

lemma sendChunk_ok:
  assumes "snappy_ok sn" "table_ok sn tr cs" "i < length cs"
    and "buff = take (length (chunk_records sn cs)) (tr_r tr)"
  shows "sendChunk sn (tr_index tr) (map fst cs) buff i = Inr (extracted (cs ! i))"
proof -
  note off = table_offset [OF assms(2,3)]
  have pos: "0 < length cs" using assms(3) by linarith
  note off0 = table_offset(1) [OF assms(2) pos]
  then have "ti_offsets (tr_index tr) ! 0 = 0" by (simp add: unat_eq_zero)
  moreover note table_record_slice [OF assms(2,3) refl refl, of 0 "length (chunk_records sn cs)"]
    table_record_slice(2,3) [OF assms(2,3) refl refl order_refl order_refl]
  ultimately show ?thesis
    using pos assms(3,4) off parseChunk_record [OF assms(1,2)]
    by (simp add: sendChunk_def Let_def extracted_def nth_res_def del: length_chunk_record)
qed

lemma tr_extract_ok:
  assumes "snappy_ok sn" "table_ok sn tr cs"
  shows "tr_extract sn tr ord =
    Inr (map extracted (case ord of InsertOrder \<Rightarrow> cs | ReverseOrder \<Rightarrow> rev cs))"
proof -
  let ?ti = "tr_index tr" and ?n = "length cs" and ?R = "chunk_records sn cs"
  have fits: "table_fits sn cs" and index: "index_ok ?ti (map fst cs)"
    using assms(2) by (simp_all add: table_ok_def)
  then have n: "?n - 1 < ?n" "0 < ?n" by (auto simp: table_fits_def)
  have cnt: "unat (ti_chunkCount ?ti) = ?n" using index_count [OF index] by simp
  note last = table_offset [OF assms(2) n(1)] and first = table_offset(1) [OF assms(2) n(2)]
  have off0: "ti_offsets ?ti ! 0 = 0" using first by (simp add: unat_eq_zero)
  have "?R = chunk_records sn (take (?n - 1) cs) @ chunk_record sn (snd (cs ! (?n - 1)))"
    using chunk_records_nth [OF n(1), of sn] n(2) by simp
  then have len: "length ?R = length (chunk_records sn (take (?n - 1) cs)) + length (chunk_record sn (snd (cs ! (?n - 1))))"
    by (metis length_append)
  have "unat (ti_offsets ?ti ! (?n - 1)) + unat (ti_lengths ?ti ! (?n - 1)) = length ?R"
    using last(1,3) len by simp
  moreover have "unat (ucast (ti_lengths ?ti ! (?n - 1)) :: uint64) = unat (ti_lengths ?ti ! (?n - 1))"
    by (rule unat_ucast32)
  ultimately have chunkLen: "unat (ti_offsets ?ti ! (?n - 1) + ucast (ti_lengths ?ti ! (?n - 1))) = length ?R"
    using table_fits_size [OF fits] by (simp add: unat_word_ariths)
  have read: "ReadAt (tr_r tr) 0 (length ?R) = Inr (take (length ?R) (tr_r tr))"
    using table_record_slice(3) [OF assms(2) n(2) refl refl order_refl order_refl] by (simp add: ReadAt_def)
  have send: "mapM_res (sendChunk sn ?ti (map fst cs) (take (length ?R) (tr_r tr))) is
      = Inr (map (\<lambda>i. extracted (cs ! i)) is)" if "\<forall>i \<in> set is. i < ?n" for "is"
    by (rule mapM_res_Inr) (rule sendChunk_ok [OF assms _ refl], use that in blast)
  have fwd: "mapM_res (sendChunk sn ?ti (map fst cs) (take (length ?R) (tr_r tr))) [0..<?n]
      = Inr (map extracted cs)"
    using send [of "[0..<?n]"] by (simp add: map_nth_upt)
  have "map (\<lambda>i. extracted (cs ! i)) (map (\<lambda>i. ?n - i) [1..<Suc ?n]) = map extracted (rev cs)"
    by (rule nth_equalityI) (auto simp: rev_nth simp del: upt_Suc)
  moreover have "\<forall>i \<in> {Suc 0..<Suc ?n}. ?n - i < ?n" by auto
  ultimately have bwd: "mapM_res (sendChunk sn ?ti (map fst cs) (take (length ?R) (tr_r tr)))
      (map (\<lambda>i. ?n - i) [Suc 0..<Suc ?n]) = Inr (map extracted (rev cs))"
    using send [of "map (\<lambda>i. ?n - i) [1..<Suc ?n]"] by (simp del: upt_Suc map_map)
  show ?thesis
    using n(2) last(2,4) chunkLen
    by (cases ord) (simp_all add: tr_extract_def Let_def extract_hashes_ok [OF index] cnt off0 read fwd bwd
        del: map_map upt_Suc)
qed

subsection \<open>Properties of tables\<close>

text \<open>
  C7. What was written can be read: in a buffer of \<open>maxTableSize\<close> bytes the writer finishes a table
  (the computation of that size not wrapping around) whose index parses, and a reader on it returns for every address exactly the chunk added under it
  and answers \<open>has\<close> accordingly, without a panic.
\<close>

theorem table_write_read:
  assumes "snappy_ok sn" and "maxTableSize n tot = Inr sz" and "size_fits n tot" and "length buff = sz"
    and "length cs \<le> n" and "data_size cs \<le> tot" and "table_fits sn cs" and "distinct (map fst cs)"
    and "list_all (\<lambda>c. snd c \<noteq> [] \<and> 0 \<le> MaxEncodedLen (length (snd c))) cs"
  shows "\<exists>tw len name ti tr.
      rbind (foldM_res (\<lambda>tw c. tw_addChunk sn tw (fst c) (snd c)) (newTableWriter buff) cs) (finish sn)
        = Inr (tw, len, name)
    \<and> parseTableIndex (take len (tw_buff tw)) = Inr ti
    \<and> tr = newTableReader ti (take len (tw_buff tw)) blockSize maxReadSize readAmpThresh
    \<and> (\<forall>h. tr_get sn tr h = Inr (map_of cs h)) \<and> (\<forall>h. tr_has tr h = Inr (h \<in> fst ` set cs))"
proof -
  let ?t = "table_image sn cs"
  let ?tr = "newTableReader (table_index sn cs) ?t blockSize maxReadSize readAmpThresh"
  have small: "length cs < 2 ^ 32" and "cs \<noteq> []" using assms(7) by (auto simp: table_fits_def)
  then have parse: "parseTableIndex ?t = Inr (table_index sn cs)"
    using parseTableIndex_image [of cs "chunk_records sn cs" sn] by (simp add: table_image_def)
  have room: "writer_room sn (length buff) cs" "length ?t \<le> length buff"
    using maxTableSize_room [OF assms(1,2,3,5,6)] assms(4,9) by (auto simp: list_all_iff)
  have ok: "table_ok sn ?tr cs" by (rule table_ok_newTableReader [OF assms(7)])
  then have index: "index_ok (tr_index ?tr) (map fst cs)" by (simp add: table_ok_def)
  obtain tw where "rbind (foldM_res (\<lambda>tw c. tw_addChunk sn tw (fst c) (snd c)) (newTableWriter buff) cs) (finish sn)
      = Inr (tw, length ?t, table_name sn cs)" "take (length ?t) (tw_buff tw) = ?t"
    using finish_image [OF small] room by (auto simp: tw_addChunks)
  moreover have "\<forall>h. tr_get sn ?tr h = Inr (map_of cs h)" "\<forall>h. tr_has ?tr h = Inr (h \<in> fst ` set cs)"
    using tr_get_ok [OF assms(1) ok assms(8)] tr_has_ok [OF index] by auto
  ultimately show ?thesis using parse by metis
qed

text \<open>
  C8. A batched membership test agrees with single ones: for requests sorted by prefix it marks exactly
  the requests whose address is in the table, besides those already marked, and reports that some
  remain exactly when one is still unmarked.
\<close>

theorem tr_hasMany_pointwise:
  assumes "table_fits sn cs" and "has_request rs"
    and "tr = newTableReader (table_index sn cs) (table_image sn cs) blockSize maxReadSize readAmpThresh"
  shows "tr_hasMany tr rs =
    (let rs' = map (\<lambda>r. r\<lparr>hr_has := hr_has r \<or> tr_has tr (hr_a r) = Inr True\<rparr>) rs
     in Inr (rs', \<not> list_all hr_has rs'))"
proof -
  have index: "index_ok (tr_index tr) (map fst cs)"
    using table_ok_newTableReader [OF assms(1)] assms(3) by (simp add: table_ok_def)
  show ?thesis
    using tr_hasMany_ok [OF index assms(2)] tr_has_ok [OF index]
    by (simp add: answered_def Let_def list_all_iff)
qed

text \<open>
  C9. Enumerating a table gives the chunks with their addresses in the order they were inserted, or in
  the reverse order.
\<close>

theorem tr_extract_orders:
  assumes "snappy_ok sn" and "table_fits sn cs"
    and "tr = newTableReader (table_index sn cs) (table_image sn cs) blockSize maxReadSize readAmpThresh"
  shows "tr_extract sn tr ord = Inr (map (\<lambda>c. \<lparr>er_a = fst c, er_data = snd c\<rparr>)
    (case ord of InsertOrder \<Rightarrow> cs | ReverseOrder \<Rightarrow> rev cs))"
  using tr_extract_ok [OF assms(1) table_ok_newTableReader [OF assms(2)]] assms(3)
  by (simp add: extracted_def [abs_def])

text \<open>Two chunks, for the witnesses.\<close>

definition two_chunks :: "table_chunk list" where
  "two_chunks = [(copy_hash [1], [7, 8]), (emptyHash, [9])]"

lemma table_fits_two_chunks: "table_fits stored two_chunks"
  by (simp add: table_fits_def two_chunks_def stored_def MaxEncodedLen_def)

lemma copy_hash_1_neq: "copy_hash [1] \<noteq> emptyHash"
proof
  assume "copy_hash [1] = emptyHash"
  then have "hd (hash_bytes (copy_hash [1])) = hd (hash_bytes emptyHash)" by simp
  then show False by (simp add: hash_bytes_copy_hash emptyHash_def)
qed

theorem table_write_read_witness:
  "\<exists>tw len name ti tr.
      rbind (foldM_res (\<lambda>tw c. tw_addChunk stored tw (fst c) (snd c)) (newTableWriter (replicate 150 0)) two_chunks)
        (finish stored)
        = Inr (tw, len, name)
    \<and> parseTableIndex (take len (tw_buff tw)) = Inr ti
    \<and> tr = newTableReader ti (take len (tw_buff tw)) 4096 1048576 5
    \<and> (\<forall>h. tr_get stored tr h = Inr (map_of two_chunks h))
    \<and> (\<forall>h. tr_has tr h = Inr (h \<in> fst ` set two_chunks))"
proof -
  have "maxTableSize 2 3 = Inr 150"
    by (simp add: maxTableSize_def MaxEncodedLen_def)
  then show ?thesis
    by (rule table_write_read [OF snappy_ok_stored _ _ _ _ _ table_fits_two_chunks])
      (simp_all add: two_chunks_def copy_hash_1_neq MaxEncodedLen_def size_fits_def)
qed

theorem tr_hasMany_pointwise_witness:
  "\<exists>tr. has_request [\<lparr>hr_a = emptyHash, hr_prefix = Prefix emptyHash, hr_order = 0, hr_has = False\<rparr>]
    \<and> tr_hasMany tr [\<lparr>hr_a = emptyHash, hr_prefix = Prefix emptyHash, hr_order = 0, hr_has = False\<rparr>]
      = Inr ([\<lparr>hr_a = emptyHash, hr_prefix = Prefix emptyHash, hr_order = 0, hr_has = True\<rparr>], False)"
proof -
  let ?tr = "newTableReader (table_index stored two_chunks) (table_image stored two_chunks) 4096 1048576 5"
  let ?rs = "[\<lparr>hr_a = emptyHash, hr_prefix = Prefix emptyHash, hr_order = 0, hr_has = False\<rparr>]"
  have req: "has_request ?rs" by (simp add: has_request_def)
  have "index_ok (tr_index ?tr) (map fst two_chunks)"
    using table_ok_newTableReader [OF table_fits_two_chunks] by (simp add: table_ok_def)
  then have "tr_has ?tr emptyHash = Inr True"
    by (subst tr_has_ok) (auto simp: two_chunks_def)
  then show ?thesis
    using tr_hasMany_pointwise [OF table_fits_two_chunks req refl, of 4096 1048576 5] req
    by (intro exI [of _ ?tr]) simp
qed

theorem tr_extract_orders_witness:
  "\<exists>tr. tr_extract stored tr ReverseOrder =
     Inr [\<lparr>er_a = emptyHash, er_data = [9]\<rparr>, \<lparr>er_a = copy_hash [1], er_data = [7, 8]\<rparr>]"
  using tr_extract_orders [OF snappy_ok_stored table_fits_two_chunks refl, of 4096 1048576 5 ReverseOrder]
  by (auto simp: two_chunks_def)

end
