(* ===== verification/NbsReads.thy ===== *)
theory NbsReads
  imports NbsReader
begin

text \<open>
  Batched reads of a table (\<open>getMany\<close> and \<open>calcReads\<close> of \<open>go/nbs/table_reader.go\<close>): the records the
  requests ask for are located in one scan over the index, sorted by offset and grouped into physical
  reads, which goroutines execute in any order.
\<close>

subsection \<open>Locating the records\<close>

record offsetRec =
  or_reqIdx :: uint32
  or_ordinal :: uint32
  or_offset :: uint64

text \<open>Collect every entry of the run of equal prefixes from \<open>j\<close> on that has the requested suffix.\<close>

function findRun :: "tableIndex \<Rightarrow> addr \<Rightarrow> uint64 \<Rightarrow> nat \<Rightarrow> nat \<Rightarrow> (bool \<times> offsetRec list) res" where
  "findRun ti a prefix i j =
     (if j < length (ti_prefixes ti) \<and> prefix = ti_prefixes ti ! j
      then rbind (prefixIdxToOrdinal ti j) (\<lambda>ordinal.
           rbind (ordinalSuffixMatches ti ordinal a) (\<lambda>m.
             if m
             then rbind (nth_res (ti_ordinals ti) j) (\<lambda>ord. rbind (nth_res (ti_offsets ti) (unat ord)) (\<lambda>off.
                  rbind (findRun ti a prefix i (Suc j)) (\<lambda>(_, ors).
                    Inr (True, \<lparr>or_reqIdx = of_nat i, or_ordinal = ord, or_offset = off\<rparr> # ors))))
             else findRun ti a prefix i (Suc j)))
      else Inr (False, []))"
  by pat_completeness auto
termination
  by (relation "measure (\<lambda>(ti, a, prefix, i, j). length (ti_prefixes ti) - j)") auto

declare findRun.simps [simp del]

fun findOffsets_loop ::
    "tableIndex \<Rightarrow> nat \<Rightarrow> nat \<Rightarrow> bool \<Rightarrow> getRecord list \<Rightarrow> (getRecord list \<times> offsetRec list \<times> bool) res" where
  "findOffsets_loop ti i filterIdx remaining [] = Inr ([], [], remaining)"
| "findOffsets_loop ti i filterIdx remaining (req # reqs) =
     (if gr_found req
      then rbind (findOffsets_loop ti (Suc i) filterIdx remaining reqs) (\<lambda>(reqs', ors, r).
             Inr (req # reqs', ors, r))
      else let filterIdx' = advance (ti_prefixes ti) (gr_prefix req) filterIdx
           in if filterIdx' \<ge> length (ti_prefixes ti) then Inr (req # reqs, [], True)
              else if gr_prefix req \<noteq> ti_prefixes ti ! filterIdx'
              then rbind (findOffsets_loop ti (Suc i) filterIdx' True reqs) (\<lambda>(reqs', ors, r).
                     Inr (req # reqs', ors, r))
              else rbind (findRun ti (gr_a req) (gr_prefix req) i filterIdx') (\<lambda>(found, ors1).
                   rbind (findOffsets_loop ti (Suc i) filterIdx' remaining reqs) (\<lambda>(reqs', ors, r).
                     Inr (req\<lparr>gr_found := found\<rparr> # reqs', ors1 @ ors, r))))"

text \<open>The requests with their \<open>found\<close> flags, the records to read, and whether requests remain.\<close>

definition findOffsets :: "tableReader \<Rightarrow> getRecord list \<Rightarrow> (getRecord list \<times> offsetRec list \<times> bool) res" where
  "findOffsets tr reqs = findOffsets_loop (tr_index tr) 0 0 False reqs"

subsection \<open>Grouping records into reads\<close>

definition canReadAhead ::
    "offsetRec \<Rightarrow> uint32 \<Rightarrow> uint64 \<Rightarrow> uint64 \<Rightarrow> uint64 \<Rightarrow> uint64 \<Rightarrow> uint64 \<Rightarrow> uint64 \<Rightarrow> uint64 \<times> uint64 \<times> bool" where
  "canReadAhead fRec fLength readStart readEnd readAmp blockSize maxReadSize ampThresh =
     (if or_offset fRec < readEnd then (readEnd, 0, True)
      else let fReadAmp0 = or_offset fRec - readEnd;
               fReadAmp = (if fReadAmp0 < blockSize then 0 else fReadAmp0 - blockSize)
           in if ampThresh = 0 \<and> readAmp + fReadAmp > 0 then (readEnd, 0, False)
              else let proposedSize = or_offset fRec + ucast fLength - readStart
                   in if proposedSize > maxReadSize \<or> proposedSize < ampThresh * (readAmp + fReadAmp)
                      then (readEnd, 0, False)
                      else (or_offset fRec + ucast fLength, readAmp + fReadAmp, True))"

text \<open>A spawned call \<open>go tr.readAtOffsets(readStart, readEnd, reqs, batch, wg)\<close>.\<close>

record physicalRead =
  pr_start :: uint64
  pr_end :: uint64
  pr_batch :: "offsetRec list"

definition readAtOffsets_step ::
    "libs \<Rightarrow> tableReader \<Rightarrow> uint64 \<Rightarrow> uint64 \<Rightarrow> bytes \<Rightarrow> getRecord list \<Rightarrow> offsetRec \<Rightarrow> getRecord list res" where
  "readAtOffsets_step sn tr readStart readLength buff reqs rec =
     chk (or_offset rec \<ge> readStart)
       (let localStart = or_offset rec - readStart
        in rbind (nth_res (ti_lengths (tr_index tr)) (unat (or_ordinal rec))) (\<lambda>len.
           let localEnd = localStart + ucast len
           in chk (localEnd \<le> readLength)
                (rbind (slice_res buff (unat localStart) (unat localEnd)) (\<lambda>b. rbind (parseChunk sn b) (\<lambda>data.
                 let i = unat (or_reqIdx rec)
                 in rbind (nth_res reqs i) (\<lambda>req. Inr (reqs[i := req\<lparr>gr_data := Some data\<rparr>])))))))"

definition readAtOffsets :: "libs \<Rightarrow> tableReader \<Rightarrow> getRecord list \<Rightarrow> physicalRead \<Rightarrow> getRecord list res" where
  "readAtOffsets sn tr reqs rd =
     (let readLength = pr_end rd - pr_start rd
      in rbind (ReadAt (tr_r tr) (unat (pr_start rd)) (unat readLength)) (\<lambda>buff.
           foldM_res (readAtOffsets_step sn tr (pr_start rd) readLength buff) reqs (pr_batch rd)))"

text \<open>The loop over the sorted records; \<open>None\<close> is a nil batch.\<close>

function groupReads :: "tableReader \<Rightarrow> physicalRead option \<Rightarrow> uint64 \<Rightarrow> offsetRec list \<Rightarrow> physicalRead list res" where
  "groupReads tr None readAmp [] = Inr []"
| "groupReads tr (Some rd) readAmp [] = Inr [rd]"
| "groupReads tr None readAmp (rec # recs) =
     rbind (nth_res (ti_lengths (tr_index tr)) (unat (or_ordinal rec))) (\<lambda>len.
       groupReads tr (Some \<lparr>pr_start = or_offset rec, pr_end = or_offset rec + ucast len, pr_batch = [rec]\<rparr>) 0 recs)"
| "groupReads tr (Some rd) readAmp (rec # recs) =
     rbind (nth_res (ti_lengths (tr_index tr)) (unat (or_ordinal rec))) (\<lambda>len.
       case canReadAhead rec len (pr_start rd) (pr_end rd) readAmp
              (tr_blockSize tr) (tr_maxReadSize tr) (tr_readAmpThresh tr) of
         (newReadEnd, newReadAmp, canRead) \<Rightarrow>
           if canRead
           then groupReads tr (Some (rd\<lparr>pr_end := newReadEnd, pr_batch := pr_batch rd @ [rec]\<rparr>)) newReadAmp recs
           else rbind (groupReads tr None readAmp (rec # recs)) (\<lambda>rds. Inr (rd # rds)))"
  by pat_completeness auto
termination
  by (relation "measure (\<lambda>(tr, b, readAmp, recs). 2 * length recs + (if b = None then 0 else 1))") auto

text \<open>\<open>getMany\<close> up to its spawned reads: the updated requests, the reads, and \<open>remaining\<close>.\<close>

definition tr_getMany :: "tableReader \<Rightarrow> getRecord list \<Rightarrow> (getRecord list \<times> physicalRead list \<times> bool) res" where
  "tr_getMany tr reqs =
     rbind (findOffsets tr reqs) (\<lambda>(reqs', ors, remaining).
     rbind (groupReads tr None 0 (Sort or_offset ors)) (\<lambda>reads. Inr (reqs', reads, remaining)))"

text \<open>The goroutines run to completion, in the order of \<open>reads\<close>.\<close>

definition run_reads :: "libs \<Rightarrow> tableReader \<Rightarrow> getRecord list \<Rightarrow> physicalRead list \<Rightarrow> getRecord list res" where
  "run_reads sn tr reqs reads = foldM_res (readAtOffsets sn tr) reqs reads"

subsection \<open>Counting reads\<close>

definition satisfy :: "getRecord list \<Rightarrow> offsetRec \<Rightarrow> getRecord list" where
  "satisfy reqs rec = (let i = unat (or_reqIdx rec) in reqs[i := (reqs ! i)\<lparr>gr_data := Some [1]\<rparr>])"

fun scanAhead ::
    "tableReader \<Rightarrow> uint64 \<Rightarrow> uint64 \<Rightarrow> uint64 \<Rightarrow> uint64 \<Rightarrow> uint64 \<Rightarrow> uint64 \<Rightarrow> getRecord list \<Rightarrow> offsetRec list \<Rightarrow> getRecord list res" where
  "scanAhead tr blockSize maxReadSize ampThresh readStart readEnd readAmp reqs [] = Inr reqs"
| "scanAhead tr blockSize maxReadSize ampThresh readStart readEnd readAmp reqs (fRec # recs) =
     rbind (nth_res reqs (unat (or_reqIdx fRec))) (\<lambda>req.
       if gr_data req \<noteq> None
       then scanAhead tr blockSize maxReadSize ampThresh readStart readEnd readAmp reqs recs
       else rbind (nth_res (ti_lengths (tr_index tr)) (unat (or_ordinal fRec))) (\<lambda>len.
            case canReadAhead fRec len readStart readEnd readAmp blockSize maxReadSize ampThresh of
              (readEnd', readAmp', canRead) \<Rightarrow>
                if canRead
                then scanAhead tr blockSize maxReadSize ampThresh readStart readEnd' readAmp' (satisfy reqs fRec) recs
                else Inr reqs))"

fun calcReads_loop ::
    "tableReader \<Rightarrow> uint64 \<Rightarrow> uint64 \<Rightarrow> uint64 \<Rightarrow> nat \<Rightarrow> getRecord list \<Rightarrow> offsetRec list \<Rightarrow> (getRecord list \<times> nat) res" where
  "calcReads_loop tr blockSize maxReadSize ampThresh reads reqs [] = Inr (reqs, reads)"
| "calcReads_loop tr blockSize maxReadSize ampThresh reads reqs (rec # recs) =
     rbind (nth_res reqs (unat (or_reqIdx rec))) (\<lambda>req.
       if gr_data req \<noteq> None then calcReads_loop tr blockSize maxReadSize ampThresh reads reqs recs
       else rbind (nth_res (ti_lengths (tr_index tr)) (unat (or_ordinal rec))) (\<lambda>len.
            rbind (scanAhead tr blockSize maxReadSize ampThresh (or_offset rec) (or_offset rec + ucast len) 0
                     (satisfy reqs rec) recs) (\<lambda>reqs'.
              calcReads_loop tr blockSize maxReadSize ampThresh (Suc reads) reqs' recs)))"

definition tr_calcReads ::
    "tableReader \<Rightarrow> getRecord list \<Rightarrow> uint64 \<Rightarrow> uint64 \<Rightarrow> uint64 \<Rightarrow> (getRecord list \<times> nat \<times> bool) res" where
  "tr_calcReads tr reqs blockSize maxReadSize ampThresh =
     rbind (findOffsets tr reqs) (\<lambda>(reqs', ors, remaining).
     rbind (calcReads_loop tr blockSize maxReadSize ampThresh 0 reqs' (Sort or_offset ors)) (\<lambda>(reqs'', reads).
       Inr (reqs'', reads, remaining)))"

subsection \<open>The located records\<close>

definition offset_rec :: "tableIndex \<Rightarrow> nat \<Rightarrow> nat \<Rightarrow> offsetRec" where
  "offset_rec ti i k =
     \<lparr>or_reqIdx = of_nat i, or_ordinal = ti_ordinals ti ! k,
      or_offset = ti_offsets ti ! unat (ti_ordinals ti ! k)\<rparr>"

definition run_from :: "tableIndex \<Rightarrow> addr list \<Rightarrow> addr \<Rightarrow> nat \<Rightarrow> nat list" where
  "run_from ti as h j = filter (\<lambda>k. entry ti as k = h) [j..<length as]"

lemma run_from_Suc:
  "j < length as \<Longrightarrow>
     run_from ti as h j = (if entry ti as j = h then j # run_from ti as h (Suc j) else run_from ti as h (Suc j))"
  by (simp add: run_from_def upt_conv_Cons)

lemma run_from_below:
  assumes "\<forall>k < f. entry ti as k \<noteq> h" "f \<le> length as"
  shows "run_from ti as h 0 = run_from ti as h f"
proof -
  have "[0..<length as] = [0..<f] @ [f..<length as]" 
    using upt_add_eq_append [of 0 f "length as - f"] assms(2) by simp
  moreover have "filter (\<lambda>k. entry ti as k = h) [0..<f] = []" using assms(1) by simp
  ultimately show ?thesis by (simp add: run_from_def)
qed

lemma run_from_empty_iff:
  "run_from ti as h j = [] \<longleftrightarrow> \<not> (\<exists>k. j \<le> k \<and> k < length as \<and> entry ti as k = h)"
  by (auto simp: run_from_def filter_empty_conv)

lemma findRun_ok:
  assumes "index_ok ti as" "length (ti_offsets ti) = length as"
    and "j \<le> length as" "j < length as \<longrightarrow> Prefix h \<le> ti_prefixes ti ! j"
  shows "findRun ti h (Prefix h) i j =
    Inr (run_from ti as h j \<noteq> [], map (offset_rec ti i) (run_from ti as h j))"
  using assms(3,4)
proof (induction "length as - j" arbitrary: j)
  case 0
  then show ?case using index_length(2) [OF assms(1)] by (simp add: findRun.simps run_from_def)
next
  case (Suc m)
  then have j: "j < length as" by simp
  note here = index_length [OF assms(1)] index_ordinal [OF assms(1) j]
  show ?case
  proof (cases "ti_prefixes ti ! j = Prefix h")
    case False
    then have "Prefix h < ti_prefixes ti ! j" using Suc.prems(2) j by simp
    then have "run_from ti as h j = []"
      using beyond_prefix [OF assms(1)] by (auto simp: run_from_empty_iff)
    then show ?thesis using False by (simp add: findRun.simps)
  next
    case eq: True
    have "Suc j < length as \<longrightarrow> Prefix h \<le> ti_prefixes ti ! Suc j"
      using eq index_sorted [OF assms(1), of j "Suc j"] by simp
    then have IH: "findRun ti h (Prefix h) i (Suc j)
        = Inr (run_from ti as h (Suc j) \<noteq> [], map (offset_rec ti i) (run_from ti as h (Suc j)))"
      using Suc.hyps(1) [of "Suc j"] Suc.hyps(2) j by simp
    show ?thesis
      using eq j here assms(2) entry_eq_iff [OF assms(1) j eq] IH
      by (subst findRun.simps)
        (simp add: prefixIdxToOrdinal_def ordinalSuffixMatches_ok [OF assms(1)] run_from_Suc offset_rec_def)
  qed
qed

definition get_request :: "getRecord list \<Rightarrow> bool" where
  "get_request rs \<longleftrightarrow> sorted (map gr_prefix rs) \<and> list_all (\<lambda>r. gr_prefix r = Prefix (gr_a r)) rs"

lemma get_request_Cons:
  "get_request (r # rs) \<longleftrightarrow>
     gr_prefix r = Prefix (gr_a r) \<and> get_request rs \<and> (\<forall>x \<in> set rs. gr_prefix r \<le> gr_prefix x)"
  by (auto simp: get_request_def)

definition found_in :: "addr set \<Rightarrow> getRecord \<Rightarrow> getRecord" where
  "found_in A r = r\<lparr>gr_found := gr_found r \<or> gr_a r \<in> A\<rparr>"

lemma found_in_found [simp]: "gr_found r \<Longrightarrow> found_in A r = r"
  by (simp add: found_in_def)

lemma found_in_absent [simp]: "gr_a r \<notin> A \<Longrightarrow> found_in A r = r"
  by (simp add: found_in_def)

fun located :: "tableIndex \<Rightarrow> addr list \<Rightarrow> nat \<Rightarrow> getRecord list \<Rightarrow> offsetRec list" where
  "located ti as i [] = []"
| "located ti as i (r # rs) =
     (if gr_found r then [] else map (offset_rec ti i) (run_from ti as (gr_a r) 0)) @ located ti as (Suc i) rs"

lemma located_absent:
  assumes "index_ok ti as" "\<forall>r \<in> set rs. gr_a r \<notin> set as"
  shows "located ti as i rs = []"
  using assms(2) set_entries [OF assms(1)]
  by (induction rs arbitrary: i) (auto simp: run_from_def filter_empty_conv)

lemma findOffsets_loop_ok:
  assumes "index_ok ti as" "length (ti_offsets ti) = length as" "get_request rs" "filterIdx \<le> length as"
    and "\<forall>r \<in> set rs. \<forall>k < filterIdx. ti_prefixes ti ! k < gr_prefix r"
  shows "findOffsets_loop ti i filterIdx remaining rs
    = Inr (map (found_in (set as)) rs, located ti as i rs,
        remaining \<or> \<not> list_all (\<lambda>r. gr_found r \<or> gr_prefix r \<in> set (ti_prefixes ti)) rs)"
  using assms(3-5)
proof (induction rs arbitrary: i filterIdx remaining)
  case Nil
  then show ?case by simp
next
  case (Cons r rs)
  let ?ps = "ti_prefixes ti" and ?A = "set as"
  have pr: "gr_prefix r = Prefix (gr_a r)" and rs: "get_request rs"
    and le: "\<forall>x \<in> set rs. gr_prefix r \<le> gr_prefix x"
    using Cons.prems(1) by (auto simp: get_request_Cons)
  have len: "length ?ps = length as" using index_length(2) [OF assms(1)] .
  show ?case
  proof (cases "gr_found r")
    case True
    then show ?thesis using Cons.IH [OF rs Cons.prems(2)] Cons.prems(3) by simp
  next
    case unknown: False
    define f where "f = advance ?ps (gr_prefix r) filterIdx"
    have f: "f \<le> length as" "\<forall>k < f. ?ps ! k < gr_prefix r" "f < length as \<longrightarrow> gr_prefix r \<le> ?ps ! f"
      using advance_ok [of filterIdx ?ps "gr_prefix r"] Cons.prems(2,3) by (auto simp: f_def len)
    have below: "\<forall>x \<in> set rs. \<forall>k < f. ?ps ! k < gr_prefix x"
      using f(2) le by (meson less_le_trans)
    have none: "\<forall>k < f. entry ti as k \<noteq> gr_a r"
      using below_prefix [OF assms(1), of f "gr_a r"] f(1,2) pr by auto
    note run = run_from_below [OF none f(1)]
    have mem: "gr_a r \<in> ?A \<longleftrightarrow> run_from ti as (gr_a r) 0 \<noteq> []"
      using set_entries [OF assms(1)] by (auto simp: run_from_empty_iff)
    have pmem: "gr_prefix r \<in> set ?ps \<longleftrightarrow> f < length as \<and> gr_prefix r = ?ps ! f"
    proof
      assume "gr_prefix r \<in> set ?ps"
      then obtain k where k: "k < length as" "?ps ! k = gr_prefix r" by (auto simp: in_set_conv_nth len)
      then have "\<not> k < f" using f(2) by auto
      then have "f \<le> k" by simp
      then show "f < length as \<and> gr_prefix r = ?ps ! f"
        using k f(3) index_sorted [OF assms(1) \<open>f \<le> k\<close> k(1)] by auto
    qed (auto simp: len in_set_conv_nth)
    show ?thesis
    proof (cases "f < length as")
      case False
      have absent: "gr_a x \<notin> ?A" if "x \<in> set (r # rs)" for x
      proof -
        have "gr_prefix x = Prefix (gr_a x)"
          using Cons.prems(1) that by (auto simp: get_request_def list_all_iff)
        moreover have "\<forall>k < length as. ?ps ! k < gr_prefix x"
          using f False below that by auto
        ultimately show ?thesis
          using set_entries [OF assms(1)] below_prefix [OF assms(1), of "length as" "gr_a x"] by auto
      qed
      then have "map (found_in ?A) (r # rs) = r # rs" "located ti as i (r # rs) = []"
        by (auto intro!: map_idI simp: located_absent [OF assms(1)] simp del: located.simps)
      then show ?thesis
        using unknown False pmem by (simp add: len del: located.simps flip: f_def)
    next
      case in_range: True
      show ?thesis
      proof (cases "gr_prefix r = ?ps ! f")
        case False
        then have "Prefix (gr_a r) < ?ps ! f" using f(3) in_range pr by simp
        then have "run_from ti as (gr_a r) 0 = []"
          using beyond_prefix [OF assms(1)] by (auto simp: run run_from_empty_iff)
        then show ?thesis
          using unknown in_range False Cons.IH [OF rs f(1) below] mem pmem by (simp add: len Let_def flip: f_def)
      next
        case True
        have "findRun ti (gr_a r) (gr_prefix r) i f
            = Inr (gr_a r \<in> ?A, map (offset_rec ti i) (run_from ti as (gr_a r) 0))"
          using findRun_ok [OF assms(1,2) f(1), of "gr_a r"] f(3) pr mem run by simp
        moreover have "gr_prefix r \<in> set ?ps" using pmem in_range True by simp
        ultimately show ?thesis
          using unknown in_range Cons.IH [OF rs f(1) below]
          by (auto simp: len Let_def found_in_def [of _ r] simp flip: f_def True)
      qed
    qed
  qed
qed

lemma findOffsets_ok:
  assumes "index_ok (tr_index tr) as" "length (ti_offsets (tr_index tr)) = length as" "get_request rs"
  shows "findOffsets tr rs
    = Inr (map (found_in (set as)) rs, located (tr_index tr) as 0 rs,
        \<not> list_all (\<lambda>r. gr_found r \<or> gr_prefix r \<in> set (ti_prefixes (tr_index tr))) rs)"
  using findOffsets_loop_ok [OF assms, of 0 0 False] by (simp add: findOffsets_def)

subsection \<open>The grouped reads\<close>

text \<open>Where the record of an offset record starts and ends in the table.\<close>

definition rec_start :: "libs \<Rightarrow> table_chunk list \<Rightarrow> offsetRec \<Rightarrow> nat" where
  "rec_start sn cs rec = length (chunk_records sn (take (unat (or_ordinal rec)) cs))"

definition rec_end :: "libs \<Rightarrow> table_chunk list \<Rightarrow> offsetRec \<Rightarrow> nat" where
  "rec_end sn cs rec = rec_start sn cs rec + length (chunk_record sn (snd (cs ! unat (or_ordinal rec))))"

definition rec_ok :: "tableReader \<Rightarrow> table_chunk list \<Rightarrow> offsetRec \<Rightarrow> bool" where
  "rec_ok tr cs rec \<longleftrightarrow>
     unat (or_ordinal rec) < length cs \<and> or_offset rec = ti_offsets (tr_index tr) ! unat (or_ordinal rec)"

lemma rec_ok_bounds:
  assumes "table_ok sn tr cs" "rec_ok tr cs rec"
  shows "unat (or_offset rec) = rec_start sn cs rec"
    and "rec_end sn cs rec \<le> length (chunk_records sn cs)"
    and "unat (or_offset rec + ucast (ti_lengths (tr_index tr) ! unat (or_ordinal rec))) = rec_end sn cs rec"
    and "unat (or_ordinal rec) < length (ti_lengths (tr_index tr))"
    and "rec_start sn cs rec < rec_end sn cs rec"
proof -
  let ?i = "unat (or_ordinal rec)"
  have i: "?i < length cs" and off: "or_offset rec = ti_offsets (tr_index tr) ! ?i"
    using assms(2) by (simp_all add: rec_ok_def)
  note t = table_offset [OF assms(1) i]
  show start: "unat (or_offset rec) = rec_start sn cs rec" using t(1) off by (simp add: rec_start_def)
  show end_le: "rec_end sn cs rec \<le> length (chunk_records sn cs)"
    using table_record_slice(2) [OF assms(1) i refl refl order_refl order_refl]
    by (simp add: rec_end_def rec_start_def)
  have "length (chunk_records sn cs) < 2 ^ 64"
    using assms(1) table_fits_size by (simp add: table_ok_def)
  then show "unat (or_offset rec + ucast (ti_lengths (tr_index tr) ! ?i)) = rec_end sn cs rec"
    using start end_le t(3) by (simp add: unat_word_ariths unat_ucast32 rec_end_def)
  show "?i < length (ti_lengths (tr_index tr))" using t(4) i by simp
  show "rec_start sn cs rec < rec_end sn cs rec" by (simp add: rec_end_def)
qed

lemma rec_end_le_start:
  assumes "unat (or_ordinal a) < unat (or_ordinal b)" "unat (or_ordinal b) < length cs"
  shows "rec_end sn cs a \<le> rec_start sn cs b"
proof -
  let ?i = "unat (or_ordinal a)" and ?j = "unat (or_ordinal b)"
  have "chunk_records sn (take ?j cs) = chunk_records sn (take ?i cs) @ chunk_record sn (snd (cs ! ?i))
      @ chunk_records sn (drop (Suc ?i) (take ?j cs))"
    using chunk_records_nth [of ?i "take ?j cs" sn] assms by (simp add: min_def)
  then show ?thesis by (simp add: rec_end_def rec_start_def)
qed

text \<open>Records at increasing offsets do not overlap, unless they are the same record.\<close>

lemma rec_ok_order:
  assumes "table_ok sn tr cs" "rec_ok tr cs a" "rec_ok tr cs b" "or_offset a \<le> or_offset b"
  shows "or_ordinal a = or_ordinal b \<or> rec_end sn cs a \<le> rec_start sn cs b"
proof -
  have le: "rec_start sn cs a \<le> rec_start sn cs b"
    using assms(4) rec_ok_bounds(1) [OF assms(1,2)] rec_ok_bounds(1) [OF assms(1,3)]
    by (simp add: word_le_nat_alt)
  have bnd: "unat (or_ordinal a) < length cs" "unat (or_ordinal b) < length cs"
    using assms(2,3) by (simp_all add: rec_ok_def)
  consider "unat (or_ordinal a) < unat (or_ordinal b)" | "unat (or_ordinal a) = unat (or_ordinal b)"
    | "unat (or_ordinal b) < unat (or_ordinal a)" by linarith
  then show ?thesis
  proof cases
    case 1
    then show ?thesis using rec_end_le_start bnd by blast
  next
    case 2
    then show ?thesis by (simp add: word_unat_eq_iff)
  next
    case 3
    then have "rec_end sn cs b \<le> rec_start sn cs a" using rec_end_le_start bnd by blast
    then show ?thesis using le rec_ok_bounds(5) [OF assms(1,3)] by simp
  qed
qed

lemma rec_end_cong: "or_ordinal a = or_ordinal b \<Longrightarrow> rec_end sn cs a = rec_end sn cs b"
  by (simp add: rec_end_def rec_start_def)

text \<open>A read covers the records of its batch.\<close>

definition read_ok :: "libs \<Rightarrow> tableReader \<Rightarrow> table_chunk list \<Rightarrow> physicalRead \<Rightarrow> bool" where
  "read_ok sn tr cs rd \<longleftrightarrow>
     pr_start rd \<le> pr_end rd \<and> unat (pr_end rd) \<le> length (chunk_records sn cs)
     \<and> (\<forall>rec \<in> set (pr_batch rd). rec_ok tr cs rec
          \<and> unat (pr_start rd) \<le> rec_start sn cs rec \<and> rec_end sn cs rec \<le> unat (pr_end rd))"

text \<open>The batch that is being filled ends with its last record.\<close>

fun batch_ok :: "libs \<Rightarrow> tableReader \<Rightarrow> table_chunk list \<Rightarrow> physicalRead option \<Rightarrow> offsetRec list \<Rightarrow> bool" where
  "batch_ok sn tr cs None recs \<longleftrightarrow> True"
| "batch_ok sn tr cs (Some rd) recs \<longleftrightarrow>
     read_ok sn tr cs rd \<and> pr_batch rd \<noteq> [] \<and> unat (pr_end rd) = rec_end sn cs (last (pr_batch rd))
     \<and> (\<forall>rec \<in> set recs. or_offset (last (pr_batch rd)) \<le> or_offset rec)"

fun batch_recs :: "physicalRead option \<Rightarrow> offsetRec list" where
  "batch_recs None = []"
| "batch_recs (Some rd) = pr_batch rd"

text \<open>When the next record may join the batch, the read is extended to the end of that record.\<close>

lemma canReadAhead_end:
  assumes "table_ok sn tr cs" "batch_ok sn tr cs (Some rd) (rec # recs)" "rec_ok tr cs rec"
    and "canReadAhead rec (ti_lengths (tr_index tr) ! unat (or_ordinal rec)) (pr_start rd) (pr_end rd) amp b m t
      = (newEnd, newAmp, True)"
  shows "unat newEnd = rec_end sn cs rec" "unat (pr_end rd) \<le> rec_end sn cs rec"
proof -
  let ?l = "last (pr_batch rd)"
  have last_ok: "rec_ok tr cs ?l" and le: "or_offset ?l \<le> or_offset rec"
    and e: "unat (pr_end rd) = rec_end sn cs ?l"
    using assms(2) by (auto simp: read_ok_def)
  note rec = rec_ok_bounds [OF assms(1,3)]
  have order: "or_ordinal ?l = or_ordinal rec \<or> rec_end sn cs ?l \<le> rec_start sn cs rec"
    by (rule rec_ok_order [OF assms(1) last_ok assms(3) le])
  have "unat newEnd = rec_end sn cs rec \<and> unat (pr_end rd) \<le> rec_end sn cs rec"
  proof (cases "or_offset rec < pr_end rd")
    case True
    then have "rec_start sn cs rec < rec_end sn cs ?l"
      using rec(1) e by (simp add: word_less_nat_alt)
    then have "or_ordinal ?l = or_ordinal rec" using order by linarith
    then have "rec_end sn cs ?l = rec_end sn cs rec" by (rule rec_end_cong)
    then show ?thesis using True assms(4) e by (auto simp: canReadAhead_def)
  next
    case False
    then have "newEnd = or_offset rec + ucast (ti_lengths (tr_index tr) ! unat (or_ordinal rec))"
      using assms(4) by (auto simp: canReadAhead_def Let_def split: if_splits)
    moreover have "unat (pr_end rd) \<le> rec_start sn cs rec"
      using False rec(1) by (simp add: word_less_nat_alt)
    ultimately show ?thesis using rec(3,5) by simp
  qed
  then show "unat newEnd = rec_end sn cs rec" "unat (pr_end rd) \<le> rec_end sn cs rec" by auto
qed

lemma batch_ok_start:
  assumes "table_ok sn tr cs" "rec_ok tr cs rec" "sorted (map or_offset (rec # recs))"
  shows "batch_ok sn tr cs (Some \<lparr>pr_start = or_offset rec,
      pr_end = or_offset rec + ucast (ti_lengths (tr_index tr) ! unat (or_ordinal rec)), pr_batch = [rec]\<rparr>) recs"
  using rec_ok_bounds [OF assms(1,2)] assms(2,3) by (auto simp: read_ok_def word_le_nat_alt)

lemma batch_ok_extend:
  assumes "table_ok sn tr cs" "batch_ok sn tr cs (Some rd) (rec # recs)" "rec_ok tr cs rec"
    and "canReadAhead rec (ti_lengths (tr_index tr) ! unat (or_ordinal rec)) (pr_start rd) (pr_end rd) amp b m t
      = (newEnd, newAmp, True)" and "sorted (map or_offset (rec # recs))"
  shows "batch_ok sn tr cs (Some (rd\<lparr>pr_end := newEnd, pr_batch := pr_batch rd @ [rec]\<rparr>)) recs"
proof -
  note e = canReadAhead_end [OF assms(1-4)] and rec = rec_ok_bounds [OF assms(1,3)]
  have ok: "read_ok sn tr cs rd" and le: "or_offset (last (pr_batch rd)) \<le> or_offset rec"
    and ne: "pr_batch rd \<noteq> []"
    using assms(2) by auto
  have last_ok: "rec_ok tr cs (last (pr_batch rd))" "unat (pr_start rd) \<le> rec_start sn cs (last (pr_batch rd))"
    using ok ne by (auto simp: read_ok_def)
  then have "unat (pr_start rd) \<le> rec_start sn cs rec"
    using le rec(1) rec_ok_bounds(1) [OF assms(1) last_ok(1)] by (simp add: word_le_nat_alt)
  then show ?thesis
    using ok e rec assms(3,5) by (auto simp: read_ok_def word_le_nat_alt)
qed

lemma groupReads_ok:
  assumes "table_ok sn tr cs" "sorted (map or_offset recs)" "\<forall>rec \<in> set recs. rec_ok tr cs rec"
    and "batch_ok sn tr cs b recs"
  shows "\<exists>rds. groupReads tr b amp recs = Inr rds \<and> concat (map pr_batch rds) = batch_recs b @ recs
    \<and> (\<forall>rd \<in> set rds. read_ok sn tr cs rd)"
  using assms
proof (induction tr b amp recs rule: groupReads.induct)
  case (3 tr amp rec recs)
  let ?len = "ti_lengths (tr_index tr) ! unat (or_ordinal rec)"
  have rec: "rec_ok tr cs rec" using "3.prems"(3) by simp
  have bnd: "unat (or_ordinal rec) < length (ti_lengths (tr_index tr))"
    by (rule rec_ok_bounds(4) [OF "3.prems"(1) rec])
  then have "nth_res (ti_lengths (tr_index tr)) (unat (or_ordinal rec)) = Inr ?len" by simp
  from "3.IH" [OF this "3.prems"(1) _ _ batch_ok_start [OF "3.prems"(1) rec "3.prems"(2)]]
  show ?case using "3.prems"(2,3) bnd by auto
next
  case (4 tr rd amp rec recs)
  let ?len = "ti_lengths (tr_index tr) ! unat (or_ordinal rec)"
  have rec: "rec_ok tr cs rec" using "4.prems"(3) by simp
  have bnd: "unat (or_ordinal rec) < length (ti_lengths (tr_index tr))"
    by (rule rec_ok_bounds(4) [OF "4.prems"(1) rec])
  then have len: "nth_res (ti_lengths (tr_index tr)) (unat (or_ordinal rec)) = Inr ?len" by simp
  obtain e a c where can: "canReadAhead rec ?len (pr_start rd) (pr_end rd) amp
      (tr_blockSize tr) (tr_maxReadSize tr) (tr_readAmpThresh tr) = (e, a, c)"
    by (metis prod_cases3)
  show ?case
  proof (cases c)
    case True
    with can have "batch_ok sn tr cs (Some (rd\<lparr>pr_end := e, pr_batch := pr_batch rd @ [rec]\<rparr>)) recs"
      by (intro batch_ok_extend [OF "4.prems"(1,4) rec _ "4.prems"(2)]) simp
    from "4.IH"(1) [OF len can [symmetric] refl True "4.prems"(1) _ _ this]
    show ?thesis using "4.prems"(2,3) len can True by auto
  next
    case False
    from "4.IH"(2) [OF len can [symmetric] refl False "4.prems"(1-3)]
    show ?thesis using "4.prems"(4) len can False by (auto simp del: groupReads.simps(3))
  qed
qed auto

subsection \<open>Executing the reads\<close>

definition fill :: "table_chunk list \<Rightarrow> getRecord list \<Rightarrow> offsetRec \<Rightarrow> getRecord list" where
  "fill cs reqs rec =
     (let i = unat (or_reqIdx rec)
      in reqs[i := (reqs ! i)\<lparr>gr_data := Some (snd (cs ! unat (or_ordinal rec)))\<rparr>])"

lemma length_fill [simp]: "length (fill cs reqs rec) = length reqs"
  by (simp add: fill_def Let_def)

lemma length_foldl_fill [simp]: "length (foldl (fill cs) reqs recs) = length reqs"
  by (induction recs arbitrary: reqs) auto

lemma readAtOffsets_step_ok:
  assumes "snappy_ok sn" "table_ok sn tr cs" "read_ok sn tr cs rd" "rec \<in> set (pr_batch rd)"
    and "unat (or_reqIdx rec) < length reqs"
    and "buff = take (unat (pr_end rd) - unat (pr_start rd)) (drop (unat (pr_start rd)) (tr_r tr))"
  shows "readAtOffsets_step sn tr (pr_start rd) (pr_end rd - pr_start rd) buff reqs rec = Inr (fill cs reqs rec)"
proof -
  let ?lo = "unat (pr_start rd)" and ?hi = "unat (pr_end rd)"
  let ?s = "rec_start sn cs rec" and ?e = "rec_end sn cs rec" and ?i = "unat (or_ordinal rec)"
  let ?len = "ti_lengths (tr_index tr) ! ?i"
  have rec: "rec_ok tr cs rec" and lo: "?lo \<le> ?s" and hi: "?e \<le> ?hi" and se: "pr_start rd \<le> pr_end rd"
    and R: "?hi \<le> length (chunk_records sn cs)"
    using assms(3,4) by (auto simp: read_ok_def)
  note b = rec_ok_bounds [OF assms(2) rec]
  have i: "?i < length cs" using rec by (simp add: rec_ok_def)
  have small: "length (chunk_records sn cs) < 2 ^ 64"
    using assms(2) table_fits_size by (simp add: table_ok_def)
  have start: "pr_start rd \<le> or_offset rec" using lo b(1) by (simp add: word_le_nat_alt)
  then have ls: "unat (or_offset rec - pr_start rd) = ?s - ?lo" using b(1) by (simp add: unat_sub)
  have len: "unat (ucast ?len :: uint64) = ?e - ?s"
    using table_offset(3) [OF assms(2) i] by (simp add: unat_ucast32 rec_end_def)
  have le: "unat (or_offset rec - pr_start rd + ucast ?len) = ?e - ?lo"
    using ls len lo hi R small b(5) by (simp add: unat_word_ariths)
  have rl: "unat (pr_end rd - pr_start rd) = ?hi - ?lo" using se by (simp add: unat_sub)
  have blen: "?hi - ?lo \<le> length buff"
    using assms(6) R table_record_slice(3) [OF assms(2) i refl refl order_refl order_refl] by simp
  have "take (?e - ?s) (drop (?s - ?lo) buff) = chunk_record sn (snd (cs ! ?i))"
    using table_record_slice(1) [OF assms(2) i refl refl, of ?lo ?hi] lo hi
    by (simp add: assms(6) rec_start_def rec_end_def)
  moreover have "?e - ?lo - (?s - ?lo) = ?e - ?s" using lo b(5) by simp
  ultimately show ?thesis
    using start b(4,5) assms(5) lo hi blen parseChunk_record [OF assms(1,2) i]
    by (simp add: readAtOffsets_step_def Let_def ls le rl word_le_nat_alt fill_def diff_le_mono)
qed

lemma readAtOffsets_ok:
  assumes "snappy_ok sn" "table_ok sn tr cs" "read_ok sn tr cs rd"
    and "\<forall>rec \<in> set (pr_batch rd). unat (or_reqIdx rec) < length reqs"
  shows "readAtOffsets sn tr reqs rd = Inr (foldl (fill cs) reqs (pr_batch rd))"
proof -
  let ?lo = "unat (pr_start rd)" and ?hi = "unat (pr_end rd)"
  define buff where "buff = take (?hi - ?lo) (drop ?lo (tr_r tr))"
  have se: "pr_start rd \<le> pr_end rd" and R: "?hi \<le> length (chunk_records sn cs)"
    using assms(3) by (auto simp: read_ok_def)
  have ne: "0 < length cs" using assms(2) by (simp add: table_ok_def table_fits_def)
  have "?hi \<le> length (tr_r tr)"
    using R table_record_slice(3) [OF assms(2) ne refl refl order_refl order_refl] by simp
  moreover have "unat (pr_end rd - pr_start rd) = ?hi - ?lo" using se by (simp add: unat_sub)
  moreover have "?lo \<le> ?hi" using se by (simp add: word_le_nat_alt)
  ultimately have read: "ReadAt (tr_r tr) ?lo (unat (pr_end rd - pr_start rd)) = Inr buff"
    by (simp add: ReadAt_def buff_def)
  have "foldM_res (readAtOffsets_step sn tr (pr_start rd) (pr_end rd - pr_start rd) buff) reqs recs
      = Inr (foldl (fill cs) reqs recs)" if "set recs \<subseteq> set (pr_batch rd)" for recs
    using that assms(4)
  proof (induction recs arbitrary: reqs)
    case (Cons rec recs)
    then show ?case using readAtOffsets_step_ok [OF assms(1-3) _ _ buff_def, of rec reqs] by simp
  qed simp
  then show ?thesis using read by (simp add: readAtOffsets_def Let_def)
qed

lemma run_reads_ok:
  assumes "snappy_ok sn" "table_ok sn tr cs" "\<forall>rd \<in> set rds. read_ok sn tr cs rd"
    and "\<forall>rd \<in> set rds. \<forall>rec \<in> set (pr_batch rd). unat (or_reqIdx rec) < length reqs"
  shows "run_reads sn tr reqs rds = Inr (foldl (fill cs) reqs (concat (map pr_batch rds)))"
  using assms(3,4)
proof (induction rds arbitrary: reqs)
  case (Cons rd rds)
  then show ?case
    using readAtOffsets_ok [OF assms(1,2), of rd reqs] by (simp add: run_reads_def)
qed (simp add: run_reads_def)

lemma foldl_fill_nth:
  assumes "\<forall>rec \<in> set recs. unat (or_reqIdx rec) < length reqs \<and> snd (cs ! unat (or_ordinal rec)) = D (unat (or_reqIdx rec))"
    and "i < length reqs"
  shows "foldl (fill cs) reqs recs ! i =
    (if i \<in> (\<lambda>rec. unat (or_reqIdx rec)) ` set recs then (reqs ! i)\<lparr>gr_data := Some (D i)\<rparr> else reqs ! i)"
  using assms
proof (induction recs arbitrary: reqs)
  case (Cons rec recs)
  then show ?case by (auto simp: fill_def Let_def nth_list_update)
qed simp

subsection \<open>The answer of a batched read\<close>

definition fetched :: "table_chunk list \<Rightarrow> getRecord \<Rightarrow> getRecord" where
  "fetched cs r =
     (case map_of cs (gr_a r) of
        Some d \<Rightarrow> if gr_found r then r else r\<lparr>gr_found := True, gr_data := Some d\<rparr>
      | None \<Rightarrow> r)"

lemma located_iff:
  "rec \<in> set (located ti as i rs) \<longleftrightarrow>
     (\<exists>k < length rs. \<not> gr_found (rs ! k)
        \<and> (\<exists>j < length as. entry ti as j = gr_a (rs ! k) \<and> rec = offset_rec ti (i + k) j))"
proof (induction rs arbitrary: i)
  case (Cons r rs)
  have "rec \<in> set (located ti as i (r # rs)) \<longleftrightarrow>
      (\<not> gr_found r \<and> (\<exists>j < length as. entry ti as j = gr_a r \<and> rec = offset_rec ti i j))
      \<or> rec \<in> set (located ti as (Suc i) rs)"
    by (auto simp: run_from_def)
  then show ?case unfolding Cons.IH by (simp add: Ex_less_Suc2)
qed simp

lemma set_index_prefixes:
  assumes "index_ok ti as"
  shows "set (ti_prefixes ti) = Prefix ` set as"
proof -
  have "set (map unat (ti_ordinals ti)) = set [0..<length as]"
    by (rule mset_eq_setD) (use assms in \<open>simp add: index_ok_def\<close>)
  then have "(!) as ` unat ` set (ti_ordinals ti) = set as"
    using nth_image [of "length as" as] by simp
  moreover have "set (ti_prefixes ti) = Prefix ` (!) as ` unat ` set (ti_ordinals ti)"
    using assms by (simp add: index_ok_def image_image)
  ultimately show ?thesis by simp
qed

lemma located_sound:
  assumes "table_ok sn tr cs" "length rs < 2 ^ 32" "rec \<in> set (located (tr_index tr) (map fst cs) 0 rs)"
  shows "rec_ok tr cs rec" "unat (or_reqIdx rec) < length rs" "\<not> gr_found (rs ! unat (or_reqIdx rec))"
    "fst (cs ! unat (or_ordinal rec)) = gr_a (rs ! unat (or_reqIdx rec))"
proof -
  let ?ti = "tr_index tr" and ?as = "map fst cs"
  have index: "index_ok ?ti ?as" using assms(1) by (simp add: table_ok_def)
  obtain k j where k: "k < length rs" "\<not> gr_found (rs ! k)" "j < length ?as"
    "entry ?ti ?as j = gr_a (rs ! k)" "rec = offset_rec ?ti k j"
    using assms(3) by (auto simp: located_iff)
  have o: "unat (ti_ordinals ?ti ! j) < length cs" using index_ordinal [OF index k(3)] by simp
  have r: "unat (or_reqIdx rec) = k" using k(1,5) assms(2) by (simp add: offset_rec_def unat_of_nat32)
  show "rec_ok tr cs rec" using k(5) o by (simp add: rec_ok_def offset_rec_def)
  show "unat (or_reqIdx rec) < length rs" "\<not> gr_found (rs ! unat (or_reqIdx rec))"
    using k(1,2) by (simp_all add: r)
  show "fst (cs ! unat (or_ordinal rec)) = gr_a (rs ! unat (or_reqIdx rec))"
    using k(4,5) o r by (simp add: offset_rec_def)
qed

lemma located_complete:
  assumes "table_ok sn tr cs" "length rs < 2 ^ 32" "k < length rs" "\<not> gr_found (rs ! k)"
    and "gr_a (rs ! k) \<in> fst ` set cs"
  shows "\<exists>rec \<in> set (located (tr_index tr) (map fst cs) 0 rs). unat (or_reqIdx rec) = k"
proof -
  let ?ti = "tr_index tr" and ?as = "map fst cs"
  have index: "index_ok ?ti ?as" using assms(1) by (simp add: table_ok_def)
  have "gr_a (rs ! k) \<in> set ?as" using assms(5) by simp
  then obtain j where "j < length ?as" "entry ?ti ?as j = gr_a (rs ! k)"
    unfolding set_entries [OF index] by blast
  then have "offset_rec ?ti k j \<in> set (located ?ti ?as 0 rs)"
    using assms(3,4) unfolding located_iff by auto
  moreover have "unat (or_reqIdx (offset_rec ?ti k j)) = k"
    using assms(2,3) by (simp add: offset_rec_def unat_of_nat32)
  ultimately show ?thesis by blast
qed

text \<open>Filling in the located records answers every request, whatever order they are filled in.\<close>

lemma fill_located:
  assumes "table_ok sn tr cs" "distinct (map fst cs)" "length rs < 2 ^ 32"
    and "set recs = set (located (tr_index tr) (map fst cs) 0 rs)"
  shows "foldl (fill cs) (map (found_in (fst ` set cs)) rs) recs = map (fetched cs) rs"
proof (rule nth_equalityI)
  let ?reqs = "map (found_in (fst ` set cs)) rs"
  fix i assume "i < length (foldl (fill cs) ?reqs recs)"
  then have i: "i < length rs" by simp
  note sound = located_sound [OF assms(1,3), folded assms(4)]
  define D where "D i = the (map_of cs (gr_a (rs ! i)))" for i
  have "snd (cs ! unat (or_ordinal rec)) = D (unat (or_reqIdx rec))" if "rec \<in> set recs" for rec
  proof -
    have "cs ! unat (or_ordinal rec) \<in> set cs" using sound(1) [OF that] by (simp add: rec_ok_def)
    then have "map_of cs (fst (cs ! unat (or_ordinal rec))) = Some (snd (cs ! unat (or_ordinal rec)))"
      using assms(2) by simp
    then show ?thesis using sound(4) [OF that] by (simp add: D_def)
  qed
  then have fill: "foldl (fill cs) ?reqs recs ! i =
      (if i \<in> (\<lambda>rec. unat (or_reqIdx rec)) ` set recs then (?reqs ! i)\<lparr>gr_data := Some (D i)\<rparr> else ?reqs ! i)"
    using sound(2) i by (intro foldl_fill_nth) auto
  have mem: "gr_a (rs ! unat (or_reqIdx rec)) \<in> fst ` set cs" if "rec \<in> set recs" for rec
  proof -
    have "cs ! unat (or_ordinal rec) \<in> set cs" using sound(1) [OF that] by (simp add: rec_ok_def)
    then show ?thesis using sound(4) [OF that] by (metis image_eqI)
  qed
  have hit: "i \<in> (\<lambda>rec. unat (or_reqIdx rec)) ` set recs
      \<longleftrightarrow> \<not> gr_found (rs ! i) \<and> gr_a (rs ! i) \<in> fst ` set cs"
    using sound(3) mem located_complete [OF assms(1,3) i, folded assms(4)] by blast
  show "foldl (fill cs) ?reqs recs ! i = map (fetched cs) rs ! i"
  proof (cases "map_of cs (gr_a (rs ! i))")
    case None
    then have "gr_a (rs ! i) \<notin> fst ` set cs" by (simp add: map_of_eq_None_iff)
    then show ?thesis using fill hit i None by (simp add: fetched_def)
  next
    case (Some d)
    then have "gr_a (rs ! i) \<in> fst ` set cs" using map_of_SomeD by force
    then show ?thesis using fill hit i Some by (simp add: fetched_def found_in_def D_def)
  qed
qed simp

lemma tr_getMany_ok:
  assumes "snappy_ok sn" "table_ok sn tr cs" "distinct (map fst cs)" "get_request rs" "length rs < 2 ^ 32"
  shows "\<exists>rds. tr_getMany tr rs = Inr (map (found_in (fst ` set cs)) rs, rds,
        \<not> list_all (\<lambda>r. gr_found r \<or> gr_prefix r \<in> Prefix ` fst ` set cs) rs)
    \<and> (\<forall>rds'. mset rds' = mset rds \<longrightarrow>
        run_reads sn tr (map (found_in (fst ` set cs)) rs) rds' = Inr (map (fetched cs) rs))"
proof -
  let ?as = "map fst cs" and ?reqs = "map (found_in (fst ` set cs)) rs"
  define ors where "ors = located (tr_index tr) ?as 0 rs"
  have index: "index_ok (tr_index tr) ?as" and offs: "length (ti_offsets (tr_index tr)) = length ?as"
    using assms(2) by (simp_all add: table_ok_def)
  have find: "findOffsets tr rs = Inr (?reqs, ors,
      \<not> list_all (\<lambda>r. gr_found r \<or> gr_prefix r \<in> Prefix ` fst ` set cs) rs)"
    using findOffsets_ok [OF index offs assms(4)] set_index_prefixes [OF index] by (simp add: ors_def)
  note sound = located_sound [OF assms(2,5), folded ors_def]
  have "\<forall>rec \<in> set (Sort or_offset ors). rec_ok tr cs rec" using sound(1) by simp
  then obtain rds where rds: "groupReads tr None 0 (Sort or_offset ors) = Inr rds"
    "concat (map pr_batch rds) = Sort or_offset ors" "\<forall>rd \<in> set rds. read_ok sn tr cs rd"
    using groupReads_ok [OF assms(2), of "Sort or_offset ors" None 0] by auto
  have "run_reads sn tr ?reqs rds' = Inr (map (fetched cs) rs)" if perm: "mset rds' = mset rds" for rds'
  proof -
    have set: "set rds' = set rds" using perm by (metis mset_eq_setD)
    have recs: "set (concat (map pr_batch rds')) = set ors"
      using arg_cong [OF rds(2), of set] by (simp add: set)
    have "unat (or_reqIdx rec) < length ?reqs" if "rd \<in> set rds'" "rec \<in> set (pr_batch rd)" for rd rec
    proof -
      have "rec \<in> set ors" using recs that by auto
      then show ?thesis using sound(2) by simp
    qed
    then have "run_reads sn tr ?reqs rds' = Inr (foldl (fill cs) ?reqs (concat (map pr_batch rds')))"
      using rds(3) set by (intro run_reads_ok [OF assms(1,2)]) auto
    then show ?thesis using fill_located [OF assms(2,3,5) recs [unfolded ors_def]] by simp
  qed
  then show ?thesis using find rds(1) by (auto simp: tr_getMany_def)
qed

subsection \<open>Counting the reads of a batch\<close>

text \<open>Each record answers a request of its own, and none is answered yet.\<close>

definition fresh :: "getRecord list \<Rightarrow> offsetRec list \<Rightarrow> bool" where
  "fresh reqs recs \<longleftrightarrow> distinct (map or_reqIdx recs)
     \<and> (\<forall>rec \<in> set recs. unat (or_reqIdx rec) < length reqs \<and> gr_data (reqs ! unat (or_reqIdx rec)) = None)"

lemma length_satisfy [simp]: "length (satisfy reqs rec) = length reqs"
  by (simp add: satisfy_def Let_def)

lemma satisfy_data:
  "i < length reqs \<Longrightarrow> gr_data (satisfy reqs rec ! i) =
     (if i = unat (or_reqIdx rec) then Some [1] else gr_data (reqs ! i))"
  by (simp add: satisfy_def Let_def nth_list_update)

lemma fresh_satisfy: "fresh reqs (rec # recs) \<Longrightarrow> fresh (satisfy reqs rec) recs"
  by (auto simp: fresh_def satisfy_data) (metis image_eqI word_unat_eq_iff)

lemma scanAhead_keeps:
  assumes "scanAhead tr b m t rs re amp reqs recs = Inr reqs'"
  shows "length reqs' = length reqs"
    and "i < length reqs \<Longrightarrow> gr_data (reqs ! i) \<noteq> None \<Longrightarrow> gr_data (reqs' ! i) \<noteq> None"
proof -
  have "length reqs' = length reqs \<and>
    (\<forall>i < length reqs. gr_data (reqs ! i) \<noteq> None \<longrightarrow> gr_data (reqs' ! i) \<noteq> None)"
    using assms
  proof (induction tr b m t rs re amp reqs recs rule: scanAhead.induct)
    case (2 tr b m t rs re amp reqs fRec recs)
    then show ?case
      by (auto simp: rbind_eq_Inr nth_res_eq_Inr satisfy_data split: if_splits prod.splits)
  qed auto
  then show "length reqs' = length reqs"
    and "i < length reqs \<Longrightarrow> gr_data (reqs ! i) \<noteq> None \<Longrightarrow> gr_data (reqs' ! i) \<noteq> None"
    by auto
qed

lemma calcReads_loop_answered:
  assumes "unat (or_reqIdx rec) < length reqs" "gr_data (reqs ! unat (or_reqIdx rec)) \<noteq> None"
  shows "calcReads_loop tr b m t n reqs (rec # recs) = calcReads_loop tr b m t n reqs recs"
  using assms by simp

fun counted :: "tableReader \<Rightarrow> nat \<Rightarrow> getRecord list \<Rightarrow> physicalRead option \<Rightarrow> uint64 \<Rightarrow> offsetRec list \<Rightarrow> nat \<Rightarrow> bool" where
  "counted tr n reqs None amp recs k \<longleftrightarrow>
     (\<exists>reqs'. calcReads_loop tr (tr_blockSize tr) (tr_maxReadSize tr) (tr_readAmpThresh tr) n reqs recs
        = Inr (reqs', n + k))"
| "counted tr n reqs (Some rd) amp recs k \<longleftrightarrow>
     (\<exists>reqs1 reqs'. scanAhead tr (tr_blockSize tr) (tr_maxReadSize tr) (tr_readAmpThresh tr)
          (pr_start rd) (pr_end rd) amp reqs recs = Inr reqs1
        \<and> calcReads_loop tr (tr_blockSize tr) (tr_maxReadSize tr) (tr_readAmpThresh tr) (Suc n) reqs1 recs
            = Inr (reqs', n + k))"

lemma groupReads_counted:
  assumes "groupReads tr b amp recs = Inr rds" "fresh reqs recs"
  shows "counted tr n reqs b amp recs (length rds)"
  using assms
proof (induction tr b amp recs arbitrary: n reqs rds rule: groupReads.induct)
  case (3 tr amp rec recs)
  let ?len = "ti_lengths (tr_index tr) ! unat (or_ordinal rec)"
  let ?rd = "\<lparr>pr_start = or_offset rec, pr_end = or_offset rec + ucast ?len, pr_batch = [rec]\<rparr>"
  have len: "nth_res (ti_lengths (tr_index tr)) (unat (or_ordinal rec)) = Inr ?len"
    and g: "groupReads tr (Some ?rd) 0 recs = Inr rds"
    using "3.prems"(1) by (auto simp: rbind_eq_Inr nth_res_eq_Inr)
  from "3.IH" [OF len g fresh_satisfy [OF "3.prems"(2)], of n]
  show ?case using "3.prems"(2) len by (auto simp: fresh_def)
next
  case (4 tr rd amp rec recs)
  let ?len = "ti_lengths (tr_index tr) ! unat (or_ordinal rec)"
  have len: "nth_res (ti_lengths (tr_index tr)) (unat (or_ordinal rec)) = Inr ?len"
    using "4.prems"(1) by (auto simp: rbind_eq_Inr nth_res_eq_Inr)
  obtain e a c where can: "canReadAhead rec ?len (pr_start rd) (pr_end rd) amp
      (tr_blockSize tr) (tr_maxReadSize tr) (tr_readAmpThresh tr) = (e, a, c)"
    by (metis prod_cases3)
  have here: "unat (or_reqIdx rec) < length reqs" "gr_data (reqs ! unat (or_reqIdx rec)) = None"
    using "4.prems"(2) by (auto simp: fresh_def)
  show ?case
  proof (cases c)
    case True
    have g: "groupReads tr (Some (rd\<lparr>pr_end := e, pr_batch := pr_batch rd @ [rec]\<rparr>)) a recs = Inr rds"
      using "4.prems"(1) len can True by simp
    obtain reqs1 reqs' where s: "scanAhead tr (tr_blockSize tr) (tr_maxReadSize tr) (tr_readAmpThresh tr)
          (pr_start rd) e a (satisfy reqs rec) recs = Inr reqs1"
      and c: "calcReads_loop tr (tr_blockSize tr) (tr_maxReadSize tr) (tr_readAmpThresh tr) (Suc n) reqs1 recs
            = Inr (reqs', n + length rds)"
      using "4.IH"(1) [OF len can [symmetric] refl True g fresh_satisfy [OF "4.prems"(2)], of n] by auto
    have "unat (or_reqIdx rec) < length reqs1" "gr_data (reqs1 ! unat (or_reqIdx rec)) \<noteq> None"
      using scanAhead_keeps [OF s] here(1) by (auto simp: satisfy_data)
    then show ?thesis
      using s c here len can True by (auto simp: calcReads_loop_answered simp del: calcReads_loop.simps(2))
  next
    case False
    then obtain rds0 where g: "groupReads tr None amp (rec # recs) = Inr rds0" and rds: "rds = rd # rds0"
      using "4.prems"(1) len can by (auto simp: rbind_eq_Inr simp del: groupReads.simps(3))
    from "4.IH"(2) [OF len can [symmetric] refl False g "4.prems"(2), of "Suc n"]
    show ?thesis using here len can False rds by auto
  qed
qed auto

lemma entry_inj:
  assumes "index_ok ti as" "distinct as" "j < length as" "k < length as" "entry ti as j = entry ti as k"
  shows "j = k"
proof -
  have "unat (ti_ordinals ti ! j) = unat (ti_ordinals ti ! k)"
    using assms(2,5) index_ordinal [OF assms(1,3)] index_ordinal [OF assms(1,4)] by (simp add: nth_eq_iff_index_eq)
  moreover have "distinct (map unat (ti_ordinals ti))"
    using assms(1) by (metis distinct_upt index_ok_def mset_eq_imp_distinct_iff)
  ultimately show ?thesis
    using nth_eq_iff_index_eq [of "map unat (ti_ordinals ti)" j k] assms(3,4) index_length(1) [OF assms(1)]
    by simp
qed

lemma run_from_single:
  assumes "index_ok ti as" "distinct as"
  shows "\<exists>k. set (run_from ti as h j) \<subseteq> {k}"
  using entry_inj [OF assms] by (auto simp: run_from_def)

lemma fresh_located:
  assumes "table_ok sn tr cs" "distinct (map fst cs)" "length rs < 2 ^ 32"
    and "list_all (\<lambda>r. gr_data r = None) rs" "mset recs = mset (located (tr_index tr) (map fst cs) 0 rs)"
  shows "fresh (map (found_in A) rs) recs"
proof -
  let ?ti = "tr_index tr" and ?as = "map fst cs"
  have index: "index_ok ?ti ?as" using assms(1) by (simp add: table_ok_def)
  have "distinct (map or_reqIdx (located ?ti ?as i xs)) \<and>
      or_reqIdx ` set (located ?ti ?as i xs) \<subseteq> of_nat ` {i..<i + length xs}"
    if "i + length xs < 2 ^ 32" for i xs
    using that
  proof (induction xs arbitrary: i)
    case (Cons x xs)
    obtain k where "set (run_from ?ti ?as (gr_a x) 0) \<subseteq> {k}"
      using run_from_single [OF index assms(2)] by blast
    moreover have "distinct (run_from ?ti ?as (gr_a x) 0)" by (simp add: run_from_def)
    ultimately have run: "run_from ?ti ?as (gr_a x) 0 = [] \<or> run_from ?ti ?as (gr_a x) 0 = [k]"
      by (cases "run_from ?ti ?as (gr_a x) 0" rule: list.exhaust) (auto, metis list.set_intros(1) neq_Nil_conv singletonD subsetD)
    have "(of_nat i :: uint32) \<notin> of_nat ` {Suc i..<Suc i + length xs}"
    proof
      assume "(of_nat i :: uint32) \<in> of_nat ` {Suc i..<Suc i + length xs}"
      then obtain l where "l \<in> {Suc i..<Suc i + length xs}" "unat (of_nat i :: uint32) = unat (of_nat l :: uint32)"
        by auto
      then show False using Cons.prems by (simp add: unat_of_nat32)
    qed
    then show ?case
      using Cons.IH [of "Suc i"] Cons.prems run by (auto simp: offset_rec_def)
  qed simp
  from this [of 0 rs] have "distinct (map or_reqIdx recs)"
    using assms(3,5) by (metis add_0 mset_eq_imp_distinct_iff mset_map)
  moreover have "set recs = set (located ?ti ?as 0 rs)" using assms(5) by (metis mset_eq_setD)
  ultimately show ?thesis
    using located_sound(2) [OF assms(1,3)] assms(4) by (auto simp: fresh_def found_in_def list_all_length)
qed

subsection \<open>Properties of batched reads\<close>

text \<open>
  C10. A batched read answers like single ones: for requests sorted by prefix, \<open>getMany\<close> marks the
  requests whose chunk is in the table, and in whatever order the goroutines run its reads, every
  such request that was still open ends with exactly the chunk stored under its address, no other
  request changes, and no read panics.
\<close>

theorem tr_getMany_any_order:
  assumes "snappy_ok sn" and "table_fits sn cs" and "distinct (map fst cs)"
    and "get_request rs" and "length rs < 2 ^ 32"
    and "tr = newTableReader (table_index sn cs) (table_image sn cs) blockSize maxReadSize readAmpThresh"
  shows "\<exists>reqs rds remaining. tr_getMany tr rs = Inr (reqs, rds, remaining)
    \<and> map gr_found reqs = map (\<lambda>r. gr_found r \<or> map_of cs (gr_a r) \<noteq> None) rs
    \<and> (\<forall>rds'. mset rds' = mset rds \<longrightarrow> run_reads sn tr reqs rds' =
        Inr (map (\<lambda>r. case map_of cs (gr_a r) of
               Some d \<Rightarrow> if gr_found r then r else r\<lparr>gr_found := True, gr_data := Some d\<rparr>
             | None \<Rightarrow> r) rs))"
proof -
  have "table_ok sn tr cs" using table_ok_newTableReader [OF assms(2)] assms(6) by simp
  moreover have "map gr_found (map (found_in (fst ` set cs)) rs)
      = map (\<lambda>r. gr_found r \<or> map_of cs (gr_a r) \<noteq> None) rs"
    by (simp add: found_in_def map_of_eq_None_iff)
  ultimately show ?thesis
    using tr_getMany_ok [OF assms(1) _ assms(3,4,5), of tr] unfolding fetched_def [abs_def] by blast
qed

text \<open>
  C11. \<open>calcReads\<close> counts what \<open>getMany\<close> does: with the reader's own block size, read size and
  amplification threshold, and requests without data, it returns the number of physical reads
  \<open>getMany\<close> spawns, and the same \<open>remaining\<close>.
\<close>

theorem calcReads_counts_getMany:
  assumes "snappy_ok sn" and "table_fits sn cs" and "distinct (map fst cs)"
    and "get_request rs" and "length rs < 2 ^ 32" and "list_all (\<lambda>r. gr_data r = None) rs"
    and "tr = newTableReader (table_index sn cs) (table_image sn cs) blockSize maxReadSize readAmpThresh"
    and "tr_getMany tr rs = Inr (reqs, rds, remaining)"
  shows "\<exists>reqs'. tr_calcReads tr rs blockSize maxReadSize readAmpThresh = Inr (reqs', length rds, remaining)"
proof -
  have ok: "table_ok sn tr cs" using table_ok_newTableReader [OF assms(2)] assms(7) by simp
  then have index: "index_ok (tr_index tr) (map fst cs)"
    and offs: "length (ti_offsets (tr_index tr)) = length (map fst cs)"
    by (simp_all add: table_ok_def)
  define ors where "ors = located (tr_index tr) (map fst cs) 0 rs"
  have find: "findOffsets tr rs = Inr (map (found_in (set (map fst cs))) rs, ors, remaining)"
    and group: "groupReads tr None 0 (Sort or_offset ors) = Inr rds"
    using assms(8) findOffsets_ok [OF index offs assms(4)] by (auto simp: tr_getMany_def ors_def rbind_eq_Inr)
  have "fresh (map (found_in (set (map fst cs))) rs) (Sort or_offset ors)"
    by (rule fresh_located [OF ok assms(3,5,6)]) (simp add: ors_def)
  from groupReads_counted [OF group this, of 0] show ?thesis
    using find by (auto simp: tr_calcReads_def assms(7) newTableReader_def)
qed

text \<open>
  C12. \<open>getMany\<close> can lose a request: when the address is absent from the table but shares its prefix
  with a chunk that is there, the request stays open and yet \<open>getMany\<close> reports that none remains.
\<close>

theorem getMany_forgets_collision:
  assumes "table_fits sn cs" and "a \<notin> fst ` set cs" and "b \<in> fst ` set cs" and "Prefix a = Prefix b"
    and "r = \<lparr>gr_a = a, gr_prefix = Prefix a, gr_order = 0, gr_found = False, gr_data = None\<rparr>"
    and "tr = newTableReader (table_index sn cs) (table_image sn cs) blockSize maxReadSize readAmpThresh"
  shows "tr_getMany tr [r] = Inr ([r], [], False)"
proof -
  have ok: "table_ok sn tr cs" using table_ok_newTableReader [OF assms(1)] assms(6) by simp
  then have index: "index_ok (tr_index tr) (map fst cs)"
    and offs: "length (ti_offsets (tr_index tr)) = length (map fst cs)"
    by (simp_all add: table_ok_def)
  have "get_request [r]" by (simp add: get_request_def assms(5))
  moreover have "located (tr_index tr) (map fst cs) 0 [r] = []"
    by (rule located_absent [OF index]) (use assms(2,5) in simp)
  moreover have "Prefix a \<in> set (ti_prefixes (tr_index tr))"
    using assms(3,4) set_index_prefixes [OF index] by simp
  ultimately show ?thesis
    using findOffsets_ok [OF index offs, of "[r]"] assms(2,5) by (simp add: tr_getMany_def found_in_def)
qed

text \<open>A request for the second of the two chunks.\<close>

definition one_request :: "getRecord list" where
  "one_request =
     [\<lparr>gr_a = emptyHash, gr_prefix = Prefix emptyHash, gr_order = 0, gr_found = False, gr_data = None\<rparr>]"

lemma one_request_ok:
  "get_request one_request" "length one_request < 2 ^ 32" "list_all (\<lambda>r. gr_data r = None) one_request"
  by (simp_all add: get_request_def one_request_def)

lemma two_chunks_ok: "distinct (map fst two_chunks)" "map_of two_chunks emptyHash = Some [9]"
  using copy_hash_1_neq by (auto simp: two_chunks_def)

theorem tr_getMany_any_order_witness:
  "\<exists>tr reqs rds remaining. tr_getMany tr one_request = Inr (reqs, rds, remaining)
    \<and> run_reads stored tr reqs rds =
        Inr [\<lparr>gr_a = emptyHash, gr_prefix = Prefix emptyHash, gr_order = 0, gr_found = True, gr_data = Some [9]\<rparr>]"
proof -
  let ?tr = "newTableReader (table_index stored two_chunks) (table_image stored two_chunks) 4096 1048576 5"
  obtain reqs rds remaining where "tr_getMany ?tr one_request = Inr (reqs, rds, remaining)"
    "\<forall>rds'. mset rds' = mset rds \<longrightarrow> run_reads stored ?tr reqs rds' =
        Inr (map (\<lambda>r. case map_of two_chunks (gr_a r) of
               Some d \<Rightarrow> if gr_found r then r else r\<lparr>gr_found := True, gr_data := Some d\<rparr>
             | None \<Rightarrow> r) one_request)"
    using tr_getMany_any_order [OF snappy_ok_stored table_fits_two_chunks two_chunks_ok(1)
        one_request_ok(1,2) refl, of 4096 1048576 5] by blast
  then show ?thesis by (intro exI conjI) (auto simp: one_request_def two_chunks_ok(2))
qed

theorem calcReads_counts_getMany_witness:
  "\<exists>tr reqs rds remaining reqs'. tr_getMany tr one_request = Inr (reqs, rds, remaining)
    \<and> tr_calcReads tr one_request 4096 1048576 5 = Inr (reqs', length rds, remaining)"
proof -
  let ?tr = "newTableReader (table_index stored two_chunks) (table_image stored two_chunks) 4096 1048576 5"
  obtain reqs rds remaining where g: "tr_getMany ?tr one_request = Inr (reqs, rds, remaining)"
    using tr_getMany_ok [OF snappy_ok_stored table_ok_newTableReader [OF table_fits_two_chunks]
        two_chunks_ok(1) one_request_ok(1,2), of 4096 1048576 5] by blast
  with calcReads_counts_getMany [OF snappy_ok_stored table_fits_two_chunks two_chunks_ok(1)
      one_request_ok refl g] show ?thesis by blast
qed

theorem getMany_forgets_collision_witness:
  "\<exists>tr r. gr_found r = False \<and> tr_getMany tr [r] = Inr ([r], [], False)"
proof -
  let ?a = "copy_hash (replicate 8 0 @ [1])"
  have bytes: "hash_bytes ?a = replicate 8 0 @ [1] @ replicate 11 0"
    by (simp add: hash_bytes_copy_hash)
  have ne: "?a \<noteq> emptyHash"
  proof
    assume "?a = emptyHash"
    then have "hash_bytes ?a ! 8 = hash_bytes emptyHash ! 8" by simp
    then show False by (simp add: bytes emptyHash_def hash_bytes_copy_hash nth_append)
  qed
  have pre: "Prefix ?a = Prefix emptyHash"
    by (simp add: Prefix_def bytes emptyHash_def hash_bytes_copy_hash)
  have fits: "table_fits stored [(emptyHash, [9])]" by (simp add: table_fits_def stored_def MaxEncodedLen_def)
  show ?thesis
    using getMany_forgets_collision [OF fits, of ?a emptyHash, OF _ _ pre refl refl] ne
    by (intro exI conjI) auto
qed

end
