(* ===== verification/NbsMemTable.thy ===== *)
theory NbsMemTable
  imports NbsReads
begin

text \<open>
  The table being filled in memory (\<open>go/nbs/mem_table.go\<close>). It keeps the chunks and the order they
  came in, and is written out as a table, without the chunks an older reader already has.
\<close>

record memTable =
  mt_chunks :: "addr \<Rightarrow> bytes option"
  mt_order :: "hasRecord list"
  mt_maxData :: uint64
  mt_totalData :: uint64

definition newMemTable :: "uint64 \<Rightarrow> memTable" where
  "newMemTable memTableSize =
     \<lparr>mt_chunks = Map.empty, mt_order = [], mt_maxData = memTableSize, mt_totalData = 0\<rparr>"

definition mt_addChunk :: "memTable \<Rightarrow> addr \<Rightarrow> bytes \<Rightarrow> (memTable \<times> bool) res" where
  "mt_addChunk mt h data =
     (if length data = 0 then Inl (Panic ''NBS blocks cannont be zero length'')
      else if mt_chunks mt h \<noteq> None then Inr (mt, True)
      else let dataLen = of_nat (length data)
           in if mt_totalData mt + dataLen > mt_maxData mt then Inr (mt, False)
              else Inr (mt\<lparr>mt_totalData := mt_totalData mt + dataLen,
                           mt_chunks := (mt_chunks mt)(h \<mapsto> data),
                           mt_order := mt_order mt @
                             [\<lparr>hr_a = h, hr_prefix = Prefix h, hr_order = length (mt_order mt), hr_has = False\<rparr>]\<rparr>,
                        True))"

definition mt_count :: "memTable \<Rightarrow> uint32" where
  "mt_count mt = of_nat (length (mt_order mt))"

definition mt_has :: "memTable \<Rightarrow> addr \<Rightarrow> bool" where
  "mt_has mt h \<longleftrightarrow> mt_chunks mt h \<noteq> None"

fun mt_hasMany :: "memTable \<Rightarrow> hasRecord list \<Rightarrow> hasRecord list \<times> bool" where
  "mt_hasMany mt [] = ([], False)"
| "mt_hasMany mt (a # as) =
     (case mt_hasMany mt as of (as', remaining) \<Rightarrow>
        if hr_has a then (a # as', remaining)
        else if mt_has mt (hr_a a) then (a\<lparr>hr_has := True\<rparr> # as', remaining)
        else (a # as', True))"

definition mt_get :: "memTable \<Rightarrow> addr \<Rightarrow> bytes option" where
  "mt_get mt h = mt_chunks mt h"

fun mt_getMany :: "memTable \<Rightarrow> getRecord list \<Rightarrow> getRecord list \<times> bool" where
  "mt_getMany mt [] = ([], False)"
| "mt_getMany mt (r # rs) =
     (case mt_getMany mt rs of (rs', remaining) \<Rightarrow>
        case mt_chunks mt (gr_a r) of
          Some data \<Rightarrow> (r\<lparr>gr_data := Some data\<rparr> # rs', remaining)
        | None \<Rightarrow> (r # rs', True))"

text \<open>A record of a missing chunk would carry nil data; the invariant below excludes it.\<close>

definition mt_extract :: "memTable \<Rightarrow> EnumerationOrder \<Rightarrow> (addr \<times> bytes option) list" where
  "mt_extract mt ord =
     map (\<lambda>hrec. (hr_a hrec, mt_chunks mt (hr_a hrec)))
       (case ord of InsertOrder \<Rightarrow> mt_order mt | ReverseOrder \<Rightarrow> rev (mt_order mt))"

text \<open>
  \<open>write\<close> asks the reader which of the chunks it has (with the records sorted by prefix, as its
  contract demands, and then back in insertion order) and writes the others. \<open>None\<close> is a nil reader.
\<close>

definition mt_write_step :: "libs \<Rightarrow> memTable \<Rightarrow> tableWriter \<times> uint32 \<Rightarrow> hasRecord \<Rightarrow> (tableWriter \<times> uint32) res" where
  "mt_write_step sn mt s a =
     (case s of (tw, cnt) \<Rightarrow>
        if hr_has a then Inr (tw, cnt)
        else rbind (tw_addChunk sn tw (hr_a a) (case mt_chunks mt (hr_a a) of Some d \<Rightarrow> d | None \<Rightarrow> []))
               (\<lambda>tw'. Inr (tw', cnt + 1)))"

definition mt_write ::
    "libs \<Rightarrow> memTable \<Rightarrow> (hasRecord list \<Rightarrow> (hasRecord list \<times> bool) res) option
       \<Rightarrow> (memTable \<times> addr \<times> bytes \<times> uint32) res" where
  "mt_write sn mt haver =
     rbind (maxTableSize (length (mt_order mt)) (unat (mt_totalData mt))) (\<lambda>maxSize.
     let tw = newTableWriter (replicate maxSize 0)
     in rbind (case haver of
                 None \<Rightarrow> Inr (mt_order mt)
               | Some hasMany \<Rightarrow>
                   rbind (hasMany (hasRecordByPrefix (mt_order mt))) (\<lambda>(recs, _). Inr (hasRecordByOrder recs)))
        (\<lambda>ord.
          rbind (foldM_res (mt_write_step sn mt) (tw, 0) ord) (\<lambda>(tw', cnt).
          rbind (finish sn tw') (\<lambda>(tw'', tableSize, name).
          rbind (slice_res (tw_buff tw'') 0 tableSize) (\<lambda>data.
            Inr (mt\<lparr>mt_order := ord\<rparr>, name, data, cnt))))))"

subsection \<open>The invariant\<close>

text \<open>The chunks with their addresses, in insertion order.\<close>

definition mt_list :: "memTable \<Rightarrow> table_chunk list" where
  "mt_list mt = map (\<lambda>r. (hr_a r, the (mt_chunks mt (hr_a r)))) (mt_order mt)"

definition mt_ok :: "memTable \<Rightarrow> bool" where
  "mt_ok mt \<longleftrightarrow>
     map hr_order (mt_order mt) = [0..<length (mt_order mt)]
     \<and> distinct (map hr_a (mt_order mt))
     \<and> dom (mt_chunks mt) = hr_a ` set (mt_order mt)
     \<and> list_all (\<lambda>r. hr_prefix r = Prefix (hr_a r) \<and> \<not> hr_has r) (mt_order mt)
     \<and> [] \<notin> ran (mt_chunks mt)
     \<and> unat (mt_totalData mt) = data_size (mt_list mt)
     \<and> mt_totalData mt \<le> mt_maxData mt"

lemma mt_ok_new: "mt_ok (newMemTable n)"
  by (simp add: mt_ok_def newMemTable_def mt_list_def)

lemma map_of_mt_list: "mt_ok mt \<Longrightarrow> map_of (mt_list mt) = mt_chunks mt"
proof
  fix h
  assume ok: "mt_ok mt"
  then have dom: "dom (mt_chunks mt) = hr_a ` set (mt_order mt)" by (simp add: mt_ok_def)
  have "map_of (map (\<lambda>r. (hr_a r, the (mt_chunks mt (hr_a r)))) rs) h =
      (if h \<in> hr_a ` set rs then Some (the (mt_chunks mt h)) else None)" for rs
    by (induction rs) auto
  from this [of "mt_order mt"]
  have "map_of (mt_list mt) h = (if h \<in> dom (mt_chunks mt) then Some (the (mt_chunks mt h)) else None)"
    by (simp add: mt_list_def dom)
  then show "map_of (mt_list mt) h = mt_chunks mt h" by (cases "mt_chunks mt h") (auto simp: domIff)
qed

lemma fst_mt_list [simp]: "map fst (mt_list mt) = map hr_a (mt_order mt)"
  by (simp add: mt_list_def comp_def)

lemma length_mt_list [simp]: "length (mt_list mt) = length (mt_order mt)"
  by (simp add: mt_list_def)

text \<open>The 64-bit sum of the data sizes must not wrap around for the size limit to be effective.\<close>

lemma mt_addChunk_ok:
  assumes "mt_ok mt" "mt_addChunk mt h data = Inr (mt', added)"
    and "unat (mt_maxData mt) + length data < 2 ^ 64"
  shows "mt_ok mt'" "mt_maxData mt' = mt_maxData mt"
    and "added \<Longrightarrow> mt_chunks mt' =
      (if mt_chunks mt h = None then (mt_chunks mt)(h \<mapsto> data) else mt_chunks mt)"
    and "\<not> added \<Longrightarrow> mt' = mt \<and> mt_chunks mt h = None"
proof -
  have ne: "data \<noteq> []" using assms(2) by (auto simp: mt_addChunk_def)
  show "mt_maxData mt' = mt_maxData mt"
    using assms(2) by (auto simp: mt_addChunk_def Let_def split: if_splits)
  show "added \<Longrightarrow> mt_chunks mt' = (if mt_chunks mt h = None then (mt_chunks mt)(h \<mapsto> data) else mt_chunks mt)"
    using assms(2) by (auto simp: mt_addChunk_def Let_def split: if_splits)
  show "\<not> added \<Longrightarrow> mt' = mt \<and> mt_chunks mt h = None"
    using assms(2) by (auto simp: mt_addChunk_def Let_def split: if_splits)
  show "mt_ok mt'"
  proof (cases "mt' = mt")
    case False
    then have new: "mt_chunks mt h = None" and fit: "mt_totalData mt + of_nat (length data) \<le> mt_maxData mt"
      and mt': "mt' = mt\<lparr>mt_totalData := mt_totalData mt + of_nat (length data),
          mt_chunks := (mt_chunks mt)(h \<mapsto> data), mt_order := mt_order mt @
            [\<lparr>hr_a = h, hr_prefix = Prefix h, hr_order = length (mt_order mt), hr_has = False\<rparr>]\<rparr>"
      using assms(2) by (auto simp: mt_addChunk_def Let_def not_less split: if_splits)
    have ok: "map hr_order (mt_order mt) = [0..<length (mt_order mt)]" "distinct (map hr_a (mt_order mt))"
      "dom (mt_chunks mt) = hr_a ` set (mt_order mt)" "[] \<notin> ran (mt_chunks mt)"
      "list_all (\<lambda>r. hr_prefix r = Prefix (hr_a r) \<and> \<not> hr_has r) (mt_order mt)"
      "unat (mt_totalData mt) = data_size (mt_list mt)" "mt_totalData mt \<le> mt_maxData mt"
      using assms(1) by (auto simp: mt_ok_def)
    have h: "h \<notin> hr_a ` set (mt_order mt)" using new ok(3) by auto
    then have "mt_list mt' = mt_list mt @ [(h, data)]"
      by (auto simp: mt_list_def mt')
    moreover have "unat (mt_totalData mt + of_nat (length data)) = unat (mt_totalData mt) + length data"
      using ok(7) assms(3) by (simp add: unat_word_ariths unat_of_nat64 word_le_nat_alt)
    moreover have "[] \<notin> ran ((mt_chunks mt)(h \<mapsto> data))"
      using ok(4) ne new by (auto simp: ran_def)
    ultimately show ?thesis
      using ok h fit by (simp add: mt_ok_def mt')
  qed (use assms(1) in simp)
qed

subsection \<open>Lookups\<close>

lemma mt_hasMany_ok:
  "mt_hasMany mt rs =
     (map (answered (dom (mt_chunks mt))) rs, \<not> list_all (\<lambda>r. hr_has (answered (dom (mt_chunks mt)) r)) rs)"
  by (induction rs) (auto simp: mt_has_def answered_def domIff)

lemma mt_getMany_ok:
  "mt_getMany mt rs =
     (map (\<lambda>r. case mt_chunks mt (gr_a r) of Some d \<Rightarrow> r\<lparr>gr_data := Some d\<rparr> | None \<Rightarrow> r) rs,
      \<not> list_all (\<lambda>r. mt_chunks mt (gr_a r) \<noteq> None) rs)"
  by (induction rs) (auto split: option.splits)

subsection \<open>Writing the table\<close>

text \<open>
  Chunks that snappy and the 32-bit length of a record can take; fewer than \<open>2 ^ 32\<close> of them do not overflow the
  size of their table.
\<close>

definition chunk_small :: "bytes \<Rightarrow> bool" where
  "chunk_small d \<longleftrightarrow> d \<noteq> [] \<and> 64 + length d + length d div 6 \<le> 2 ^ 32"

lemma chunk_small_bounds:
  assumes "chunk_small d"
  shows "d \<noteq> []" "0 \<le> MaxEncodedLen (length d)"
    "snappy_ok sn \<Longrightarrow> length (chunk_record sn d) < 2 ^ 32"
proof -
  show "d \<noteq> []" using assms by (simp add: chunk_small_def)
  show "0 \<le> MaxEncodedLen (length d)" using assms by (auto simp: chunk_small_def MaxEncodedLen_def Let_def)
  assume "snappy_ok sn"
  then have "length (snappy_encode sn d) \<le> 30 + length d + length d div 6"
    using \<open>0 \<le> MaxEncodedLen (length d)\<close> by (simp add: snappy_ok_def)
  then show "length (chunk_record sn d) < 2 ^ 32" using assms by (simp add: chunk_small_def)
qed

lemma table_fits_small:
  assumes "snappy_ok sn" "cs \<noteq> []" "length cs < 2 ^ 32" "list_all (\<lambda>c. chunk_small (snd c)) cs"
  shows "table_fits sn cs"
  using assms chunk_small_bounds(2) chunk_small_bounds(3) [OF _ assms(1)] unfolding table_fits_def list_all_iff by blast

lemma size_fits_small:
  assumes "cs \<noteq> []" "length cs < 2 ^ 32" "list_all (\<lambda>c. chunk_small (snd c)) cs"
  shows "size_fits (length cs) (data_size cs)"
proof -
  let ?a = "data_size cs div length cs"
  obtain c where c: "c \<in> set cs" "?a \<le> length (snd c)"
    using average_le [OF assms(1)] ..
  then have "64 + length (snd c) + length (snd c) div 6 \<le> 2 ^ 32"
    using assms(3) by (auto simp: list_all_iff chunk_small_def)
  then have "64 + ?a + ?a div 6 \<le> 2 ^ 32"
    using c(2) div_le_mono [OF c(2), of 6] by linarith
  then have "length cs * (64 + ?a + ?a div 6) \<le> (2 ^ 32 - 1) * 2 ^ 32"
    using assms(2) by (intro mult_le_mono) auto
  then show ?thesis
    by (simp add: size_fits_def)
qed

text \<open>What \<open>write\<close> relies on in the reader it asks: the contract of \<open>hasMany\<close>.\<close>

definition haver_ok :: "(hasRecord list \<Rightarrow> (hasRecord list \<times> bool) res) option \<Rightarrow> addr set \<Rightarrow> bool" where
  "haver_ok haver A \<longleftrightarrow>
     (case haver of
        None \<Rightarrow> A = {}
      | Some hasMany \<Rightarrow> \<forall>rs. has_request rs \<longrightarrow> (\<exists>r. hasMany rs = Inr (map (answered A) rs, r)))"

definition mt_fresh :: "memTable \<Rightarrow> addr set \<Rightarrow> table_chunk list" where
  "mt_fresh mt A = filter (\<lambda>c. fst c \<notin> A) (mt_list mt)"

lemma mt_write_order:
  assumes "mt_ok mt" "haver_ok haver A"
  shows "(case haver of
            None \<Rightarrow> Inr (mt_order mt)
          | Some hasMany \<Rightarrow>
              rbind (hasMany (hasRecordByPrefix (mt_order mt))) (\<lambda>(recs, _). Inr (hasRecordByOrder recs)))
    = Inr (map (answered A) (mt_order mt))"
proof (cases haver)
  case None
  then have "map (answered A) (mt_order mt) = mt_order mt"
    using assms(2) by (intro map_idI) (simp add: haver_ok_def)
  then show ?thesis using None by simp
next
  case (Some hasMany)
  let ?rs = "mt_order mt" and ?sorted = "hasRecordByPrefix (mt_order mt)"
  have ok: "map hr_order ?rs = [0..<length ?rs]" "list_all (\<lambda>r. hr_prefix r = Prefix (hr_a r) \<and> \<not> hr_has r) ?rs"
    using assms(1) by (simp_all add: mt_ok_def)
  have "has_request ?sorted"
    using ok(2) by (auto simp: has_request_def hasRecordByPrefix_def list_all_iff)
  then obtain r where r: "hasMany ?sorted = Inr (map (answered A) ?sorted, r)"
    using assms(2) Some by (auto simp: haver_ok_def)
  have order: "map hr_order (map (answered A) ?rs) = [0..<length ?rs]"
    using ok(1) by (simp add: answered_def comp_def)
  have "hasRecordByOrder (map (answered A) ?sorted) = map (answered A) ?rs"
    unfolding hasRecordByOrder_def
  proof (rule Sort_restore)
    show "mset (map (answered A) ?sorted) = mset (map (answered A) ?rs)"
      by (simp add: hasRecordByPrefix_def)
    show "sorted (map hr_order (map (answered A) ?rs))" "distinct (map hr_order (map (answered A) ?rs))"
      unfolding order by simp_all
  qed
  then show ?thesis using Some r by simp
qed

lemma mt_write_steps:
  "foldM_res (mt_write_step sn mt) (tw, n) rs =
     (let kept = filter (\<lambda>r. \<not> hr_has r) rs
      in rbind (foldM_res (\<lambda>tw c. tw_addChunk sn tw (fst c) (snd c)) tw
           (map (\<lambda>r. (hr_a r, case mt_chunks mt (hr_a r) of Some d \<Rightarrow> d | None \<Rightarrow> [])) kept))
         (\<lambda>tw'. Inr (tw', n + of_nat (length kept))))"
proof (induction rs arbitrary: tw n)
  case (Cons r rs)
  then show ?case
    by (cases "hr_has r")
      (auto simp: mt_write_step_def Let_def rbind_assoc add.assoc intro!: rbind_cong arg_cong [of _ _ "rbind _"])
qed simp

lemma mt_write_kept:
  assumes "mt_ok mt"
  shows "map (\<lambda>r. (hr_a r, case mt_chunks mt (hr_a r) of Some d \<Rightarrow> d | None \<Rightarrow> []))
      (filter (\<lambda>r. \<not> hr_has r) (map (answered A) (mt_order mt))) = mt_fresh mt A"
proof -
  have "map (\<lambda>r. (hr_a r, case mt_chunks mt (hr_a r) of Some d \<Rightarrow> d | None \<Rightarrow> []))
      (filter (\<lambda>r. \<not> hr_has r) (map (answered A) rs))
    = filter (\<lambda>c. fst c \<notin> A) (map (\<lambda>r. (hr_a r, the (mt_chunks mt (hr_a r)))) rs)"
    if "set rs \<subseteq> set (mt_order mt)" for rs
    using that
  proof (induction rs)
    case (Cons r rs)
    have "hr_a r \<in> dom (mt_chunks mt)" "\<not> hr_has r"
      using Cons.prems assms by (auto simp: mt_ok_def list_all_iff)
    then show ?case using Cons by (auto simp: answered_def)
  qed simp
  then show ?thesis by (simp add: mt_fresh_def mt_list_def)
qed

lemma mt_write_ok:
  assumes "snappy_ok sn" "mt_ok mt" "mt_order mt \<noteq> []" "length (mt_order mt) < 2 ^ 32"
    and "list_all (\<lambda>c. chunk_small (snd c)) (mt_list mt)" "haver_ok haver A"
  shows "mt_write sn mt haver = Inr (mt\<lparr>mt_order := map (answered A) (mt_order mt)\<rparr>,
    table_name sn (mt_fresh mt A), table_image sn (mt_fresh mt A), of_nat (length (mt_fresh mt A)))"
proof -
  let ?cs = "mt_fresh mt A"
  have size: "unat (mt_totalData mt) = data_size (mt_list mt)" using assms(2) by (simp add: mt_ok_def)
  have small: "snd c \<noteq> [] \<and> 0 \<le> MaxEncodedLen (length (snd c))" if "c \<in> set (mt_list mt)" for c
    using assms(5) that chunk_small_bounds by (auto simp: list_all_iff)
  have "mt_list mt \<noteq> []" using assms(3) by (simp add: mt_list_def)
  from maxTableSize_defined [OF this] small
  obtain sz where sz: "maxTableSize (length (mt_list mt)) (data_size (mt_list mt)) = Inr sz" by blast
  have wraps: "size_fits (length (mt_list mt)) (data_size (mt_list mt))"
    using size_fits_small [OF \<open>mt_list mt \<noteq> []\<close> _ assms(5)] assms(4) by (simp add: mt_list_def)
  have le: "length ?cs \<le> length (mt_list mt)" "data_size ?cs \<le> data_size (mt_list mt)"
    unfolding mt_fresh_def by (rule length_filter_le, rule sum_list_filter_le_nat)
  let ?buff = "replicate sz 0"
  have room: "writer_room sn (length ?buff) ?cs" "length (table_image sn ?cs) \<le> length ?buff"
    using maxTableSize_room [OF assms(1) sz wraps le] small by (auto simp: mt_fresh_def)
  have n: "length ?cs < 2 ^ 32" using le(1) assms(4) by simp
  obtain tw where tw: "finish sn (writer_state sn ?buff ?cs) = Inr (tw, length (table_image sn ?cs), table_name sn ?cs)"
    "take (length (table_image sn ?cs)) (tw_buff tw) = table_image sn ?cs"
    using finish_image [OF n room(2)] by blast
  have len: "length (table_image sn ?cs) \<le> length (tw_buff tw)"
    using arg_cong [OF tw(2), of length] by simp
  have kept: "length (filter (\<lambda>r. \<not> hr_has r) (map (answered A) (mt_order mt))) = length ?cs"
    using arg_cong [OF mt_write_kept [OF assms(2), of A], of length] by (simp del: length_filter_map)
  show ?thesis
    using sz tw len
    by (simp add: mt_write_def mt_write_order [OF assms(2,6)] mt_write_steps mt_write_kept [OF assms(2)]
        tw_addChunks [OF room(1)] kept size Let_def slice_res_def del: length_filter_map filter_map)
qed

end
