(* ===== verification/NbsManifest.thy ===== *)
theory NbsManifest
  imports NbsTable
begin

text \<open>
  Manifests (\<open>go/nbs/manifest.go\<close>, \<open>go/nbs/file_manifest.go\<close>): the root of a store and the tables that
  hold its chunks, kept in one text file of the store's directory and replaced by an atomic rename
  under a file lock. The interface \<open>manifest\<close> is a locale: an atomic compare-and-swap on the root.
\<close>

definition NomsVersion :: string where
  "NomsVersion = ''7''"

definition StorageVersion :: string where
  "StorageVersion = ''0''"

record tableSpec =
  spec_name :: addr
  spec_chunkCount :: uint32

definition parseSpecs :: "string list \<Rightarrow> tableSpec list res" where
  "parseSpecs tableInfo =
     mapM_res (\<lambda>i.
       rbind (nth_res tableInfo (2 * i)) (\<lambda>n. rbind (ParseAddr n) (\<lambda>name.
       rbind (nth_res tableInfo (2 * i + 1)) (\<lambda>c.
         case ParseUint 32 c of
           None \<Rightarrow> Inl ChkFailed
         | Some cnt \<Rightarrow> Inr \<lparr>spec_name = name, spec_chunkCount = of_nat cnt\<rparr>))))
     [0..<length tableInfo div 2]"

text \<open>\<open>formatSpecs\<close> fills the \<open>n\<close> slots of \<open>tableInfo\<close>.\<close>

definition formatSpecs :: "tableSpec list \<Rightarrow> nat \<Rightarrow> string list res" where
  "formatSpecs specs n =
     chk (n = 2 * length specs)
       (Inr (concat (map (\<lambda>t. [addr_String (spec_name t), FormatUint (unat (spec_chunkCount t))]) specs)))"

subsection \<open>The manifest file\<close>

text \<open>
  The directory of a store: whether the lock file exists, the manifest file, and the table files.
  Temporary files are created, renamed and removed within one operation.
\<close>

record directory =
  dir_lock :: bool
  dir_manifest :: "string option"
  dir_tables :: "string \<Rightarrow> bytes option"

definition parseManifest :: "string \<Rightarrow> (string \<times> hash \<times> tableSpec list) res" where
  "parseManifest manifest =
     (let slices = Split CHR '':'' manifest
      in if length slices < 3 \<or> length slices mod 2 = 0 then Inl ChkFailed
         else chk (StorageVersion = slices ! 0)
                (rbind (hash_Parse (slices ! 2)) (\<lambda>root.
                 rbind (parseSpecs (drop 3 slices)) (\<lambda>specs. Inr (slices ! 1, root, specs)))))"

definition writeManifest :: "hash \<Rightarrow> tableSpec list \<Rightarrow> string res" where
  "writeManifest root specs =
     rbind (formatSpecs specs (2 * length specs)) (\<lambda>tableInfo.
       Inr (Join CHR '':'' ([StorageVersion, NomsVersion, hash_String root] @ tableInfo)))"

definition ParseIfExists :: "directory \<Rightarrow> (string \<times> hash \<times> tableSpec list) option res" where
  "ParseIfExists dir =
     (if dir_lock dir
      then case dir_manifest dir of
             None \<Rightarrow> Inr None
           | Some f \<Rightarrow> rbind (parseManifest f) (\<lambda>m. Inr (Some m))
      else Inr None)"

definition fileManifest_Update ::
    "directory \<Rightarrow> tableSpec list \<Rightarrow> hash \<Rightarrow> hash \<Rightarrow> (directory \<times> hash \<times> tableSpec list) res" where
  "fileManifest_Update dir specs root newRoot =
     rbind (writeManifest newRoot specs) (\<lambda>temp.
     let dir1 = dir\<lparr>dir_lock := True\<rparr>
     in rbind (case dir_manifest dir1 of
                 Some f \<Rightarrow> rbind (parseManifest f) (\<lambda>(mVers, actual, tableSpecs).
                             chk (NomsVersion = mVers) (Inr (actual, tableSpecs)))
               | None \<Rightarrow> chk (root = emptyHash) (Inr (emptyHash, specs)))
          (\<lambda>(actual, tableSpecs).
             if root \<noteq> actual then Inr (dir1, actual, tableSpecs)
             else Inr (dir1\<lparr>dir_manifest := Some temp\<rparr>, newRoot, tableSpecs)))"

subsection \<open>Round trip\<close>

lemma addr_String_hash_String: "addr_String a = hash_String a"
  by (simp add: addr_String_def hash_String_def)

lemma ParseAddr_String [simp]: "ParseAddr (addr_String a) = Inr a"
  using DecodeString_hash_String [of a]
  by (simp add: ParseAddr_def addr_String_hash_String copy_hash_bytes)

lemma parseSpecs_format:
  "parseSpecs (concat (map (\<lambda>t. [addr_String (spec_name t), FormatUint (unat (spec_chunkCount t))]) specs))
    = Inr specs"
proof -
  let ?f = "\<lambda>t. [addr_String (spec_name t), FormatUint (unat (spec_chunkCount t))]"
  let ?info = "concat (map ?f specs)"
  have len: "length ?info = 2 * length specs" by (induction specs) auto
  have nth: "concat (map ?f ts) ! (2 * i) = addr_String (spec_name (ts ! i))
      \<and> concat (map ?f ts) ! Suc (2 * i) = FormatUint (unat (spec_chunkCount (ts ! i)))" if "i < length ts" for i ts
    using that
  proof (induction ts arbitrary: i)
    case (Cons t ts)
    then show ?case by (cases i) auto
  qed simp
  have "ParseUint 32 (FormatUint (unat (spec_chunkCount t))) = Some (unat (spec_chunkCount t))" for t :: tableSpec
    using unsigned_less [of "spec_chunkCount t", where ?'a = nat] by (intro ParseUint_FormatUint) simp
  then have "parseSpecs ?info = Inr (map (\<lambda>i. specs ! i) [0..<length specs])"
    unfolding parseSpecs_def by (simp only: len) (auto intro!: mapM_res_Inr simp: len nth)
  then show ?thesis by (simp add: map_nth)
qed

lemma formatSpecs_no_colon:
  "s \<in> set (concat (map (\<lambda>t. [addr_String (spec_name t), FormatUint (unat (spec_chunkCount t))]) specs)) \<Longrightarrow>
     CHR '':'' \<notin> set s"
  by (auto simp: addr_String_hash_String)

lemma length_formatSpecs:
  "length (concat (map (\<lambda>t. [addr_String (spec_name t), FormatUint (unat (spec_chunkCount t))]) specs)) = 2 * length specs"
  by (induction specs) auto

lemma parse_writeManifest:
  "\<exists>s. writeManifest root specs = Inr s \<and> parseManifest s = Inr (NomsVersion, root, specs)"
proof -
  let ?info = "concat (map (\<lambda>t. [addr_String (spec_name t), FormatUint (unat (spec_chunkCount t))]) specs)"
  let ?strs = "[StorageVersion, NomsVersion, hash_String root] @ ?info"
  have "Split CHR '':'' (Join CHR '':'' ?strs) = ?strs"
    using formatSpecs_no_colon [of _ specs]
    by (intro Split_Join) (auto simp: StorageVersion_def NomsVersion_def addr_String_hash_String)
  then have "parseManifest (Join CHR '':'' ?strs) = Inr (NomsVersion, root, specs)"
    using parseSpecs_format [of specs] length_formatSpecs [of specs]
    by (simp add: parseManifest_def Let_def)
  then show ?thesis by (simp add: writeManifest_def formatSpecs_def)
qed

subsection \<open>The interface manifest\<close>

text \<open>
  \<open>mm_abs\<close> is what the manifest records: a root and the tables, or nothing yet, when the root counts
  as empty. \<open>Update\<close> replaces it exactly when the expected root is the recorded one and otherwise
  reports what is recorded.
\<close>

definition recorded_root :: "(hash \<times> tableSpec list) option \<Rightarrow> hash" where
  "recorded_root m = (case m of None \<Rightarrow> emptyHash | Some (r, _) \<Rightarrow> r)"

locale manifest =
  fixes mm_Parse :: "'m \<Rightarrow> (string \<times> hash \<times> tableSpec list) option res"
    and mm_Update :: "'m \<Rightarrow> tableSpec list \<Rightarrow> hash \<Rightarrow> hash \<Rightarrow> ('m \<times> hash \<times> tableSpec list) res"
    and mm_inv :: "'m \<Rightarrow> bool"
    and mm_abs :: "'m \<Rightarrow> (hash \<times> tableSpec list) option"
  assumes parse: "mm_inv m \<Longrightarrow>
      mm_Parse m = Inr (map_option (\<lambda>(root, specs). (NomsVersion, root, specs)) (mm_abs m))"
    and update_current: "mm_inv m \<Longrightarrow> root = recorded_root (mm_abs m) \<Longrightarrow>
      \<exists>m' specs'. mm_Update m specs root newRoot = Inr (m', newRoot, specs')
        \<and> mm_inv m' \<and> mm_abs m' = Some (newRoot, specs)"
    and update_stale: "mm_inv m \<Longrightarrow> mm_abs m = Some (actual, specs') \<Longrightarrow> root \<noteq> actual \<Longrightarrow>
      \<exists>m'. mm_Update m specs root newRoot = Inr (m', actual, specs') \<and> mm_inv m' \<and> mm_abs m' = mm_abs m"
begin

text \<open>Of two writers that start from the same root, the second one fails and changes nothing.\<close>

lemma one_writer_wins:
  assumes "mm_inv m" "root = recorded_root (mm_abs m)"
    and "mm_Update m specs1 root new1 = Inr (m1, actual1, ts1)" "new1 \<noteq> root"
  shows "\<exists>m2. mm_Update m1 specs2 root new2 = Inr (m2, new1, specs1) \<and> mm_abs m2 = Some (new1, specs1)"
proof -
  have "mm_inv m1" "mm_abs m1 = Some (new1, specs1)"
    using update_current [OF assms(1,2), of specs1 new1] assms(3) by auto
  then show ?thesis using update_stale [of m1 new1 specs1 root specs2 new2] assms(4) by auto
qed

text \<open>What a writer recorded is what the next reader finds.\<close>

lemma parse_after_update:
  assumes "mm_inv m" "root = recorded_root (mm_abs m)" "mm_Update m specs root newRoot = Inr (m', actual, ts)"
  shows "mm_Parse m' = Inr (Some (NomsVersion, newRoot, specs)) \<and> actual = newRoot"
  using update_current [OF assms(1,2), of specs newRoot] assms(3) parse [of m'] by auto

end

definition file_abs :: "directory \<Rightarrow> (hash \<times> tableSpec list) option" where
  "file_abs dir =
     (case dir_manifest dir of
        None \<Rightarrow> None
      | Some f \<Rightarrow> (case parseManifest f of Inr (_, root, specs) \<Rightarrow> Some (root, specs) | Inl _ \<Rightarrow> None))"

text \<open>The manifest file is one this version of the software wrote, under a lock file.\<close>

definition file_inv :: "directory \<Rightarrow> bool" where
  "file_inv dir \<longleftrightarrow>
     (case dir_manifest dir of
        None \<Rightarrow> True
      | Some f \<Rightarrow> dir_lock dir \<and> (\<exists>root specs. parseManifest f = Inr (NomsVersion, root, specs)))"

lemma file_manifest_cases:
  assumes "file_inv dir"
  obtains (none) "dir_manifest dir = None" "file_abs dir = None"
  | (some) f root specs where "dir_manifest dir = Some f" "dir_lock dir"
      "parseManifest f = Inr (NomsVersion, root, specs)" "file_abs dir = Some (root, specs)"
  using assms by (cases "dir_manifest dir") (auto simp: file_inv_def file_abs_def)

lemma fileManifest_Update_current:
  assumes "file_inv dir" "root = recorded_root (file_abs dir)"
  shows "\<exists>dir' specs'. fileManifest_Update dir specs root newRoot = Inr (dir', newRoot, specs')
    \<and> file_inv dir' \<and> file_abs dir' = Some (newRoot, specs) \<and> dir_tables dir' = dir_tables dir"
proof -
  obtain s where s: "writeManifest newRoot specs = Inr s" "parseManifest s = Inr (NomsVersion, newRoot, specs)"
    using parse_writeManifest by blast
  from assms(1) show ?thesis
    by (cases rule: file_manifest_cases)
      (use assms(2) s in \<open>auto simp: fileManifest_Update_def file_inv_def file_abs_def recorded_root_def\<close>)
qed

lemma fileManifest_Update_stale:
  assumes "file_inv dir" "file_abs dir = Some (actual, specs')" "root \<noteq> actual"
  shows "fileManifest_Update dir specs root newRoot = Inr (dir\<lparr>dir_lock := True\<rparr>, actual, specs')"
proof -
  obtain s where "writeManifest newRoot specs = Inr s" using parse_writeManifest by blast
  with assms show ?thesis
    by (cases rule: file_manifest_cases) (auto simp: fileManifest_Update_def)
qed

interpretation fm: manifest ParseIfExists fileManifest_Update file_inv file_abs
proof (unfold_locales, goal_cases)
  case (1 m)
  then show ?case by (cases rule: file_manifest_cases) (auto simp: ParseIfExists_def)
next
  case (2 m root specs newRoot)
  then show ?case using fileManifest_Update_current by blast
next
  case (3 m actual specs' root specs newRoot)
  then show ?case
    using fileManifest_Update_stale [OF 3] by (auto simp: file_inv_def file_abs_def split: option.splits)
qed

subsection \<open>Properties\<close>

text \<open>
  C13. The manifest file round-trips: what \<open>writeManifest\<close> writes for a root and a list of tables,
  \<open>parseManifest\<close> reads back, with the current version of the data format.
\<close>

theorem manifest_roundtrip:
  "rbind (writeManifest root specs) parseManifest = Inr (NomsVersion, root, specs)"
  using parse_writeManifest [of root specs] by auto

lemma Update_replaces:
  assumes "file_inv dir" and "file_abs dir = Some (root, old)"
  shows "\<exists>dir'. fileManifest_Update dir specs root newRoot = Inr (dir', newRoot, old)
    \<and> file_inv dir' \<and> file_abs dir' = Some (newRoot, specs)"
proof -
  obtain s where "writeManifest newRoot specs = Inr s" "parseManifest s = Inr (NomsVersion, newRoot, specs)"
    using parse_writeManifest by blast
  with assms show ?thesis
    by (cases rule: file_manifest_cases) (auto simp: fileManifest_Update_def file_abs_def file_inv_def)
qed

text \<open>
  C14. \<open>Update\<close> of the file manifest is a compare-and-swap: from two updates that both expect the
  recorded root, the first one takes effect. If it changed the root, the second one fails, returns the
  root and the tables of the first, and leaves the manifest as it is. If the first one kept the root, the second
  one takes effect as well: it replaces the tables that the first one recorded, which it never saw.
\<close>

theorem fileManifest_one_writer_wins:
  assumes "file_inv dir" and "root = recorded_root (file_abs dir)"
  shows "\<exists>dir1 dir2 ts1. fileManifest_Update dir specs1 root new1 = Inr (dir1, new1, ts1)
    \<and> ParseIfExists dir1 = Inr (Some (NomsVersion, new1, specs1))
    \<and> (if new1 \<noteq> root
       then fileManifest_Update dir1 specs2 root new2 = Inr (dir2, new1, specs1)
         \<and> ParseIfExists dir2 = Inr (Some (NomsVersion, new1, specs1))
       else fileManifest_Update dir1 specs2 root new2 = Inr (dir2, new2, specs1)
         \<and> ParseIfExists dir2 = Inr (Some (NomsVersion, new2, specs2)))"
proof -
  obtain dir1 ts1 where 1: "fileManifest_Update dir specs1 root new1 = Inr (dir1, new1, ts1)"
    and inv: "file_inv dir1" "file_abs dir1 = Some (new1, specs1)"
    using fileManifest_Update_current [OF assms] by blast
  have parse1: "ParseIfExists dir1 = Inr (Some (NomsVersion, new1, specs1))"
    using fm.parse [OF inv(1)] inv(2) by simp
  show ?thesis
  proof (cases "new1 = root")
    case True
    obtain dir2 where 2: "fileManifest_Update dir1 specs2 root new2 = Inr (dir2, new2, specs1)"
      "file_inv dir2" "file_abs dir2 = Some (new2, specs2)"
      using Update_replaces [OF inv(1), of root specs1 specs2 new2] inv(2) True by auto
    then have "ParseIfExists dir2 = Inr (Some (NomsVersion, new2, specs2))"
      using fm.parse [OF 2(2)] 2(3) by simp
    then show ?thesis using 1 2 parse1 True by auto
  next
    case False
    obtain dir2 where 2: "fileManifest_Update dir1 specs2 root new2 = Inr (dir2, new1, specs1)"
      "file_inv dir2" "file_abs dir2 = Some (new1, specs1)"
      using fm.update_stale [OF inv not_sym [OF False]] inv(2) by auto
    then have "ParseIfExists dir2 = Inr (Some (NomsVersion, new1, specs1))"
      using fm.parse [OF 2(2)] 2(3) by simp
    then show ?thesis using 1 2 parse1 False by auto
  qed
qed

text \<open>
  C15. A successful update reports stale tables: over an existing manifest with the expected root,
  \<open>Update\<close> returns the tables of the manifest it replaced, not those it wrote.
\<close>

theorem Update_returns_replaced_specs:
  assumes "file_inv dir" and "file_abs dir = Some (root, old)"
  shows "\<exists>dir'. fileManifest_Update dir specs root newRoot = Inr (dir', newRoot, old)
    \<and> file_abs dir' = Some (newRoot, specs)"
  using Update_replaces [OF assms] by blast

definition no_manifest :: directory where
  "no_manifest = \<lparr>dir_lock = False, dir_manifest = None, dir_tables = Map.empty\<rparr>"

lemma no_manifest_ok: "file_inv no_manifest" "file_abs no_manifest = None"
  by (simp_all add: no_manifest_def file_inv_def file_abs_def)

lemma copy_hash_1_nonempty: "copy_hash [1] \<noteq> emptyHash"
proof
  assume "copy_hash [1] = emptyHash"
  then have "hd (hash_bytes (copy_hash [1])) = hd (hash_bytes emptyHash)" by simp
  then show False by (simp add: hash_bytes_copy_hash emptyHash_def)
qed

theorem fileManifest_one_writer_wins_witness:
  "\<exists>dir1 dir2 ts1.
      fileManifest_Update no_manifest [\<lparr>spec_name = emptyHash, spec_chunkCount = 3\<rparr>] emptyHash (copy_hash [1])
        = Inr (dir1, copy_hash [1], ts1)
    \<and> fileManifest_Update dir1 [] emptyHash (copy_hash [2])
        = Inr (dir2, copy_hash [1], [\<lparr>spec_name = emptyHash, spec_chunkCount = 3\<rparr>])
    \<and> ParseIfExists dir2 = Inr (Some (NomsVersion, copy_hash [1], [\<lparr>spec_name = emptyHash, spec_chunkCount = 3\<rparr>]))"
proof -
  have "emptyHash = recorded_root (file_abs no_manifest)"
    by (simp add: no_manifest_ok recorded_root_def)
  from fileManifest_one_writer_wins [OF no_manifest_ok(1) this,
      of "[\<lparr>spec_name = emptyHash, spec_chunkCount = 3\<rparr>]" "copy_hash [1]" "[]" "copy_hash [2]"]
  show ?thesis
    using copy_hash_1_nonempty by auto
qed

theorem Update_returns_replaced_specs_witness:
  "\<exists>dir dir'. fileManifest_Update dir [] (copy_hash [1]) (copy_hash [2])
      = Inr (dir', copy_hash [2], [\<lparr>spec_name = emptyHash, spec_chunkCount = 3\<rparr>])
    \<and> file_abs dir' = Some (copy_hash [2], [])"
proof -
  obtain dir where "file_inv dir" "file_abs dir = Some (copy_hash [1], [\<lparr>spec_name = emptyHash, spec_chunkCount = 3\<rparr>])"
    using fm.update_current [OF no_manifest_ok(1) refl] by blast
  from Update_returns_replaced_specs [OF this] show ?thesis by blast
qed

end
