(* ===== verification/NbsTableSet.thy ===== *)
theory NbsTableSet
  imports NbsMemTable NbsManifest
begin

text \<open>
  Sets of tables: opening table files (\<open>go/nbs/mmap_table_reader.go\<close>), persisting a table that was
  filled in memory (\<open>go/nbs/file_table_persister.go\<close>), reading it while that happens in the
  background (\<open>go/nbs/compacting_chunk_source.go\<close>), and the lookups over a list of tables
  (\<open>go/nbs/table_set.go\<close>).

  Compacting sources are shared objects that a goroutine changes once, so they live in a heap
  (\<open>w_ccs\<close>) and are referred to by their index. Compaction itself is one atomic step, which may
  happen at any time; an operation that waits for it performs it, when it has not happened yet.
\<close>

subsection \<open>Opened tables (mmap_table_reader.go)\<close>

record mmapTableReader =
  mmap_reader :: tableReader
  mmap_buff :: bytes
  mmap_h :: addr

definition fileReadAmpThresh :: uint64 where
  "fileReadAmpThresh = 2"

definition fileBlockSize :: uint64 where
  "fileBlockSize = 2 ^ 12"

definition fileMaxReadSize :: uint64 where
  "fileMaxReadSize = 2 ^ 28"

text \<open>\<open>os.Getpagesize()\<close>; its value does not matter, as the index starts at \<open>indexOffset\<close> for any.\<close>

definition pageSize :: nat where
  "pageSize = 4096"

definition maxInt :: nat where
  "maxInt = 2 ^ 63 - 1"

text \<open>
  For a file too short for its footer and index the offset is negative, and mapping the file or
  slicing the buffer panics.
\<close>

definition newMmapTableReader :: "directory \<Rightarrow> addr \<Rightarrow> uint32 \<Rightarrow> mmapTableReader res" where
  "newMmapTableReader dir h chunkCount =
     (case dir_tables dir (addr_String h) of
        None \<Rightarrow> Inl (IOError ''open'')
      | Some f \<Rightarrow>
          if length f < footerSize + indexSize chunkCount then Inl IndexOutOfRange
          else let indexOffset = length f - footerSize - indexSize chunkCount;
                   aligned = indexOffset div pageSize * pageSize
               in if length f - aligned > maxInt then Inl ChkFailed
                  else let buff = drop aligned f
                       in rbind (from_res buff (indexOffset - aligned)) (\<lambda>b. rbind (parseTableIndex b) (\<lambda>index.
                          let source = \<lparr>mmap_reader = newTableReader index f fileBlockSize fileMaxReadSize fileReadAmpThresh,
                                        mmap_buff = buff, mmap_h = h\<rparr>
                          in chk (chunkCount = tr_count (mmap_reader source)) (Inr source))))"

definition mmap_hash :: "mmapTableReader \<Rightarrow> addr" where
  "mmap_hash mmtr = mmap_h mmtr"

subsection \<open>The empty source (compacting_chunk_source.go)\<close>

definition ecs_has :: "addr \<Rightarrow> bool" where
  "ecs_has h = False"

definition ecs_hasMany :: "hasRecord list \<Rightarrow> hasRecord list \<times> bool" where
  "ecs_hasMany addrs = (addrs, True)"

definition ecs_get :: "addr \<Rightarrow> bytes option" where
  "ecs_get h = None"

definition ecs_getMany :: "getRecord list \<Rightarrow> getRecord list \<times> bool" where
  "ecs_getMany reqs = (reqs, True)"

definition ecs_count :: uint32 where
  "ecs_count = 0"

definition ecs_hash :: addr where
  "ecs_hash = emptyHash"

definition ecs_calcReads :: "getRecord list \<Rightarrow> getRecord list \<times> nat \<times> bool" where
  "ecs_calcReads reqs = (reqs, 0, True)"

definition ecs_extract :: "extractRecord list" where
  "ecs_extract = []"

subsection \<open>Sources and readers\<close>

text \<open>What a persister returns, what a set of tables holds, and what a lookup reads from.\<close>

datatype chunkSource = EmptySource | TableSource mmapTableReader

datatype source = Opened chunkSource | Compacting nat

datatype reader = MemReader memTable | SourceReader chunkSource

record compactingChunkSource =
  ccs_mt :: "memTable option"
  ccs_haver :: "source list"
  ccs_cs :: "chunkSource option"

record world =
  w_dir :: directory
  w_ccs :: "compactingChunkSource list"

definition getReader :: "compactingChunkSource \<Rightarrow> reader option" where
  "getReader ccs =
     (case ccs_mt ccs of Some mt \<Rightarrow> Some (MemReader mt) | None \<Rightarrow> map_option SourceReader (ccs_cs ccs))"

text \<open>\<open>cr := ccs.getReader(); d.Chk.True(cr != nil)\<close> for a compacting source.\<close>

definition source_reader :: "world \<Rightarrow> source \<Rightarrow> reader res" where
  "source_reader w s =
     (case s of
        Opened cs \<Rightarrow> Inr (SourceReader cs)
      | Compacting i \<Rightarrow> rbind (nth_res (w_ccs w) i) (\<lambda>ccs.
          case getReader ccs of None \<Rightarrow> Inl ChkFailed | Some cr \<Rightarrow> Inr cr))"

fun reader_has :: "reader \<Rightarrow> addr \<Rightarrow> bool res" where
  "reader_has (MemReader mt) h = Inr (mt_has mt h)"
| "reader_has (SourceReader EmptySource) h = Inr (ecs_has h)"
| "reader_has (SourceReader (TableSource m)) h = tr_has (mmap_reader m) h"

fun reader_hasMany :: "reader \<Rightarrow> hasRecord list \<Rightarrow> (hasRecord list \<times> bool) res" where
  "reader_hasMany (MemReader mt) addrs = Inr (mt_hasMany mt addrs)"
| "reader_hasMany (SourceReader EmptySource) addrs = Inr (ecs_hasMany addrs)"
| "reader_hasMany (SourceReader (TableSource m)) addrs = tr_hasMany (mmap_reader m) addrs"

fun reader_get :: "libs \<Rightarrow> reader \<Rightarrow> addr \<Rightarrow> bytes option res" where
  "reader_get sn (MemReader mt) h = Inr (mt_get mt h)"
| "reader_get sn (SourceReader EmptySource) h = Inr (ecs_get h)"
| "reader_get sn (SourceReader (TableSource m)) h = tr_get sn (mmap_reader m) h"

text \<open>A spawned read is kept with the reader it reads from.\<close>

fun reader_getMany :: "reader \<Rightarrow> getRecord list \<Rightarrow> (getRecord list \<times> (tableReader \<times> physicalRead) list \<times> bool) res" where
  "reader_getMany (MemReader mt) reqs = (case mt_getMany mt reqs of (reqs', remaining) \<Rightarrow> Inr (reqs', [], remaining))"
| "reader_getMany (SourceReader EmptySource) reqs =
     (case ecs_getMany reqs of (reqs', remaining) \<Rightarrow> Inr (reqs', [], remaining))"
| "reader_getMany (SourceReader (TableSource m)) reqs =
     rbind (tr_getMany (mmap_reader m) reqs) (\<lambda>(reqs', rds, remaining).
       Inr (reqs', map (\<lambda>rd. (mmap_reader m, rd)) rds, remaining))"

fun reader_count :: "reader \<Rightarrow> uint32" where
  "reader_count (MemReader mt) = mt_count mt"
| "reader_count (SourceReader EmptySource) = ecs_count"
| "reader_count (SourceReader (TableSource m)) = tr_count (mmap_reader m)"

definition source_has :: "world \<Rightarrow> source \<Rightarrow> addr \<Rightarrow> bool res" where
  "source_has w s h = rbind (source_reader w s) (\<lambda>cr. reader_has cr h)"

definition source_hasMany :: "world \<Rightarrow> source \<Rightarrow> hasRecord list \<Rightarrow> (hasRecord list \<times> bool) res" where
  "source_hasMany w s addrs = rbind (source_reader w s) (\<lambda>cr. reader_hasMany cr addrs)"

definition source_get :: "libs \<Rightarrow> world \<Rightarrow> source \<Rightarrow> addr \<Rightarrow> bytes option res" where
  "source_get sn w s h = rbind (source_reader w s) (\<lambda>cr. reader_get sn cr h)"

definition source_getMany ::
    "world \<Rightarrow> source \<Rightarrow> getRecord list \<Rightarrow> (getRecord list \<times> (tableReader \<times> physicalRead) list \<times> bool) res" where
  "source_getMany w s reqs = rbind (source_reader w s) (\<lambda>cr. reader_getMany cr reqs)"

definition source_count :: "world \<Rightarrow> source \<Rightarrow> uint32 res" where
  "source_count w s = rbind (source_reader w s) (\<lambda>cr. Inr (reader_count cr))"

subsection \<open>Lookups over a list of sources (table_set.go)\<close>

fun chunkSources_has :: "world \<Rightarrow> source list \<Rightarrow> addr \<Rightarrow> bool res" where
  "chunkSources_has w [] h = Inr False"
| "chunkSources_has w (s # css) h =
     rbind (source_has w s h) (\<lambda>has. if has then Inr True else chunkSources_has w css h)"

fun chunkSources_hasMany :: "world \<Rightarrow> source list \<Rightarrow> hasRecord list \<Rightarrow> (hasRecord list \<times> bool) res" where
  "chunkSources_hasMany w [] addrs = Inr (addrs, True)"
| "chunkSources_hasMany w (s # css) addrs =
     rbind (source_hasMany w s addrs) (\<lambda>(addrs', remaining).
       if \<not> remaining then Inr (addrs', False) else chunkSources_hasMany w css addrs')"

fun chunkSources_get :: "libs \<Rightarrow> world \<Rightarrow> source list \<Rightarrow> addr \<Rightarrow> bytes option res" where
  "chunkSources_get sn w [] h = Inr None"
| "chunkSources_get sn w (s # css) h =
     rbind (source_get sn w s h) (\<lambda>data. if data \<noteq> None then Inr data else chunkSources_get sn w css h)"

fun chunkSources_getMany ::
    "world \<Rightarrow> source list \<Rightarrow> getRecord list \<Rightarrow> (getRecord list \<times> (tableReader \<times> physicalRead) list \<times> bool) res" where
  "chunkSources_getMany w [] reqs = Inr (reqs, [], True)"
| "chunkSources_getMany w (s # css) reqs =
     rbind (source_getMany w s reqs) (\<lambda>(reqs', rds, remaining).
       if \<not> remaining then Inr (reqs', rds, False)
       else rbind (chunkSources_getMany w css reqs') (\<lambda>(reqs'', rds', remaining').
              Inr (reqs'', rds @ rds', remaining')))"

fun chunkSources_count :: "world \<Rightarrow> source list \<Rightarrow> uint32 res" where
  "chunkSources_count w [] = Inr 0"
| "chunkSources_count w (s # css) =
     rbind (source_count w s) (\<lambda>c. rbind (chunkSources_count w css) (\<lambda>cs. Inr (c + cs)))"

subsection \<open>Persisting a table (file_table_persister.go)\<close>

definition fs_Open :: "directory \<Rightarrow> addr \<Rightarrow> uint32 \<Rightarrow> chunkSource res" where
  "fs_Open dir name chunkCount = rbind (newMmapTableReader dir name chunkCount) (\<lambda>m. Inr (TableSource m))"

definition Compact :: "libs \<Rightarrow> world \<Rightarrow> memTable \<Rightarrow> source list \<Rightarrow> (directory \<times> chunkSource) res" where
  "Compact sn w mt haver =
     rbind (mt_write sn mt (Some (chunkSources_hasMany w haver))) (\<lambda>(mt', name, data, chunkCount).
       if chunkCount = 0 then Inr (w_dir w, EmptySource)
       else let dir = (w_dir w)\<lparr>dir_tables := (dir_tables (w_dir w))(addr_String name \<mapsto> data)\<rparr>
            in rbind (newMmapTableReader dir name chunkCount) (\<lambda>m. Inr (dir, TableSource m)))"

subsection \<open>Compaction in the background (compacting_chunk_source.go)\<close>

text \<open>
  \<open>newCompactingChunkSource\<close> puts a source with the table in memory into the heap. The goroutine it
  starts is \<open>compact_step\<close>; when the compaction has happened it does nothing.
\<close>

definition newCompactingChunkSource :: "world \<Rightarrow> memTable \<Rightarrow> source list \<Rightarrow> world \<times> source" where
  "newCompactingChunkSource w mt haver =
     (w\<lparr>w_ccs := w_ccs w @ [\<lparr>ccs_mt = Some mt, ccs_haver = haver, ccs_cs = None\<rparr>]\<rparr>,
      Compacting (length (w_ccs w)))"

definition compact_step :: "libs \<Rightarrow> world \<Rightarrow> nat \<Rightarrow> world res" where
  "compact_step sn w i =
     rbind (nth_res (w_ccs w) i) (\<lambda>ccs.
       case ccs_mt ccs of
         None \<Rightarrow> Inr w
       | Some mt \<Rightarrow> rbind (Compact sn w mt (ccs_haver ccs)) (\<lambda>(dir, cs).
           Inr (w\<lparr>w_dir := dir, w_ccs := (w_ccs w)[i := ccs\<lparr>ccs_mt := None, ccs_cs := Some cs\<rparr>]\<rparr>)))"

text \<open>\<open>ccs.wg.Wait(); d.Chk.True(ccs.cs != nil)\<close>: the persisted source and the world afterwards.\<close>

definition source_wait :: "libs \<Rightarrow> world \<Rightarrow> source \<Rightarrow> (world \<times> chunkSource) res" where
  "source_wait sn w s =
     (case s of
        Opened cs \<Rightarrow> Inr (w, cs)
      | Compacting i \<Rightarrow> rbind (compact_step sn w i) (\<lambda>w'. rbind (nth_res (w_ccs w') i) (\<lambda>ccs.
          case ccs_cs ccs of None \<Rightarrow> Inl ChkFailed | Some cs \<Rightarrow> Inr (w', cs))))"

fun chunkSource_hash :: "chunkSource \<Rightarrow> addr" where
  "chunkSource_hash EmptySource = ecs_hash"
| "chunkSource_hash (TableSource m) = mmap_hash m"

fun chunkSource_calcReads ::
    "chunkSource \<Rightarrow> getRecord list \<Rightarrow> uint64 \<Rightarrow> uint64 \<Rightarrow> uint64 \<Rightarrow> (getRecord list \<times> nat \<times> bool) res" where
  "chunkSource_calcReads EmptySource reqs blockSize maxReadSize ampThresh = Inr (ecs_calcReads reqs)"
| "chunkSource_calcReads (TableSource m) reqs blockSize maxReadSize ampThresh =
     tr_calcReads (mmap_reader m) reqs blockSize maxReadSize ampThresh"

fun chunkSource_extract :: "libs \<Rightarrow> chunkSource \<Rightarrow> EnumerationOrder \<Rightarrow> extractRecord list res" where
  "chunkSource_extract sn EmptySource ord = Inr ecs_extract"
| "chunkSource_extract sn (TableSource m) ord = tr_extract sn (mmap_reader m) ord"

definition source_hash :: "libs \<Rightarrow> world \<Rightarrow> source \<Rightarrow> (world \<times> addr) res" where
  "source_hash sn w s = rbind (source_wait sn w s) (\<lambda>(w', cs). Inr (w', chunkSource_hash cs))"

definition source_calcReads ::
    "libs \<Rightarrow> world \<Rightarrow> source \<Rightarrow> getRecord list \<Rightarrow> uint64 \<Rightarrow> uint64 \<Rightarrow> uint64
       \<Rightarrow> (world \<times> getRecord list \<times> nat \<times> bool) res" where
  "source_calcReads sn w s reqs blockSize maxReadSize ampThresh =
     rbind (source_wait sn w s) (\<lambda>(w', cs).
     rbind (chunkSource_calcReads cs reqs blockSize maxReadSize ampThresh) (\<lambda>(reqs', reads, remaining).
       Inr (w', reqs', reads, remaining)))"

definition source_extract :: "libs \<Rightarrow> world \<Rightarrow> source \<Rightarrow> EnumerationOrder \<Rightarrow> (world \<times> extractRecord list) res" where
  "source_extract sn w s ord =
     rbind (source_wait sn w s) (\<lambda>(w', cs). rbind (chunkSource_extract sn cs ord) (\<lambda>recs. Inr (w', recs)))"

subsection \<open>The set of tables (table_set.go)\<close>

definition Prepend :: "world \<Rightarrow> source list \<Rightarrow> memTable \<Rightarrow> world \<times> source list" where
  "Prepend w ts mt = (case newCompactingChunkSource w mt ts of (w', s) \<Rightarrow> (w', s # ts))"

text \<open>
  In \<open>calcReads\<close> the loop declares a \<open>remaining\<close> of its own, here \<open>rmn\<close>: the result of that name keeps its
  first value, and when the loop returns early, its own is false.
\<close>

fun chunkSources_calcReads_loop ::
    "libs \<Rightarrow> world \<Rightarrow> source list \<Rightarrow> getRecord list \<Rightarrow> uint64 \<Rightarrow> uint64 \<Rightarrow> uint64 \<Rightarrow> nat \<Rightarrow> bool \<Rightarrow> bool
       \<Rightarrow> (world \<times> nat \<times> bool \<times> bool) res" where
  "chunkSources_calcReads_loop sn w [] reqs blockSize maxReadSize ampThresh reads splt remaining =
     Inr (w, reads, splt, remaining)"
| "chunkSources_calcReads_loop sn w (s # css) reqs blockSize maxReadSize ampThresh reads splt remaining =
     rbind (source_calcReads sn w s reqs blockSize maxReadSize ampThresh) (\<lambda>(w', reqs', rds, rmn).
       if \<not> rmn then Inr (w', reads + rds, splt, rmn)
       else chunkSources_calcReads_loop sn w' css reqs' blockSize maxReadSize ampThresh (reads + rds) True remaining)"

definition chunkSources_calcReads ::
    "libs \<Rightarrow> world \<Rightarrow> source list \<Rightarrow> getRecord list \<Rightarrow> uint64 \<Rightarrow> uint64 \<Rightarrow> uint64
       \<Rightarrow> (world \<times> nat \<times> bool \<times> bool) res" where
  "chunkSources_calcReads sn w css reqs blockSize maxReadSize ampThresh =
     chunkSources_calcReads_loop sn w css reqs blockSize maxReadSize ampThresh 0 False False"

definition tableSet_extract ::
    "libs \<Rightarrow> world \<Rightarrow> source list \<Rightarrow> EnumerationOrder \<Rightarrow> (world \<times> extractRecord list) res" where
  "tableSet_extract sn w ts ord =
     foldM_res (\<lambda>(w, out) s. rbind (source_extract sn w s ord) (\<lambda>(w', recs). Inr (w', out @ recs)))
       (w, []) (case ord of ReverseOrder \<Rightarrow> ts | InsertOrder \<Rightarrow> rev ts)"

definition Union_keep ::
    "libs \<Rightarrow> world \<times> addr set \<times> source list \<Rightarrow> source \<Rightarrow> (world \<times> addr set \<times> source list) res" where
  "Union_keep sn st t =
     (case st of (w, known, newTables) \<Rightarrow>
        rbind (source_count w t) (\<lambda>c.
          if c > 0 then rbind (source_hash sn w t) (\<lambda>(w', h). Inr (w', insert h known, newTables @ [t]))
          else Inr (w, known, newTables)))"

definition Union :: "libs \<Rightarrow> world \<Rightarrow> source list \<Rightarrow> tableSpec list \<Rightarrow> (world \<times> source list) res" where
  "Union sn w ts specs =
     rbind (foldM_res (Union_keep sn) (w, {}, []) ts) (\<lambda>(w', known, newTables).
     let tablesToOpen = filter (\<lambda>t. spec_name t \<notin> known) specs
     in rbind (mapM_res (\<lambda>spec. fs_Open (w_dir w') (spec_name spec) (spec_chunkCount spec)) tablesToOpen)
          (\<lambda>openedTables. Inr (w', newTables @ map Opened openedTables)))"

text \<open>The loop of \<open>ToSpecs\<close> asks for the count twice, before and after it waits for the name.\<close>

definition ToSpecs_step ::
    "libs \<Rightarrow> world \<times> tableSpec list \<Rightarrow> source \<Rightarrow> (world \<times> tableSpec list) res" where
  "ToSpecs_step sn st src =
     (case st of (w, tableSpecs) \<Rightarrow>
        rbind (source_count w src) (\<lambda>c.
          if c > 0
          then rbind (source_hash sn w src) (\<lambda>(w', h). rbind (source_count w' src) (\<lambda>c'.
                 Inr (w', tableSpecs @ [\<lparr>spec_name = h, spec_chunkCount = c'\<rparr>])))
          else Inr (w, tableSpecs)))"

definition ToSpecs :: "libs \<Rightarrow> world \<Rightarrow> source list \<Rightarrow> (world \<times> tableSpec list) res" where
  "ToSpecs sn w ts = foldM_res (ToSpecs_step sn) (w, []) ts"

subsection \<open>The interface chunkReader\<close>

text \<open>
  The contract of the lookups, over the map of a reader's chunks. For \<open>hasMany\<close> the requests come
  sorted by prefix; when it reports that nothing remains, every request has been found. The
  converse is not promised: an empty source always reports that something remains.
\<close>

locale chunk_reader =
  fixes cr_has :: "'r \<Rightarrow> addr \<Rightarrow> bool res"
    and cr_hasMany :: "'r \<Rightarrow> hasRecord list \<Rightarrow> (hasRecord list \<times> bool) res"
    and cr_get :: "'r \<Rightarrow> addr \<Rightarrow> bytes option res"
    and cr_inv :: "'r \<Rightarrow> bool"
    and cr_content :: "'r \<Rightarrow> addr \<Rightarrow> bytes option"
  assumes has_law: "cr_inv r \<Longrightarrow> cr_has r h = Inr (cr_content r h \<noteq> None)"
    and hasMany_law: "cr_inv r \<Longrightarrow> has_request rs \<Longrightarrow>
      \<exists>remaining. cr_hasMany r rs = Inr (map (answered (dom (cr_content r))) rs, remaining)
        \<and> (remaining \<or> list_all hr_has (map (answered (dom (cr_content r))) rs))"
    and get_law: "cr_inv r \<Longrightarrow> cr_get r h = Inr (cr_content r h)"
begin

lemma haver: "cr_inv r \<Longrightarrow> haver_ok (Some (cr_hasMany r)) (dom (cr_content r))"
  using hasMany_law by (force simp: haver_ok_def)

lemma hasMany_has:
  assumes "cr_inv r" "has_request rs" "cr_hasMany r rs = Inr (rs', remaining)"
  shows "rs' = map (\<lambda>a. a\<lparr>hr_has := hr_has a \<or> cr_has r (hr_a a) = Inr True\<rparr>) rs"
  using hasMany_law [OF assms(1,2)] assms(3) has_law [OF assms(1)] by (auto simp: answered_def domIff)

end

text \<open>A table in memory that compaction can write, and a table that was opened.\<close>

definition mt_writable :: "memTable \<Rightarrow> bool" where
  "mt_writable mt \<longleftrightarrow>
     mt_ok mt \<and> mt_order mt \<noteq> [] \<and> length (mt_order mt) < 2 ^ 32 \<and> list_all (\<lambda>c. chunk_small (snd c)) (mt_list mt)"

definition table_inv :: "libs \<Rightarrow> tableReader \<Rightarrow> bool" where
  "table_inv sn tr \<longleftrightarrow> snappy_ok sn \<and> (\<exists>cs. table_ok sn tr cs \<and> distinct (map fst cs))"

definition table_content :: "libs \<Rightarrow> tableReader \<Rightarrow> addr \<Rightarrow> bytes option" where
  "table_content sn tr h = (case tr_get sn tr h of Inr d \<Rightarrow> d | Inl _ \<Rightarrow> None)"

lemma table_content_ok:
  "snappy_ok sn \<Longrightarrow> table_ok sn tr cs \<Longrightarrow> distinct (map fst cs) \<Longrightarrow> table_content sn tr = map_of cs"
  by (simp add: table_content_def tr_get_ok fun_eq_iff)

interpretation tabr: chunk_reader tr_has tr_hasMany "tr_get sn" "table_inv sn" "table_content sn"
  for sn :: libs
proof (unfold_locales, goal_cases)
  case (1 r h)
  then obtain cs where ok: "snappy_ok sn" "table_ok sn r cs" "distinct (map fst cs)"
    by (auto simp: table_inv_def)
  then have "index_ok (tr_index r) (map fst cs)" by (simp add: table_ok_def)
  then show ?case by (simp add: tr_has_ok table_content_ok [OF ok] map_of_eq_None_iff)
next
  case (2 r rs)
  then obtain cs where ok: "snappy_ok sn" "table_ok sn r cs" "distinct (map fst cs)"
    by (auto simp: table_inv_def)
  then have index: "index_ok (tr_index r) (map fst cs)" by (simp add: table_ok_def)
  show ?case
    using tr_hasMany_ok [OF index 2(2)]
    by (auto simp: table_content_ok [OF ok] dom_map_of_conv_image_fst list_all_iff)
next
  case (3 r h)
  then show ?case by (auto simp: table_inv_def table_content_def tr_get_ok)
qed

interpretation memr: chunk_reader "\<lambda>mt h. Inr (mt_has mt h)" "\<lambda>mt rs. Inr (mt_hasMany mt rs)"
  "\<lambda>mt h. Inr (mt_get mt h)" mt_ok mt_chunks
  by unfold_locales (auto simp: mt_has_def mt_hasMany_ok mt_get_def list_all_iff)

fun reader_content :: "libs \<Rightarrow> reader \<Rightarrow> addr \<Rightarrow> bytes option" where
  "reader_content sn (MemReader mt) = mt_chunks mt"
| "reader_content sn (SourceReader EmptySource) = Map.empty"
| "reader_content sn (SourceReader (TableSource m)) = table_content sn (mmap_reader m)"

fun reader_inv :: "libs \<Rightarrow> reader \<Rightarrow> bool" where
  "reader_inv sn (MemReader mt) \<longleftrightarrow> mt_writable mt"
| "reader_inv sn (SourceReader EmptySource) \<longleftrightarrow> True"
| "reader_inv sn (SourceReader (TableSource m)) \<longleftrightarrow> table_inv sn (mmap_reader m)"

lemma reader_inv_induct [consumes 1, case_names Mem Empty Table]:
  assumes "reader_inv sn r"
    and "\<And>mt. mt_writable mt \<Longrightarrow> P (MemReader mt)"
    and "P (SourceReader EmptySource)"
    and "\<And>m. table_inv sn (mmap_reader m) \<Longrightarrow> P (SourceReader (TableSource m))"
  shows "P r"
  using assms by (cases "(sn, r)" rule: reader_inv.cases) auto

interpretation rdr: chunk_reader reader_has reader_hasMany "reader_get sn" "reader_inv sn" "reader_content sn"
  for sn :: libs
proof (unfold_locales, goal_cases)
  case (1 r h)
  then show ?case
    by (induction rule: reader_inv_induct) (simp_all add: mt_has_def ecs_has_def tabr.has_law)
next
  case (2 r rs)
  from 2(1) show ?case
  proof (induction rule: reader_inv_induct)
    case (Mem mt)
    then show ?case by (auto simp: mt_hasMany_ok list_all_iff)
  next
    case Empty
    then show ?case by (intro exI [of _ True]) (simp add: ecs_hasMany_def)
  next
    case (Table m)
    then show ?case using tabr.hasMany_law 2(2) by simp
  qed
next
  case (3 r h)
  then show ?case
    by (induction rule: reader_inv_induct) (simp_all add: mt_get_def ecs_get_def tabr.get_law)
qed

subsection \<open>The content of a list of sources\<close>

definition source_inv :: "libs \<Rightarrow> world \<Rightarrow> source \<Rightarrow> bool" where
  "source_inv sn w s \<longleftrightarrow> (case source_reader w s of Inr r \<Rightarrow> reader_inv sn r | Inl _ \<Rightarrow> False)"

definition source_content :: "libs \<Rightarrow> world \<Rightarrow> source \<Rightarrow> addr \<Rightarrow> bytes option" where
  "source_content sn w s = (case source_reader w s of Inr r \<Rightarrow> reader_content sn r | Inl _ \<Rightarrow> Map.empty)"

text \<open>Earlier sources take precedence.\<close>

fun css_content :: "libs \<Rightarrow> world \<Rightarrow> source list \<Rightarrow> addr \<Rightarrow> bytes option" where
  "css_content sn w [] = Map.empty"
| "css_content sn w (s # css) = css_content sn w css ++ source_content sn w s"

lemma source_invE:
  assumes "source_inv sn w s"
  obtains r where "source_reader w s = Inr r" "reader_inv sn r" "source_content sn w s = reader_content sn r"
  using assms by (cases "source_reader w s") (auto simp: source_inv_def source_content_def)

lemma source_has_ok: "source_inv sn w s \<Longrightarrow> source_has w s h = Inr (source_content sn w s h \<noteq> None)"
  by (erule source_invE) (simp add: source_has_def rdr.has_law)

lemma source_get_ok: "source_inv sn w s \<Longrightarrow> source_get sn w s h = Inr (source_content sn w s h)"
  by (erule source_invE) (simp add: source_get_def rdr.get_law)

lemma has_request_answered: "has_request rs \<Longrightarrow> has_request (map (answered A) rs)"
  by (simp add: has_request_def answered_def list_all_iff comp_def)

lemma answered_answered: "answered B (answered A r) = answered (A \<union> B) r"
  by (simp add: answered_def)

lemma answered_done: "hr_has (answered A r) \<Longrightarrow> answered (A \<union> B) r = answered A r"
  by (auto simp: answered_def)

lemma chunkSources_hasMany_ok:
  assumes "list_all (source_inv sn w) css" "has_request rs"
  shows "\<exists>remaining. chunkSources_hasMany w css rs = Inr (map (answered (dom (css_content sn w css))) rs, remaining)
    \<and> (remaining \<or> list_all hr_has (map (answered (dom (css_content sn w css))) rs))"
  using assms
proof (induction css arbitrary: rs)
  case Nil
  have "map (answered {}) rs = rs" by (intro map_idI) simp
  then show ?case by (intro exI [of _ True]) simp
next
  case (Cons s css)
  let ?A = "dom (source_content sn w s)" and ?B = "dom (css_content sn w css)"
  obtain r where r: "source_reader w s = Inr r" "reader_inv sn r" "source_content sn w s = reader_content sn r"
    using Cons.prems(1) by (auto elim: source_invE)
  obtain rem where s: "source_hasMany w s rs = Inr (map (answered ?A) rs, rem)"
    and rem: "rem \<or> list_all hr_has (map (answered ?A) rs)"
    using rdr.hasMany_law [OF r(2) Cons.prems(2)] r by (auto simp: source_hasMany_def)
  show ?case
  proof (cases rem)
    case False
    then have all: "hr_has (answered ?A x)" if "x \<in> set rs" for x using rem that by (simp add: list_all_iff)
    then have "map (answered (?A \<union> ?B)) rs = map (answered ?A) rs"
      by (intro map_cong) (simp_all add: answered_done)
    then show ?thesis
      using s False all by (intro exI [of _ False]) (simp add: dom_map_add list_all_iff)
  next
    case True
    have "map (answered ?B) (map (answered ?A) rs) = map (answered (?A \<union> ?B)) rs"
      by (simp add: answered_answered)
    then show ?thesis
      using s True Cons.IH [OF _ has_request_answered [OF Cons.prems(2), of ?A]] Cons.prems(1)
      by (simp add: dom_map_add del: map_map)
  qed
qed

interpretation css: chunk_reader "\<lambda>(w, css). chunkSources_has w css" "\<lambda>(w, css). chunkSources_hasMany w css"
  "\<lambda>(w, css). chunkSources_get sn w css" "\<lambda>(w, css). list_all (source_inv sn w) css"
  "\<lambda>(w, css). css_content sn w css"
  for sn :: libs
proof (unfold_locales, goal_cases)
  case (1 r h)
  obtain w css where r: "r = (w, css)" by fastforce
  have "chunkSources_has w css h = Inr (css_content sn w css h \<noteq> None)" if "list_all (source_inv sn w) css"
    using that by (induction css) (auto simp: source_has_ok map_add_def split: option.splits)
  then show ?case using 1 by (simp add: r)
next
  case (2 r rs)
  then show ?case using chunkSources_hasMany_ok by (auto split: prod.splits)
next
  case (3 r h)
  obtain w css where r: "r = (w, css)" by fastforce
  have "chunkSources_get sn w css h = Inr (css_content sn w css h)" if "list_all (source_inv sn w) css"
    using that by (induction css) (auto simp: source_get_ok map_add_def split: option.splits)
  then show ?case using 3 by (simp add: r)
qed

subsection \<open>Opening a table\<close>

lemma drop_table_image:
  "drop (length (chunk_records sn cs)) (table_image sn cs) = index_image sn (index_entries sn cs) @ footer_image sn cs"
  by (simp add: table_image_def)

lemma newMmapTableReader_ok:
  assumes "dir_tables dir (addr_String h) = Some (table_image sn cs)" "table_fits sn cs" "cnt = of_nat (length cs)"
  shows "\<exists>m. newMmapTableReader dir h cnt = Inr m \<and> mmap_h m = h \<and> table_ok sn (mmap_reader m) cs"
proof -
  let ?f = "table_image sn cs" and ?off = "length (chunk_records sn cs)"
  have n: "unat cnt = length cs" "cs \<noteq> []" "length cs < 2 ^ 32"
    using assms(2,3) by (auto simp: table_fits_def unat_of_nat32)
  have len: "length ?f = ?off + 28 * length cs + 20" by (rule length_table_image)
  have isz: "indexSize cnt = 28 * length cs" using n(1) by (simp add: indexSize_def)
  have al: "?off div pageSize * pageSize \<le> ?off" by simp
  have "?off - ?off div pageSize * pageSize < pageSize"
    by (simp add: pageSize_def minus_div_mult_eq_mod)
  then have small: "length ?f - ?off div pageSize * pageSize \<le> maxInt"
    using len n(3) by (simp add: pageSize_def maxInt_def)
  have "drop (?off - ?off div pageSize * pageSize) (drop (?off div pageSize * pageSize) ?f)
      = index_image sn (index_entries sn cs) @ footer_image sn cs"
    using drop_table_image [of sn cs] al by (simp add: add.commute)
  moreover have "?off - ?off div pageSize * pageSize \<le> length (drop (?off div pageSize * pageSize) ?f)"
    using len al by simp
  ultimately have b: "from_res (drop (?off div pageSize * pageSize) ?f) (?off - ?off div pageSize * pageSize)
      = Inr (index_image sn (index_entries sn cs) @ footer_image sn cs)" by (simp only: from_res_ok)
  have parse: "parseTableIndex (index_image sn (index_entries sn cs) @ footer_image sn cs) = Inr (table_index sn cs)"
    using parseTableIndex_image [OF n(2,3), of "[]" sn] by simp
  have cnt: "tr_count (newTableReader (table_index sn cs) ?f fileBlockSize fileMaxReadSize fileReadAmpThresh) = cnt"
    using assms(3) by (simp add: tr_count_def newTableReader_def table_index_def Let_def)
  have off: "length ?f - 20 - 28 * length cs = ?off" "\<not> length ?f < 20 + 28 * length cs" using len by simp_all
  let ?m = "\<lparr>mmap_reader = newTableReader (table_index sn cs) ?f fileBlockSize fileMaxReadSize fileReadAmpThresh,
      mmap_buff = drop (?off div pageSize * pageSize) ?f, mmap_h = h\<rparr>"
  have "newMmapTableReader dir h cnt = Inr ?m"
    using small assms(1)
    by (simp add: newMmapTableReader_def isz off Let_def b parse cnt del: drop_drop diff_diff_left from_res_ok)
  moreover have "table_ok sn (mmap_reader ?m) cs" using table_ok_newTableReader [OF assms(2)] by simp
  ultimately show ?thesis by auto
qed

subsection \<open>The invariant of the background compactions\<close>

definition within :: "(addr \<Rightarrow> bytes) \<Rightarrow> (addr \<Rightarrow> bytes option) \<Rightarrow> bool" where
  "within f m \<longleftrightarrow> m \<subseteq>\<^sub>m (\<lambda>h. Some (f h))"

lemma within_SomeD: "within f m \<Longrightarrow> m h = Some d \<Longrightarrow> d = f h"
  unfolding within_def map_le_def by (metis domI option.inject)

lemma within_add: "within f m \<Longrightarrow> within f n \<Longrightarrow> within f (m ++ n)"
  unfolding within_def by (rule map_add_le_mapI)

lemma within_empty [simp]: "within f Map.empty"
  by (simp add: within_def)

definition table_file :: "libs \<Rightarrow> (addr \<Rightarrow> bytes) \<Rightarrow> bytes \<Rightarrow> bool" where
  "table_file sn f d \<longleftrightarrow>
     (\<exists>cs. d = table_image sn cs \<and> table_fits sn cs \<and> distinct (map fst cs) \<and> within f (map_of cs))"

text \<open>
  A source of a list below position \<open>n\<close> of the heap. In a list, the reader that a pending compaction
  asks for the chunks it may leave out is covered by the sources behind it.
\<close>

fun source_below :: "libs \<Rightarrow> (addr \<Rightarrow> bytes) \<Rightarrow> nat \<Rightarrow> source \<Rightarrow> bool" where
  "source_below sn f n (Opened cs) \<longleftrightarrow>
     reader_inv sn (SourceReader cs) \<and> within f (reader_content sn (SourceReader cs))"
| "source_below sn f n (Compacting i) \<longleftrightarrow> i < n"

definition pending :: "world \<Rightarrow> nat \<Rightarrow> bool" where
  "pending w i \<longleftrightarrow> ccs_mt (w_ccs w ! i) \<noteq> None"

fun chain_ok :: "libs \<Rightarrow> world \<Rightarrow> source list \<Rightarrow> bool" where
  "chain_ok sn w [] \<longleftrightarrow> True"
| "chain_ok sn w (Opened cs # css) \<longleftrightarrow> chain_ok sn w css"
| "chain_ok sn w (Compacting i # css) \<longleftrightarrow>
     chain_ok sn w css
     \<and> (pending w i \<longrightarrow> css_content sn w (ccs_haver (w_ccs w ! i)) \<subseteq>\<^sub>m css_content sn w css)"

definition ccs_inv :: "libs \<Rightarrow> (addr \<Rightarrow> bytes) \<Rightarrow> world \<Rightarrow> nat \<Rightarrow> bool" where
  "ccs_inv sn f w i \<longleftrightarrow>
     (case getReader (w_ccs w ! i) of
        None \<Rightarrow> False
      | Some r \<Rightarrow> reader_inv sn r \<and> within f (reader_content sn r))
     \<and> (pending w i \<longrightarrow> list_all (source_below sn f i) (ccs_haver (w_ccs w ! i))
          \<and> chain_ok sn w (ccs_haver (w_ccs w ! i)))"

definition world_ok :: "libs \<Rightarrow> (addr \<Rightarrow> bytes) \<Rightarrow> world \<Rightarrow> bool" where
  "world_ok sn f w \<longleftrightarrow>
     snappy_ok sn \<and> (\<forall>d \<in> ran (dir_tables (w_dir w)). table_file sn f d)
     \<and> (\<forall>i < length (w_ccs w). ccs_inv sn f w i)"

definition ts_ok :: "libs \<Rightarrow> (addr \<Rightarrow> bytes) \<Rightarrow> world \<Rightarrow> source list \<Rightarrow> bool" where
  "ts_ok sn f w ts \<longleftrightarrow> list_all (source_below sn f (length (w_ccs w))) ts \<and> chain_ok sn w ts"

lemma source_below_mono: "source_below sn f n s \<Longrightarrow> n \<le> m \<Longrightarrow> source_below sn f m s"
  by (cases s) auto

lemma source_below_ok:
  assumes "world_ok sn f w" "source_below sn f (length (w_ccs w)) s"
  shows "source_inv sn w s \<and> within f (source_content sn w s)"
proof (cases s)
  case (Compacting i)
  then have "ccs_inv sn f w i" and i: "i < length (w_ccs w)" using assms by (auto simp: world_ok_def)
  then show ?thesis
    using Compacting by (auto simp: ccs_inv_def source_inv_def source_content_def source_reader_def split: option.splits)
qed (use assms(2) in \<open>simp add: source_inv_def source_content_def source_reader_def\<close>)

lemma css_below_ok:
  assumes "world_ok sn f w" "list_all (source_below sn f (length (w_ccs w))) css"
  shows "list_all (source_inv sn w) css \<and> within f (css_content sn w css)"
  using assms(2)
proof (induction css)
  case (Cons s css)
  then show ?case using source_below_ok [OF assms(1), of s] within_add by auto
qed simp

subsection \<open>Compaction\<close>

lemma map_of_filter_fst: "map_of (filter (\<lambda>c. fst c \<notin> A) xs) = map_of xs |` (- A)"
  by (induction xs) (auto simp: restrict_map_def fun_eq_iff)

lemma within_restrict: "within f m \<Longrightarrow> within f (m |` A)"
  by (auto simp: within_def map_le_def restrict_map_def split: if_splits)

definition left_over :: "libs \<Rightarrow> world \<Rightarrow> memTable \<Rightarrow> source list \<Rightarrow> addr \<Rightarrow> bytes option" where
  "left_over sn w mt haver = mt_chunks mt |` (- dom (css_content sn w haver))"

text \<open>What the directory has to hold for a source, to open it again.\<close>

definition spec_opens ::
    "libs \<Rightarrow> (addr \<Rightarrow> bytes) \<Rightarrow> directory \<Rightarrow> addr \<Rightarrow> uint32 \<Rightarrow> (addr \<Rightarrow> bytes option) \<Rightarrow> bool" where
  "spec_opens sn f dir name cnt m \<longleftrightarrow>
     (\<exists>cs. dir_tables dir (addr_String name) = Some (table_image sn cs) \<and> table_fits sn cs
        \<and> distinct (map fst cs) \<and> within f (map_of cs) \<and> cnt = of_nat (length cs) \<and> m = map_of cs)"

fun persisted :: "libs \<Rightarrow> (addr \<Rightarrow> bytes) \<Rightarrow> directory \<Rightarrow> chunkSource \<Rightarrow> bool" where
  "persisted sn f dir EmptySource \<longleftrightarrow> True"
| "persisted sn f dir (TableSource m) \<longleftrightarrow>
     spec_opens sn f dir (mmap_h m) (tr_count (mmap_reader m)) (table_content sn (mmap_reader m))"

lemma table_ok_count: "table_ok sn tr cs \<Longrightarrow> tr_count tr = of_nat (length cs) \<and> tr_count tr \<noteq> 0"
proof -
  assume ok: "table_ok sn tr cs"
  then have c: "tr_count tr = of_nat (length cs)" and n: "cs \<noteq> []" "length cs < 2 ^ 32"
    by (simp_all add: table_ok_def table_fits_def tr_count_def index_ok_def)
  have "(of_nat (length cs) :: uint32) \<noteq> 0"
    using n by (metis length_0_conv unat_0 unat_of_nat32)
  with c show ?thesis by simp
qed

lemma Compact_ok:
  assumes "world_ok sn f w" "mt_writable mt" "within f (mt_chunks mt)"
    and "list_all (source_below sn f (length (w_ccs w))) haver"
  shows "\<exists>dir cs. Compact sn w mt haver = Inr (dir, cs)
    \<and> (\<forall>d \<in> ran (dir_tables dir). table_file sn f d)
    \<and> dir_manifest dir = dir_manifest (w_dir w) \<and> dir_lock dir = dir_lock (w_dir w)
    \<and> reader_inv sn (SourceReader cs) \<and> reader_content sn (SourceReader cs) = left_over sn w mt haver
    \<and> (cs = EmptySource \<longleftrightarrow> left_over sn w mt haver = Map.empty) \<and> persisted sn f dir cs
    \<and> (cs = EmptySource \<longrightarrow> dir = w_dir w)"
proof -
  let ?A = "dom (css_content sn w haver)"
  let ?cs = "mt_fresh mt ?A"
  have sn: "snappy_ok sn" and dir: "\<forall>d \<in> ran (dir_tables (w_dir w)). table_file sn f d"
    using assms(1) by (simp_all add: world_ok_def)
  have mt: "mt_ok mt" "mt_order mt \<noteq> []" "length (mt_order mt) < 2 ^ 32"
    "list_all (\<lambda>c. chunk_small (snd c)) (mt_list mt)"
    using assms(2) by (simp_all add: mt_writable_def)
  have inv: "list_all (source_inv sn w) haver" using css_below_ok [OF assms(1,4)] by simp
  have "haver_ok (Some (chunkSources_hasMany w haver)) ?A"
    using css.haver [of sn "(w, haver)"] inv by simp
  from mt_write_ok [OF sn mt this]
  obtain mt' where w: "mt_write sn mt (Some (chunkSources_hasMany w haver))
      = Inr (mt', table_name sn ?cs, table_image sn ?cs, of_nat (length ?cs))" by blast
  have content: "map_of ?cs = left_over sn w mt haver"
    by (simp add: mt_fresh_def map_of_filter_fst map_of_mt_list [OF mt(1)] left_over_def)
  have len: "length ?cs < 2 ^ 32"
    using mt(3) length_filter_le [of "\<lambda>c. fst c \<notin> ?A" "mt_list mt"] by (simp add: mt_fresh_def)
  show ?thesis
  proof (cases "?cs = []")
    case True
    then have "left_over sn w mt haver = Map.empty" using content by simp
    then show ?thesis using w True dir by (simp add: Compact_def)
  next
    case False
    let ?dir = "(w_dir w)\<lparr>dir_tables := (dir_tables (w_dir w))(addr_String (table_name sn ?cs) \<mapsto> table_image sn ?cs)\<rparr>"
    have fits: "table_fits sn ?cs"
      using False len mt(4) by (intro table_fits_small [OF sn]) (auto simp: mt_fresh_def list_all_iff)
    have dist: "distinct (map fst ?cs)"
      using mt(1) unfolding mt_fresh_def by (intro distinct_map_filter) (simp add: mt_ok_def)
    have "dir_tables ?dir (addr_String (table_name sn ?cs)) = Some (table_image sn ?cs)" by simp
    from newMmapTableReader_ok [OF this fits refl]
    obtain m where m: "newMmapTableReader ?dir (table_name sn ?cs) (of_nat (length ?cs)) = Inr m"
      "table_ok sn (mmap_reader m) ?cs" "mmap_h m = table_name sn ?cs" by blast
    have cnt: "tr_count (mmap_reader m) = of_nat (length ?cs)" and nz: "(of_nat (length ?cs) :: uint32) \<noteq> 0"
      using table_ok_count [OF m(2)] by metis+
    have inf: "within f (map_of ?cs)"
      unfolding content left_over_def by (rule within_restrict [OF assms(3)])
    then have "table_file sn f (table_image sn ?cs)"
      using fits dist unfolding table_file_def by blast
    then have files: "\<forall>d \<in> ran (dir_tables ?dir). table_file sn f d"
      using dir by (auto simp: ran_def split: if_splits)
    have "table_inv sn (mmap_reader m)" using sn m(2) dist by (auto simp: table_inv_def)
    moreover have c: "table_content sn (mmap_reader m) = left_over sn w mt haver"
      using table_content_ok [OF sn m(2) dist] content by simp
    moreover have "persisted sn f ?dir (TableSource m)"
      using c cnt fits dist inf content by (auto simp: spec_opens_def m(3) intro!: exI [of _ ?cs])
    moreover have "left_over sn w mt haver \<noteq> Map.empty"
      using False content by (metis map_of_eq_empty_iff)
    moreover have "Compact sn w mt haver = Inr (?dir, TableSource m)"
      using w m(1) nz by (simp add: Compact_def Let_def)
    ultimately show ?thesis using files by simp
  qed
qed

text \<open>
  One world is another one after some compactions: the sources that were compacted hold what the
  sources behind them do not, and all other sources are as they were.
\<close>

definition compacted :: "libs \<Rightarrow> world \<Rightarrow> world \<Rightarrow> nat \<Rightarrow> bool" where
  "compacted sn w w' i \<longleftrightarrow>
     (case ccs_mt (w_ccs w ! i) of
        None \<Rightarrow> w' = w
      | Some mt \<Rightarrow> (\<exists>cs. w_ccs w' = (w_ccs w)[i := (w_ccs w ! i)\<lparr>ccs_mt := None, ccs_cs := Some cs\<rparr>]
          \<and> reader_inv sn (SourceReader cs)
          \<and> reader_content sn (SourceReader cs) = left_over sn w mt (ccs_haver (w_ccs w ! i))
          \<and> (cs = EmptySource \<longleftrightarrow> left_over sn w mt (ccs_haver (w_ccs w ! i)) = Map.empty)
          \<and> (cs = EmptySource \<longrightarrow> w_dir w' = w_dir w)))
     \<and> dir_manifest (w_dir w') = dir_manifest (w_dir w) \<and> dir_lock (w_dir w') = dir_lock (w_dir w)"

lemma pending_ccsE:
  assumes "world_ok sn f w" "i < length (w_ccs w)" "ccs_mt (w_ccs w ! i) = Some mt"
  obtains "mt_writable mt" "within f (mt_chunks mt)" "list_all (source_below sn f i) (ccs_haver (w_ccs w ! i))"
    "chain_ok sn w (ccs_haver (w_ccs w ! i))"
proof -
  have "ccs_inv sn f w i" using assms(1,2) by (simp add: world_ok_def)
  then show ?thesis using that assms(3) by (simp add: ccs_inv_def pending_def getReader_def)
qed

lemma below_all: "list_all (source_below sn f i) css \<Longrightarrow> i \<le> n \<Longrightarrow> list_all (source_below sn f n) css"
  by (auto simp: list_all_iff intro: source_below_mono)

lemma source_content_other:
  assumes "w_ccs w' = (w_ccs w)[i := c]" "s \<noteq> Compacting i"
  shows "source_content sn w' s = source_content sn w s"
  using assms by (cases s) (auto simp: source_content_def source_reader_def nth_res_def)

lemma css_content_compacted:
  assumes "world_ok sn f w" "i < length (w_ccs w)" "compacted sn w w' i"
    and "list_all (source_below sn f (length (w_ccs w))) css" "chain_ok sn w css"
  shows "css_content sn w' css = css_content sn w css"
proof (cases "ccs_mt (w_ccs w ! i)")
  case None
  then show ?thesis using assms(3) by (simp add: compacted_def)
next
  case (Some mt)
  let ?h = "ccs_haver (w_ccs w ! i)"
  obtain cs where w': "w_ccs w' = (w_ccs w)[i := (w_ccs w ! i)\<lparr>ccs_mt := None, ccs_cs := Some cs\<rparr>]"
    and cs: "reader_content sn (SourceReader cs) = left_over sn w mt ?h"
    using assms(3) Some by (auto simp: compacted_def)
  have new: "source_content sn w' (Compacting i) = mt_chunks mt |` (- dom (css_content sn w ?h))"
    using assms(2) w' cs by (simp add: source_content_def source_reader_def getReader_def left_over_def)
  have old: "source_content sn w (Compacting i) = mt_chunks mt"
    using assms(2) Some by (simp add: source_content_def source_reader_def getReader_def)
  have mtf: "within f (mt_chunks mt)" using assms(1,2) Some by (rule pending_ccsE)
  from assms(4,5) show ?thesis
  proof (induction css)
    case (Cons s css)
    then have IH: "css_content sn w' css = css_content sn w css"
      and below: "list_all (source_below sn f (length (w_ccs w))) css" by (cases s; simp)+
    show ?case
    proof (cases "s = Compacting i")
      case True
      have le: "css_content sn w ?h \<subseteq>\<^sub>m css_content sn w css"
        using Cons.prems(2) True Some by (simp add: pending_def)
      have f: "within f (css_content sn w css)" using css_below_ok [OF assms(1) below] by simp
      have "(css_content sn w css ++ (mt_chunks mt |` (- dom (css_content sn w ?h)))) a
          = (css_content sn w css ++ mt_chunks mt) a" for a
      proof (cases "a \<in> dom (css_content sn w ?h) \<and> a \<in> dom (mt_chunks mt)")
        case True
        then have "a \<in> dom (css_content sn w css)" using map_le_implies_dom_le [OF le] by blast
        then have "css_content sn w css a = Some (f a)" "mt_chunks mt a = Some (f a)"
          using True f mtf by (simp_all add: map_le_def within_def)
        then show ?thesis using True by (simp add: map_add_def)
      next
        case False
        then show ?thesis by (auto simp: map_add_def restrict_map_def split: option.splits)
      qed
      then show ?thesis using IH new old True by (simp add: ext)
    qed (simp add: IH source_content_other [OF w'])
  qed simp
qed

lemma pending_compacted:
  assumes "i < length (w_ccs w)" "compacted sn w w' i" "pending w' j"
  shows "pending w j \<and> w_ccs w' ! j = w_ccs w ! j"
  using assms by (cases "j = i") (auto simp: compacted_def pending_def split: option.splits)

lemma chain_ok_compacted:
  assumes "world_ok sn f w" "i < length (w_ccs w)" "compacted sn w w' i"
    and "list_all (source_below sn f (length (w_ccs w))) css" "chain_ok sn w css"
  shows "chain_ok sn w' css"
  using assms(4,5)
proof (induction css)
  case (Cons s css)
  have IH: "chain_ok sn w' css" using Cons by (cases s; simp)
  show ?case
  proof (cases s)
    case (Compacting j)
    have "css_content sn w' (ccs_haver (w_ccs w' ! j)) \<subseteq>\<^sub>m css_content sn w' css" if "pending w' j"
    proof -
      have p: "pending w j" "w_ccs w' ! j = w_ccs w ! j"
        using pending_compacted [OF assms(2,3) that] by simp_all
      have j: "j < length (w_ccs w)" using Cons.prems(1) Compacting by simp
      obtain mt where mt: "ccs_mt (w_ccs w ! j) = Some mt" using p(1) by (auto simp: pending_def)
      obtain "list_all (source_below sn f j) (ccs_haver (w_ccs w ! j))" "chain_ok sn w (ccs_haver (w_ccs w ! j))"
        by (rule pending_ccsE [OF assms(1) j mt])
      then have "css_content sn w' (ccs_haver (w_ccs w ! j)) = css_content sn w (ccs_haver (w_ccs w ! j))"
        using j by (intro css_content_compacted [OF assms(1-3)]) (auto intro: below_all)
      moreover have "css_content sn w' css = css_content sn w css"
        using Cons.prems Compacting by (intro css_content_compacted [OF assms(1-3)]) auto
      ultimately show ?thesis using Cons.prems(2) p Compacting by simp
    qed
    then show ?thesis using IH Compacting by simp
  qed (use IH in simp)
qed simp

lemma compact_step_ok:
  assumes "world_ok sn f w" "i < length (w_ccs w)"
  shows "\<exists>w'. compact_step sn w i = Inr w' \<and> compacted sn w w' i \<and> world_ok sn f w'
    \<and> length (w_ccs w') = length (w_ccs w) \<and> \<not> pending w' i
    \<and> (\<forall>cs. pending w i \<longrightarrow> ccs_cs (w_ccs w' ! i) = Some cs \<longrightarrow> persisted sn f (w_dir w') cs)"
proof (cases "ccs_mt (w_ccs w ! i)")
  case None
  then show ?thesis using assms by (simp add: compact_step_def compacted_def pending_def)
next
  case (Some mt)
  let ?h = "ccs_haver (w_ccs w ! i)"
  obtain mt: "mt_writable mt" "within f (mt_chunks mt)" "list_all (source_below sn f i) ?h"
    by (rule pending_ccsE [OF assms Some])
  then have below: "list_all (source_below sn f (length (w_ccs w))) ?h"
    using assms(2) by (auto intro: below_all)
  obtain dir cs where c: "Compact sn w mt ?h = Inr (dir, cs)" "\<forall>d \<in> ran (dir_tables dir). table_file sn f d"
    "dir_manifest dir = dir_manifest (w_dir w)" "dir_lock dir = dir_lock (w_dir w)"
    "reader_inv sn (SourceReader cs)" "reader_content sn (SourceReader cs) = left_over sn w mt ?h"
    "cs = EmptySource \<longleftrightarrow> left_over sn w mt ?h = Map.empty" "persisted sn f dir cs" "cs = EmptySource \<longrightarrow> dir = w_dir w"
    using Compact_ok [OF assms(1) mt(1,2) below] by blast
  let ?w = "w\<lparr>w_dir := dir, w_ccs := (w_ccs w)[i := (w_ccs w ! i)\<lparr>ccs_mt := None, ccs_cs := Some cs\<rparr>]\<rparr>"
  have step: "compact_step sn w i = Inr ?w" using assms(2) Some c(1) by (simp add: compact_step_def)
  have comp: "compacted sn w ?w i" using Some c by (auto simp: compacted_def)
  have "ccs_inv sn f ?w j" if j: "j < length (w_ccs w)" for j
  proof (cases "j = i")
    case True
    have "within f (left_over sn w mt ?h)" unfolding left_over_def by (rule within_restrict [OF mt(2)])
    then show ?thesis using True c(5,6) assms(2) by (simp add: ccs_inv_def getReader_def pending_def)
  next
    case False
    have inv: "ccs_inv sn f w j" using assms(1) j by (simp add: world_ok_def)
    have "chain_ok sn ?w (ccs_haver (w_ccs w ! j))" if "pending w j"
      using inv that j by (intro chain_ok_compacted [OF assms comp]) (auto simp: ccs_inv_def intro: below_all)
    then show ?thesis using inv False by (simp add: ccs_inv_def pending_def)
  qed
  then have "world_ok sn f ?w" using assms(1) c(2) by (simp add: world_ok_def)
  then show ?thesis using step comp assms(2) c(8) by (intro exI [of _ ?w]) (simp add: pending_def)
qed

text \<open>Any number of background compactions.\<close>

inductive compactions :: "libs \<Rightarrow> world \<Rightarrow> world \<Rightarrow> bool" for sn where
  compactions_refl: "compactions sn w w"
| compactions_step: "compactions sn w w' \<Longrightarrow> i < length (w_ccs w') \<Longrightarrow> compact_step sn w' i = Inr w''
    \<Longrightarrow> compactions sn w w''"

lemma ts_ok_compact_step:
  assumes "world_ok sn f w" "i < length (w_ccs w)" "compact_step sn w i = Inr w'" "ts_ok sn f w ts"
  shows "world_ok sn f w' \<and> ts_ok sn f w' ts \<and> css_content sn w' ts = css_content sn w ts
    \<and> length (w_ccs w') = length (w_ccs w)
    \<and> dir_manifest (w_dir w') = dir_manifest (w_dir w) \<and> dir_lock (w_dir w') = dir_lock (w_dir w)"
proof -
  have w': "compacted sn w w' i" "world_ok sn f w'" "length (w_ccs w') = length (w_ccs w)"
    using compact_step_ok [OF assms(1,2)] assms(3) by auto
  have ts: "list_all (source_below sn f (length (w_ccs w))) ts" "chain_ok sn w ts"
    using assms(4) by (simp_all add: ts_ok_def)
  show ?thesis
    using w' ts chain_ok_compacted [OF assms(1,2) w'(1) ts] css_content_compacted [OF assms(1,2) w'(1) ts]
    by (simp add: ts_ok_def compacted_def)
qed

lemma compactions_ok:
  assumes "compactions sn w w'" "world_ok sn f w" "ts_ok sn f w ts"
  shows "world_ok sn f w' \<and> ts_ok sn f w' ts \<and> css_content sn w' ts = css_content sn w ts
    \<and> length (w_ccs w') = length (w_ccs w)
    \<and> dir_manifest (w_dir w') = dir_manifest (w_dir w) \<and> dir_lock (w_dir w') = dir_lock (w_dir w)"
  using assms
proof (induction rule: compactions.induct)
  case (compactions_step w w' i w'')
  then show ?case using ts_ok_compact_step [of sn f w' i w'' ts] by simp
qed simp

lemma compactions_trans: "compactions sn w' w'' \<Longrightarrow> compactions sn w w' \<Longrightarrow> compactions sn w w''"
  by (induction rule: compactions.induct) (auto intro: compactions.intros)

subsection \<open>Prepending a table\<close>

lemma source_content_extend:
  assumes "source_below sn f (length (w_ccs w)) s"
  shows "source_content sn (w\<lparr>w_ccs := w_ccs w @ [c]\<rparr>) s = source_content sn w s"
  using assms by (cases s) (simp_all add: source_content_def source_reader_def nth_res_def nth_append)

lemma css_content_extend:
  assumes "list_all (source_below sn f (length (w_ccs w))) css"
  shows "css_content sn (w\<lparr>w_ccs := w_ccs w @ [c]\<rparr>) css = css_content sn w css"
  using assms by (induction css) (simp_all add: source_content_extend [of sn f])

lemma chain_ok_extend:
  assumes "world_ok sn f w" "list_all (source_below sn f (length (w_ccs w))) css" "chain_ok sn w css"
  shows "chain_ok sn (w\<lparr>w_ccs := w_ccs w @ [c]\<rparr>) css"
  using assms(2,3)
proof (induction css)
  case (Cons s css)
  show ?case
  proof (cases s)
    case (Compacting j)
    have j: "j < length (w_ccs w)" using Cons.prems(1) Compacting by simp
    have "list_all (source_below sn f (length (w_ccs w))) (ccs_haver (w_ccs w ! j))" if p: "pending w j"
    proof -
      obtain mt where "ccs_mt (w_ccs w ! j) = Some mt" using p by (auto simp: pending_def)
      then obtain "list_all (source_below sn f j) (ccs_haver (w_ccs w ! j))"
        by (rule pending_ccsE [OF assms(1) j])
      then show ?thesis using j by (simp add: below_all)
    qed
    then show ?thesis
      using Cons j Compacting by (auto simp: pending_def nth_append css_content_extend [of sn f])
  qed (use Cons in simp)
qed simp

lemma Prepend_ok:
  assumes "world_ok sn f w" "ts_ok sn f w ts" "mt_writable mt" "within f (mt_chunks mt)"
    and "Prepend w ts mt = (w', ts')"
  shows "world_ok sn f w' \<and> ts_ok sn f w' ts' \<and> css_content sn w' ts' = css_content sn w ts ++ mt_chunks mt
    \<and> w_dir w' = w_dir w"
proof -
  let ?c = "\<lparr>ccs_mt = Some mt, ccs_haver = ts, ccs_cs = None\<rparr>"
  let ?n = "length (w_ccs w)"
  have w': "w' = w\<lparr>w_ccs := w_ccs w @ [?c]\<rparr>" and ts': "ts' = Compacting ?n # ts"
    using assms(5) by (auto simp: Prepend_def newCompactingChunkSource_def)
  have ts: "list_all (source_below sn f ?n) ts" "chain_ok sn w ts" using assms(2) by (simp_all add: ts_ok_def)
  have chain: "chain_ok sn w' ts" unfolding w' by (rule chain_ok_extend [OF assms(1) ts])
  have content: "css_content sn w' ts = css_content sn w ts" unfolding w' by (rule css_content_extend [OF ts(1)])
  have "ccs_inv sn f w' j" if "j < ?n" for j
  proof -
    have inv: "ccs_inv sn f w j" using assms(1) that by (simp add: world_ok_def)
    have "chain_ok sn w' (ccs_haver (w_ccs w ! j))" if "pending w j"
      unfolding w' using inv that \<open>j < ?n\<close>
      by (intro chain_ok_extend [OF assms(1)]) (auto simp: ccs_inv_def intro: below_all)
    then show ?thesis using inv that by (simp add: ccs_inv_def pending_def w' nth_append)
  qed
  moreover have "ccs_inv sn f w' ?n"
    using assms(3,4) ts(1) chain by (simp add: ccs_inv_def w' getReader_def)
  ultimately have "world_ok sn f w'" using assms(1) by (auto simp: world_ok_def w' less_Suc_eq)
  moreover have "ts_ok sn f w' ts'"
    using chain ts(1) content by (simp add: ts_ok_def ts' below_all w')
  moreover have "source_content sn w' (Compacting ?n) = mt_chunks mt"
    by (simp add: source_content_def source_reader_def getReader_def w')
  ultimately show ?thesis using content by (simp add: ts' w')
qed

subsection \<open>Waiting for a compaction\<close>

definition settled :: "world \<Rightarrow> source \<Rightarrow> chunkSource option" where
  "settled w s = (case s of
     Opened cs \<Rightarrow> Some cs
   | Compacting i \<Rightarrow> if pending w i then None else ccs_cs (w_ccs w ! i))"

lemma source_reader_settled:
  assumes "source_below sn f (length (w_ccs w)) s" "settled w s = Some cs"
  shows "source_reader w s = Inr (SourceReader cs)"
  using assms by (cases s) (auto simp: settled_def source_reader_def getReader_def pending_def nth_res_def split: if_splits)

lemma settled_compact_step:
  assumes "world_ok sn f w" "i < length (w_ccs w)" "compact_step sn w i = Inr w'" "settled w s = Some cs"
  shows "settled w' s = Some cs"
proof -
  have "compacted sn w w' i" using compact_step_ok [OF assms(1,2)] assms(3) by auto
  then show ?thesis
    using assms(2,4) by (cases s) (auto simp: settled_def compacted_def pending_def nth_list_update split: option.splits if_splits)
qed

lemma settled_compactions:
  assumes "compactions sn w w'" "world_ok sn f w" "settled w s = Some cs"
  shows "settled w' s = Some cs"
  using assms
proof (induction rule: compactions.induct)
  case (compactions_step w w' i w'')
  have "world_ok sn f w'"
    using compactions_ok [OF compactions_step.hyps(1) compactions_step.prems(1), of "[]"] by (simp add: ts_ok_def)
  then show ?case using compactions_step by (auto intro: settled_compact_step)
qed simp

lemma source_wait_ok:
  assumes "world_ok sn f w" "source_below sn f (length (w_ccs w)) s"
  shows "\<exists>w' cs. source_wait sn w s = Inr (w', cs) \<and> compactions sn w w' \<and> settled w' s = Some cs"
proof (cases s)
  case (Opened cs)
  then show ?thesis by (auto simp: source_wait_def settled_def intro: compactions_refl)
next
  case (Compacting i)
  then have i: "i < length (w_ccs w)" using assms(2) by simp
  obtain w' where w': "compact_step sn w i = Inr w'" "world_ok sn f w'" "length (w_ccs w') = length (w_ccs w)"
    "\<not> pending w' i" using compact_step_ok [OF assms(1) i] by blast
  have "ccs_inv sn f w' i" using w'(2,3) i by (simp add: world_ok_def)
  then obtain cs where "ccs_cs (w_ccs w' ! i) = Some cs"
    using w'(4) by (auto simp: ccs_inv_def getReader_def pending_def split: option.splits)
  then show ?thesis
    using w' i Compacting compactions_step [OF compactions_refl, of i w sn w']
    by (auto simp: source_wait_def settled_def)
qed

subsection \<open>The specs of a set of tables\<close>

lemma reader_count_pos:
  assumes "reader_inv sn r"
  shows "reader_count r > 0 \<longleftrightarrow> r \<noteq> SourceReader EmptySource"
  using assms
proof (induction rule: reader_inv_induct)
  case (Mem mt)
  then have "mt_order mt \<noteq> []" "length (mt_order mt) < 2 ^ 32" by (simp_all add: mt_writable_def)
  then have "mt_count mt \<noteq> 0" unfolding mt_count_def by (metis length_0_conv unat_0 unat_of_nat32)
  then show ?case by (simp add: word_greater_zero_iff)
next
  case (Table m)
  then show ?case using table_ok_count by (auto simp: table_inv_def word_greater_zero_iff)
qed (simp add: ecs_count_def)

definition spec_of :: "chunkSource \<Rightarrow> tableSpec" where
  "spec_of cs = \<lparr>spec_name = chunkSource_hash cs, spec_chunkCount = reader_count (SourceReader cs)\<rparr>"

lemma source_hash_ok:
  assumes "world_ok sn f w" "source_below sn f (length (w_ccs w)) s"
  obtains w' cs where "source_hash sn w s = Inr (w', chunkSource_hash cs)" "compactions sn w w'" "settled w' s = Some cs"
    "world_ok sn f w'" "source_below sn f (length (w_ccs w')) s"
    "source_count w' s = Inr (reader_count (SourceReader cs))" "reader_inv sn (SourceReader cs)"
proof -
  obtain w' cs where w': "source_wait sn w s = Inr (w', cs)" "compactions sn w w'" "settled w' s = Some cs"
    using source_wait_ok [OF assms] by blast
  have ok: "world_ok sn f w'" "length (w_ccs w') = length (w_ccs w)"
    using compactions_ok [OF w'(2) assms(1), of "[]"] by (simp_all add: ts_ok_def)
  then have below: "source_below sn f (length (w_ccs w')) s" using assms(2) by simp
  have r: "source_reader w' s = Inr (SourceReader cs)" by (rule source_reader_settled [OF below w'(3)])
  then have "reader_inv sn (SourceReader cs)" using source_below_ok [OF ok(1) below] by (simp add: source_inv_def)
  then show ?thesis
    using that w' ok(1) below r by (simp add: source_hash_def source_count_def)
qed

lemma source_count_zero:
  assumes "world_ok sn f w" "source_below sn f (length (w_ccs w)) s"
  obtains c where "source_count w s = Inr c" "c > 0 \<or> settled w s = Some EmptySource"
proof -
  have "source_inv sn w s" using source_below_ok [OF assms] by simp
  then obtain r where r: "source_reader w s = Inr r" "reader_inv sn r" by (rule source_invE)
  have "settled w s = Some EmptySource" if "r = SourceReader EmptySource"
    using r(1) that assms(2)
    by (cases s) (auto simp: source_reader_def settled_def getReader_def pending_def split: option.splits)
  then show ?thesis using that reader_count_pos [OF r(2)] r(1) by (auto simp: source_count_def)
qed

lemma ts_ok_Cons: "ts_ok sn f w (s # ts) \<Longrightarrow> source_below sn f (length (w_ccs w)) s \<and> ts_ok sn f w ts"
  by (cases s) (simp_all add: ts_ok_def)

lemma ToSpecs_loop_ok:
  assumes "world_ok sn f w" "ts_ok sn f w ts"
  shows "\<exists>w' specs css. foldM_res (ToSpecs_step sn) (w, acc) ts = Inr (w', acc @ specs) \<and> compactions sn w w'
    \<and> list_all2 (\<lambda>s cs. settled w' s = Some cs) ts css
    \<and> (0 \<notin> spec_chunkCount ` set specs \<longrightarrow> specs = map spec_of (filter (\<lambda>cs. cs \<noteq> EmptySource) css))"
  using assms
proof (induction ts arbitrary: w acc)
  case Nil
  then show ?case by (auto intro: compactions_refl)
next
  case (Cons s ts)
  have below: "source_below sn f (length (w_ccs w)) s" and ts: "ts_ok sn f w ts"
    using ts_ok_Cons [OF Cons.prems(2)] by simp_all
  obtain c where c: "source_count w s = Inr c" "c > 0 \<or> settled w s = Some EmptySource"
    by (rule source_count_zero [OF Cons.prems(1) below])
  show ?case
  proof (cases "c > 0")
    case False
    obtain w' specs css where w': "foldM_res (ToSpecs_step sn) (w, acc) ts = Inr (w', acc @ specs)"
      "compactions sn w w'" "list_all2 (\<lambda>s cs. settled w' s = Some cs) ts css"
      "0 \<notin> spec_chunkCount ` set specs \<longrightarrow> specs = map spec_of (filter (\<lambda>cs. cs \<noteq> EmptySource) css)"
      using Cons.IH [OF Cons.prems(1) ts] by blast
    have "settled w' s = Some EmptySource"
      using settled_compactions [OF w'(2) Cons.prems(1)] c(2) False by simp
    moreover have "ToSpecs_step sn (w, acc) s = Inr (w, acc)" using c(1) False by (simp add: ToSpecs_step_def)
    ultimately show ?thesis
      using w' by (intro exI [of _ w'] exI [of _ specs] exI [of _ "EmptySource # css"]) simp
  next
    case True
    obtain w1 cs where w1: "source_hash sn w s = Inr (w1, chunkSource_hash cs)" "compactions sn w w1"
      "settled w1 s = Some cs" "world_ok sn f w1" "source_count w1 s = Inr (reader_count (SourceReader cs))"
      by (rule source_hash_ok [OF Cons.prems(1) below])
    have ts1: "ts_ok sn f w1 ts" using compactions_ok [OF w1(2) Cons.prems(1) ts] by simp
    obtain w' specs css where w': "foldM_res (ToSpecs_step sn) (w1, acc @ [spec_of cs]) ts = Inr (w', (acc @ [spec_of cs]) @ specs)"
      "compactions sn w1 w'" "list_all2 (\<lambda>s cs. settled w' s = Some cs) ts css"
      "0 \<notin> spec_chunkCount ` set specs \<longrightarrow> specs = map spec_of (filter (\<lambda>cs. cs \<noteq> EmptySource) css)"
      using Cons.IH [OF w1(4) ts1] by blast
    have "settled w' s = Some cs" using settled_compactions [OF w'(2) w1(4,3)] .
    moreover have "compactions sn w w'" by (rule compactions_trans [OF w'(2) w1(2)])
    moreover have "cs \<noteq> EmptySource" if "0 \<notin> spec_chunkCount ` set (spec_of cs # specs)"
      using that by (auto simp: spec_of_def ecs_count_def)
    moreover have "ToSpecs_step sn (w, acc) s = Inr (w1, acc @ [spec_of cs])"
      using w1 c(1) True by (simp add: ToSpecs_step_def spec_of_def)
    ultimately show ?thesis
      using w' by (intro exI [of _ w'] exI [of _ "spec_of cs # specs"] exI [of _ "cs # css"]) auto
  qed
qed

lemma ToSpecs_ok:
  assumes "world_ok sn f w" "ts_ok sn f w ts"
  obtains w' specs css where "ToSpecs sn w ts = Inr (w', specs)" "compactions sn w w'"
    "list_all2 (\<lambda>s cs. settled w' s = Some cs) ts css"
    "0 \<notin> spec_chunkCount ` set specs \<longrightarrow> specs = map spec_of (filter (\<lambda>cs. cs \<noteq> EmptySource) css)"
  using ToSpecs_loop_ok [OF assms, of "[]"] by (auto simp: ToSpecs_def)

subsection \<open>Tables that can be opened again\<close>

text \<open>
  The name of a table is a hash of the addresses in it. A compaction overwrites a file of the same
  name, which is harmless as long as that file has the same chunks: \<open>no_clobber\<close> says so of every
  compaction that is yet to happen.
\<close>

definition keeps_tables :: "libs \<Rightarrow> (addr \<Rightarrow> bytes) \<Rightarrow> directory \<Rightarrow> directory \<Rightarrow> bool" where
  "keeps_tables sn f dir dir' \<longleftrightarrow>
     (\<forall>name cnt m. spec_opens sn f dir name cnt m \<longrightarrow> spec_opens sn f dir' name cnt m)"

definition no_clobber :: "libs \<Rightarrow> (addr \<Rightarrow> bytes) \<Rightarrow> world \<Rightarrow> bool" where
  "no_clobber sn f w \<longleftrightarrow>
     (\<forall>w1 i w2. compactions sn w w1 \<longrightarrow> i < length (w_ccs w1) \<longrightarrow> compact_step sn w1 i = Inr w2
        \<longrightarrow> keeps_tables sn f (w_dir w1) (w_dir w2))"

definition persisted_in :: "libs \<Rightarrow> (addr \<Rightarrow> bytes) \<Rightarrow> world \<Rightarrow> source \<Rightarrow> bool" where
  "persisted_in sn f w s \<longleftrightarrow> (\<forall>cs. settled w s = Some cs \<longrightarrow> persisted sn f (w_dir w) cs)"

lemma no_clobber_compactions: "no_clobber sn f w \<Longrightarrow> compactions sn w w' \<Longrightarrow> no_clobber sn f w'"
  using compactions_trans unfolding no_clobber_def by blast

lemma keeps_tables_compactions:
  assumes "compactions sn w w'" "no_clobber sn f w"
  shows "keeps_tables sn f (w_dir w) (w_dir w')"
  using assms
proof (induction rule: compactions.induct)
  case (compactions_step w w' i w'')
  then show ?case unfolding keeps_tables_def no_clobber_def by blast
qed (simp add: keeps_tables_def)

lemma persisted_keeps: "keeps_tables sn f dir dir' \<Longrightarrow> persisted sn f dir cs \<Longrightarrow> persisted sn f dir' cs"
  by (cases cs) (simp_all add: keeps_tables_def)

lemma persisted_compactions:
  assumes "compactions sn w w'" "world_ok sn f w" "no_clobber sn f w" "persisted_in sn f w s"
  shows "persisted_in sn f w' s"
  using assms
proof (induction rule: compactions.induct)
  case (compactions_step w w' i w'')
  have ok: "world_ok sn f w'"
    using compactions_ok [OF compactions_step.hyps(1) compactions_step.prems(1), of "[]"] by (simp add: ts_ok_def)
  obtain w2 where w2: "compact_step sn w' i = Inr w2" "compacted sn w' w2 i"
    "\<forall>cs. pending w' i \<longrightarrow> ccs_cs (w_ccs w2 ! i) = Some cs \<longrightarrow> persisted sn f (w_dir w2) cs"
    using compact_step_ok [OF ok compactions_step.hyps(2)] by blast
  then have eq: "w2 = w''" using compactions_step.hyps(3) by simp
  have keeps: "keeps_tables sn f (w_dir w') (w_dir w'')"
    using compactions_step by (auto simp: no_clobber_def)
  have old: "persisted_in sn f w' s" using compactions_step by simp
  show ?case
    unfolding persisted_in_def
  proof (intro allI impI)
    fix cs
    assume s: "settled w'' s = Some cs"
    show "persisted sn f (w_dir w'') cs"
    proof (cases "s = Compacting i \<and> pending w' i")
      case True
      then show ?thesis using s w2(3) eq by (auto simp: settled_def split: if_splits)
    next
      case False
      then have "settled w' s = Some cs"
        using s w2(2) eq compactions_step.hyps(2)
        by (cases s) (auto simp: settled_def compacted_def pending_def nth_list_update split: option.splits if_splits)
      then show ?thesis using old keeps by (simp add: persisted_in_def persisted_keeps)
    qed
  qed
qed simp

lemma fs_Open_ok:
  assumes "snappy_ok sn" "spec_opens sn f dir name cnt m"
  shows "\<exists>cs. fs_Open dir name cnt = Inr cs \<and> reader_inv sn (SourceReader cs)
    \<and> reader_content sn (SourceReader cs) = m \<and> within f m \<and> persisted sn f dir cs"
proof -
  obtain cs where cs: "dir_tables dir (addr_String name) = Some (table_image sn cs)" "table_fits sn cs"
    "distinct (map fst cs)" "within f (map_of cs)" "cnt = of_nat (length cs)" "m = map_of cs"
    using assms(2) by (auto simp: spec_opens_def)
  obtain mr where mr: "newMmapTableReader dir name cnt = Inr mr" "mmap_h mr = name" "table_ok sn (mmap_reader mr) cs"
    using newMmapTableReader_ok [OF cs(1,2,5)] by blast
  have c: "table_content sn (mmap_reader mr) = m"
    using table_content_ok [OF assms(1) mr(3) cs(3)] cs(6) by simp
  have n: "tr_count (mmap_reader mr) = cnt" using table_ok_count [OF mr(3)] cs(5) by simp
  show ?thesis
    using mr cs(3,4,6) assms c n by (intro exI [of _ "TableSource mr"]) (auto simp: fs_Open_def table_inv_def)
qed

lemma open_specs_ok:
  assumes "snappy_ok sn" "list_all2 (\<lambda>spec m. spec_opens sn f dir (spec_name spec) (spec_chunkCount spec) m) specs ms"
  shows "\<exists>os. mapM_res (\<lambda>spec. fs_Open dir (spec_name spec) (spec_chunkCount spec)) specs = Inr os
    \<and> list_all2 (\<lambda>cs m. reader_inv sn (SourceReader cs) \<and> reader_content sn (SourceReader cs) = m
        \<and> within f m \<and> persisted sn f dir cs) os ms"
  using assms(2)
proof (induction rule: list_all2_induct)
  case (Cons spec specs m ms)
  then show ?case using fs_Open_ok [OF assms(1) Cons(1)] by fastforce
qed simp

subsection \<open>Joining a set of tables with specs\<close>

lemma chain_ok_settled: "list_all (\<lambda>s. settled w s \<noteq> None) css \<Longrightarrow> chain_ok sn w css"
  by (induction css rule: chain_ok.induct [of _ sn w for sn w]) (auto simp: settled_def split: if_splits)

lemma source_content_settled:
  assumes "source_below sn f (length (w_ccs w)) s" "settled w s = Some cs"
  shows "source_content sn w s = reader_content sn (SourceReader cs)"
  using source_reader_settled [OF assms] by (simp add: source_content_def)

lemma Union_loop_ok:
  assumes "world_ok sn f w" "ts_ok sn f w ts"
  shows "\<exists>w' known' kept. foldM_res (Union_keep sn) (w, known, nt) ts = Inr (w', known', nt @ kept)
    \<and> compactions sn w w' \<and> set kept \<subseteq> set ts \<and> list_all (\<lambda>s. settled w' s \<noteq> None) kept
    \<and> css_content sn w' kept = css_content sn w ts \<and> (ts = [] \<longrightarrow> known' = known)"
  using assms
proof (induction ts arbitrary: w known nt)
  case Nil
  then show ?case by (auto intro: compactions_refl)
next
  case (Cons s ts)
  have below: "source_below sn f (length (w_ccs w)) s" and ts: "ts_ok sn f w ts"
    using ts_ok_Cons [OF Cons.prems(2)] by simp_all
  obtain c where c: "source_count w s = Inr c" "c > 0 \<or> settled w s = Some EmptySource"
    by (rule source_count_zero [OF Cons.prems(1) below])
  show ?case
  proof (cases "c > 0")
    case False
    obtain w' known' kept where w': "foldM_res (Union_keep sn) (w, known, nt) ts = Inr (w', known', nt @ kept)"
      "compactions sn w w'" "set kept \<subseteq> set ts" "list_all (\<lambda>s. settled w' s \<noteq> None) kept"
      "css_content sn w' kept = css_content sn w ts" using Cons.IH [OF Cons.prems(1) ts] by blast
    have "source_content sn w s = Map.empty"
      using source_content_settled [OF below] c(2) False by simp
    moreover have "Union_keep sn (w, known, nt) s = Inr (w, known, nt)" using c(1) False by (simp add: Union_keep_def)
    ultimately show ?thesis using w' by (intro exI [of _ w'] exI [of _ known'] exI [of _ kept]) auto
  next
    case True
    obtain w1 cs where w1: "source_hash sn w s = Inr (w1, chunkSource_hash cs)" "compactions sn w w1"
      "settled w1 s = Some cs" "world_ok sn f w1" "source_below sn f (length (w_ccs w1)) s"
      by (rule source_hash_ok [OF Cons.prems(1) below])
    have ts1: "ts_ok sn f w1 ts" using compactions_ok [OF w1(2) Cons.prems(1) ts] by simp
    let ?known = "insert (chunkSource_hash cs) known"
    obtain w' known' kept where w': "foldM_res (Union_keep sn) (w1, ?known, nt @ [s]) ts = Inr (w', known', (nt @ [s]) @ kept)"
      "compactions sn w1 w'" "set kept \<subseteq> set ts" "list_all (\<lambda>s. settled w' s \<noteq> None) kept"
      "css_content sn w' kept = css_content sn w1 ts" using Cons.IH [OF w1(4) ts1] by blast
    have s': "settled w' s = Some cs" by (rule settled_compactions [OF w'(2) w1(4,3)])
    have "length (w_ccs w') = length (w_ccs w1)" using compactions_ok [OF w'(2) w1(4) ts1] by simp
    then have "source_content sn w' s = source_content sn w1 s"
      using source_content_settled [OF w1(5,3)] source_content_settled [OF _ s'] w1(5) by simp
    then have "css_content sn w' (s # kept) = css_content sn w (s # ts)"
      using w'(5) compactions_ok [OF w1(2) Cons.prems] by simp
    moreover have "compactions sn w w'" by (rule compactions_trans [OF w'(2) w1(2)])
    moreover have "Union_keep sn (w, known, nt) s = Inr (w1, ?known, nt @ [s])"
      using c(1) True w1(1) by (simp add: Union_keep_def)
    ultimately show ?thesis using w' s' by (intro exI [of _ w'] exI [of _ known'] exI [of _ "s # kept"]) auto
  qed
qed

definition spec_openable :: "libs \<Rightarrow> (addr \<Rightarrow> bytes) \<Rightarrow> directory \<Rightarrow> tableSpec \<Rightarrow> bool" where
  "spec_openable sn f dir spec \<longleftrightarrow> (\<exists>m. spec_opens sn f dir (spec_name spec) (spec_chunkCount spec) m)"

lemma parseTableIndex_count:
  assumes "parseTableIndex (pre @ footer_image sn cs) = Inr ti"
  shows "ti_chunkCount ti = of_nat (length cs)"
proof -
  define buff where "buff = pre @ footer_image sn cs"
  let ?c = "put_uint32 (of_nat (length cs))"
  let ?d = "put_uint64 (of_nat (sum_list (map (\<lambda>c. length (snappy_encode sn (snd c))) cs)))"
  have "drop (length pre) buff = ?c @ ?d @ magicNumber" and len: "length buff = length pre + 20"
    by (simp_all add: footer_image_def buff_def)
  then have c: "get_uint32 (drop (length pre) buff) = Inr (of_nat (length cs))" by simp
  have pos: "length pre + 20 - 8 - 8 - 4 = length pre" by simp
  show ?thesis
    using assms unfolding buff_def [symmetric] parseTableIndex_def
    by (auto simp: rbind_eq_Inr len pos c chk_def Let_def simp del: diff_diff_left split: if_splits prod.splits)
qed

lemma fs_Open_success:
  assumes "\<forall>d \<in> ran (dir_tables dir). table_file sn f d" "fs_Open dir name cnt = Inr cs"
  shows "spec_openable sn f dir \<lparr>spec_name = name, spec_chunkCount = cnt\<rparr>"
proof -
  obtain m where m: "newMmapTableReader dir name cnt = Inr m" using assms(2) by (auto simp: fs_Open_def rbind_eq_Inr)
  obtain d where d: "dir_tables dir (addr_String name) = Some d"
    using m by (auto simp: newMmapTableReader_def split: option.splits)
  then have "table_file sn f d" using assms(1) by (auto simp: ran_def)
  then obtain xs where xs: "d = table_image sn xs" "table_fits sn xs" "distinct (map fst xs)" "within f (map_of xs)"
    by (auto simp: table_file_def)
  let ?off = "length d - 20 - indexSize cnt"
  let ?al = "?off div pageSize * pageSize"
  obtain ti where ti: "parseTableIndex (drop (?off - ?al) (drop ?al d)) = Inr ti" "ti_chunkCount ti = cnt"
    and len: "20 + indexSize cnt \<le> length d"
    using m d
    by (auto simp: newMmapTableReader_def Let_def rbind_eq_Inr chk_def from_res_def tr_count_def newTableReader_def
        not_less split: if_splits)
  have "?al \<le> ?off" by simp
  then have "drop (?off - ?al) (drop ?al d) = drop ?off d" by (simp only: drop_drop le_add_diff_inverse2)
  also have "\<dots> = drop ?off (chunk_records sn xs @ index_image sn (index_entries sn xs)) @ footer_image sn xs"
    using xs(1) length_table_image [of sn xs] by (simp add: table_image_def)
  finally have "ti_chunkCount ti = of_nat (length xs)"
    using ti(1) parseTableIndex_count by (metis append_assoc)
  then show ?thesis using d xs ti(2) by (auto simp: spec_openable_def spec_opens_def)
qed

lemma css_content_append: "css_content sn w (xs @ ys) = css_content sn w ys ++ css_content sn w xs"
  by (induction xs) (simp_all add: map_add_assoc)

lemma Union_open:
  assumes "world_ok sn f w" "ts_ok sn f w ts"
    and "\<And>w' known kept. foldM_res (Union_keep sn) (w, {}, []) ts = Inr (w', known, kept) \<Longrightarrow> compactions sn w w' \<Longrightarrow>
      list_all (spec_openable sn f (w_dir w')) (filter (\<lambda>t. spec_name t \<notin> known) specs)"
  shows "\<exists>w' kept os. Union sn w ts specs = Inr (w', kept @ map Opened os) \<and> compactions sn w w'
    \<and> ts_ok sn f w' (kept @ map Opened os) \<and> set kept \<subseteq> set ts
    \<and> css_content sn w' kept = css_content sn w ts \<and> list_all (persisted sn f (w_dir w')) os"
proof -
  obtain w' known kept where w': "foldM_res (Union_keep sn) (w, {}, []) ts = Inr (w', known, kept)"
    "compactions sn w w'" "set kept \<subseteq> set ts" "list_all (\<lambda>s. settled w' s \<noteq> None) kept"
    "css_content sn w' kept = css_content sn w ts"
    using Union_loop_ok [OF assms(1,2), of "{}" "[]"] by auto
  let ?open = "filter (\<lambda>t. spec_name t \<notin> known) specs"
  have ok: "world_ok sn f w'" "length (w_ccs w') = length (w_ccs w)"
    using compactions_ok [OF w'(2) assms(1,2)] by simp_all
  have sn: "snappy_ok sn" using ok(1) by (simp add: world_ok_def)
  have "\<forall>spec \<in> set ?open. \<exists>m. spec_opens sn f (w_dir w') (spec_name spec) (spec_chunkCount spec) m"
    using assms(3) [OF w'(1,2)] by (simp add: list_all_iff spec_openable_def)
  then obtain m where "\<forall>spec \<in> set ?open. spec_opens sn f (w_dir w') (spec_name spec) (spec_chunkCount spec) (m spec)"
    by metis
  then have "list_all2 (\<lambda>spec. spec_opens sn f (w_dir w') (spec_name spec) (spec_chunkCount spec)) ?open (map m ?open)"
    by (simp add: list_all2_map2 list_all2_same)
  then obtain os where os: "mapM_res (\<lambda>spec. fs_Open (w_dir w') (spec_name spec) (spec_chunkCount spec)) ?open = Inr os"
    "list_all2 (\<lambda>cs m. reader_inv sn (SourceReader cs) \<and> reader_content sn (SourceReader cs) = m
        \<and> within f m \<and> persisted sn f (w_dir w') cs) os (map m ?open)"
    using open_specs_ok [OF sn] by blast
  then have good: "list_all (\<lambda>cs. reader_inv sn (SourceReader cs) \<and> within f (reader_content sn (SourceReader cs))
      \<and> persisted sn f (w_dir w') cs) os"
    by (auto simp: list_all_length list_all2_conv_all_nth)
  have "list_all (source_below sn f (length (w_ccs w'))) kept"
    using assms(2) w'(3) ok(2) by (auto simp: ts_ok_def list_all_iff)
  then have "list_all (source_below sn f (length (w_ccs w'))) (kept @ map Opened os)"
    using good by (auto simp: list_all_iff)
  moreover have "list_all (\<lambda>s. settled w' s \<noteq> None) (kept @ map Opened os)"
    using w'(4) by (auto simp: list_all_iff settled_def)
  ultimately have "ts_ok sn f w' (kept @ map Opened os)" using chain_ok_settled by (auto simp: ts_ok_def)
  moreover have "Union sn w ts specs = Inr (w', kept @ map Opened os)"
    using w'(1) os(1) by (simp add: Union_def)
  ultimately show ?thesis using w' good by (auto simp: list_all_iff intro!: exI [of _ kept])
qed

lemma Union_ok:
  assumes "world_ok sn f w" "ts_ok sn f w ts" "no_clobber sn f w"
    and "list_all (spec_openable sn f (w_dir w)) specs"
  shows "\<exists>w' kept os. Union sn w ts specs = Inr (w', kept @ map Opened os) \<and> compactions sn w w'
    \<and> ts_ok sn f w' (kept @ map Opened os) \<and> set kept \<subseteq> set ts
    \<and> css_content sn w' kept = css_content sn w ts \<and> list_all (persisted sn f (w_dir w')) os"
proof (rule Union_open [OF assms(1,2)])
  fix w' known kept
  assume "compactions sn w w'"
  from keeps_tables_compactions [OF this assms(3)]
  show "list_all (spec_openable sn f (w_dir w')) (filter (\<lambda>t. spec_name t \<notin> known) specs)"
    using assms(4) unfolding list_all_iff spec_openable_def keeps_tables_def by (metis filter_is_subset subsetD)
qed

text \<open>When the files are tables, all that was opened without a panic can be read.\<close>

lemma Union_success:
  assumes "world_ok sn f w" "ts_ok sn f w ts" "Union sn w ts specs = Inr (w', ts')"
  shows "world_ok sn f w' \<and> ts_ok sn f w' ts' \<and> compactions sn w w' \<and> css_content sn w ts \<subseteq>\<^sub>m css_content sn w' ts'"
proof -
  have "\<exists>w' kept os. Union sn w ts specs = Inr (w', kept @ map Opened os) \<and> compactions sn w w'
    \<and> ts_ok sn f w' (kept @ map Opened os) \<and> set kept \<subseteq> set ts
    \<and> css_content sn w' kept = css_content sn w ts \<and> list_all (persisted sn f (w_dir w')) os"
  proof (rule Union_open [OF assms(1,2)])
    fix w1 known kept
    assume loop: "foldM_res (Union_keep sn) (w, {}, []) ts = Inr (w1, known, kept)" and c: "compactions sn w w1"
    have "world_ok sn f w1" using compactions_ok [OF c assms(1,2)] by simp
    then have dir: "\<forall>d \<in> ran (dir_tables (w_dir w1)). table_file sn f d" by (simp add: world_ok_def)
    obtain os where "mapM_res (\<lambda>spec. fs_Open (w_dir w1) (spec_name spec) (spec_chunkCount spec))
        (filter (\<lambda>t. spec_name t \<notin> known) specs) = Inr os"
      using assms(3) loop by (auto simp: Union_def rbind_eq_Inr)
    then have "\<forall>spec \<in> set (filter (\<lambda>t. spec_name t \<notin> known) specs).
        \<exists>cs. fs_Open (w_dir w1) (spec_name spec) (spec_chunkCount spec) = Inr cs"
      by (blast dest: mapM_res_InrD)
    then show "list_all (spec_openable sn f (w_dir w1)) (filter (\<lambda>t. spec_name t \<notin> known) specs)"
      using fs_Open_success [OF dir] by (fastforce simp: list_all_iff spec_openable_def)
  qed
  then obtain kept os where "ts' = kept @ map Opened os" "compactions sn w w'" "ts_ok sn f w' (kept @ map Opened os)"
    "css_content sn w' kept = css_content sn w ts" using assms(3) by auto
  then show ?thesis
    using compactions_ok [OF _ assms(1,2)] by (simp add: css_content_append)
qed

subsection \<open>Properties\<close>

text \<open>
  A world with a table of one chunk that waits to be compacted, behind an empty directory, for the
  witnesses.
\<close>

definition one_mem :: memTable where
  "one_mem = \<lparr>mt_chunks = [emptyHash \<mapsto> [9]],
     mt_order = [\<lparr>hr_a = emptyHash, hr_prefix = Prefix emptyHash, hr_order = 0, hr_has = False\<rparr>],
     mt_maxData = 1024, mt_totalData = 1\<rparr>"

definition empty_world :: world where
  "empty_world = \<lparr>w_dir = \<lparr>dir_lock = False, dir_manifest = None, dir_tables = Map.empty\<rparr>, w_ccs = []\<rparr>"

definition waiting :: "world \<times> source list" where
  "waiting = Prepend empty_world [] one_mem"

lemma one_mem_ok: "mt_writable one_mem" "within (\<lambda>h. [9]) (mt_chunks one_mem)"
  by (simp_all add: mt_writable_def mt_ok_def one_mem_def mt_list_def chunk_small_def within_def map_le_def)

lemma empty_world_ok: "snappy_ok sn \<Longrightarrow> world_ok sn f empty_world" "ts_ok sn f empty_world []"
  by (simp_all add: world_ok_def ts_ok_def empty_world_def)

lemma waiting_ok:
  "world_ok stored (\<lambda>h. [9]) (fst waiting)" "ts_ok stored (\<lambda>h. [9]) (fst waiting) (snd waiting)"
  "css_content stored (fst waiting) (snd waiting) = mt_chunks one_mem"
  using Prepend_ok [OF empty_world_ok(1) [OF snappy_ok_stored] empty_world_ok(2) one_mem_ok, of "fst waiting" "snd waiting"]
  by (simp_all add: waiting_def)

text \<open>
  C16: a background compaction that is started on a well-formed table never panics, whatever the
  other compactions have done in the meantime: it ends with a source that reads the directory, and
  keeps every invariant of the sources.
\<close>

theorem compaction_completes:
  assumes "world_ok sn f w" "compactions sn w w1" "i < length (w_ccs w)"
  shows "\<exists>w2. compact_step sn w1 i = Inr w2 \<and> world_ok sn f w2 \<and> \<not> pending w2 i
    \<and> (\<exists>cs. ccs_cs (w_ccs w2 ! i) = Some cs \<and> reader_inv sn (SourceReader cs))"
proof -
  have w1: "world_ok sn f w1" "i < length (w_ccs w1)"
    using compactions_ok [OF assms(2,1), of "[]"] assms(3) by (simp_all add: ts_ok_def)
  obtain w2 where w2: "compact_step sn w1 i = Inr w2" "world_ok sn f w2" "\<not> pending w2 i" "i < length (w_ccs w2)"
    using compact_step_ok [OF w1] w1(2) by auto
  then have "ccs_inv sn f w2 i" by (simp add: world_ok_def)
  then show ?thesis
    using w2 by (auto simp: ccs_inv_def getReader_def pending_def split: option.splits)
qed

theorem compaction_completes_witness:
  "\<exists>w2. compact_step stored (fst waiting) 0 = Inr w2 \<and> \<not> pending w2 0"
  using compaction_completes [OF waiting_ok(1) compactions_refl, of 0]
  by (auto simp: waiting_def Prepend_def newCompactingChunkSource_def empty_world_def)

text \<open>
  C17: background compactions are invisible. At whatever points of time they happen, the lookups
  over a set of tables give the same answers, although a compaction leaves out the chunks that
  older tables have and reads them from tables that may be compacted themselves.
\<close>

theorem compactions_invisible:
  assumes "world_ok sn f w" "ts_ok sn f w ts" "compactions sn w w'"
  shows "chunkSources_get sn w' ts h = chunkSources_get sn w ts h
    \<and> chunkSources_has w' ts h = chunkSources_has w ts h"
proof -
  have ok: "world_ok sn f w'" "ts_ok sn f w' ts" "css_content sn w' ts = css_content sn w ts"
    using compactions_ok [OF assms(3,1,2)] by simp_all
  have "list_all (source_inv sn w) ts" "list_all (source_inv sn w') ts"
    using css_below_ok [of sn f] assms(1,2) ok(1,2) by (simp_all add: ts_ok_def)
  then show ?thesis
    using css.get_law [of sn "(w, ts)" h] css.get_law [of sn "(w', ts)" h]
      css.has_law [of sn "(w, ts)" h] css.has_law [of sn "(w', ts)" h] ok(3) by simp
qed

theorem compactions_invisible_witness:
  "\<exists>w'. compact_step stored (fst waiting) 0 = Inr w' \<and> chunkSources_get stored w' (snd waiting) emptyHash = Inr (Some [9])"
proof -
  have n: "0 < length (w_ccs (fst waiting))"
    by (simp add: waiting_def Prepend_def newCompactingChunkSource_def)
  obtain w' where w': "compact_step stored (fst waiting) 0 = Inr w'"
    using compact_step_ok [OF waiting_ok(1) n] by blast
  have "chunkSources_get stored (fst waiting) (snd waiting) emptyHash = Inr (Some [9])"
    by (simp add: waiting_def Prepend_def newCompactingChunkSource_def source_get_def source_reader_def getReader_def
        mt_get_def one_mem_def)
  then show ?thesis
    using w' compactions_invisible [OF waiting_ok(1,2) compactions_step [OF compactions_refl n w'], of emptyHash] by simp
qed

text \<open>Requests for chunks that no table has: they stay open, and \<open>calcReads\<close> does not say so.\<close>

definition lacks :: "libs \<Rightarrow> addr set \<Rightarrow> source \<Rightarrow> bool" where
  "lacks sn A s \<longleftrightarrow> (\<exists>m cs. s = Opened (TableSource m) \<and> table_ok sn (mmap_reader m) cs \<and> A \<inter> fst ` set cs = {})"

lemma tr_calcReads_absent:
  assumes "table_ok sn tr cs" and "get_request rs" and "gr_a ` set rs \<inter> fst ` set cs = {}"
  shows "\<exists>remaining. tr_calcReads tr rs blockSize maxReadSize ampThresh = Inr (rs, 0, remaining)"
proof -
  have index: "index_ok (tr_index tr) (map fst cs)" and offs: "length (ti_offsets (tr_index tr)) = length (map fst cs)"
    using assms(1) by (simp_all add: table_ok_def)
  have absent: "\<forall>r \<in> set rs. gr_a r \<notin> set (map fst cs)"
    using assms(3) by auto
  then have "map (found_in (set (map fst cs))) rs = rs"
    by (intro map_idI) (auto simp: found_in_def)
  then show ?thesis
    using findOffsets_ok [OF index offs assms(2)] located_absent [OF index absent] by (simp add: tr_calcReads_def)
qed

lemma chunkSources_calcReads_absent:
  assumes "list_all (lacks sn (gr_a ` set rs)) css" and "get_request rs"
  shows "\<exists>splt'. chunkSources_calcReads_loop sn w css rs blockSize maxReadSize ampThresh n splt False = Inr (w, n, splt', False)"
  using assms(1)
proof (induction css arbitrary: splt)
  case (Cons s css)
  then obtain m cs where s: "s = Opened (TableSource m)" and ok: "table_ok sn (mmap_reader m) cs" "gr_a ` set rs \<inter> fst ` set cs = {}"
    by (auto simp: lacks_def)
  obtain remaining where "source_calcReads sn w s rs blockSize maxReadSize ampThresh = Inr (w, rs, 0, remaining)"
    using tr_calcReads_absent [OF ok(1) assms(2) ok(2), of blockSize maxReadSize ampThresh]
    by (auto simp: source_calcReads_def source_wait_def s)
  then show ?case
    using Cons by (cases remaining) auto
qed simp

end
