(* ===== verification/Chunks.thy ===== *)
theory Chunks
  imports NomsHash
begin

text \<open>
  Package \<open>go/chunks\<close>: chunks and the chunk writer, the serialization of chunk streams, the
  in-memory chunk store with its root, the cache of unwritten puts, and the store factory. The
  locale \<open>chunk_store\<close> is the interface \<open>ChunkStore\<close>; it is interpreted on the in-memory store here
  and on the block store in the theory of that component.
\<close>

subsection \<open>Chunks (chunk.go)\<close>

text \<open>The data slice may be nil, which is not the same as an empty slice for \<open>Serialize\<close>.\<close>

record Chunk =
  chunk_r :: hash
  chunk_data :: "bytes option"

definition Chunk_Hash :: "Chunk \<Rightarrow> hash" where
  "Chunk_Hash c = chunk_r c"

text \<open>A nil slice has length zero and no bytes.\<close>

definition Chunk_Data :: "Chunk \<Rightarrow> bytes" where
  "Chunk_Data c = (case chunk_data c of None \<Rightarrow> [] | Some d \<Rightarrow> d)"

definition Chunk_IsEmpty :: "Chunk \<Rightarrow> bool" where
  "Chunk_IsEmpty c \<longleftrightarrow> length (Chunk_Data c) = 0"

definition NewChunk :: "bytes option \<Rightarrow> Chunk" where
  "NewChunk data =
     \<lparr>chunk_r = hash_Of (case data of None \<Rightarrow> [] | Some d \<Rightarrow> d), chunk_data = data\<rparr>"

definition NewChunkWithHash :: "hash \<Rightarrow> bytes option \<Rightarrow> Chunk" where
  "NewChunkWithHash r data = \<lparr>chunk_r = r, chunk_data = data\<rparr>"

definition EmptyChunk :: Chunk where
  "EmptyChunk = NewChunk (Some [])"

text \<open>
  The chunk writer. The buffer is nil once the writer is closed; the slice a \<open>bytes.Buffer\<close> returns
  is nil until something has been written.
\<close>

record ChunkWriter =
  cw_buffer :: "bytes option option"
  cw_c :: Chunk

definition NewChunkWriter :: ChunkWriter where
  "NewChunkWriter = \<lparr>cw_buffer = Some None, cw_c = \<lparr>chunk_r = emptyHash, chunk_data = None\<rparr>\<rparr>"

definition buffer_Write :: "bytes option \<Rightarrow> bytes \<Rightarrow> bytes option" where
  "buffer_Write b data =
     (case b of None \<Rightarrow> (if data = [] then None else Some data) | Some d \<Rightarrow> Some (d @ data))"

definition ChunkWriter_Write :: "ChunkWriter \<Rightarrow> bytes \<Rightarrow> (ChunkWriter \<times> nat) res" where
  "ChunkWriter_Write w data =
     (case cw_buffer w of
        None \<Rightarrow> Inl (Panic ''Write() cannot be called after Hash() or Close().'')
      | Some b \<Rightarrow> Inr (w\<lparr>cw_buffer := Some (buffer_Write b data)\<rparr>, length data))"

definition ChunkWriter_Close :: "ChunkWriter \<Rightarrow> ChunkWriter" where
  "ChunkWriter_Close w =
     (case cw_buffer w of
        None \<Rightarrow> w
      | Some b \<Rightarrow> w\<lparr>cw_c := NewChunk b, cw_buffer := None\<rparr>)"

definition ChunkWriter_Chunk :: "ChunkWriter \<Rightarrow> ChunkWriter \<times> Chunk" where
  "ChunkWriter_Chunk w = (let w' = ChunkWriter_Close w in (w', cw_c w'))"

subsection \<open>Serialization (chunk_serializer.go)\<close>

text \<open>What \<open>Serialize\<close> writes: the hash, the length as a 4-byte integer, and the data.\<close>

definition Serialize :: "Chunk \<Rightarrow> bytes res" where
  "Serialize c =
     chk (chunk_data c \<noteq> None)
       (let chunkSize = (of_nat (length (Chunk_Data c)) :: uint32)
        in chk (of_nat (length (Chunk_Data c)) = chunkSize)
             (Inr (hash_bytes (Chunk_Hash c) @ put_uint32 chunkSize @ Chunk_Data c)))"

text \<open>
  \<open>io.ReadFull\<close> on the bytes left in the reader: \<open>None\<close> is \<open>io.EOF\<close> (nothing at all was left),
  a panic is \<open>io.ErrUnexpectedEOF\<close> caught by \<open>d.Chk.NoError\<close>.
\<close>

definition ReadFull :: "nat \<Rightarrow> bytes \<Rightarrow> (bytes \<times> bytes) option res" where
  "ReadFull n bs =
     (if n \<le> length bs then Inr (Some (take n bs, drop n bs))
      else if bs = [] then Inr None else Inl ChkFailed)"

definition deserializeChunk :: "bytes \<Rightarrow> (Chunk \<times> bool \<times> bytes) res" where
  "deserializeChunk rd =
     rbind (ReadFull ByteLen rd) (\<lambda>r.
       case r of
         None \<Rightarrow> Inr (EmptyChunk, False, rd)
       | Some (hb, rd1) \<Rightarrow>
           rbind (ReadFull 4 rd1) (\<lambda>r.
             case r of
               None \<Rightarrow> Inl ChkFailed
             | Some (sz, rd2) \<Rightarrow>
                 let chunkSize = be_decode sz
                 in rbind (ReadFull chunkSize rd2) (\<lambda>r.
                      case r of
                        None \<Rightarrow> Inl ChkFailed
                      | Some (data, rd3) \<Rightarrow>
                          let c = NewChunk (Some data)
                          in if copy_hash hb \<noteq> Chunk_Hash c then Inl (Panic ''hash mismatch'')
                             else Inr (c, True, rd3))))"

lemma deserializeChunk_shorter:
  "deserializeChunk rd = Inr (c, True, rd') \<Longrightarrow> length rd' < length rd"
  by (auto simp: deserializeChunk_def ReadFull_def rbind_eq_Inr Let_def split: if_splits)

text \<open>The chunks a stream holds, in the order \<open>DeserializeToChan\<close> sends them.\<close>

function DeserializeToChan :: "bytes \<Rightarrow> Chunk list res" where
  "DeserializeToChan rd =
     rbind (deserializeChunk rd) (\<lambda>(c, success, rd').
       if \<not> success then Inr []
       else rbind (DeserializeToChan rd') (\<lambda>cs. Inr (c # cs)))"
  by pat_completeness auto
termination
  by (relation "measure length") (auto dest: deserializeChunk_shorter)

declare DeserializeToChan.simps [simp del]

subsection \<open>The in-memory store (memory_store.go, memory_root_tracker.go)\<close>

text \<open>A nil Go map reads as an empty map, so the model's map is empty where Go's is nil.\<close>

record MemoryStore =
  ms_data :: "hash \<Rightarrow> Chunk option"
  ms_root :: hash

definition NewMemoryStore :: MemoryStore where
  "NewMemoryStore = \<lparr>ms_data = Map.empty, ms_root = emptyHash\<rparr>"

definition MemoryStore_Get :: "MemoryStore \<Rightarrow> hash \<Rightarrow> Chunk" where
  "MemoryStore_Get ms h = (case ms_data ms h of Some c \<Rightarrow> c | None \<Rightarrow> EmptyChunk)"

definition MemoryStore_GetMany :: "MemoryStore \<Rightarrow> hash list \<Rightarrow> Chunk list" where
  "MemoryStore_GetMany ms hs = map (MemoryStore_Get ms) hs"

definition MemoryStore_Has :: "MemoryStore \<Rightarrow> hash \<Rightarrow> bool" where
  "MemoryStore_Has ms r \<longleftrightarrow> ms_data ms r \<noteq> None"

definition MemoryStore_Put :: "MemoryStore \<Rightarrow> Chunk \<Rightarrow> MemoryStore" where
  "MemoryStore_Put ms c = ms\<lparr>ms_data := (ms_data ms)(Chunk_Hash c \<mapsto> c)\<rparr>"

definition MemoryStore_PutMany :: "MemoryStore \<Rightarrow> Chunk list \<Rightarrow> MemoryStore \<times> hash list" where
  "MemoryStore_PutMany ms cs = (foldl MemoryStore_Put ms cs, [])"

definition MemoryStore_Len :: "MemoryStore \<Rightarrow> nat" where
  "MemoryStore_Len ms = card (dom (ms_data ms))"

definition memory_Root :: "MemoryStore \<Rightarrow> hash" where
  "memory_Root ms = ms_root ms"

definition memory_UpdateRoot :: "MemoryStore \<Rightarrow> hash \<Rightarrow> hash \<Rightarrow> MemoryStore \<times> bool" where
  "memory_UpdateRoot ms current prev =
     (if prev \<noteq> ms_root ms then (ms, False) else (ms\<lparr>ms_root := current\<rparr>, True))"

text \<open>
  The factory of in-memory stores. \<open>CreateStore\<close> hands out a pointer to the store it keeps under
  the name, so the store lives in the factory's map.
\<close>

record MemoryStoreFactory =
  msf_stores :: "(string \<Rightarrow> MemoryStore option) option"

definition NewMemoryStoreFactory :: MemoryStoreFactory where
  "NewMemoryStoreFactory = \<lparr>msf_stores = Some Map.empty\<rparr>"

definition CreateStore :: "MemoryStoreFactory \<Rightarrow> string \<Rightarrow> (MemoryStoreFactory \<times> MemoryStore) res" where
  "CreateStore f ns =
     (case msf_stores f of
        None \<Rightarrow> Inl (Panic ''Cannot use MemoryStore after Shutter().'')
      | Some stores \<Rightarrow>
          (case stores ns of
             Some cs \<Rightarrow> Inr (f, cs)
           | None \<Rightarrow> Inr (f\<lparr>msf_stores := Some (stores(ns \<mapsto> NewMemoryStore))\<rparr>, NewMemoryStore)))"

definition Shutter :: "MemoryStoreFactory \<Rightarrow> MemoryStoreFactory" where
  "Shutter f = f\<lparr>msf_stores := Some Map.empty\<rparr>"

subsection \<open>The cache of unwritten puts (put_cache.go)\<close>

record unwrittenPutCache =
  unwrittenPuts :: "hash \<Rightarrow> Chunk option"

definition newUnwrittenPutCache :: unwrittenPutCache where
  "newUnwrittenPutCache = \<lparr>unwrittenPuts = Map.empty\<rparr>"

definition upc_Add :: "unwrittenPutCache \<Rightarrow> Chunk \<Rightarrow> unwrittenPutCache \<times> bool" where
  "upc_Add p c =
     (if unwrittenPuts p (Chunk_Hash c) = None
      then (p\<lparr>unwrittenPuts := (unwrittenPuts p)(Chunk_Hash c \<mapsto> c)\<rparr>, True)
      else (p, False))"

definition upc_Has :: "unwrittenPutCache \<Rightarrow> Chunk \<Rightarrow> bool" where
  "upc_Has p c \<longleftrightarrow> unwrittenPuts p (Chunk_Hash c) \<noteq> None"

definition upc_Get :: "unwrittenPutCache \<Rightarrow> hash \<Rightarrow> Chunk" where
  "upc_Get p r = (case unwrittenPuts p r of Some c \<Rightarrow> c | None \<Rightarrow> EmptyChunk)"

definition upc_Clear :: "unwrittenPutCache \<Rightarrow> Chunk list \<Rightarrow> unwrittenPutCache" where
  "upc_Clear p cs =
     foldl (\<lambda>p c. p\<lparr>unwrittenPuts := (unwrittenPuts p)(Chunk_Hash c := None)\<rparr>) p cs"

subsection \<open>Streams of chunks\<close>

text \<open>The chunks a stream can carry: data that fits the 4-byte length, under its own hash.\<close>

definition stream_chunk :: "Chunk \<Rightarrow> bool" where
  "stream_chunk c \<longleftrightarrow> c = NewChunk (Some (Chunk_Data c)) \<and> length (Chunk_Data c) < 2 ^ 32"

lemma Chunk_NewChunk [simp]:
  "Chunk_Data (NewChunk (Some d)) = d" "Chunk_Hash (NewChunk (Some d)) = hash_Of d"
  "chunk_data (NewChunk (Some d)) = Some d"
  by (simp_all add: Chunk_Data_def Chunk_Hash_def NewChunk_def)

lemma Chunk_NewChunkWithHash [simp]:
  "Chunk_Data (NewChunkWithHash h (Some d)) = d" "Chunk_Hash (NewChunkWithHash h x) = h"
  by (simp_all add: Chunk_Data_def Chunk_Hash_def NewChunkWithHash_def)

lemma Serialize_NewChunk [simp]:
  "Serialize (NewChunk (Some d)) =
     Inr (hash_bytes (hash_Of d) @ put_uint32 (of_nat (length d)) @ d)"
  by (simp add: Serialize_def Let_def)

lemma put_uint32_of_nat: "length sz = 4 \<Longrightarrow> put_uint32 (of_nat (be_decode sz)) = sz"
  using be_decode_bound [of sz] be_encode_decode [of sz]
  by (simp add: put_uint32_def unat_of_nat)

lemma be_decode_put_uint32: "n < 2 ^ 32 \<Longrightarrow> be_decode (put_uint32 (of_nat n)) = n"
  by (simp add: put_uint32_def be_decode_encode unat_of_nat)

lemma deserializeChunk_Serialize:
  assumes "length d < 2 ^ 32"
  shows "deserializeChunk (hash_bytes (hash_Of d) @ put_uint32 (of_nat (length d)) @ d @ rd)
           = Inr (NewChunk (Some d), True, rd)"
  using assms by (simp add: deserializeChunk_def ReadFull_def be_decode_put_uint32 Let_def)

lemma ReadFull_Some: "ReadFull n bs = Inr (Some (a, b)) \<longleftrightarrow> bs = a @ b \<and> length a = n"
  by (auto simp: ReadFull_def split: if_splits)

lemma deserializeChunk_True:
  assumes "deserializeChunk rd = Inr (c, True, rd')"
  shows "stream_chunk c \<and> (\<exists>s. Serialize c = Inr s \<and> rd = s @ rd')"
proof -
  obtain hb sz data where
    rd: "rd = hb @ sz @ data @ rd'" and len: "length hb = 20" "length sz = 4"
    and size: "length data = be_decode sz" and hb: "copy_hash hb = hash_Of data"
    and c: "c = NewChunk (Some data)"
    using assms
    by (auto simp: deserializeChunk_def rbind_eq_Inr Let_def ReadFull_Some split: if_splits option.splits)
  have "hash_bytes (hash_Of data) = hb"
    using hb len(1) by (metis hash_bytes_copy)
  moreover have "length data < 2 ^ 32"
    using be_decode_bound [of sz] len(2) size by simp
  ultimately show ?thesis
    using rd c len(2) size put_uint32_of_nat [of sz] by (simp add: stream_chunk_def)
qed

lemma deserializeChunk_False: "deserializeChunk rd = Inr (c, False, rd') \<longleftrightarrow> rd = [] \<and> c = EmptyChunk \<and> rd' = []"
  by (auto simp: deserializeChunk_def ReadFull_def rbind_eq_Inr Let_def split: if_splits)

lemma DeserializeToChan_Nil [simp]: "DeserializeToChan [] = Inr []"
  using deserializeChunk_False [of "[]" EmptyChunk "[]"] by (simp add: DeserializeToChan.simps)

lemma DeserializeToChan_sound:
  "DeserializeToChan rd = Inr cs \<Longrightarrow>
     list_all stream_chunk cs \<and> (\<exists>ss. mapM_res Serialize cs = Inr ss \<and> rd = concat ss)"
proof (induction rd arbitrary: cs rule: DeserializeToChan.induct)
  case (1 rd)
  obtain c ok rd' where d: "deserializeChunk rd = Inr (c, ok, rd')"
    using "1.prems" by (auto simp: DeserializeToChan.simps [of rd] rbind_eq_Inr)
  show ?case
  proof (cases ok)
    case False
    with d deserializeChunk_False [of rd c rd'] "1.prems" show ?thesis
      by auto
  next
    case True
    with d "1.prems" obtain cs' where cs: "DeserializeToChan rd' = Inr cs'" "cs = c # cs'"
      by (auto simp: DeserializeToChan.simps [of rd] rbind_eq_Inr)
    with "1.IH" [OF d refl refl _ cs(1)] True deserializeChunk_True [of rd c rd'] d
    show ?thesis by auto
  qed
qed

lemma DeserializeToChan_complete:
  "list_all stream_chunk cs \<Longrightarrow> mapM_res Serialize cs = Inr ss \<Longrightarrow>
     DeserializeToChan (concat ss) = Inr cs"
proof (induction cs arbitrary: ss)
  case (Cons c cs)
  obtain d where c: "c = NewChunk (Some d)" "length d < 2 ^ 32"
    using Cons.prems by (auto simp: stream_chunk_def)
  then obtain ss' where ss: "mapM_res Serialize cs = Inr ss'"
    "concat ss = hash_bytes (hash_Of d) @ put_uint32 (of_nat (length d)) @ d @ concat ss'"
    using Cons.prems by (auto simp: rbind_eq_Inr)
  have "DeserializeToChan (concat ss') = Inr cs"
    using Cons ss(1) by simp
  then show ?case
    using deserializeChunk_Serialize [OF c(2), of "concat ss'"] c(1) ss(2)
    by (subst DeserializeToChan.simps) simp
qed simp

text \<open>
  C3. A byte stream deserializes without a panic exactly when it is the serialization of a sequence
  of chunks that fit their length field and carry their own hash, and then it gives back these
  chunks in order.
\<close>

theorem DeserializeToChan_iff:
  "DeserializeToChan rd = Inr cs \<longleftrightarrow>
     list_all stream_chunk cs \<and> (\<exists>ss. mapM_res Serialize cs = Inr ss \<and> rd = concat ss)"
  using DeserializeToChan_sound DeserializeToChan_complete by blast

subsection \<open>The interface ChunkStore\<close>

text \<open>
  Content addressing: an assignment of data to hashes that covers every chunk at hand. It says that
  no two of them collide.
\<close>

definition addressed :: "(hash \<Rightarrow> bytes) \<Rightarrow> Chunk list \<Rightarrow> bool" where
  "addressed f cs \<longleftrightarrow> list_all (\<lambda>c. f (Chunk_Hash c) = Chunk_Data c) cs"

definition chunk_map :: "Chunk list \<Rightarrow> hash \<Rightarrow> bytes option" where
  "chunk_map cs = map_of (map (\<lambda>c. (Chunk_Hash c, Chunk_Data c)) cs)"

lemma chunk_map_simps [simp]:
  "chunk_map [] = Map.empty"
  "chunk_map (c # cs) = (chunk_map cs)(Chunk_Hash c \<mapsto> Chunk_Data c)"
  by (simp_all add: chunk_map_def)

lemma addressed_Cons [simp]:
  "addressed f (c # cs) \<longleftrightarrow> f (Chunk_Hash c) = Chunk_Data c \<and> addressed f cs"
  by (simp add: addressed_def)

lemma chunk_map_addressed:
  "addressed f cs \<Longrightarrow> chunk_map cs h = (if h \<in> Chunk_Hash ` set cs then Some (f h) else None)"
  by (induction cs) (auto simp: addressed_def)

text \<open>
  The state a store of chunks goes through is abstracted to the map from hashes to data and the
  root, over an assignment \<open>cs_addr\<close> of data to hashes. \<open>Get\<close> of an absent hash returns the empty
  chunk; a successful \<open>Put\<close> adds its chunk and nothing else; \<open>UpdateRoot\<close> moves the root only when
  the expected root is the store's, and loses no chunk.
\<close>

locale chunk_store =
  fixes cs_addr :: "hash \<Rightarrow> bytes"
    and cs_Get :: "'s \<Rightarrow> hash \<Rightarrow> Chunk res"
    and cs_Has :: "'s \<Rightarrow> hash \<Rightarrow> bool res"
    and cs_Put :: "'s \<Rightarrow> Chunk \<Rightarrow> 's res"
    and cs_Root :: "'s \<Rightarrow> hash"
    and cs_UpdateRoot :: "'s \<Rightarrow> hash \<Rightarrow> hash \<Rightarrow> ('s \<times> bool) res"
    and cs_inv :: "'s \<Rightarrow> bool"
    and cs_content :: "'s \<Rightarrow> hash \<Rightarrow> bytes option"
  assumes get_present: "cs_inv s \<Longrightarrow> cs_content s h = Some d \<Longrightarrow>
      \<exists>c. cs_Get s h = Inr c \<and> Chunk_Hash c = h \<and> Chunk_Data c = d"
    and get_absent: "cs_inv s \<Longrightarrow> cs_content s h = None \<Longrightarrow> cs_Get s h = Inr EmptyChunk"
    and has_content: "cs_inv s \<Longrightarrow> cs_Has s h = Inr (cs_content s h \<noteq> None)"
    and put_content: "cs_inv s \<Longrightarrow> cs_Put s c = Inr s' \<Longrightarrow> cs_addr (Chunk_Hash c) = Chunk_Data c \<Longrightarrow>
      cs_inv s' \<and> cs_Root s' = cs_Root s \<and>
      cs_content s' = (cs_content s)(Chunk_Hash c \<mapsto> Chunk_Data c)"
    and update_true: "cs_inv s \<Longrightarrow> cs_UpdateRoot s current prev = Inr (s', True) \<Longrightarrow>
      cs_inv s' \<and> cs_Root s = prev \<and> cs_Root s' = current \<and> cs_content s' = cs_content s"
    and update_false: "cs_inv s \<Longrightarrow> cs_UpdateRoot s current prev = Inr (s', False) \<Longrightarrow>
      cs_inv s' \<and> cs_content s \<subseteq>\<^sub>m cs_content s'"
begin

lemma put_all:
  assumes "cs_inv s" and "foldM_res cs_Put s cs = Inr s'" and "addressed cs_addr cs"
  shows "cs_inv s' \<and> cs_Root s' = cs_Root s \<and> cs_content s' = cs_content s ++ chunk_map cs"
  using assms
proof (induction cs arbitrary: s)
  case (Cons c cs)
  then obtain t where t: "cs_Put s c = Inr t" "foldM_res cs_Put t cs = Inr s'"
    by (auto simp: rbind_eq_Inr)
  have c: "cs_addr (Chunk_Hash c) = Chunk_Data c" and cs: "addressed cs_addr cs"
    using Cons.prems(3) by simp_all
  have content: "cs_inv t" "cs_Root t = cs_Root s"
    "cs_content t = (cs_content s)(Chunk_Hash c \<mapsto> Chunk_Data c)"
    using put_content [OF Cons.prems(1) t(1) c] by auto
  have rest: "cs_inv s'" "cs_Root s' = cs_Root t" "cs_content s' = cs_content t ++ chunk_map cs"
    using Cons.IH [OF content(1) t(2) cs] by simp_all
  have "cs_content s' = cs_content s ++ chunk_map (c # cs)"
    using rest(3) content(3) chunk_map_addressed [OF cs] c by (auto simp: map_add_def fun_eq_iff)
  with rest(1,2) content(2) show ?case by (simp del: chunk_map_simps)
qed simp

lemma put_all_get:
  assumes "cs_inv s" and "foldM_res cs_Put s cs = Inr s'" and "addressed cs_addr cs" and "c \<in> set cs"
  shows "cs_Has s' (Chunk_Hash c) = Inr True
    \<and> (\<exists>c'. cs_Get s' (Chunk_Hash c) = Inr c' \<and> Chunk_Hash c' = Chunk_Hash c \<and> Chunk_Data c' = Chunk_Data c)"
proof -
  note put = put_all [OF assms(1-3)]
  have "cs_addr (Chunk_Hash c) = Chunk_Data c"
    using assms(3,4) by (simp add: addressed_def list_all_iff)
  then have "cs_content s' (Chunk_Hash c) = Some (Chunk_Data c)"
    using put chunk_map_addressed [OF assms(3), of "Chunk_Hash c"] assms(4) by (simp add: map_add_def)
  then show ?thesis
    using put get_present has_content by auto
qed

end

definition memory_content :: "MemoryStore \<Rightarrow> hash \<Rightarrow> bytes option" where
  "memory_content ms h = map_option Chunk_Data (ms_data ms h)"

definition memory_inv :: "MemoryStore \<Rightarrow> bool" where
  "memory_inv ms \<longleftrightarrow> (\<forall>h c. ms_data ms h = Some c \<longrightarrow> Chunk_Hash c = h)"

interpretation mem: chunk_store f "\<lambda>s h. Inr (MemoryStore_Get s h)" "\<lambda>s h. Inr (MemoryStore_Has s h)"
  "\<lambda>s c. Inr (MemoryStore_Put s c)" memory_Root
  "\<lambda>s current prev. Inr (memory_UpdateRoot s current prev)" memory_inv memory_content
  for f :: "hash \<Rightarrow> bytes"
proof (unfold_locales, goal_cases)
  case (1 s h d)
  then show ?case
    by (auto simp: memory_inv_def memory_content_def MemoryStore_Get_def)
next
  case (2 s h)
  then show ?case by (simp add: memory_content_def MemoryStore_Get_def)
next
  case (3 s h)
  then show ?case by (simp add: memory_content_def MemoryStore_Has_def)
next
  case (4 s c s')
  then have s': "s' = MemoryStore_Put s c" by simp
  have "memory_inv s'"
    using 4(1) by (auto simp: s' MemoryStore_Put_def memory_inv_def)
  then show ?case
    by (simp add: s' MemoryStore_Put_def memory_content_def memory_Root_def fun_eq_iff)
next
  case (5 s current prev s')
  then show ?case
    by (auto simp: memory_UpdateRoot_def memory_inv_def memory_content_def memory_Root_def fun_eq_iff
        split: if_splits)
next
  case (6 s current prev s')
  then show ?case
    by (auto simp: memory_UpdateRoot_def split: if_splits)
qed

subsection \<open>Deserializing into a store\<close>

text \<open>
  \<open>Deserialize\<close> starts a goroutine per chunk that puts it into the sink, and waits for all of them:
  the puts are done in some order.
\<close>

definition Deserialize :: "bytes \<Rightarrow> MemoryStore \<Rightarrow> MemoryStore \<Rightarrow> bool" where
  "Deserialize rd ms ms' \<longleftrightarrow>
     (\<exists>cs order. DeserializeToChan rd = Inr cs \<and> mset order = mset cs
        \<and> foldM_res (\<lambda>s c. Inr (MemoryStore_Put s c)) ms order = Inr ms')"

lemma foldM_Put_total: "foldM_res (\<lambda>s c. Inr (MemoryStore_Put s c)) ms cs = Inr (foldl MemoryStore_Put ms cs)"
  by (induction cs arbitrary: ms) auto

text \<open>
  C4. Deserializing a stream into a store is independent of the order in which the goroutines put the
  chunks, as long as the hashes do not collide: the store then holds what it held before and the
  chunks of the stream, and its root has not moved.
\<close>

theorem Deserialize_any_order:
  assumes "memory_inv ms" and "DeserializeToChan rd = Inr cs" and "addressed f cs" and "Deserialize rd ms ms'"
  shows "memory_inv ms' \<and> memory_Root ms' = memory_Root ms
    \<and> memory_content ms' = memory_content ms ++ chunk_map cs"
proof -
  obtain order where o: "mset order = mset cs"
    and puts: "foldM_res (\<lambda>s c. Inr (MemoryStore_Put s c)) ms order = Inr ms'"
    using assms(2,4) by (auto simp: Deserialize_def)
  have set: "set order = set cs"
    using o by (metis set_mset_mset)
  have ord: "addressed f order"
    using assms(3) set by (simp add: addressed_def list_all_iff)
  have "chunk_map order = chunk_map cs"
    by (simp add: chunk_map_addressed [OF assms(3)] chunk_map_addressed [OF ord] set fun_eq_iff)
  then show ?thesis
    using mem.put_all [OF assms(1) puts ord] by simp
qed

theorem Deserialize_any_order_witness:
  "\<exists>ms'. Deserialize (hash_bytes (hash_Of [1]) @ put_uint32 1 @ [1]) NewMemoryStore ms'
     \<and> memory_content ms' (hash_Of [1]) = Some [1]"
proof -
  let ?c = "NewChunk (Some [1])"
  let ?rd = "hash_bytes (hash_Of [1]) @ put_uint32 1 @ [1]"
  let ?ms = "MemoryStore_Put NewMemoryStore ?c"
  have inv: "memory_inv NewMemoryStore"
    by (simp add: memory_inv_def NewMemoryStore_def)
  have rd: "DeserializeToChan ?rd = Inr [?c]"
    using DeserializeToChan_complete [of "[?c]" "[?rd]"] by (simp add: stream_chunk_def)
  have add: "addressed (\<lambda>_. [1]) [?c]"
    by (simp add: addressed_def)
  have des: "Deserialize ?rd NewMemoryStore ?ms"
    unfolding Deserialize_def by (rule exI [of _ "[?c]"], rule exI [of _ "[?c]"]) (simp add: rd)
  then show ?thesis
    using Deserialize_any_order [OF inv rd add des] by (intro exI [of _ ?ms]) simp
qed

subsection \<open>The cache of unwritten puts\<close>

lemma upc_Get_Add [simp]:
  "upc_Get (fst (upc_Add p c)) h =
     (if h = Chunk_Hash c \<and> unwrittenPuts p h = None then c else upc_Get p h)"
  by (auto simp: upc_Get_def upc_Add_def split: option.splits)

lemma upc_Add_new [simp]: "snd (upc_Add p c) \<longleftrightarrow> \<not> upc_Has p c"
  by (simp add: upc_Add_def upc_Has_def)

lemma upc_Clear_Has [simp]:
  "upc_Has (upc_Clear p cs) c \<longleftrightarrow> upc_Has p c \<and> Chunk_Hash c \<notin> Chunk_Hash ` set cs"
  unfolding upc_Clear_def by (induction cs arbitrary: p) (auto simp: upc_Has_def)

end
