(* ===== verification/NbsStore.thy ===== *)
theory NbsStore
  imports NbsTableSet Chunks
begin

text \<open>
  The block store (\<open>go/nbs/store.go\<close>) over a directory, and the cache built on it
  (\<open>go/nbs/cache.go\<close>). A store has a table it fills in memory, a set of tables behind it, and the
  root it last saw in the manifest. Its operations hold a lock, so each is one step on the store and
  the world; compactions of the background happen between them.
\<close>

subsection \<open>The store (store.go)\<close>

record NomsBlockStore =
  nbs_nomsVersion :: string
  nbs_mt :: "memTable option"
  nbs_mtSize :: uint64
  nbs_tables :: "source list"
  nbs_root :: hash
  nbs_putCount :: uint64

definition defaultMemTableSize :: uint64 where
  "defaultMemTableSize = 512 * 2 ^ 20"

definition newNomsBlockStore :: "libs \<Rightarrow> world \<Rightarrow> source list \<Rightarrow> uint64 \<Rightarrow> (world \<times> NomsBlockStore) res" where
  "newNomsBlockStore sn w ts memTableSize =
     (let nbs = \<lparr>nbs_nomsVersion = NomsVersion, nbs_mt = None,
                 nbs_mtSize = (if memTableSize = 0 then defaultMemTableSize else memTableSize),
                 nbs_tables = ts, nbs_root = emptyHash, nbs_putCount = 0\<rparr>
      in rbind (ParseIfExists (w_dir w)) (\<lambda>manifest.
           case manifest of
             None \<Rightarrow> Inr (w, nbs)
           | Some (vers, root, tableSpecs) \<Rightarrow>
               rbind (Union sn w (nbs_tables nbs) tableSpecs) (\<lambda>(w', ts').
                 Inr (w', nbs\<lparr>nbs_nomsVersion := vers, nbs_root := root, nbs_tables := ts'\<rparr>))))"

definition NewLocalStore :: "libs \<Rightarrow> world \<Rightarrow> uint64 \<Rightarrow> (world \<times> NomsBlockStore) res" where
  "NewLocalStore sn w memTableSize = newNomsBlockStore sn w [] memTableSize"

definition nbs_addChunk :: "world \<Rightarrow> NomsBlockStore \<Rightarrow> addr \<Rightarrow> bytes \<Rightarrow> (world \<times> NomsBlockStore \<times> bool) res" where
  "nbs_addChunk w nbs h data =
     (let mt = (case nbs_mt nbs of None \<Rightarrow> newMemTable (nbs_mtSize nbs) | Some mt \<Rightarrow> mt)
      in rbind (mt_addChunk mt h data) (\<lambda>(mt', added).
           if \<not> added
           then case Prepend w (nbs_tables nbs) mt' of (w', ts') \<Rightarrow>
                  rbind (mt_addChunk (newMemTable (nbs_mtSize nbs)) h data) (\<lambda>(mt'', added').
                    Inr (w', nbs\<lparr>nbs_tables := ts', nbs_mt := Some mt''\<rparr>, added'))
           else Inr (w, nbs\<lparr>nbs_mt := Some mt'\<rparr>, True)))"

definition nbs_Put :: "world \<Rightarrow> NomsBlockStore \<Rightarrow> Chunk \<Rightarrow> (world \<times> NomsBlockStore) res" where
  "nbs_Put w nbs c =
     rbind (nbs_addChunk w nbs (Chunk_Hash c) (Chunk_Data c)) (\<lambda>(w', nbs', ok).
       if ok then Inr (w', nbs'\<lparr>nbs_putCount := nbs_putCount nbs' + 1\<rparr>) else Inl (Panic ''Expected false''))"

definition nbs_SchedulePut :: "world \<Rightarrow> NomsBlockStore \<Rightarrow> Chunk \<Rightarrow> (world \<times> NomsBlockStore) res" where
  "nbs_SchedulePut w nbs c = nbs_Put w nbs c"

text \<open>The second loop of \<open>PutMany\<close> collects the hashes of the chunks that the first one left.\<close>

fun nbs_PutMany :: "world \<Rightarrow> NomsBlockStore \<Rightarrow> Chunk list \<Rightarrow> (world \<times> NomsBlockStore \<times> hash list) res" where
  "nbs_PutMany w nbs [] = Inr (w, nbs, [])"
| "nbs_PutMany w nbs (c # chunx) =
     rbind (nbs_addChunk w nbs (Chunk_Hash c) (Chunk_Data c)) (\<lambda>(w', nbs', ok).
       if \<not> ok then Inr (w', nbs', map Chunk_Hash (c # chunx))
       else nbs_PutMany w' (nbs'\<lparr>nbs_putCount := nbs_putCount nbs' + 1\<rparr>) chunx)"

definition nbs_Get :: "libs \<Rightarrow> world \<Rightarrow> NomsBlockStore \<Rightarrow> hash \<Rightarrow> Chunk res" where
  "nbs_Get sn w nbs h =
     (case (case nbs_mt nbs of None \<Rightarrow> None | Some mt \<Rightarrow> mt_get mt h) of
        Some data \<Rightarrow> Inr (NewChunkWithHash h (Some data))
      | None \<Rightarrow> rbind (chunkSources_get sn w (nbs_tables nbs) h) (\<lambda>data.
          case data of Some d \<Rightarrow> Inr (NewChunkWithHash h (Some d)) | None \<Rightarrow> Inr EmptyChunk))"

definition toGetRecords :: "hash list \<Rightarrow> getRecord list" where
  "toGetRecords hashes =
     map (\<lambda>(i, a). \<lparr>gr_a = a, gr_prefix = Prefix a, gr_order = i, gr_found = False, gr_data = None\<rparr>)
       (enumerate 0 hashes)"

text \<open>
  The reads that \<open>getMany\<close> starts run in the order \<open>sched\<close> puts them, and all have ended when
  \<open>wg.Wait()\<close> returns.
\<close>

definition run_spawned ::
    "libs \<Rightarrow> (tableReader \<times> physicalRead) list \<Rightarrow> getRecord list \<Rightarrow> getRecord list res" where
  "run_spawned sn rds reqs = foldM_res (\<lambda>reqs (tr, rd). readAtOffsets sn tr reqs rd) reqs rds"

definition nbs_GetMany ::
    "libs \<Rightarrow> ((tableReader \<times> physicalRead) list \<Rightarrow> (tableReader \<times> physicalRead) list)
       \<Rightarrow> world \<Rightarrow> NomsBlockStore \<Rightarrow> hash list \<Rightarrow> Chunk list res" where
  "nbs_GetMany sn sched w nbs hashes =
     (let (reqs, remaining) = (case nbs_mt nbs of
            Some mt \<Rightarrow> mt_getMany mt (toGetRecords hashes)
          | None \<Rightarrow> (toGetRecords hashes, True));
          reqs = Sort gr_prefix reqs
      in rbind (if remaining
                then rbind (chunkSources_getMany w (nbs_tables nbs) reqs) (\<lambda>(reqs, rds, _).
                       run_spawned sn (sched rds) reqs)
                else Inr reqs) (\<lambda>reqs.
         let reqs = Sort gr_order reqs
         in Inr (map (\<lambda>(h, req). case gr_data req of
                        None \<Rightarrow> EmptyChunk | Some d \<Rightarrow> NewChunkWithHash h (Some d)) (zip hashes reqs))))"

definition nbs_CalcReads ::
    "libs \<Rightarrow> world \<Rightarrow> NomsBlockStore \<Rightarrow> hash list \<Rightarrow> uint64 \<Rightarrow> uint64 \<Rightarrow> uint64 \<Rightarrow> (world \<times> nat \<times> bool) res" where
  "nbs_CalcReads sn w nbs hashes blockSize maxReadSize ampThresh =
     rbind (chunkSources_calcReads sn w (nbs_tables nbs) (Sort gr_prefix (toGetRecords hashes))
              blockSize maxReadSize ampThresh) (\<lambda>(w', reads, splt, remaining).
       chk (\<not> remaining) (Inr (w', reads, splt)))"

definition nbs_extractChunks ::
    "libs \<Rightarrow> world \<Rightarrow> NomsBlockStore \<Rightarrow> EnumerationOrder \<Rightarrow> (world \<times> Chunk list) res" where
  "nbs_extractChunks sn w nbs order =
     rbind (tableSet_extract sn w (nbs_tables nbs) order) (\<lambda>(w', tables).
       let mem = (case nbs_mt nbs of None \<Rightarrow> [] | Some mt \<Rightarrow> mt_extract mt order);
           tabs = map (\<lambda>rec. (er_a rec, Some (er_data rec))) tables;
           recs = (case order of InsertOrder \<Rightarrow> tabs @ mem | ReverseOrder \<Rightarrow> mem @ tabs)
       in Inr (w', map (\<lambda>(a, data). NewChunkWithHash a data) recs))"

definition nbs_Count :: "world \<Rightarrow> NomsBlockStore \<Rightarrow> uint32 res" where
  "nbs_Count w nbs =
     rbind (chunkSources_count w (nbs_tables nbs)) (\<lambda>c.
       Inr ((case nbs_mt nbs of None \<Rightarrow> 0 | Some mt \<Rightarrow> mt_count mt) + c))"

definition nbs_Has :: "world \<Rightarrow> NomsBlockStore \<Rightarrow> hash \<Rightarrow> bool res" where
  "nbs_Has w nbs h =
     (if (case nbs_mt nbs of None \<Rightarrow> False | Some mt \<Rightarrow> mt_has mt h) then Inr True
      else chunkSources_has w (nbs_tables nbs) h)"

definition nbs_Root :: "NomsBlockStore \<Rightarrow> hash" where
  "nbs_Root nbs = nbs_root nbs"

definition UpdateRoot_flush :: "world \<Rightarrow> NomsBlockStore \<Rightarrow> world \<times> NomsBlockStore" where
  "UpdateRoot_flush w nbs =
     (case nbs_mt nbs of
        None \<Rightarrow> (w, nbs)
      | Some mt \<Rightarrow>
          if mt_count mt > 0
          then case Prepend w (nbs_tables nbs) mt of (w', ts') \<Rightarrow> (w', nbs\<lparr>nbs_tables := ts', nbs_mt := None\<rparr>)
          else (w, nbs))"

definition nbs_UpdateRoot ::
    "libs \<Rightarrow> world \<Rightarrow> NomsBlockStore \<Rightarrow> hash \<Rightarrow> hash \<Rightarrow> (world \<times> NomsBlockStore \<times> bool) res" where
  "nbs_UpdateRoot sn w nbs current prev =
     chk (nbs_root nbs = prev)
       (case UpdateRoot_flush w nbs of (w1, nbs1) \<Rightarrow>
          rbind (ToSpecs sn w1 (nbs_tables nbs1)) (\<lambda>(w2, specs).
          rbind (fileManifest_Update (w_dir w2) specs (nbs_root nbs1) current) (\<lambda>(dir, actual, tableNames).
            let w3 = w2\<lparr>w_dir := dir\<rparr>
            in if current \<noteq> actual
               then rbind (Union sn w3 (nbs_tables nbs1) tableNames) (\<lambda>(w4, ts).
                      Inr (w4, nbs1\<lparr>nbs_root := actual, nbs_tables := ts\<rparr>, False))
               else Inr (w3, nbs1\<lparr>nbs_nomsVersion := NomsVersion, nbs_root := current\<rparr>, True))))"

definition nbs_Version :: "NomsBlockStore \<Rightarrow> string" where
  "nbs_Version nbs = nbs_nomsVersion nbs"

definition nbs_Flush :: "libs \<Rightarrow> world \<Rightarrow> NomsBlockStore \<Rightarrow> (world \<times> NomsBlockStore) res" where
  "nbs_Flush sn w nbs =
     rbind (nbs_UpdateRoot sn w nbs (nbs_root nbs) (nbs_root nbs)) (\<lambda>(w', nbs', success).
       chk success (Inr (w', nbs')))"

subsection \<open>The cache (cache.go)\<close>

definition defaultCacheMemTableSize :: uint64 where
  "defaultCacheMemTableSize = 2 ^ 27"

text \<open>A cache is a store over a directory of its own.\<close>

definition NewCache :: "libs \<Rightarrow> (world \<times> NomsBlockStore) res" where
  "NewCache sn = NewLocalStore sn
     \<lparr>w_dir = \<lparr>dir_lock = False, dir_manifest = None, dir_tables = Map.empty\<rparr>, w_ccs = []\<rparr> defaultCacheMemTableSize"

definition cache_Insert :: "world \<Rightarrow> NomsBlockStore \<Rightarrow> Chunk \<Rightarrow> (world \<times> NomsBlockStore) res" where
  "cache_Insert w nbs c =
     rbind (nbs_addChunk w nbs (Chunk_Hash c) (Chunk_Data c)) (\<lambda>(w', nbs', ok).
       if ok then Inr (w', nbs') else Inl (Panic ''Expected false''))"

definition cache_Has :: "world \<Rightarrow> NomsBlockStore \<Rightarrow> hash \<Rightarrow> bool res" where
  "cache_Has w nbs h = nbs_Has w nbs h"

definition cache_Get :: "libs \<Rightarrow> world \<Rightarrow> NomsBlockStore \<Rightarrow> hash \<Rightarrow> Chunk res" where
  "cache_Get sn w nbs h = nbs_Get sn w nbs h"

definition cache_ExtractChunks ::
    "libs \<Rightarrow> world \<Rightarrow> NomsBlockStore \<Rightarrow> EnumerationOrder \<Rightarrow> (world \<times> Chunk list) res" where
  "cache_ExtractChunks sn w nbs order = nbs_extractChunks sn w nbs order"

definition cache_Count :: "world \<Rightarrow> NomsBlockStore \<Rightarrow> uint32 res" where
  "cache_Count w nbs = nbs_Count w nbs"

subsection \<open>The invariant of a store\<close>

definition mem_content :: "NomsBlockStore \<Rightarrow> hash \<Rightarrow> bytes option" where
  "mem_content nbs = (case nbs_mt nbs of None \<Rightarrow> Map.empty | Some mt \<Rightarrow> mt_chunks mt)"

fun store_content :: "libs \<Rightarrow> world \<times> NomsBlockStore \<Rightarrow> hash \<Rightarrow> bytes option" where
  "store_content sn (w, nbs) = css_content sn w (nbs_tables nbs) ++ mem_content nbs"

definition mem_inv :: "(hash \<Rightarrow> bytes) \<Rightarrow> NomsBlockStore \<Rightarrow> bool" where
  "mem_inv f nbs \<longleftrightarrow>
     (case nbs_mt nbs of None \<Rightarrow> True
      | Some mt \<Rightarrow> mt_ok mt \<and> mt_maxData mt = nbs_mtSize nbs \<and> within f (mt_chunks mt))"

lemma mem_upd [simp]:
  "mem_inv f (nbs\<lparr>nbs_putCount := n\<rparr>) \<longleftrightarrow> mem_inv f nbs"
  "mem_inv f (nbs\<lparr>nbs_root := r\<rparr>) \<longleftrightarrow> mem_inv f nbs"
  "mem_inv f (nbs\<lparr>nbs_tables := ts\<rparr>) \<longleftrightarrow> mem_inv f nbs"
  "mem_inv f (nbs\<lparr>nbs_nomsVersion := v\<rparr>) \<longleftrightarrow> mem_inv f nbs"
  "mem_content (nbs\<lparr>nbs_putCount := n\<rparr>) = mem_content nbs"
  "mem_content (nbs\<lparr>nbs_root := r\<rparr>) = mem_content nbs"
  "mem_content (nbs\<lparr>nbs_tables := ts\<rparr>) = mem_content nbs"
  "mem_content (nbs\<lparr>nbs_nomsVersion := v\<rparr>) = mem_content nbs"
  by (auto simp: mem_inv_def mem_content_def split: option.splits)

text \<open>
  The bound on the size of tables in memory (the default is \<open>2\<^sup>2\<^sup>9\<close>) keeps the records of a table below
  4GB; no slice has \<open>2\<^sup>6\<^sup>3\<close> bytes.
\<close>

fun store_inv :: "libs \<Rightarrow> (hash \<Rightarrow> bytes) \<Rightarrow> world \<times> NomsBlockStore \<Rightarrow> bool" where
  "store_inv sn f (w, nbs) \<longleftrightarrow>
     world_ok sn f w \<and> ts_ok sn f w (nbs_tables nbs) \<and> file_inv (w_dir w) \<and> mem_inv f nbs
     \<and> nbs_mtSize nbs \<le> 2 ^ 31 \<and> (\<forall>h. length (f h) < 2 ^ 63)"

lemma data_size_ge: "c \<in> set cs \<Longrightarrow> length (snd c) \<le> data_size cs"
  by (simp add: member_le_sum_list)

lemma data_size_length: "list_all (\<lambda>c. snd c \<noteq> []) cs \<Longrightarrow> length cs \<le> data_size cs"
proof (induction cs)
  case (Cons c cs)
  then have "1 \<le> length (snd c)" by (cases "snd c") auto
  with Cons show ?case by simp
qed simp

lemma mt_writable_bounded:
  assumes "mt_ok mt" "mt_order mt \<noteq> []" "mt_maxData mt \<le> 2 ^ 31"
  shows "mt_writable mt"
proof -
  have size: "data_size (mt_list mt) \<le> 2 ^ 31"
    using assms(1,3) by (auto simp: mt_ok_def word_le_nat_alt)
  have ne: "list_all (\<lambda>c. snd c \<noteq> []) (mt_list mt)"
    using assms(1) by (force simp: mt_ok_def mt_list_def list_all_iff ran_def)
  have "length (mt_order mt) \<le> data_size (mt_list mt)"
    using data_size_length [OF ne] by (simp add: mt_list_def)
  moreover have "chunk_small (snd c)" if "c \<in> set (mt_list mt)" for c
    using data_size_ge [OF that] size ne that by (auto simp: chunk_small_def list_all_iff)
  ultimately show ?thesis using assms(1,2) size by (simp add: mt_writable_def list_all_iff)
qed

lemma file_inv_cong:
  assumes "dir_manifest dir' = dir_manifest dir" "dir_lock dir' = dir_lock dir"
  shows "file_inv dir' \<longleftrightarrow> file_inv dir" "file_abs dir' = file_abs dir"
  using assms by (auto simp: file_inv_def file_abs_def split: option.splits)

lemma mem_content_Some: "mem_inv f nbs \<Longrightarrow> mem_content nbs h = Some d \<Longrightarrow> d = f h"
  using within_SomeD by (fastforce simp: mem_inv_def mem_content_def split: option.splits)

lemma tables_get:
  assumes "world_ok sn f w" "ts_ok sn f w ts"
  shows "chunkSources_get sn w ts h = Inr (css_content sn w ts h)"
    and "chunkSources_has w ts h = Inr (css_content sn w ts h \<noteq> None)"
proof -
  have "list_all (source_inv sn w) ts" using css_below_ok assms by (simp add: ts_ok_def)
  then show "chunkSources_get sn w ts h = Inr (css_content sn w ts h)"
    and "chunkSources_has w ts h = Inr (css_content sn w ts h \<noteq> None)"
    using css.get_law [of sn "(w, ts)" h] css.has_law [of sn "(w, ts)" h] by simp_all
qed

lemma nbs_Get_ok:
  assumes "store_inv sn f (w, nbs)"
  shows "nbs_Get sn w nbs h = Inr (case store_content sn (w, nbs) h of
    None \<Rightarrow> EmptyChunk | Some d \<Rightarrow> NewChunkWithHash h (Some d))"
proof -
  have "chunkSources_get sn w (nbs_tables nbs) h = Inr (css_content sn w (nbs_tables nbs) h)"
    using tables_get(1) [of sn f] assms by simp
  then show ?thesis
    by (auto simp: nbs_Get_def mem_content_def mt_get_def map_add_def split: option.splits)
qed

lemma nbs_Has_ok:
  assumes "store_inv sn f (w, nbs)"
  shows "nbs_Has w nbs h = Inr (store_content sn (w, nbs) h \<noteq> None)"
proof -
  have "chunkSources_has w (nbs_tables nbs) h = Inr (css_content sn w (nbs_tables nbs) h \<noteq> None)"
    using tables_get(2) [of sn f] assms by simp
  then show ?thesis
    by (auto simp: nbs_Has_def mem_content_def mt_has_def map_add_def split: option.splits)
qed

lemma within_upd: "within f m \<Longrightarrow> f h = d \<Longrightarrow> within f (m(h \<mapsto> d))"
  by (auto simp: within_def map_le_def)

text \<open>Adding to the table in memory, when that succeeds.\<close>

lemma mt_addChunk_added:
  assumes "mt_ok mt" "mt_addChunk mt h data = Inr (mt', True)" "mt_maxData mt \<le> 2 ^ 31" "length data < 2 ^ 63"
    and "within f (mt_chunks mt)" "f h = data"
  shows "mt_ok mt' \<and> mt_maxData mt' = mt_maxData mt \<and> within f (mt_chunks mt')
    \<and> mt_chunks mt' = (mt_chunks mt)(h \<mapsto> data)"
proof -
  have "unat (mt_maxData mt) \<le> 2 ^ 31" using assms(3) by (simp add: word_le_nat_alt)
  then have b: "unat (mt_maxData mt) + length data < 2 ^ 64" using assms(4) by simp
  have "mt_chunks mt' = (mt_chunks mt)(h \<mapsto> data)"
  proof (cases "mt_chunks mt h")
    case (Some d)
    then have "d = data" using within_SomeD [OF assms(5)] assms(6) by simp
    then have "(mt_chunks mt)(h \<mapsto> data) = mt_chunks mt" using Some by (auto simp: fun_eq_iff)
    then show ?thesis using mt_addChunk_ok(3) [OF assms(1,2) b] Some by simp
  qed (use mt_addChunk_ok(3) [OF assms(1,2) b] in simp)
  then show ?thesis
    using mt_addChunk_ok(1,2) [OF assms(1,2) b] within_upd [OF assms(5,6)] by simp
qed

lemma mt_addChunk_full:
  assumes "mt_ok mt" "mt_addChunk mt h data = Inr (mt', False)" "mt_addChunk (newMemTable (mt_maxData mt)) h data = Inr (mt'', True)"
    and "mt_maxData mt \<le> 2 ^ 31" "length data < 2 ^ 63"
  shows "mt' = mt \<and> mt_order mt \<noteq> []"
proof -
  have "unat (mt_maxData mt) \<le> 2 ^ 31" using assms(4) by (simp add: word_le_nat_alt)
  then have b: "unat (mt_maxData mt) + length data < 2 ^ 64" using assms(5) by simp
  have "mt_totalData mt = 0" if "mt_order mt = []"
    using assms(1) that by (simp add: mt_ok_def mt_list_def unat_eq_0)
  then have "mt_order mt \<noteq> []"
    using assms(2,3) by (auto simp: mt_addChunk_def newMemTable_def Let_def split: if_splits)
  then show ?thesis using mt_addChunk_ok(4) [OF assms(1,2) b] by simp
qed

lemma nbs_addChunk_ok:
  assumes "store_inv sn f (w, nbs)" "nbs_addChunk w nbs h data = Inr (w', nbs', True)" "f h = data"
  shows "store_inv sn f (w', nbs') \<and> nbs_root nbs' = nbs_root nbs \<and> w_dir w' = w_dir w
    \<and> store_content sn (w', nbs') = (store_content sn (w, nbs))(h \<mapsto> data)"
proof -
  define mt where "mt = (case nbs_mt nbs of None \<Rightarrow> newMemTable (nbs_mtSize nbs) | Some mt \<Rightarrow> mt)"
  have new: "mt_ok (newMemTable n)" "mt_maxData (newMemTable n) = n" "mt_chunks (newMemTable n) = Map.empty" for n
    by (rule mt_ok_new) (simp_all add: newMemTable_def)
  have inv: "world_ok sn f w" "ts_ok sn f w (nbs_tables nbs)" "nbs_mtSize nbs \<le> 2 ^ 31" "length data < 2 ^ 63"
    using assms(1,3) by auto
  have mt: "mt_ok mt" "mt_maxData mt = nbs_mtSize nbs" "within f (mt_chunks mt)" "mt_chunks mt = mem_content nbs"
    using assms(1) new by (auto simp: mt_def mem_inv_def mem_content_def split: option.splits)
  obtain mt' added where add: "mt_addChunk mt h data = Inr (mt', added)"
    using assms(2) by (auto simp: nbs_addChunk_def mt_def [symmetric] rbind_eq_Inr)
  show ?thesis
  proof (cases added)
    case True
    have added: "mt_addChunk mt h data = Inr (mt', True)" using add True by simp
    have w': "w' = w" "nbs' = nbs\<lparr>nbs_mt := Some mt'\<rparr>"
      using assms(2) added by (simp_all add: nbs_addChunk_def mt_def [symmetric])
    have "mt_ok mt'" "mt_maxData mt' = nbs_mtSize nbs" "within f (mt_chunks mt')" "mt_chunks mt' = (mem_content nbs)(h \<mapsto> data)"
      using mt_addChunk_added [OF mt(1) added _ inv(4) mt(3) assms(3)] mt inv(3) by auto
    then show ?thesis using assms(1) w' by (simp add: mem_inv_def mem_content_def)
  next
    case False
    have refused: "mt_addChunk mt h data = Inr (mt', False)" using add False by simp
    obtain w1 ts1 where p: "Prepend w (nbs_tables nbs) mt' = (w1, ts1)" by fastforce
    obtain mt'' where add2: "mt_addChunk (newMemTable (nbs_mtSize nbs)) h data = Inr (mt'', True)"
      and w': "w' = w1" "nbs' = nbs\<lparr>nbs_tables := ts1, nbs_mt := Some mt''\<rparr>"
      using assms(2) refused p by (auto simp: nbs_addChunk_def mt_def [symmetric] rbind_eq_Inr)
    have full: "mt' = mt" "mt_order mt \<noteq> []"
      using mt_addChunk_full [OF mt(1) refused] add2 mt(2) inv(3,4) by simp_all
    have pre: "world_ok sn f w1" "ts_ok sn f w1 ts1" "w_dir w1 = w_dir w"
      "css_content sn w1 ts1 = css_content sn w (nbs_tables nbs) ++ mem_content nbs"
      using Prepend_ok [OF inv(1,2) mt_writable_bounded [OF mt(1) full(2)] mt(3), of w1 ts1] p full(1) mt(2,4) inv(3)
      by simp_all
    have "mt_ok mt''" "mt_maxData mt'' = nbs_mtSize nbs" "within f (mt_chunks mt'')" "mt_chunks mt'' = [h \<mapsto> data]"
      using mt_addChunk_added [of _ h data mt'' f, OF new(1) add2 _ inv(4) _ assms(3)] new inv(3) by auto
    then show ?thesis using assms(1) w' pre by (simp add: mem_inv_def mem_content_def)
  qed
qed

subsection \<open>Moving the root\<close>

lemma UpdateRoot_flush_ok:
  assumes "store_inv sn f (w, nbs)" "UpdateRoot_flush w nbs = (w', nbs')"
  shows "store_inv sn f (w', nbs') \<and> nbs_root nbs' = nbs_root nbs \<and> w_dir w' = w_dir w
    \<and> store_content sn (w', nbs') = store_content sn (w, nbs) \<and> mem_content nbs' = Map.empty"
proof (cases "\<exists>mt. nbs_mt nbs = Some mt \<and> mt_count mt > 0")
  case False
  have "mt_chunks mt = Map.empty" if mt: "nbs_mt nbs = Some mt" for mt
  proof -
    have ok: "mt_ok mt" "mt_maxData mt \<le> 2 ^ 31" using assms(1) mt by (simp_all add: mem_inv_def)
    have "mt_order mt = []"
    proof (rule ccontr)
      assume "mt_order mt \<noteq> []"
      then have "mt_writable mt" by (rule mt_writable_bounded [OF ok(1) _ ok(2)])
      then show False using reader_count_pos [of sn "MemReader mt"] False mt by simp
    qed
    then show ?thesis using ok(1) by (simp add: mt_ok_def)
  qed
  then have "mem_content nbs = Map.empty" by (simp add: mem_content_def split: option.splits)
  moreover have "w' = w" "nbs' = nbs"
    using assms(2) False by (auto simp: UpdateRoot_flush_def split: option.splits if_splits)
  ultimately show ?thesis using assms(1) by simp
next
  case True
  then obtain mt where mt: "nbs_mt nbs = Some mt" "mt_count mt > 0" by blast
  have ok: "mt_ok mt" "mt_maxData mt \<le> 2 ^ 31" "within f (mt_chunks mt)" using assms(1) mt by (simp_all add: mem_inv_def)
  have "mt_order mt \<noteq> []" using mt(2) by (auto simp: mt_count_def)
  then have writable: "mt_writable mt" by (rule mt_writable_bounded [OF ok(1) _ ok(2)])
  obtain ts where ts: "Prepend w (nbs_tables nbs) mt = (w', ts)" "nbs' = nbs\<lparr>nbs_tables := ts, nbs_mt := None\<rparr>"
    using assms(2) mt by (auto simp: UpdateRoot_flush_def split: prod.splits)
  have "world_ok sn f w" "ts_ok sn f w (nbs_tables nbs)" using assms(1) by simp_all
  then show ?thesis
    using Prepend_ok [OF _ _ writable ok(3) ts(1)] assms(1) ts(2) mt(1) by (simp add: mem_inv_def mem_content_def)
qed

text \<open>Only the tables of the directory matter to the sources.\<close>

lemma css_content_dir [simp]: "css_content sn (w\<lparr>w_dir := dir\<rparr>) css = css_content sn w css"
proof -
  have "source_content sn (w\<lparr>w_dir := dir\<rparr>) s = source_content sn w s" for s
    by (cases s) (simp_all add: source_content_def source_reader_def)
  then show ?thesis by (induction css) simp_all
qed

lemma chain_ok_dir [simp]: "chain_ok sn (w\<lparr>w_dir := dir\<rparr>) css \<longleftrightarrow> chain_ok sn w css"
  by (induction sn w css rule: chain_ok.induct) (simp_all add: pending_def)

lemma ts_ok_dir [simp]: "ts_ok sn f (w\<lparr>w_dir := dir\<rparr>) ts \<longleftrightarrow> ts_ok sn f w ts"
  by (simp add: ts_ok_def)

lemma world_ok_dir:
  "world_ok sn f w \<Longrightarrow> dir_tables dir = dir_tables (w_dir w) \<Longrightarrow> world_ok sn f (w\<lparr>w_dir := dir\<rparr>)"
  by (simp add: world_ok_def ccs_inv_def pending_def)

lemma fileManifest_Update_cases:
  assumes "file_inv dir" "fileManifest_Update dir specs root newRoot = Inr (dir', actual, tableNames)"
  shows "file_inv dir' \<and> dir_tables dir' = dir_tables dir
    \<and> (root = recorded_root (file_abs dir) \<and> actual = newRoot \<and> file_abs dir' = Some (newRoot, specs)
       \<or> root \<noteq> recorded_root (file_abs dir) \<and> file_abs dir = Some (actual, tableNames) \<and> file_abs dir' = file_abs dir)"
proof (cases "root = recorded_root (file_abs dir)")
  case True
  then show ?thesis
    using fileManifest_Update_current [OF assms(1) True, of specs newRoot] assms(2) by auto
next
  case False
  obtain s where s: "writeManifest newRoot specs = Inr s" using parse_writeManifest by blast
  show ?thesis
  proof (cases "file_abs dir")
    case None
    then have "dir_manifest dir = None" by (cases rule: file_manifest_cases [OF assms(1)]) auto
    then show ?thesis
      using assms(2) s False None by (simp add: fileManifest_Update_def recorded_root_def chk_def split: if_splits)
  next
    case (Some m)
    obtain act tn where m: "m = (act, tn)" by fastforce
    then have ne: "root \<noteq> act" using False Some by (simp add: recorded_root_def)
    have "dir' = dir\<lparr>dir_lock := True\<rparr>" "actual = act" "tableNames = tn"
      using fileManifest_Update_stale [OF assms(1) Some [unfolded m] ne, of specs newRoot] assms(2) by auto
    then show ?thesis
      using assms(1) Some m False by (auto simp: file_inv_def file_abs_def split: option.splits)
  qed
qed

lemma nbs_UpdateRootE:
  assumes "store_inv sn f (w, nbs)" "nbs_UpdateRoot sn w nbs current prev = Inr (w', nbs', ok)"
  obtains w1 nbs1 w2 specs dir actual tableNames where
    "nbs_root nbs = prev" "UpdateRoot_flush w nbs = (w1, nbs1)" "store_inv sn f (w1, nbs1)" "nbs_root nbs1 = prev"
    "ToSpecs sn w1 (nbs_tables nbs1) = Inr (w2, specs)" "compactions sn w1 w2" "world_ok sn f w2"
    "fileManifest_Update (w_dir w2) specs prev current = Inr (dir, actual, tableNames)"
    "file_abs (w_dir w2) = file_abs (w_dir w)"
    "store_inv sn f (w2\<lparr>w_dir := dir\<rparr>, nbs1)"
    "store_content sn (w2\<lparr>w_dir := dir\<rparr>, nbs1) = store_content sn (w, nbs)" "mem_content nbs1 = Map.empty"
    "ok \<longleftrightarrow> current = actual"
    "ok \<Longrightarrow> w' = w2\<lparr>w_dir := dir\<rparr> \<and> nbs' = nbs1\<lparr>nbs_nomsVersion := NomsVersion, nbs_root := current\<rparr>"
    "\<not> ok \<Longrightarrow> \<exists>ts. Union sn (w2\<lparr>w_dir := dir\<rparr>) (nbs_tables nbs1) tableNames = Inr (w', ts)
        \<and> nbs' = nbs1\<lparr>nbs_root := actual, nbs_tables := ts\<rparr>"
proof -
  obtain w1 nbs1 where f: "UpdateRoot_flush w nbs = (w1, nbs1)" by fastforce
  note flush = UpdateRoot_flush_ok [OF assms(1) f]
  then have ok1: "world_ok sn f w1" "ts_ok sn f w1 (nbs_tables nbs1)" by simp_all
  obtain w2 specs where s: "ToSpecs sn w1 (nbs_tables nbs1) = Inr (w2, specs)" "compactions sn w1 w2"
    by (rule ToSpecs_ok [OF ok1])
  have w2: "world_ok sn f w2" "ts_ok sn f w2 (nbs_tables nbs1)"
    "css_content sn w2 (nbs_tables nbs1) = css_content sn w1 (nbs_tables nbs1)"
    "dir_manifest (w_dir w2) = dir_manifest (w_dir w)" "dir_lock (w_dir w2) = dir_lock (w_dir w)"
    using compactions_ok [OF s(2) ok1] flush by simp_all
  have prev: "nbs_root nbs = prev" using assms(2) by (auto simp: nbs_UpdateRoot_def chk_def split: if_splits)
  have "rbind (fileManifest_Update (w_dir w2) specs prev current) (\<lambda>(dir, actual, tableNames).
      if current \<noteq> actual
      then rbind (Union sn (w2\<lparr>w_dir := dir\<rparr>) (nbs_tables nbs1) tableNames) (\<lambda>(w4, ts).
             Inr (w4, nbs1\<lparr>nbs_root := actual, nbs_tables := ts\<rparr>, False))
      else Inr (w2\<lparr>w_dir := dir\<rparr>, nbs1\<lparr>nbs_nomsVersion := NomsVersion, nbs_root := current\<rparr>, True)) = Inr (w', nbs', ok)"
    using assms(2) prev f s(1) flush by (simp add: nbs_UpdateRoot_def Let_def)
  then obtain dir actual tableNames where u: "fileManifest_Update (w_dir w2) specs prev current = Inr (dir, actual, tableNames)"
    and rest: "(if current \<noteq> actual
      then rbind (Union sn (w2\<lparr>w_dir := dir\<rparr>) (nbs_tables nbs1) tableNames) (\<lambda>(w4, ts).
             Inr (w4, nbs1\<lparr>nbs_root := actual, nbs_tables := ts\<rparr>, False))
      else Inr (w2\<lparr>w_dir := dir\<rparr>, nbs1\<lparr>nbs_nomsVersion := NomsVersion, nbs_root := current\<rparr>, True)) = Inr (w', nbs', ok)"
    by (auto simp: rbind_eq_Inr)
  have inv: "file_inv (w_dir w2)" "file_abs (w_dir w2) = file_abs (w_dir w)"
    using file_inv_cong [OF w2(4,5)] assms(1) by simp_all
  have dir: "file_inv dir" "dir_tables dir = dir_tables (w_dir w2)"
    using fileManifest_Update_cases [OF inv(1) u] by simp_all
  have "store_inv sn f (w2\<lparr>w_dir := dir\<rparr>, nbs1)" using flush w2 dir world_ok_dir by simp
  moreover have "store_content sn (w2\<lparr>w_dir := dir\<rparr>, nbs1) = store_content sn (w, nbs)"
    using flush w2(3) by auto
  moreover have "ok \<longleftrightarrow> current = actual"
    using rest by (auto simp: rbind_eq_Inr split: if_splits)
  moreover have "w' = w2\<lparr>w_dir := dir\<rparr> \<and> nbs' = nbs1\<lparr>nbs_nomsVersion := NomsVersion, nbs_root := current\<rparr>" if ok
    using rest that by (auto simp: rbind_eq_Inr split: if_splits)
  moreover have "\<exists>ts. Union sn (w2\<lparr>w_dir := dir\<rparr>) (nbs_tables nbs1) tableNames = Inr (w', ts)
      \<and> nbs' = nbs1\<lparr>nbs_root := actual, nbs_tables := ts\<rparr>" if "\<not> ok"
    using rest that by (auto simp: rbind_eq_Inr split: if_splits)
  moreover have "store_inv sn f (w1, nbs1)" "nbs_root nbs1 = prev" "mem_content nbs1 = Map.empty"
    using flush prev by blast+
  ultimately show ?thesis by (intro that [OF prev f _ _ s w2(1) u inv(2)])
qed

text \<open>A store over a directory, and all compactions it started, is a store of chunks.\<close>

interpretation nbs: chunk_store f "\<lambda>(w, nbs) h. nbs_Get sn w nbs h" "\<lambda>(w, nbs) h. nbs_Has w nbs h"
  "\<lambda>(w, nbs) c. nbs_Put w nbs c" "\<lambda>(w, nbs). nbs_Root nbs"
  "\<lambda>(w, nbs) current prev. rbind (nbs_UpdateRoot sn w nbs current prev) (\<lambda>(w', nbs', ok). Inr ((w', nbs'), ok))"
  "store_inv sn f" "store_content sn"
  for f :: "hash \<Rightarrow> bytes" and sn :: libs
proof (unfold_locales, goal_cases)
  case (1 s h d)
  then show ?case
    by (cases s) (simp add: nbs_Get_ok NewChunkWithHash_def Chunk_Hash_def Chunk_Data_def
        del: store_content.simps store_inv.simps)
next
  case (2 s h)
  then show ?case by (cases s) (simp add: nbs_Get_ok del: store_content.simps store_inv.simps)
next
  case (3 s h)
  then show ?case by (cases s) (simp add: nbs_Has_ok del: store_content.simps store_inv.simps)
next
  case (4 s c s')
  obtain w nbs w' nbs' where s: "s = (w, nbs)" "s' = (w', nbs')" by (metis surj_pair)
  obtain nbs1 where add: "nbs_addChunk w nbs (Chunk_Hash c) (Chunk_Data c) = Inr (w', nbs1, True)"
    and nbs': "nbs' = nbs1\<lparr>nbs_putCount := nbs_putCount nbs1 + 1\<rparr>"
    using 4(2) s by (auto simp: nbs_Put_def rbind_eq_Inr split: if_splits)
  show ?case
    using nbs_addChunk_ok [of sn f, OF _ add 4(3)] 4(1) s nbs' by (simp add: nbs_Root_def)
next
  case (5 s current prev s')
  obtain w nbs w' nbs' where s: "s = (w, nbs)" "s' = (w', nbs')" by (metis surj_pair)
  have "store_inv sn f (w, nbs)" "nbs_UpdateRoot sn w nbs current prev = Inr (w', nbs', True)"
    using 5 s by (auto simp: rbind_eq_Inr)
  then show ?case
    by (rule nbs_UpdateRootE) (simp add: s nbs_Root_def)
next
  case (6 s current prev s')
  obtain w nbs w' nbs' where s: "s = (w, nbs)" "s' = (w', nbs')" by (metis surj_pair)
  have "store_inv sn f (w, nbs)" "nbs_UpdateRoot sn w nbs current prev = Inr (w', nbs', False)"
    using 6 s by (auto simp: rbind_eq_Inr)
  then show ?case
  proof (rule nbs_UpdateRootE, goal_cases)
    case (1 w1 nbs1 w2 specs dir actual tableNames)
    let ?w = "w2\<lparr>w_dir := dir\<rparr>"
    obtain ts where ts: "Union sn ?w (nbs_tables nbs1) tableNames = Inr (w', ts)"
      "nbs' = nbs1\<lparr>nbs_root := actual, nbs_tables := ts\<rparr>" using 1(15) by blast
    have inv: "world_ok sn f ?w" "ts_ok sn f ?w (nbs_tables nbs1)" using 1(10) by simp_all
    note u = Union_success [OF inv ts(1)]
    have "file_inv (w_dir w')"
      using compactions_ok [OF _ inv] u file_inv_cong [of "w_dir w'" "w_dir ?w"] 1(10) by simp
    then have "store_inv sn f (w', nbs')" using u ts(2) 1(10) by simp
    moreover have "store_content sn (w, nbs) = css_content sn ?w (nbs_tables nbs1)"
      using 1(11,12) by simp
    ultimately show ?case using u ts(2) 1(12) s by simp
  qed
qed

subsection \<open>Runs of a store\<close>

text \<open>
  A run: puts, root updates (successful or not) and background compactions, in any order. The list
  has the chunks that were put.
\<close>

inductive nbs_run ::
    "libs \<Rightarrow> world \<times> NomsBlockStore \<Rightarrow> Chunk list \<Rightarrow> world \<times> NomsBlockStore \<Rightarrow> bool" for sn s where
  run_start: "nbs_run sn s [] s"
| run_put: "nbs_run sn s cs (w, nbs) \<Longrightarrow> nbs_Put w nbs c = Inr (w', nbs') \<Longrightarrow> nbs_run sn s (cs @ [c]) (w', nbs')"
| run_update: "nbs_run sn s cs (w, nbs) \<Longrightarrow> nbs_UpdateRoot sn w nbs current prev = Inr (w', nbs', ok)
    \<Longrightarrow> nbs_run sn s cs (w', nbs')"
| run_compact: "nbs_run sn s cs (w, nbs) \<Longrightarrow> i < length (w_ccs w) \<Longrightarrow> compact_step sn w i = Inr w'
    \<Longrightarrow> nbs_run sn s cs (w', nbs)"

lemma addressed_append: "addressed f (cs @ ds) \<longleftrightarrow> addressed f cs \<and> addressed f ds"
  by (simp add: addressed_def)

lemma store_content_fun:
  assumes "store_inv sn f (w, nbs)" "store_content sn (w, nbs) h = Some d"
  shows "d = f h"
proof -
  have "list_all (source_below sn f (length (w_ccs w))) (nbs_tables nbs)" "world_ok sn f w"
    using assms(1) by (simp_all add: ts_ok_def)
  then have "within f (css_content sn w (nbs_tables nbs))" using css_below_ok by blast
  then show ?thesis
    using assms within_SomeD mem_content_Some [of f nbs h d] by (auto simp: map_add_Some_iff)
qed

lemma nbs_run_ok:
  assumes "nbs_run sn s cs s'" "store_inv sn f s" "addressed f cs"
  shows "store_inv sn f s' \<and> dom (store_content sn s) \<union> Chunk_Hash ` set cs \<subseteq> dom (store_content sn s')"
  using assms
proof (induction rule: nbs_run.induct)
  case (run_put cs w nbs c w' nbs')
  have c: "f (Chunk_Hash c) = Chunk_Data c" and cs: "addressed f cs"
    using run_put.prems(2) by (simp_all add: addressed_append)
  have IH: "store_inv sn f (w, nbs)" "dom (store_content sn s) \<union> Chunk_Hash ` set cs \<subseteq> dom (store_content sn (w, nbs))"
    using run_put.IH [OF run_put.prems(1) cs] by simp_all
  have "store_inv sn f (w', nbs')"
    "store_content sn (w', nbs') = (store_content sn (w, nbs))(Chunk_Hash c \<mapsto> Chunk_Data c)"
    using nbs.put_content [of sn f "(w, nbs)" c "(w', nbs')"] IH(1) run_put.hyps(2) c by auto
  then show ?case using IH(2) by (auto simp del: store_content.simps store_inv.simps)
next
  case (run_update cs w nbs current prev w' nbs' ok)
  have IH: "store_inv sn f (w, nbs)" "dom (store_content sn s) \<union> Chunk_Hash ` set cs \<subseteq> dom (store_content sn (w, nbs))"
    using run_update by simp_all
  show ?case
  proof (cases ok)
    case True
    then show ?thesis
      using nbs.update_true [of sn f "(w, nbs)" current prev "(w', nbs')"] IH run_update.hyps(2)
      by (simp del: store_content.simps store_inv.simps)
  next
    case False
    then have "store_inv sn f (w', nbs')" "store_content sn (w, nbs) \<subseteq>\<^sub>m store_content sn (w', nbs')"
      using nbs.update_false [of sn f "(w, nbs)" current prev "(w', nbs')"] IH(1) run_update.hyps(2)
      by (simp_all del: store_content.simps store_inv.simps)
    then show ?thesis using IH(2) map_le_implies_dom_le by blast
  qed
next
  case (run_compact cs w nbs i w')
  have IH: "store_inv sn f (w, nbs)" "dom (store_content sn s) \<union> Chunk_Hash ` set cs \<subseteq> dom (store_content sn (w, nbs))"
    using run_compact by simp_all
  then have "world_ok sn f w" "ts_ok sn f w (nbs_tables nbs)" by simp_all
  note step = ts_ok_compact_step [OF this(1) run_compact.hyps(2,3) this(2)]
  then have "file_inv (w_dir w')" using file_inv_cong [of "w_dir w'" "w_dir w"] IH(1) by simp
  then show ?case using step IH by simp
qed simp

text \<open>
  C19: no chunk is lost. In any run of puts, root updates (including those that fail because another
  process has moved the root) and background compactions, every chunk that was put is there
  afterwards, with its data.
\<close>

theorem nbs_keeps_puts:
  assumes "store_inv sn f s" "nbs_run sn s cs (w, nbs)" "addressed f cs" "c \<in> set cs"
  shows "nbs_Has w nbs (Chunk_Hash c) = Inr True
    \<and> nbs_Get sn w nbs (Chunk_Hash c) = Inr (NewChunkWithHash (Chunk_Hash c) (Some (Chunk_Data c)))"
proof -
  have inv: "store_inv sn f (w, nbs)" and dom: "Chunk_Hash c \<in> dom (store_content sn (w, nbs))"
    using nbs_run_ok [OF assms(2,1,3)] assms(4) by auto
  then obtain d where d: "store_content sn (w, nbs) (Chunk_Hash c) = Some d" by blast
  have "d = Chunk_Data c"
    using store_content_fun [OF inv d] assms(3,4) by (simp add: addressed_def list_all_iff)
  then show ?thesis
    using nbs_Has_ok [OF inv] nbs_Get_ok [OF inv] d by (simp del: store_content.simps)
qed

subsection \<open>Puts that succeed\<close>

lemma mt_addChunk_total: "data \<noteq> [] \<Longrightarrow> \<exists>mt' added. mt_addChunk mt h data = Inr (mt', added)"
  by (auto simp: mt_addChunk_def Let_def)

text \<open>
  C20: a put of a chunk that is not empty and fits into a table in memory always succeeds, when the
  current table is full by starting another one, and counts the put.
\<close>

theorem nbs_Put_succeeds:
  assumes "store_inv sn f (w, nbs)" "f (Chunk_Hash c) = Chunk_Data c" "Chunk_Data c \<noteq> []"
    and "length (Chunk_Data c) \<le> unat (nbs_mtSize nbs)"
  shows "\<exists>w' nbs'. nbs_Put w nbs c = Inr (w', nbs') \<and> nbs_putCount nbs' = nbs_putCount nbs + 1
    \<and> store_inv sn f (w', nbs') \<and> store_content sn (w', nbs') = (store_content sn (w, nbs))(Chunk_Hash c \<mapsto> Chunk_Data c)"
proof -
  let ?h = "Chunk_Hash c" and ?d = "Chunk_Data c"
  define mt where "mt = (case nbs_mt nbs of None \<Rightarrow> newMemTable (nbs_mtSize nbs) | Some mt \<Rightarrow> mt)"
  have "length (f ?h) < 2 ^ 63" using assms(1) by simp
  then have size: "nbs_mtSize nbs \<le> 2 ^ 31" "length ?d < 2 ^ 63" using assms(1,2) by simp_all
  have mt: "mt_ok mt" "mt_maxData mt = nbs_mtSize nbs"
    using assms(1) mt_ok_new by (auto simp: mt_def mem_inv_def newMemTable_def split: option.splits)
  obtain mt' added where add: "mt_addChunk mt ?h ?d = Inr (mt', added)"
    using mt_addChunk_total [OF assms(3)] by blast
  have "of_nat (length ?d) \<le> nbs_mtSize nbs"
    using assms(4) size(2) by (simp add: word_le_nat_alt unat_of_nat64)
  then have fresh: "\<exists>mt''. mt_addChunk (newMemTable (nbs_mtSize nbs)) ?h ?d = Inr (mt'', True)"
    using assms(3) by (simp add: mt_addChunk_def newMemTable_def Let_def)
  obtain w' nbs1 where a: "nbs_addChunk w nbs ?h ?d = Inr (w', nbs1, True)" "nbs_putCount nbs1 = nbs_putCount nbs"
    using add fresh
    by (cases added; cases "Prepend w (nbs_tables nbs) mt'") (auto simp: nbs_addChunk_def mt_def [symmetric])
  let ?nbs = "nbs1\<lparr>nbs_putCount := nbs_putCount nbs1 + 1\<rparr>"
  have put: "nbs_Put w nbs c = Inr (w', ?nbs)" using a by (simp add: nbs_Put_def)
  then show ?thesis
    using nbs.put_content [of sn f "(w, nbs)" c "(w', ?nbs)"] assms(1,2) a(2)
    by (intro exI [of _ w'] exI [of _ ?nbs]) (simp del: store_content.simps store_inv.simps)
qed

subsection \<open>Durability\<close>

lemma css_content_settled:
  assumes "list_all2 (\<lambda>s cs. settled w s = Some cs) ts css" "list_all (source_below sn f (length (w_ccs w))) ts"
  shows "css_content sn w ts = css_content sn w' (map Opened (filter (\<lambda>cs. cs \<noteq> EmptySource) css))"
  using assms
proof (induction rule: list_all2_induct)
  case (Cons s ts cs css)
  then have "source_content sn w s = reader_content sn (SourceReader cs)"
    by (intro source_content_settled [of sn f]) auto
  moreover have "source_content sn w' (Opened cs) = reader_content sn (SourceReader cs)"
    by (simp add: source_content_def source_reader_def)
  ultimately show ?case using Cons by simp
qed simp

lemma css_content_Opened:
  "list_all2 (\<lambda>cs cs'. reader_content sn (SourceReader cs) = reader_content sn (SourceReader cs')) css css'
    \<Longrightarrow> css_content sn w (map Opened css) = css_content sn w' (map Opened css')"
  by (induction rule: list_all2_induct) (simp_all add: source_content_def source_reader_def)

text \<open>What a process finds that opens the directory later.\<close>

definition on_disk :: "world \<Rightarrow> world" where
  "on_disk w = \<lparr>w_dir = w_dir w, w_ccs = []\<rparr>"

definition recorded_specs :: "world \<Rightarrow> tableSpec list" where
  "recorded_specs w = (case file_abs (w_dir w) of None \<Rightarrow> [] | Some (_, specs) \<Rightarrow> specs)"

lemma NewLocalStore_specs:
  assumes "snappy_ok sn" "file_inv (w_dir w)" "file_abs (w_dir w) = Some (root, map spec_of css)"
    and "list_all (\<lambda>cs. cs \<noteq> EmptySource \<and> persisted sn f (w_dir w) cs) css"
  shows "\<exists>os. NewLocalStore sn (on_disk w) n = Inr (on_disk w, \<lparr>nbs_nomsVersion = NomsVersion, nbs_mt = None,
      nbs_mtSize = (if n = 0 then defaultMemTableSize else n), nbs_tables = map Opened os, nbs_root = root, nbs_putCount = 0\<rparr>)
    \<and> ts_ok sn f (on_disk w) (map Opened os)
    \<and> css_content sn (on_disk w) (map Opened os) = css_content sn (on_disk w) (map Opened css)"
proof -
  let ?ms = "map (\<lambda>cs. reader_content sn (SourceReader cs)) css"
  have "spec_opens sn f (w_dir w) (spec_name (spec_of cs)) (spec_chunkCount (spec_of cs)) (reader_content sn (SourceReader cs))"
    if "cs \<in> set css" for cs
    using assms(4) that by (cases cs) (auto simp: spec_of_def mmap_hash_def list_all_iff)
  then have "list_all2 (\<lambda>spec. spec_opens sn f (w_dir w) (spec_name spec) (spec_chunkCount spec)) (map spec_of css) ?ms"
    by (simp add: list_all2_map1 list_all2_map2 list_all2_same)
  from open_specs_ok [OF assms(1) this] obtain os where
    os: "mapM_res (\<lambda>spec. fs_Open (w_dir w) (spec_name spec) (spec_chunkCount spec)) (map spec_of css) = Inr os"
    "list_all2 (\<lambda>cs m. reader_inv sn (SourceReader cs) \<and> reader_content sn (SourceReader cs) = m
      \<and> within f m \<and> persisted sn f (w_dir w) cs) os ?ms" by blast
  have "list_all (source_below sn f 0) (map Opened os)"
    using os(2) by (auto simp: list_all_length list_all2_conv_all_nth)
  moreover have "chain_ok sn (on_disk w) (map Opened os)" by (induction os) simp_all
  ultimately have ts: "ts_ok sn f (on_disk w) (map Opened os)" by (simp add: ts_ok_def on_disk_def)
  have "list_all2 (\<lambda>cs cs'. reader_content sn (SourceReader cs) = reader_content sn (SourceReader cs')) os css"
    using os(2) by (simp add: list_all2_conv_all_nth)
  then have content: "css_content sn (on_disk w) (map Opened os) = css_content sn (on_disk w) (map Opened css)"
    by (rule css_content_Opened)
  have "ParseIfExists (w_dir w) = Inr (Some (NomsVersion, root, map spec_of css))"
    using fm.parse [OF assms(2)] assms(3) by simp
  moreover have "Union sn (on_disk w) [] (map spec_of css) = Inr (on_disk w, map Opened os)"
    using os(1) by (simp add: Union_def on_disk_def)
  ultimately show ?thesis
    using ts content by (intro exI [of _ os]) (simp add: NewLocalStore_def newNomsBlockStore_def on_disk_def)
qed

lemma nbs_Get_cong:
  assumes "store_inv sn f (w, nbs)" "store_inv sn f' (w', nbs')" "store_content sn (w', nbs') = store_content sn (w, nbs)"
  shows "nbs_Get sn w' nbs' h = nbs_Get sn w nbs h"
  using nbs_Get_ok [OF assms(1)] nbs_Get_ok [OF assms(2)] assms(3) by simp

text \<open>
  The conditions for durability: the open tables are those of the directory, no compaction overwrites
  a table of the same name with other chunks, and the directory has the root the store has seen.
\<close>

definition durable_inv :: "libs \<Rightarrow> (hash \<Rightarrow> bytes) \<Rightarrow> world \<Rightarrow> NomsBlockStore \<Rightarrow> bool" where
  "durable_inv sn f w nbs \<longleftrightarrow>
     list_all (persisted_in sn f w) (nbs_tables nbs) \<and> no_clobber sn f (fst (UpdateRoot_flush w nbs))
     \<and> nbs_root nbs = recorded_root (file_abs (w_dir w))"

lemma UpdateRoot_flush_cases:
  assumes "UpdateRoot_flush w nbs = (w1, nbs1)"
  obtains (same) "w1 = w" "nbs1 = nbs"
  | (prepend) mt where "nbs_mt nbs = Some mt" "mt_count mt > 0" "Prepend w (nbs_tables nbs) mt = (w1, nbs_tables nbs1)"
proof (cases "nbs_mt nbs")
  case (Some mt)
  then show ?thesis
    using assms that
    by (cases "mt_count mt > 0"; cases "Prepend w (nbs_tables nbs) mt") (auto simp: UpdateRoot_flush_def)
qed (use assms that in \<open>simp add: UpdateRoot_flush_def\<close>)

lemma persisted_Prepend:
  assumes "ts_ok sn f w ts" "Prepend w ts mt = (w1, ts1)" "list_all (persisted_in sn f w) ts"
  shows "list_all (persisted_in sn f w1) ts1"
proof -
  have w1: "w1 = w\<lparr>w_ccs := w_ccs w @ [\<lparr>ccs_mt = Some mt, ccs_haver = ts, ccs_cs = None\<rparr>]\<rparr>"
    and ts1: "ts1 = Compacting (length (w_ccs w)) # ts"
    using assms(2) by (auto simp: Prepend_def newCompactingChunkSource_def)
  have "persisted_in sn f w1 s" if "s \<in> set ts" for s
  proof -
    have "source_below sn f (length (w_ccs w)) s" "persisted_in sn f w s"
      using assms(1,3) that by (simp_all add: ts_ok_def list_all_iff)
    then show ?thesis by (cases s) (simp_all add: persisted_in_def settled_def pending_def w1 nth_append)
  qed
  moreover have "persisted_in sn f w1 (Compacting (length (w_ccs w)))"
    by (simp add: persisted_in_def settled_def pending_def w1)
  ultimately show ?thesis by (simp add: ts1 list_all_iff)
qed

lemma persisted_flush:
  assumes "store_inv sn f (w, nbs)" "UpdateRoot_flush w nbs = (w1, nbs1)" "list_all (persisted_in sn f w) (nbs_tables nbs)"
  shows "list_all (persisted_in sn f w1) (nbs_tables nbs1)"
  using assms(2)
proof (cases rule: UpdateRoot_flush_cases)
  case (prepend mt)
  then show ?thesis using persisted_Prepend [OF _ prepend(3) assms(3)] assms(1) by simp
qed (use assms(3) in simp)

text \<open>
  C21: durability. Suppose that the open tables of a store are those of its directory, that no compaction to come
  overwrites a table file by one of the same name with other chunks, and that the directory has the root the store
  has seen (\<open>durable_inv\<close>; C24 shows an update that succeeds without the last condition). After a root update that
  succeeded and recorded no empty table (C22 shows one that does), a process that opens the directory finds the new
  root and every chunk of the store, those included that were only in memory.
\<close>

theorem UpdateRoot_durable:
  assumes "store_inv sn f (w, nbs)" "durable_inv sn f w nbs"
    and "nbs_UpdateRoot sn w nbs current prev = Inr (w', nbs', True)"
    and "0 \<notin> spec_chunkCount ` set (recorded_specs w')" and "n \<le> 2 ^ 31"
  shows "\<exists>nbs''. NewLocalStore sn (on_disk w') n = Inr (on_disk w', nbs'') \<and> nbs_Root nbs'' = current
    \<and> (\<forall>h. nbs_Get sn (on_disk w') nbs'' h = nbs_Get sn w nbs h)"
  using assms(1,3)
proof (rule nbs_UpdateRootE, goal_cases)
  case (1 w1 nbs1 w2 specs dir actual tableNames)
  have ok1: "world_ok sn f w1" "ts_ok sn f w1 (nbs_tables nbs1)" using 1(3) by simp_all
  have w': "w' = w2\<lparr>w_dir := dir\<rparr>" using 1(14) by simp
  have root: "prev = recorded_root (file_abs (w_dir w2))" using assms(2) 1(1,9) by (simp add: durable_inv_def)
  have inv2: "file_inv (w_dir w2)"
    using compactions_ok [OF 1(6) ok1] file_inv_cong [of "w_dir w2" "w_dir w1"] 1(3) by simp
  have dir: "file_inv dir" "dir_tables dir = dir_tables (w_dir w2)" "file_abs dir = Some (current, specs)"
    using fileManifest_Update_cases [OF inv2 1(8)] root by auto
  obtain css where css: "list_all2 (\<lambda>s cs. settled w2 s = Some cs) (nbs_tables nbs1) css"
    "0 \<notin> spec_chunkCount ` set specs \<longrightarrow> specs = map spec_of (filter (\<lambda>cs. cs \<noteq> EmptySource) css)"
    using ToSpecs_ok [OF ok1] 1(5) by (metis Inr_inject prod.inject)
  let ?css = "filter (\<lambda>cs. cs \<noteq> EmptySource) css"
  have specs: "specs = map spec_of ?css" using css(2) assms(4) dir(3) w' by (simp add: recorded_specs_def)
  have "list_all (persisted_in sn f w1) (nbs_tables nbs1)"
    using persisted_flush [OF assms(1) 1(2)] assms(2) by (simp add: durable_inv_def)
  moreover have "no_clobber sn f w1" using assms(2) 1(2) by (simp add: durable_inv_def)
  ultimately have "list_all (persisted_in sn f w2) (nbs_tables nbs1)"
    using persisted_compactions [OF 1(6) ok1(1)] by (simp add: list_all_iff)
  then have "list_all (persisted sn f (w_dir w2)) css"
    using css(1) by (simp add: list_all_length list_all2_conv_all_nth persisted_in_def)
  moreover have "persisted sn f dir cs \<longleftrightarrow> persisted sn f (w_dir w2) cs" for cs
    using dir(2) by (cases cs) (simp_all add: spec_opens_def)
  ultimately have pers: "list_all (\<lambda>cs. cs \<noteq> EmptySource \<and> persisted sn f (w_dir w') cs) ?css"
    by (auto simp: list_all_iff w')
  have sn: "snappy_ok sn" using ok1(1) by (simp add: world_ok_def)
  obtain os where os: "NewLocalStore sn (on_disk w') n = Inr (on_disk w', \<lparr>nbs_nomsVersion = NomsVersion, nbs_mt = None,
      nbs_mtSize = (if n = 0 then defaultMemTableSize else n), nbs_tables = map Opened os, nbs_root = current, nbs_putCount = 0\<rparr>)"
    "ts_ok sn f (on_disk w') (map Opened os)"
    "css_content sn (on_disk w') (map Opened os) = css_content sn (on_disk w') (map Opened ?css)"
    using NewLocalStore_specs [OF sn _ _ pers, of current n] dir specs w' by auto
  let ?nbs = "\<lparr>nbs_nomsVersion = NomsVersion, nbs_mt = None,
      nbs_mtSize = (if n = 0 then defaultMemTableSize else n), nbs_tables = map Opened os, nbs_root = current, nbs_putCount = 0\<rparr>"
  have "world_ok sn f (on_disk w')"
    using 1(10) w' by (simp add: world_ok_def on_disk_def)
  then have inv: "store_inv sn f (on_disk w', ?nbs)"
    using os(2) 1(10) assms(5) w' by (simp add: mem_inv_def on_disk_def defaultMemTableSize_def)
  have "ts_ok sn f w2 (nbs_tables nbs1)" using 1(10) by simp
  then have "css_content sn w2 (nbs_tables nbs1) = css_content sn (on_disk w') (map Opened ?css)"
    by (intro css_content_settled [OF css(1), of sn f]) (simp add: ts_ok_def)
  then have "store_content sn (on_disk w', ?nbs) = store_content sn (w, nbs)"
    using os(3) 1(11,12) by (simp add: mem_content_def)
  then show ?case
    using os(1) nbs_Get_cong [OF assms(1) inv] by (intro exI [of _ ?nbs]) (simp add: nbs_Root_def del: store_content.simps)
qed

subsection \<open>Manifests that do not describe the store\<close>

lemma nbs_UpdateRoot_current:
  assumes "store_inv sn f (w, nbs)" "nbs_root nbs = prev" "prev = recorded_root (file_abs (w_dir w))"
    and "UpdateRoot_flush w nbs = (w1, nbs1)" "ToSpecs sn w1 (nbs_tables nbs1) = Inr (w2, specs)" "compactions sn w1 w2"
  shows "\<exists>dir. nbs_UpdateRoot sn w nbs current prev
      = Inr (w2\<lparr>w_dir := dir\<rparr>, nbs1\<lparr>nbs_nomsVersion := NomsVersion, nbs_root := current\<rparr>, True)
    \<and> file_inv dir \<and> file_abs dir = Some (current, specs) \<and> dir_tables dir = dir_tables (w_dir w2)"
proof -
  note flush = UpdateRoot_flush_ok [OF assms(1,4)]
  then have ok1: "world_ok sn f w1" "ts_ok sn f w1 (nbs_tables nbs1)" by simp_all
  have same: "dir_manifest (w_dir w2) = dir_manifest (w_dir w)" "dir_lock (w_dir w2) = dir_lock (w_dir w)"
    using compactions_ok [OF assms(6) ok1] flush by simp_all
  then have "file_inv (w_dir w2)" "prev = recorded_root (file_abs (w_dir w2))"
    using file_inv_cong [OF same] assms(1,3) by simp_all
  from fileManifest_Update_current [OF this, of specs current]
  show ?thesis using assms(2,4,5) flush by (auto simp: nbs_UpdateRoot_def Let_def)
qed

lemma compact_step_redundant:
  assumes "world_ok sn f w" "i < length (w_ccs w)" "ccs_mt (w_ccs w ! i) = Some mt"
    and "dom (mt_chunks mt) \<subseteq> dom (css_content sn w (ccs_haver (w_ccs w ! i)))"
  obtains w' where "compact_step sn w i = Inr w'" "compactions sn w w'" "world_ok sn f w'"
    "w_ccs w' = (w_ccs w)[i := (w_ccs w ! i)\<lparr>ccs_mt := None, ccs_cs := Some EmptySource\<rparr>]" "w_dir w' = w_dir w"
proof -
  obtain w' where w': "compact_step sn w i = Inr w'" "compacted sn w w' i" "world_ok sn f w'"
    "length (w_ccs w') = length (w_ccs w)" using compact_step_ok [OF assms(1,2)] by blast
  have "left_over sn w mt (ccs_haver (w_ccs w ! i)) = Map.empty"
    using assms(4) by (auto simp: left_over_def restrict_map_def fun_eq_iff)
  then have "w_ccs w' = (w_ccs w)[i := (w_ccs w ! i)\<lparr>ccs_mt := None, ccs_cs := Some EmptySource\<rparr>]" "w_dir w' = w_dir w"
    using w'(2) assms(2,3) by (auto simp: compacted_def)
  then show ?thesis
    using that w' assms(2) compactions_step [OF compactions_refl assms(2) w'(1)] by simp
qed

lemma source_hash_settled:
  "settled w s = Some cs \<Longrightarrow> source_below sn f (length (w_ccs w)) s \<Longrightarrow> source_hash sn w s = Inr (w, chunkSource_hash cs)"
  by (cases s) (auto simp: source_hash_def source_wait_def settled_def compact_step_def pending_def split: if_splits)

lemma ToSpecs_settled:
  assumes "world_ok sn f w" "list_all (source_below sn f (length (w_ccs w))) ts" "list_all (\<lambda>s. settled w s \<noteq> None) ts"
  shows "\<exists>specs. foldM_res (ToSpecs_step sn) (w, acc) ts = Inr (w, acc @ specs)"
  using assms(2,3)
proof (induction ts arbitrary: acc)
  case (Cons s ts)
  then obtain cs where cs: "settled w s = Some cs" "source_below sn f (length (w_ccs w)) s" by auto
  obtain c where c: "source_count w s = Inr c" by (rule source_count_zero [OF assms(1) cs(2)])
  let ?new = "if c > 0 then [\<lparr>spec_name = chunkSource_hash cs, spec_chunkCount = c\<rparr>] else []"
  have "ToSpecs_step sn (w, acc) s = Inr (w, acc @ ?new)"
    using c source_hash_settled [OF cs] by (simp add: ToSpecs_step_def)
  then show ?case using Cons.IH [of "acc @ ?new"] Cons.prems by auto
qed simp

lemma ToSpecs_redundant:
  assumes "world_ok sn f w" "ts_ok sn f w ts" "mt_writable mt" "within f (mt_chunks mt)"
    and "dom (mt_chunks mt) \<subseteq> dom (css_content sn w ts)" "Prepend w ts mt = (w1, ts1)"
    and "list_all (\<lambda>s. settled w s \<noteq> None) ts"
  obtains w2 specs where "ToSpecs sn w1 ts1 = Inr (w2, \<lparr>spec_name = emptyHash, spec_chunkCount = 0\<rparr> # specs)"
    "compactions sn w1 w2" "w_dir w2 = w_dir w"
proof -
  let ?n = "length (w_ccs w)" and ?e = "\<lparr>spec_name = emptyHash, spec_chunkCount = 0\<rparr> :: tableSpec"
  have pre: "world_ok sn f w1" using Prepend_ok [OF assms(1-4,6)] by simp
  have ts: "list_all (source_below sn f ?n) ts" using assms(2) by (simp add: ts_ok_def)
  have w1: "w1 = w\<lparr>w_ccs := w_ccs w @ [\<lparr>ccs_mt = Some mt, ccs_haver = ts, ccs_cs = None\<rparr>]\<rparr>" and ts1: "ts1 = Compacting ?n # ts"
    using assms(6) by (auto simp: Prepend_def newCompactingChunkSource_def)
  have n: "?n < length (w_ccs w1)" "ccs_mt (w_ccs w1 ! ?n) = Some mt" by (simp_all add: w1)
  have "dom (mt_chunks mt) \<subseteq> dom (css_content sn w1 (ccs_haver (w_ccs w1 ! ?n)))"
    using assms(5) css_content_extend [OF ts] by (simp add: w1)
  from compact_step_redundant [OF pre n this]
  obtain w' where w': "compact_step sn w1 ?n = Inr w'" "compactions sn w1 w'" "world_ok sn f w'"
    "w_ccs w' = w_ccs w @ [\<lparr>ccs_mt = None, ccs_haver = ts, ccs_cs = Some EmptySource\<rparr>]" "w_dir w' = w_dir w"
    by (auto simp: w1 nth_append list_update_append)
  have "mt_count mt > 0" using reader_count_pos [of sn "MemReader mt"] assms(3) by simp
  then have step: "ToSpecs_step sn (w1, []) (Compacting ?n) = Inr (w', [?e])"
    using w'(1,4) n
    by (simp add: ToSpecs_step_def source_count_def source_hash_def source_wait_def source_reader_def getReader_def
        ecs_hash_def ecs_count_def)
  have "settled w' s \<noteq> None" if "s \<in> set ts" for s
  proof -
    have "settled w s \<noteq> None" "source_below sn f ?n s" using assms(7) ts that by (auto simp: list_all_iff)
    then show ?thesis by (cases s) (auto simp: settled_def pending_def w'(4) nth_append split: if_splits)
  qed
  then have "list_all (\<lambda>s. settled w' s \<noteq> None) ts" by (simp only: list_all_iff) blast
  moreover have "list_all (source_below sn f (length (w_ccs w'))) ts" using ts w'(4) by (simp add: below_all)
  ultimately obtain specs where "foldM_res (ToSpecs_step sn) (w', [?e]) ts = Inr (w', [?e] @ specs)"
    using ToSpecs_settled [OF w'(3)] by blast
  then show ?thesis using that [of w' specs] step w'(2,5) by (simp add: ToSpecs_def ts1)
qed

text \<open>
  C22: a store that cannot be opened again. When everything in the table in memory is already in
  older tables (the same chunks were put again), and \<open>UpdateRoot\<close> asks for the number of chunks before
  the compaction ends and for the name afterwards, it records the empty table; the update succeeds,
  but whoever opens the directory next panics.
\<close>

theorem UpdateRoot_redundant_breaks:
  assumes "store_inv sn f (w, nbs)" "nbs_mt nbs = Some mt" "mt_order mt \<noteq> []"
    and "dom (mt_chunks mt) \<subseteq> dom (css_content sn w (nbs_tables nbs))"
    and "list_all (\<lambda>s. settled w s \<noteq> None) (nbs_tables nbs)"
    and "nbs_root nbs = recorded_root (file_abs (w_dir w))" "dir_tables (w_dir w) (addr_String emptyHash) = None"
  shows "\<exists>w' nbs'. nbs_UpdateRoot sn w nbs current (nbs_root nbs) = Inr (w', nbs', True)
    \<and> NewLocalStore sn (on_disk w') n = Inl (IOError ''open'')"
proof -
  have mt: "mt_ok mt" "mt_maxData mt \<le> 2 ^ 31" "within f (mt_chunks mt)" "world_ok sn f w" "ts_ok sn f w (nbs_tables nbs)"
    using assms(1,2) by (simp_all add: mem_inv_def)
  have writable: "mt_writable mt" by (rule mt_writable_bounded [OF mt(1) assms(3) mt(2)])
  obtain w1 ts1 where p: "Prepend w (nbs_tables nbs) mt = (w1, ts1)" by fastforce
  have "mt_count mt > 0" using reader_count_pos [of sn "MemReader mt"] writable by simp
  then have flush: "UpdateRoot_flush w nbs = (w1, nbs\<lparr>nbs_tables := ts1, nbs_mt := None\<rparr>)"
    using assms(2) p by (simp add: UpdateRoot_flush_def)
  let ?e = "\<lparr>spec_name = emptyHash, spec_chunkCount = 0\<rparr>"
  obtain w2 specs where specs: "ToSpecs sn w1 ts1 = Inr (w2, ?e # specs)" "compactions sn w1 w2" "w_dir w2 = w_dir w"
    by (rule ToSpecs_redundant [OF mt(4,5) writable mt(3) assms(4) p assms(5)])
  obtain dir where dir: "nbs_UpdateRoot sn w nbs current (nbs_root nbs) = Inr (w2\<lparr>w_dir := dir\<rparr>,
      nbs\<lparr>nbs_tables := ts1, nbs_mt := None, nbs_nomsVersion := NomsVersion, nbs_root := current\<rparr>, True)"
    "file_inv dir" "file_abs dir = Some (current, ?e # specs)" "dir_tables dir = dir_tables (w_dir w)"
    using nbs_UpdateRoot_current [OF assms(1) refl assms(6) flush _ specs(2), of "?e # specs" current] specs(1,3) by auto
  have "ParseIfExists dir = Inr (Some (NomsVersion, current, ?e # specs))" using fm.parse [OF dir(2)] dir(3) by simp
  then show ?thesis
    using dir(1,4) assms(7) by (simp add: NewLocalStore_def newNomsBlockStore_def on_disk_def Union_def fs_Open_def newMmapTableReader_def)
qed

text \<open>
  C23: of two processes that opened the same directory when it was empty, one flushes chunks, which
  leaves the root as it is. When the other one, which has put nothing, flushes too, the manifest is
  replaced, although it had changed in the meantime: no table is recorded any more, and the chunks
  of the first process are not found by those who open the directory later.
\<close>

theorem Flush_forgets_tables:
  assumes "file_inv (w_dir w)" "file_abs (w_dir w) = Some (nbs_root nbs, specs)" "nbs_tables nbs = []" "nbs_mt nbs = None"
  shows "\<exists>w' nbs' nbs''. nbs_Flush sn w nbs = Inr (w', nbs') \<and> NewLocalStore sn (on_disk w') n = Inr (on_disk w', nbs'')
    \<and> nbs_Root nbs'' = nbs_root nbs \<and> nbs_Has (on_disk w') nbs'' h = Inr False"
proof -
  obtain dir specs' where dir: "fileManifest_Update (w_dir w) [] (nbs_root nbs) (nbs_root nbs) = Inr (dir, nbs_root nbs, specs')"
    "file_inv dir" "file_abs dir = Some (nbs_root nbs, [])"
    using fileManifest_Update_current [OF assms(1), of "nbs_root nbs" "[]" "nbs_root nbs"] assms(2)
    by (auto simp: recorded_root_def)
  have "nbs_Flush sn w nbs = Inr (w\<lparr>w_dir := dir\<rparr>, nbs\<lparr>nbs_nomsVersion := NomsVersion, nbs_root := nbs_root nbs\<rparr>)"
    using assms(3,4) dir(1) by (simp add: nbs_Flush_def nbs_UpdateRoot_def UpdateRoot_flush_def ToSpecs_def Let_def)
  moreover have "ParseIfExists dir = Inr (Some (NomsVersion, nbs_root nbs, []))" using fm.parse [OF dir(2)] dir(3) by simp
  ultimately show ?thesis
    by (simp add: NewLocalStore_def newNomsBlockStore_def on_disk_def Union_def nbs_Root_def nbs_Has_def)
qed

text \<open>
  C24: an update that claims a root it did not record. When another process has set the root to the
  very value that \<open>UpdateRoot\<close> is to set, it returns true, although the manifest is the one of the
  other process and the tables of this store are not in it.
\<close>

theorem UpdateRoot_true_unrecorded:
  assumes "store_inv sn f (w, nbs)" "file_abs (w_dir w) = Some (current, specs)" "current \<noteq> nbs_root nbs"
  shows "\<exists>w' nbs'. nbs_UpdateRoot sn w nbs current (nbs_root nbs) = Inr (w', nbs', True)
    \<and> file_abs (w_dir w') = Some (current, specs)"
proof -
  obtain w1 nbs1 where f: "UpdateRoot_flush w nbs = (w1, nbs1)" by fastforce
  note flush = UpdateRoot_flush_ok [OF assms(1) f]
  then have ok1: "world_ok sn f w1" "ts_ok sn f w1 (nbs_tables nbs1)" by simp_all
  obtain w2 specs2 where s: "ToSpecs sn w1 (nbs_tables nbs1) = Inr (w2, specs2)" "compactions sn w1 w2"
    by (rule ToSpecs_ok [OF ok1])
  have same: "dir_manifest (w_dir w2) = dir_manifest (w_dir w)" "dir_lock (w_dir w2) = dir_lock (w_dir w)"
    using compactions_ok [OF s(2) ok1] flush by simp_all
  have inv: "file_inv (w_dir w2)" "file_abs (w_dir w2) = Some (current, specs)"
    using file_inv_cong [OF same] assms(1,2) by simp_all
  have "fileManifest_Update (w_dir w2) specs2 (nbs_root nbs) current = Inr ((w_dir w2)\<lparr>dir_lock := True\<rparr>, current, specs)"
    by (rule fileManifest_Update_stale [OF inv]) (use assms(3) in simp)
  then show ?thesis
    using f s(1) flush inv(2) by (simp add: nbs_UpdateRoot_def Let_def file_abs_def)
qed

subsection \<open>A store for the witnesses\<close>

definition fresh_store :: NomsBlockStore where
  "fresh_store = \<lparr>nbs_nomsVersion = NomsVersion, nbs_mt = None, nbs_mtSize = 1024, nbs_tables = [],
     nbs_root = emptyHash, nbs_putCount = 0\<rparr>"

definition nine :: Chunk where
  "nine = NewChunkWithHash emptyHash (Some [9])"

lemma nine_ok: "Chunk_Hash nine = emptyHash" "Chunk_Data nine = [9]" "addressed (\<lambda>h. [9]) [nine]"
  by (simp_all add: nine_def NewChunkWithHash_def Chunk_Hash_def Chunk_Data_def addressed_def)

lemma fresh_store_inv: "store_inv stored (\<lambda>h. [9]) (empty_world, fresh_store)"
  using empty_world_ok(1) [OF snappy_ok_stored] by (simp add: fresh_store_def mem_inv_def empty_world_def file_inv_def ts_ok_def)

lemma fresh_put: "nbs_Put empty_world fresh_store nine = Inr (empty_world, fresh_store\<lparr>nbs_mt := Some one_mem, nbs_putCount := 1\<rparr>)"
  by (simp add: nbs_Put_def nbs_addChunk_def fresh_store_def newMemTable_def mt_addChunk_def nine_ok one_mem_def Let_def)

lemma put_store_inv: "store_inv stored (\<lambda>h. [9]) (empty_world, fresh_store\<lparr>nbs_mt := Some one_mem, nbs_putCount := 1\<rparr>)"
  using fresh_store_inv one_mem_ok by (simp add: mem_inv_def mt_writable_def fresh_store_def) (simp add: one_mem_def)

lemma no_clobber_waiting: "no_clobber stored (\<lambda>h. [9]) (fst waiting)"
proof -
  have one: "length (w_ccs (fst waiting)) = 1" "dir_tables (w_dir (fst waiting)) = Map.empty"
    by (simp_all add: waiting_def Prepend_def newCompactingChunkSource_def empty_world_def)
  have len: "world_ok stored (\<lambda>h. [9]) w1 \<and> length (w_ccs w1) = 1" if "compactions stored (fst waiting) w1" for w1
    using compactions_ok [OF that waiting_ok(1,2)] one(1) by simp
  have reach: "\<not> pending w1 0 \<or> dir_tables (w_dir w1) = Map.empty" if "compactions stored (fst waiting) w1" for w1
    using that
  proof (induction "fst waiting" w1 rule: compactions.induct)
    case (compactions_step w1 i w2)
    then have "i = 0" using len by simp
    then show ?case using compact_step_ok [of stored "\<lambda>h. [9]" w1 i] len compactions_step by auto
  qed (simp add: one)
  have "keeps_tables stored (\<lambda>h. [9]) (w_dir w1) (w_dir w2)"
    if "compactions stored (fst waiting) w1" "i < length (w_ccs w1)" "compact_step stored w1 i = Inr w2" for w1 i w2
  proof (cases "pending w1 0")
    case False
    then have "w2 = w1" using len [OF that(1)] that(2,3) by (simp add: compact_step_def pending_def)
    then show ?thesis by (simp add: keeps_tables_def)
  qed (use reach [OF that(1)] in \<open>simp add: keeps_tables_def spec_opens_def\<close>)
  then show ?thesis by (auto simp: no_clobber_def)
qed

lemma waiting_eq: "snd waiting = [Compacting 0]" "0 < length (w_ccs (fst waiting))" "w_dir (fst waiting) = w_dir empty_world"
  by (simp_all add: waiting_def Prepend_def newCompactingChunkSource_def empty_world_def)

lemma waiting_specs:
  obtains w2 cs where "ToSpecs stored (fst waiting) (snd waiting) = Inr (w2, [spec_of cs])"
    "compactions stored (fst waiting) w2" "spec_chunkCount (spec_of cs) \<noteq> 0"
proof -
  have below: "source_below stored (\<lambda>h. [9]) (length (w_ccs (fst waiting))) (Compacting 0)" using waiting_eq by simp
  obtain w' cs where w': "source_hash stored (fst waiting) (Compacting 0) = Inr (w', chunkSource_hash cs)"
    "compactions stored (fst waiting) w'" "settled w' (Compacting 0) = Some cs"
    "source_below stored (\<lambda>h. [9]) (length (w_ccs w')) (Compacting 0)"
    "source_count w' (Compacting 0) = Inr (reader_count (SourceReader cs))" "reader_inv stored (SourceReader cs)"
    by (rule source_hash_ok [OF waiting_ok(1) below])
  have "css_content stored w' (snd waiting) = mt_chunks one_mem"
    using compactions_ok [OF w'(2) waiting_ok(1,2)] waiting_ok(3) by simp
  then have "reader_content stored (SourceReader cs) = mt_chunks one_mem"
    using source_content_settled [OF w'(4,3)] waiting_eq(1) by simp
  then have "cs \<noteq> EmptySource" by (auto simp: one_mem_def fun_eq_iff split: if_splits)
  then have "reader_count (SourceReader cs) > 0" using reader_count_pos [OF w'(6)] by simp
  moreover have "source_count (fst waiting) (Compacting 0) = Inr 1"
    by (simp add: waiting_def Prepend_def newCompactingChunkSource_def empty_world_def source_count_def source_reader_def
        getReader_def mt_count_def one_mem_def)
  ultimately show ?thesis
    using that [of w' cs] w'(1,2,5) waiting_eq(1) by (simp add: ToSpecs_def ToSpecs_step_def spec_of_def)
qed

theorem nbs_keeps_puts_witness:
  "\<exists>w nbs. nbs_run stored (empty_world, fresh_store) [nine] (w, nbs) \<and> nbs_Get stored w nbs emptyHash = Inr nine"
proof -
  let ?nbs = "fresh_store\<lparr>nbs_mt := Some one_mem, nbs_putCount := 1\<rparr>"
  have run: "nbs_run stored (empty_world, fresh_store) [nine] (empty_world, ?nbs)"
    using run_put [OF run_start fresh_put] by simp
  from nbs_keeps_puts [OF fresh_store_inv this nine_ok(3), of nine] run
  show ?thesis by (auto simp: nine_ok) (auto simp: nine_def)
qed

theorem nbs_Put_succeeds_witness:
  "\<exists>w' nbs'. nbs_Put empty_world fresh_store nine = Inr (w', nbs') \<and> nbs_putCount nbs' = 1"
  using nbs_Put_succeeds [OF fresh_store_inv, of nine] by (auto simp: nine_ok fresh_store_def)

theorem UpdateRoot_durable_witness:
  "\<exists>w nbs w' nbs' nbs''. nbs_Put empty_world fresh_store nine = Inr (w, nbs)
    \<and> nbs_UpdateRoot stored w nbs (copy_hash [1]) emptyHash = Inr (w', nbs', True)
    \<and> NewLocalStore stored (on_disk w') 0 = Inr (on_disk w', nbs'') \<and> nbs_Root nbs'' = copy_hash [1]
    \<and> nbs_Get stored (on_disk w') nbs'' emptyHash = Inr nine"
proof -
  let ?nbs = "fresh_store\<lparr>nbs_mt := Some one_mem, nbs_putCount := 1\<rparr>"
  let ?nbs1 = "?nbs\<lparr>nbs_tables := snd waiting, nbs_mt := None\<rparr>"
  have flush: "UpdateRoot_flush empty_world ?nbs = (fst waiting, ?nbs1)"
    by (cases "Prepend empty_world [] one_mem")
      (simp add: UpdateRoot_flush_def mt_count_def waiting_def fresh_store_def, simp add: one_mem_def)
  have root: "nbs_root ?nbs = emptyHash" "recorded_root (file_abs (w_dir empty_world)) = emptyHash"
    by (simp_all add: fresh_store_def empty_world_def file_abs_def recorded_root_def)
  obtain w2 cs where specs: "ToSpecs stored (fst waiting) (snd waiting) = Inr (w2, [spec_of cs])"
    "compactions stored (fst waiting) w2" "spec_chunkCount (spec_of cs) \<noteq> 0" by (rule waiting_specs)
  obtain dir where dir: "nbs_UpdateRoot stored empty_world ?nbs (copy_hash [1]) emptyHash
      = Inr (w2\<lparr>w_dir := dir\<rparr>, ?nbs1\<lparr>nbs_nomsVersion := NomsVersion, nbs_root := copy_hash [1]\<rparr>, True)"
    "file_abs dir = Some (copy_hash [1], [spec_of cs])"
    using nbs_UpdateRoot_current [OF put_store_inv root(1) _ flush] root specs by auto
  have dur: "durable_inv stored (\<lambda>h. [9]) empty_world ?nbs"
    using no_clobber_waiting flush root by (simp add: durable_inv_def fresh_store_def)
  have "0 \<notin> spec_chunkCount ` set (recorded_specs (w2\<lparr>w_dir := dir\<rparr>))"
    using dir(2) specs(3) by (simp add: recorded_specs_def)
  moreover have "nbs_Get stored empty_world ?nbs emptyHash = Inr nine"
    by (simp add: nbs_Get_def mt_get_def) (simp add: one_mem_def nine_def)
  ultimately show ?thesis
    using UpdateRoot_durable [OF put_store_inv dur dir(1), of 0] fresh_put dir(1) by auto
qed

theorem UpdateRoot_redundant_breaks_witness:
  "\<exists>w nbs w' nbs'. nbs_UpdateRoot stored w nbs (copy_hash [1]) emptyHash = Inr (w', nbs', True)
    \<and> NewLocalStore stored (on_disk w') 0 = Inl (IOError ''open'')"
proof -
  let ?cs = "[(emptyHash, [9])] :: table_chunk list"
  have fits: "table_fits stored ?cs" by (simp add: table_fits_def stored_def MaxEncodedLen_def)
  obtain m :: mmapTableReader where m: "table_ok stored (mmap_reader m) ?cs"
    using newMmapTableReader_ok [of "no_manifest\<lparr>dir_tables := \<lambda>_. Some (table_image stored ?cs)\<rparr>" emptyHash, OF _ fits refl] by auto
  have m': "table_inv stored (mmap_reader m)" "table_content stored (mmap_reader m) = mt_chunks one_mem"
    using m snappy_ok_stored table_content_ok [OF snappy_ok_stored m] by (auto simp: table_inv_def one_mem_def)
  let ?nbs = "fresh_store\<lparr>nbs_mt := Some one_mem, nbs_tables := [Opened (TableSource m)]\<rparr>"
  have inv: "store_inv stored (\<lambda>h. [9]) (empty_world, ?nbs)"
    using m' put_store_inv one_mem_ok by (simp add: mem_inv_def ts_ok_def)
  have root: "nbs_root ?nbs = emptyHash" "recorded_root (file_abs (w_dir empty_world)) = emptyHash"
    by (simp_all add: fresh_store_def empty_world_def file_abs_def recorded_root_def)
  have "mt_order one_mem \<noteq> []" by (simp add: one_mem_def)
  then show ?thesis
    using UpdateRoot_redundant_breaks [OF inv, of one_mem "copy_hash [1]" 0] m' root
    by (auto simp: settled_def source_content_def source_reader_def empty_world_def)
qed

theorem Flush_forgets_tables_witness:
  "\<exists>w w' nbs' nbs''. file_abs (w_dir w) = Some (emptyHash, [\<lparr>spec_name = copy_hash [1], spec_chunkCount = 1\<rparr>])
    \<and> nbs_Flush stored w fresh_store = Inr (w', nbs') \<and> NewLocalStore stored (on_disk w') 0 = Inr (on_disk w', nbs'')
    \<and> nbs_Has (on_disk w') nbs'' emptyHash = Inr False"
proof -
  let ?specs = "[\<lparr>spec_name = copy_hash [1], spec_chunkCount = 1\<rparr>]"
  obtain dir where dir: "file_inv dir" "file_abs dir = Some (emptyHash, ?specs)"
    using fm.update_current [OF no_manifest_ok(1), of emptyHash ?specs emptyHash] no_manifest_ok(2)
    by (auto simp: recorded_root_def)
  show ?thesis
    using Flush_forgets_tables [of "empty_world\<lparr>w_dir := dir\<rparr>" fresh_store ?specs stored 0 emptyHash] dir
    by - (rule exI [of _ "empty_world\<lparr>w_dir := dir\<rparr>"], auto simp: fresh_store_def)
qed

theorem UpdateRoot_true_unrecorded_witness:
  "\<exists>w w' nbs'. nbs_UpdateRoot stored w fresh_store (copy_hash [1]) emptyHash = Inr (w', nbs', True)
    \<and> file_abs (w_dir w') = Some (copy_hash [1], [])"
proof -
  obtain dir where dir: "file_inv dir" "file_abs dir = Some (copy_hash [1], [])" "dir_tables dir = dir_tables (w_dir empty_world)"
    using fileManifest_Update_current [of "w_dir empty_world" emptyHash "[]" "copy_hash [1]"]
    by (auto simp: recorded_root_def empty_world_def file_abs_def file_inv_def)
  have "store_inv stored (\<lambda>h. [9]) (empty_world\<lparr>w_dir := dir\<rparr>, fresh_store)"
    using fresh_store_inv world_ok_dir dir(1,3) by simp
  then show ?thesis
    using UpdateRoot_true_unrecorded [of stored "\<lambda>h. [9]" "empty_world\<lparr>w_dir := dir\<rparr>" fresh_store "copy_hash [1]" "[]"] dir(2)
    by - (rule exI [of _ "empty_world\<lparr>w_dir := dir\<rparr>"], simp add: fresh_store_def copy_hash_1_nonempty)
qed

text \<open>
  C18: \<open>CalcReads\<close> does not notice missing chunks. For hashes that none of the open tables has, it returns without a
  panic, with no reads, although it checks that no request remains.
\<close>

theorem CalcReads_misses_absent:
  assumes "list_all (lacks sn (set hashes)) (nbs_tables nbs)"
  shows "\<exists>splt. nbs_CalcReads sn w nbs hashes blockSize maxReadSize ampThresh = Inr (w, 0, splt)"
proof -
  let ?rs = "Sort gr_prefix (toGetRecords hashes)"
  have "get_request ?rs"
    by (auto simp: get_request_def toGetRecords_def list_all_iff)
  moreover have "gr_a ` set ?rs = set hashes"
  proof -
    have "map gr_a (toGetRecords hashes) = hashes"
      by (simp add: toGetRecords_def case_prod_unfold comp_def)
    from arg_cong [OF this, of set] show ?thesis
      by simp
  qed
  ultimately show ?thesis
    using chunkSources_calcReads_absent [of sn ?rs "nbs_tables nbs" w blockSize maxReadSize ampThresh 0 False] assms
    by (auto simp: nbs_CalcReads_def chunkSources_calcReads_def chk_def simp del: set_Sort)
qed

theorem CalcReads_misses_absent_witness:
  "\<exists>nbs splt. nbs_tables nbs \<noteq> [] \<and> nbs_CalcReads stored empty_world nbs [copy_hash [1]] 4096 1048576 5 = Inr (empty_world, 0, splt)"
proof -
  let ?cs = "[(emptyHash, [9])] :: table_chunk list"
  have fits: "table_fits stored ?cs" by (simp add: table_fits_def stored_def MaxEncodedLen_def)
  obtain m :: mmapTableReader where m: "table_ok stored (mmap_reader m) ?cs"
    using newMmapTableReader_ok [of "no_manifest\<lparr>dir_tables := \<lambda>_. Some (table_image stored ?cs)\<rparr>" emptyHash, OF _ fits refl] by auto
  then have "lacks stored (set [copy_hash [1]]) (Opened (TableSource m))"
    using copy_hash_1_nonempty by (fastforce simp: lacks_def)
  then show ?thesis
    using CalcReads_misses_absent [of stored "[copy_hash [1]]" "fresh_store\<lparr>nbs_tables := [Opened (TableSource m)]\<rparr>" empty_world 4096 1048576 5]
    by (intro exI [of _ "fresh_store\<lparr>nbs_tables := [Opened (TableSource m)]\<rparr>"]) simp
qed

end
