(* ===== verification/EditDistance.thy ===== *)
theory EditDistance
  imports Prelude
begin

text \<open>
  The edit distance of two sequences and the splices computed from it (\<open>go/types/edit_distance.go\<close>),
  on which the diffs of lists and blobs rest. The function that compares an element of the previous
  state with one of the current state is an argument, as in the code, and may panic. The \<open>uint64\<close> indices
  and lengths are natural numbers, with the operations that can wrap around taken modulo \<open>2\<^sup>6\<^sup>4\<close>; the
  others stay within the lengths. Every access to a slice is checked. Memory is unlimited.

  The second part has the same computation on plain lists, without panics; the lemmas show that it is what
  the code computes, and what its result is.
\<close>

type_synonym EditDistanceEqualsFn = "nat \<Rightarrow> nat \<Rightarrow> bool res"
type_synonym equals_fn = "nat \<Rightarrow> nat \<Rightarrow> bool"

datatype edit_op = UNCHANGED | UPDATED | INSERTED | REMOVED

record Splice =
  SpAt :: nat
  SpRemoved :: nat
  SpAdded :: nat
  SpFrom :: nat

definition DEFAULT_MAX_SPLICE_MATRIX_SIZE :: nat where
  "DEFAULT_MAX_SPLICE_MATRIX_SIZE = 20000000"

definition SPLICE_UNASSIGNED :: nat where
  "SPLICE_UNASSIGNED = 2 ^ 64 - 1"

definition uint64Min :: "nat \<Rightarrow> nat \<Rightarrow> nat" where
  "uint64Min a b = (if a < b then a else b)"

definition uint64Min3 :: "nat \<Rightarrow> nat \<Rightarrow> nat \<Rightarrow> nat" where
  "uint64Min3 a b c =
     (if a < b then if a < c then a else c
      else if b < c then b else c)"

definition reverse :: "'a list \<Rightarrow> 'a list res" where
  "reverse numbers = mapM_res (\<lambda>i. nth_res numbers (length numbers - i - 1)) [0..<length numbers]"

definition addSplice :: "Splice list \<Rightarrow> Splice \<Rightarrow> Splice list" where
  "addSplice splices s = splices @ [if SpFrom s = SPLICE_UNASSIGNED then s\<lparr>SpFrom := 0\<rparr> else s]"

text \<open>\<open>x--\<close> on a \<open>uint64\<close>\<close>

definition dec64 :: "nat \<Rightarrow> nat" where
  "dec64 x = (if x = 0 then 2 ^ 64 - 1 else x - 1)"

fun sharedPrefix_loop :: "EditDistanceEqualsFn \<Rightarrow> nat \<Rightarrow> nat \<Rightarrow> nat res" where
  "sharedPrefix_loop eqFn i 0 = Inr i"
| "sharedPrefix_loop eqFn i (Suc n) = rbind (eqFn i i) (\<lambda>b. if \<not> b then Inr i else sharedPrefix_loop eqFn (Suc i) n)"

definition sharedPrefix :: "EditDistanceEqualsFn \<Rightarrow> nat \<Rightarrow> nat res" where
  "sharedPrefix eqFn searchLength = sharedPrefix_loop eqFn 0 searchLength"

fun sharedSuffix_loop :: "EditDistanceEqualsFn \<Rightarrow> nat \<Rightarrow> nat \<Rightarrow> nat \<Rightarrow> nat \<Rightarrow> nat res" where
  "sharedSuffix_loop eqFn prev cur cnt 0 = Inr cnt"
| "sharedSuffix_loop eqFn prev cur cnt (Suc n) =
     rbind (eqFn prev cur) (\<lambda>b. if b then sharedSuffix_loop eqFn (dec64 prev) (dec64 cur) (Suc cnt) n else Inr cnt)"

definition sharedSuffix :: "EditDistanceEqualsFn \<Rightarrow> nat \<Rightarrow> nat \<Rightarrow> nat \<Rightarrow> nat res" where
  "sharedSuffix eqFn previousLength currentLength searchLength =
     sharedSuffix_loop eqFn (dec64 previousLength) (dec64 currentLength) 0 searchLength"

subsection \<open>The matrix of distances\<close>

definition get_cell :: "'a list list \<Rightarrow> nat \<Rightarrow> nat \<Rightarrow> 'a res" where
  "get_cell m i j = rbind (nth_res m i) (\<lambda>row. nth_res row j)"

definition set_cell :: "'a list list \<Rightarrow> nat \<Rightarrow> nat \<Rightarrow> 'a \<Rightarrow> 'a list list res" where
  "set_cell m i j v =
     rbind (nth_res m i) (\<lambda>row. if j < length row then Inr (m[i := row[j := v]]) else Inl IndexOutOfRange)"

text \<open>The rows are slices of one allocation, which is too short if its size wraps around.\<close>

fun carve_rows :: "nat \<Rightarrow> nat \<Rightarrow> 'a list \<Rightarrow> 'a list list res" where
  "carve_rows 0 columnCount distance = Inr []"
| "carve_rows (Suc n) columnCount distance =
     rbind (slice_res distance 0 columnCount) (\<lambda>row. rbind (from_res distance columnCount) (\<lambda>distance.
     rbind (carve_rows n columnCount distance) (\<lambda>rows. Inr (row # rows))))"

definition distance_step ::
    "EditDistanceEqualsFn \<Rightarrow> nat \<Rightarrow> nat \<Rightarrow> nat list list \<Rightarrow> nat \<Rightarrow> nat \<Rightarrow> nat list list res" where
  "distance_step eqFn previousStart currentStart distances i j =
     rbind (eqFn (previousStart + i - 1) (currentStart + j - 1)) (\<lambda>b.
       if b then rbind (get_cell distances (i - 1) (j - 1)) (set_cell distances i j)
       else rbind (get_cell distances (i - 1) j) (\<lambda>north. rbind (get_cell distances i (j - 1)) (\<lambda>west.
              set_cell distances i j (uint64Min (north + 1) (west + 1)))))"

definition calcEditDistances ::
    "EditDistanceEqualsFn \<Rightarrow> nat \<Rightarrow> nat \<Rightarrow> nat \<Rightarrow> nat \<Rightarrow> nat list list res" where
  "calcEditDistances eqFn previousStart previousLen currentStart currentLen =
     (let rowCount = (previousLen + 1) mod 2 ^ 64; columnCount = (currentLen + 1) mod 2 ^ 64
      in rbind (carve_rows rowCount columnCount (replicate (rowCount * columnCount mod 2 ^ 64) 0)) (\<lambda>distances.
         rbind (foldM_res (\<lambda>m i. set_cell m i 0 i) distances [0..<rowCount]) (\<lambda>distances.
         rbind (foldM_res (\<lambda>m j. set_cell m 0 j j) distances [0..<columnCount]) (\<lambda>distances.
           foldM_res (\<lambda>m i. foldM_res (\<lambda>m j. distance_step eqFn previousStart currentStart m i j) m [1..<columnCount])
             distances [1..<rowCount]))))"

definition choose_op :: "nat \<Rightarrow> nat \<Rightarrow> nat \<Rightarrow> nat \<Rightarrow> edit_op" where
  "choose_op northWest west north current =
     (let minValue = uint64Min3 west north northWest
      in if minValue = northWest then if northWest = current then UNCHANGED else UPDATED
         else if minValue = west then REMOVED else INSERTED)"

fun operations_loop :: "nat list list \<Rightarrow> nat \<Rightarrow> nat \<Rightarrow> nat \<Rightarrow> edit_op list \<Rightarrow> edit_op list res" where
  "operations_loop distances 0 0 current edits = Inr edits"
| "operations_loop distances 0 (Suc j) current edits = operations_loop distances 0 j current (edits @ [INSERTED])"
| "operations_loop distances (Suc i) 0 current edits = operations_loop distances i 0 current (edits @ [REMOVED])"
| "operations_loop distances (Suc i) (Suc j) current edits =
     rbind (get_cell distances i j) (\<lambda>northWest. rbind (get_cell distances i (Suc j)) (\<lambda>west.
     rbind (get_cell distances (Suc i) j) (\<lambda>north.
       case choose_op northWest west north current of
         UNCHANGED \<Rightarrow> operations_loop distances i j current (edits @ [UNCHANGED])
       | UPDATED \<Rightarrow> operations_loop distances i j northWest (edits @ [UPDATED])
       | REMOVED \<Rightarrow> operations_loop distances i (Suc j) west (edits @ [REMOVED])
       | INSERTED \<Rightarrow> operations_loop distances (Suc i) j north (edits @ [INSERTED]))))"

definition operationsFromEditDistances :: "nat list list \<Rightarrow> edit_op list res" where
  "operationsFromEditDistances distances =
     rbind (nth_res distances 0) (\<lambda>row.
       let i = length distances - 1; j = length row - 1
       in rbind (get_cell distances i j) (\<lambda>current. rbind (operations_loop distances i j current []) reverse))"

subsection \<open>Splices\<close>

record splice_state =
  ss_splices :: "Splice list"
  ss_splice :: "Splice option"
  ss_index :: nat
  ss_previousIndex :: nat

definition open_splice :: "splice_state \<Rightarrow> Splice" where
  "open_splice st = (case ss_splice st of
     Some s \<Rightarrow> s
   | None \<Rightarrow> \<lparr>SpAt = ss_index st, SpRemoved = 0, SpAdded = 0, SpFrom = SPLICE_UNASSIGNED\<rparr>)"

definition assign_from :: "splice_state \<Rightarrow> Splice \<Rightarrow> Splice" where
  "assign_from st s = (if SpFrom s = SPLICE_UNASSIGNED then s\<lparr>SpFrom := ss_previousIndex st\<rparr> else s)"

fun splice_step :: "splice_state \<Rightarrow> edit_op \<Rightarrow> splice_state" where
  "splice_step st UNCHANGED =
     (let st = (case ss_splice st of
                  Some s \<Rightarrow> st\<lparr>ss_splices := addSplice (ss_splices st) s, ss_splice := None\<rparr>
                | None \<Rightarrow> st)
      in st\<lparr>ss_index := ss_index st + 1, ss_previousIndex := ss_previousIndex st + 1\<rparr>)"
| "splice_step st UPDATED =
     (let s = assign_from st (open_splice st)
      in st\<lparr>ss_splice := Some (s\<lparr>SpRemoved := SpRemoved s + 1, SpAdded := SpAdded s + 1\<rparr>),
            ss_index := ss_index st + 1, ss_previousIndex := ss_previousIndex st + 1\<rparr>)"
| "splice_step st INSERTED =
     (let s = open_splice st
      in st\<lparr>ss_splice := Some (assign_from st (s\<lparr>SpAdded := SpAdded s + 1\<rparr>)),
            ss_previousIndex := ss_previousIndex st + 1\<rparr>)"
| "splice_step st REMOVED =
     (let s = open_splice st
      in st\<lparr>ss_splice := Some (s\<lparr>SpRemoved := SpRemoved s + 1\<rparr>), ss_index := ss_index st + 1\<rparr>)"

definition calcSplices :: "nat \<Rightarrow> nat \<Rightarrow> nat \<Rightarrow> EditDistanceEqualsFn \<Rightarrow> Splice list res" where
  "calcSplices previousLength currentLength maxSpliceMatrixSize eqFn =
     (let minLength = uint64Min previousLength currentLength
      in rbind (sharedPrefix eqFn minLength) (\<lambda>prefixCount.
         rbind (sharedSuffix eqFn previousLength currentLength (minLength - prefixCount)) (\<lambda>suffixCount.
         let previousStart = prefixCount;
             currentStart = prefixCount;
             previousEnd = previousLength - suffixCount;
             currentEnd = currentLength - suffixCount
         in if currentEnd - currentStart = 0 \<and> previousEnd - previousStart = 0 then Inr []
            else if currentStart = currentEnd
            then Inr [\<lparr>SpAt = previousStart, SpRemoved = previousEnd - previousStart, SpAdded = 0, SpFrom = 0\<rparr>]
            else if previousStart = previousEnd
            then Inr [\<lparr>SpAt = previousStart, SpRemoved = 0, SpAdded = currentEnd - currentStart, SpFrom = currentStart\<rparr>]
            else let previousLength = previousEnd - previousStart;
                     currentLength = currentEnd - currentStart
                 in if previousLength * currentLength mod 2 ^ 64 > maxSpliceMatrixSize
                    then Inr [\<lparr>SpAt = 0, SpRemoved = previousLength, SpAdded = currentLength, SpFrom = 0\<rparr>]
                    else rbind (calcEditDistances eqFn previousStart previousLength currentStart currentLength) (\<lambda>distances.
                         rbind (operationsFromEditDistances distances) (\<lambda>ops.
                         let st = foldl splice_step \<lparr>ss_splices = [], ss_splice = None, ss_index = currentStart,
                                                      ss_previousIndex = previousStart\<rparr> ops
                         in Inr (case ss_splice st of None \<Rightarrow> ss_splices st | Some s \<Rightarrow> addSplice (ss_splices st) s))))))"

subsection \<open>The computation without panics\<close>

definition reverse_spec :: "'a list \<Rightarrow> 'a list" where
  "reverse_spec numbers = map (\<lambda>i. numbers ! (length numbers - i - 1)) [0..<length numbers]"

fun sharedPrefix_loop_spec :: "equals_fn \<Rightarrow> nat \<Rightarrow> nat \<Rightarrow> nat" where
  "sharedPrefix_loop_spec eqFn i 0 = i"
| "sharedPrefix_loop_spec eqFn i (Suc n) = (if \<not> eqFn i i then i else sharedPrefix_loop_spec eqFn (Suc i) n)"

definition sharedPrefix_spec :: "equals_fn \<Rightarrow> nat \<Rightarrow> nat" where
  "sharedPrefix_spec eqFn searchLength = sharedPrefix_loop_spec eqFn 0 searchLength"

fun sharedSuffix_loop_spec :: "equals_fn \<Rightarrow> nat \<Rightarrow> nat \<Rightarrow> nat \<Rightarrow> nat \<Rightarrow> nat" where
  "sharedSuffix_loop_spec eqFn prev cur cnt 0 = cnt"
| "sharedSuffix_loop_spec eqFn prev cur cnt (Suc n) =
     (if eqFn prev cur then sharedSuffix_loop_spec eqFn (prev - 1) (cur - 1) (Suc cnt) n else cnt)"

definition sharedSuffix_spec :: "equals_fn \<Rightarrow> nat \<Rightarrow> nat \<Rightarrow> nat \<Rightarrow> nat" where
  "sharedSuffix_spec eqFn previousLength currentLength searchLength =
     sharedSuffix_loop_spec eqFn (previousLength - 1) (currentLength - 1) 0 searchLength"

definition set_cell_spec :: "'a list list \<Rightarrow> nat \<Rightarrow> nat \<Rightarrow> 'a \<Rightarrow> 'a list list" where
  "set_cell_spec m i j v = m[i := (m ! i)[j := v]]"

definition distance_step_spec ::
    "equals_fn \<Rightarrow> nat \<Rightarrow> nat \<Rightarrow> nat list list \<Rightarrow> nat \<Rightarrow> nat \<Rightarrow> nat list list" where
  "distance_step_spec eqFn previousStart currentStart distances i j =
     (if eqFn (previousStart + i - 1) (currentStart + j - 1)
      then set_cell_spec distances i j (distances ! (i - 1) ! (j - 1))
      else let north = distances ! (i - 1) ! j + 1;
               west = distances ! i ! (j - 1) + 1
           in set_cell_spec distances i j (uint64Min north west))"

definition calcEditDistances_spec ::
    "equals_fn \<Rightarrow> nat \<Rightarrow> nat \<Rightarrow> nat \<Rightarrow> nat \<Rightarrow> nat list list" where
  "calcEditDistances_spec eqFn previousStart previousLen currentStart currentLen =
     (let rowCount = previousLen + 1;
          columnCount = currentLen + 1;
          distances = replicate rowCount (replicate columnCount 0);
          distances = foldl (\<lambda>m i. set_cell_spec m i 0 i) distances [0..<rowCount];
          distances = foldl (\<lambda>m j. set_cell_spec m 0 j j) distances [0..<columnCount]
      in foldl (\<lambda>m i. foldl (\<lambda>m j. distance_step_spec eqFn previousStart currentStart m i j) m [1..<columnCount])
           distances [1..<rowCount])"

fun operations_loop_spec :: "nat list list \<Rightarrow> nat \<Rightarrow> nat \<Rightarrow> nat \<Rightarrow> edit_op list \<Rightarrow> edit_op list" where
  "operations_loop_spec distances 0 0 current edits = edits"
| "operations_loop_spec distances 0 (Suc j) current edits = operations_loop_spec distances 0 j current (edits @ [INSERTED])"
| "operations_loop_spec distances (Suc i) 0 current edits = operations_loop_spec distances i 0 current (edits @ [REMOVED])"
| "operations_loop_spec distances (Suc i) (Suc j) current edits =
     (case choose_op (distances ! i ! j) (distances ! i ! Suc j) (distances ! Suc i ! j) current of
        UNCHANGED \<Rightarrow> operations_loop_spec distances i j current (edits @ [UNCHANGED])
      | UPDATED \<Rightarrow> operations_loop_spec distances i j (distances ! i ! j) (edits @ [UPDATED])
      | REMOVED \<Rightarrow> operations_loop_spec distances i (Suc j) (distances ! i ! Suc j) (edits @ [REMOVED])
      | INSERTED \<Rightarrow> operations_loop_spec distances (Suc i) j (distances ! Suc i ! j) (edits @ [INSERTED]))"

definition operationsFromEditDistances_spec :: "nat list list \<Rightarrow> edit_op list" where
  "operationsFromEditDistances_spec distances =
     (let i = length distances - 1; j = length (distances ! 0) - 1
      in reverse_spec (operations_loop_spec distances i j (distances ! i ! j) []))"

definition calcSplices_spec :: "nat \<Rightarrow> nat \<Rightarrow> nat \<Rightarrow> equals_fn \<Rightarrow> Splice list" where
  "calcSplices_spec previousLength currentLength maxSpliceMatrixSize eqFn =
     (let minLength = uint64Min previousLength currentLength;
          prefixCount = sharedPrefix_spec eqFn minLength;
          suffixCount = sharedSuffix_spec eqFn previousLength currentLength (minLength - prefixCount);
          previousStart = prefixCount;
          currentStart = prefixCount;
          previousEnd = previousLength - suffixCount;
          currentEnd = currentLength - suffixCount
      in if currentEnd - currentStart = 0 \<and> previousEnd - previousStart = 0 then []
         else if currentStart = currentEnd
         then [\<lparr>SpAt = previousStart, SpRemoved = previousEnd - previousStart, SpAdded = 0, SpFrom = 0\<rparr>]
         else if previousStart = previousEnd
         then [\<lparr>SpAt = previousStart, SpRemoved = 0, SpAdded = currentEnd - currentStart, SpFrom = currentStart\<rparr>]
         else let previousLength = previousEnd - previousStart;
                  currentLength = currentEnd - currentStart
              in if previousLength * currentLength mod 2 ^ 64 > maxSpliceMatrixSize
                 then [\<lparr>SpAt = 0, SpRemoved = previousLength, SpAdded = currentLength, SpFrom = 0\<rparr>]
                 else let distances = calcEditDistances_spec eqFn previousStart previousLength currentStart currentLength;
                          ops = operationsFromEditDistances_spec distances;
                          st = foldl splice_step \<lparr>ss_splices = [], ss_splice = None, ss_index = currentStart,
                                                   ss_previousIndex = previousStart\<rparr> ops
                      in case ss_splice st of None \<Rightarrow> ss_splices st | Some s \<Rightarrow> addSplice (ss_splices st) s)"

subsection \<open>The matrix holds the distances\<close>

text \<open>The distance of the first \<open>i\<close> elements of one sequence and the first \<open>j\<close> of another.\<close>

fun dist :: "equals_fn \<Rightarrow> nat \<Rightarrow> nat \<Rightarrow> nat \<Rightarrow> nat \<Rightarrow> nat" where
  "dist eqFn ps cs 0 j = j"
| "dist eqFn ps cs (Suc i) 0 = Suc i"
| "dist eqFn ps cs (Suc i) (Suc j) =
     (if eqFn (ps + i) (cs + j) then dist eqFn ps cs i j
      else min (dist eqFn ps cs i (Suc j)) (dist eqFn ps cs (Suc i) j) + 1)"

lemma dist_0 [simp]: "dist eqFn ps cs i 0 = i"
  by (cases i) simp_all

definition shape :: "nat \<Rightarrow> nat \<Rightarrow> nat list list \<Rightarrow> bool" where
  "shape r c m \<longleftrightarrow> length m = r \<and> (\<forall>row \<in> set m. length row = c)"

lemma shape_set_cell [simp]: "shape r c m \<Longrightarrow> i < r \<Longrightarrow> shape r c (set_cell_spec m i j v)"
  by (auto simp: shape_def set_cell_spec_def dest!: in_set_conv_nth [THEN iffD1]) (metis length_list_update nth_list_update nth_mem)

lemma cell_set_cell:
  assumes "shape r c m" "i < r" "j < c" "a < r" "b < c"
  shows "set_cell_spec m i j v ! a ! b = (if a = i \<and> b = j then v else m ! a ! b)"
  using assms by (auto simp: shape_def set_cell_spec_def nth_list_update)

lemma init_column:
  assumes "shape r c m" "0 < c" "n \<le> r"
  shows "shape r c (foldl (\<lambda>m i. set_cell_spec m i 0 i) m [0..<n])
    \<and> (\<forall>a < r. \<forall>b < c. foldl (\<lambda>m i. set_cell_spec m i 0 i) m [0..<n] ! a ! b = (if b = 0 \<and> a < n then a else m ! a ! b))"
  using assms(3)
proof (induction n)
  case (Suc n)
  then have n: "n < r" by simp
  show ?case using Suc.IH n assms(2) by (auto simp: cell_set_cell less_Suc_eq)
qed (use assms(1) in simp)

lemma init_row:
  assumes "shape r c m" "0 < r" "n \<le> c"
  shows "shape r c (foldl (\<lambda>m j. set_cell_spec m 0 j j) m [0..<n])
    \<and> (\<forall>a < r. \<forall>b < c. foldl (\<lambda>m j. set_cell_spec m 0 j j) m [0..<n] ! a ! b = (if a = 0 \<and> b < n then b else m ! a ! b))"
  using assms(3)
proof (induction n)
  case (Suc n)
  then have n: "n < c" by simp
  show ?case using Suc.IH n assms(2) by (auto simp: cell_set_cell less_Suc_eq)
qed (use assms(1) in simp)

text \<open>After \<open>k\<close> rows are filled, the first row and the first column are as initialized.\<close>

definition filled :: "equals_fn \<Rightarrow> nat \<Rightarrow> nat \<Rightarrow> nat \<Rightarrow> nat \<Rightarrow> nat \<Rightarrow> nat list list \<Rightarrow> bool" where
  "filled eqFn ps cs r c k m \<longleftrightarrow>
     shape r c m \<and> (\<forall>a < r. \<forall>b < c. a \<le> k \<or> b = 0 \<longrightarrow> m ! a ! b = dist eqFn ps cs a b)"

lemma distance_step_cell:
  assumes "shape r c m" "Suc i < r" "Suc j < c" "m ! i ! j = dist eqFn ps cs i j"
    "m ! i ! Suc j = dist eqFn ps cs i (Suc j)" "m ! Suc i ! j = dist eqFn ps cs (Suc i) j"
  shows "distance_step_spec eqFn ps cs m (Suc i) (Suc j) = set_cell_spec m (Suc i) (Suc j) (dist eqFn ps cs (Suc i) (Suc j))"
  using assms(4-6) by (simp add: distance_step_spec_def Let_def uint64Min_def min_def)

lemma fill_row:
  assumes "filled eqFn ps cs r c i m" "Suc i < r" "n < c"
  shows "shape r c (foldl (\<lambda>m j. distance_step_spec eqFn ps cs m (Suc i) j) m [1..<Suc n])
    \<and> (\<forall>a < r. \<forall>b < c. foldl (\<lambda>m j. distance_step_spec eqFn ps cs m (Suc i) j) m [1..<Suc n] ! a ! b
        = (if a = Suc i \<and> b \<le> n then dist eqFn ps cs a b else m ! a ! b))"
  using assms(3)
proof (induction n)
  case 0
  then show ?case using assms(1,2) by (auto simp: filled_def)
next
  case (Suc n)
  define M where "M = foldl (\<lambda>m j. distance_step_spec eqFn ps cs m (Suc i) j) m [1..<Suc n]"
  have n: "n < c" "Suc n < c" using Suc.prems by simp_all
  have sh: "shape r c M" and cells: "\<And>a b. a < r \<Longrightarrow> b < c \<Longrightarrow>
      M ! a ! b = (if a = Suc i \<and> b \<le> n then dist eqFn ps cs a b else m ! a ! b)"
    using Suc.IH n(1) unfolding M_def by blast+
  have known: "\<And>b. b < c \<Longrightarrow> m ! i ! b = dist eqFn ps cs i b" using assms(1,2) by (simp add: filled_def)
  have "distance_step_spec eqFn ps cs M (Suc i) (Suc n) = set_cell_spec M (Suc i) (Suc n) (dist eqFn ps cs (Suc i) (Suc n))"
    using assms(2) n known cells by (intro distance_step_cell [OF sh]) simp_all
  then have eq: "foldl (\<lambda>m j. distance_step_spec eqFn ps cs m (Suc i) j) m [1..<Suc (Suc n)]
      = set_cell_spec M (Suc i) (Suc n) (dist eqFn ps cs (Suc i) (Suc n))"
    by (subst upt_Suc) (simp add: M_def del: upt_Suc)
  have "set_cell_spec M (Suc i) (Suc n) (dist eqFn ps cs (Suc i) (Suc n)) ! a ! b
      = (if a = Suc i \<and> b \<le> Suc n then dist eqFn ps cs a b else m ! a ! b)" if "a < r" "b < c" for a b
    using cell_set_cell [OF sh assms(2) n(2) that] cells [OF that] by (auto simp: le_Suc_eq split: if_splits)
  then show ?case unfolding eq using shape_set_cell [OF sh assms(2)] by blast
qed

lemma fill_rows:
  assumes "filled eqFn ps cs r c 0 m" "0 < c" "k < r"
  shows "filled eqFn ps cs r c k
    (foldl (\<lambda>m i. foldl (\<lambda>m j. distance_step_spec eqFn ps cs m i j) m [1..<c]) m [1..<Suc k])"
  using assms(3)
proof (induction k)
  case 0
  then show ?case using assms(1) by simp
next
  case (Suc k)
  define M where "M = foldl (\<lambda>m i. foldl (\<lambda>m j. distance_step_spec eqFn ps cs m i j) m [1..<c]) m [1..<Suc k]"
  define M' where "M' = foldl (\<lambda>m j. distance_step_spec eqFn ps cs m (Suc k) j) M [1..<c]"
  obtain n where c: "c = Suc n" using assms(2) by (cases c) auto
  have IH: "filled eqFn ps cs r c k M" using Suc unfolding M_def by simp
  have row: "shape r c M'" "\<And>a b. a < r \<Longrightarrow> b < c \<Longrightarrow> M' ! a ! b = (if a = Suc k then dist eqFn ps cs a b else M ! a ! b)"
    using fill_row [OF IH Suc.prems, of n] unfolding c M'_def by simp_all
  have "filled eqFn ps cs r c (Suc k) M'"
    using IH row unfolding filled_def by (auto simp: le_Suc_eq)
  moreover have "foldl (\<lambda>m i. foldl (\<lambda>m j. distance_step_spec eqFn ps cs m i j) m [1..<c]) m [1..<Suc (Suc k)] = M'"
    by (subst upt_Suc) (simp add: M_def M'_def del: upt_Suc)
  ultimately show ?case by simp
qed

lemma calcEditDistances_cells:
  assumes "i \<le> pl" "j \<le> cl"
  shows "calcEditDistances_spec eqFn ps pl cs cl ! i ! j = dist eqFn ps cs i j"
    and "shape (pl + 1) (cl + 1) (calcEditDistances_spec eqFn ps pl cs cl)"
proof -
  let ?m = "replicate (pl + 1) (replicate (cl + 1) 0)"
  define M1 where "M1 = foldl (\<lambda>m i. set_cell_spec m i 0 i) ?m [0..<pl + 1]"
  define M2 where "M2 = foldl (\<lambda>m j. set_cell_spec m 0 j j) M1 [0..<cl + 1]"
  have m: "shape (pl + 1) (cl + 1) ?m" by (simp add: shape_def)
  have m1: "shape (pl + 1) (cl + 1) M1" "\<And>a b. a < pl + 1 \<Longrightarrow> b < cl + 1 \<Longrightarrow> b = 0 \<Longrightarrow> M1 ! a ! b = a"
    using init_column [OF m, of "pl + 1"] unfolding M1_def by simp_all
  have m2: "shape (pl + 1) (cl + 1) M2"
    "\<And>a b. a < pl + 1 \<Longrightarrow> b < cl + 1 \<Longrightarrow> M2 ! a ! b = (if a = 0 then b else M1 ! a ! b)"
    using init_row [OF m1(1), of "cl + 1"] unfolding M2_def by simp_all
  have "filled eqFn ps cs (pl + 1) (cl + 1) 0 M2"
    unfolding filled_def using m1(2) m2 by auto
  from fill_rows [OF this, of pl]
  have "filled eqFn ps cs (pl + 1) (cl + 1) pl (calcEditDistances_spec eqFn ps pl cs cl)"
    unfolding calcEditDistances_spec_def Let_def M1_def M2_def by simp
  then show "calcEditDistances_spec eqFn ps pl cs cl ! i ! j = dist eqFn ps cs i j"
    and "shape (pl + 1) (cl + 1) (calcEditDistances_spec eqFn ps pl cs cl)"
    using assms by (auto simp: filled_def)
qed

subsection \<open>The operations are a script\<close>

text \<open>A script leads from one pair of positions to another, and leaves only equal elements unchanged.\<close>

fun script :: "equals_fn \<Rightarrow> edit_op list \<Rightarrow> nat \<Rightarrow> nat \<Rightarrow> nat \<Rightarrow> nat \<Rightarrow> bool" where
  "script eqFn [] p c p' c' \<longleftrightarrow> p = p' \<and> c = c'"
| "script eqFn (UNCHANGED # ops) p c p' c' \<longleftrightarrow> eqFn p c \<and> script eqFn ops (Suc p) (Suc c) p' c'"
| "script eqFn (UPDATED # ops) p c p' c' \<longleftrightarrow> script eqFn ops (Suc p) (Suc c) p' c'"
| "script eqFn (INSERTED # ops) p c p' c' \<longleftrightarrow> script eqFn ops p (Suc c) p' c'"
| "script eqFn (REMOVED # ops) p c p' c' \<longleftrightarrow> script eqFn ops (Suc p) c p' c'"

lemma script_append:
  "script eqFn (xs @ ys) p c p' c' \<longleftrightarrow> (\<exists>p1 c1. script eqFn xs p c p1 c1 \<and> script eqFn ys p1 c1 p' c')"
  by (induction eqFn xs p c p' c' rule: script.induct) auto

lemma script_le: "script eqFn ops p c p' c' \<Longrightarrow> p \<le> p' \<and> c \<le> c'"
  by (induction eqFn ops p c p' c' rule: script.induct) auto

lemma choose_op_unchanged:
  assumes "choose_op (dist eqFn ps cs i j) (dist eqFn ps cs i (Suc j)) (dist eqFn ps cs (Suc i) j)
    (dist eqFn ps cs (Suc i) (Suc j)) = UNCHANGED"
  shows "eqFn (ps + i) (cs + j)"
  using assms by (auto simp: choose_op_def uint64Min3_def Let_def min_def split: if_splits)

lemma operations_loop_script:
  assumes "\<And>a b. a \<le> i \<Longrightarrow> b \<le> j \<Longrightarrow> m ! a ! b = dist eqFn ps cs a b"
    and "0 < i \<Longrightarrow> 0 < j \<Longrightarrow> current = dist eqFn ps cs i j"
  shows "\<exists>ops. operations_loop_spec m i j current edits = edits @ ops \<and> script eqFn (rev ops) ps cs (ps + i) (cs + j)"
  using assms
proof (induction m i j current edits rule: operations_loop_spec.induct)
  case (2 m j current edits)
  then obtain ops where "operations_loop_spec m 0 j current (edits @ [INSERTED]) = (edits @ [INSERTED]) @ ops"
    "script eqFn (rev ops) ps cs ps (cs + j)" by fastforce
  then show ?case by (intro exI [of _ "INSERTED # ops"]) (simp add: script_append)
next
  case (3 m i current edits)
  then obtain ops where "operations_loop_spec m i 0 current (edits @ [REMOVED]) = (edits @ [REMOVED]) @ ops"
    "script eqFn (rev ops) ps cs (ps + i) cs" by fastforce
  then show ?case by (intro exI [of _ "REMOVED # ops"]) (simp add: script_append)
next
  case (4 m i j current edits)
  have cells: "m ! i ! j = dist eqFn ps cs i j" "m ! i ! Suc j = dist eqFn ps cs i (Suc j)"
    "m ! Suc i ! j = dist eqFn ps cs (Suc i) j" and cur: "current = dist eqFn ps cs (Suc i) (Suc j)"
    using 4(5) [of i j] 4(5) [of i "Suc j"] 4(5) [of "Suc i" j] 4(6) by (simp_all del: dist.simps)
  note sub = 4(5) [OF le_SucI le_SucI] 4(5) [OF le_SucI] 4(5) [OF _ le_SucI]
  let ?op = "choose_op (m ! i ! j) (m ! i ! Suc j) (m ! Suc i ! j) current"
  show ?case
  proof (cases ?op)
    case UNCHANGED
    have eq: "eqFn (ps + i) (cs + j)"
      using choose_op_unchanged UNCHANGED unfolding cells cur by blast
    then have "current = dist eqFn ps cs i j" using cur by simp
    then obtain ops where "operations_loop_spec m i j current (edits @ [UNCHANGED]) = (edits @ [UNCHANGED]) @ ops"
      "script eqFn (rev ops) ps cs (ps + i) (cs + j)" using 4(1) [OF UNCHANGED] sub(1) by blast
    then show ?thesis using UNCHANGED eq by (intro exI [of _ "UNCHANGED # ops"]) (simp add: script_append)
  next
    case UPDATED
    obtain ops where "operations_loop_spec m i j (m ! i ! j) (edits @ [UPDATED]) = (edits @ [UPDATED]) @ ops"
      "script eqFn (rev ops) ps cs (ps + i) (cs + j)" using 4(2) [OF UPDATED] sub(1) cells by blast
    then show ?thesis using UPDATED by (intro exI [of _ "UPDATED # ops"]) (simp add: script_append)
  next
    case REMOVED
    obtain ops where "operations_loop_spec m i (Suc j) (m ! i ! Suc j) (edits @ [REMOVED]) = (edits @ [REMOVED]) @ ops"
      "script eqFn (rev ops) ps cs (ps + i) (cs + Suc j)" using 4(4) [OF REMOVED] sub(2) cells by blast
    then show ?thesis using REMOVED by (intro exI [of _ "REMOVED # ops"]) (simp add: script_append)
  next
    case INSERTED
    obtain ops where "operations_loop_spec m (Suc i) j (m ! Suc i ! j) (edits @ [INSERTED]) = (edits @ [INSERTED]) @ ops"
      "script eqFn (rev ops) ps cs (ps + Suc i) (cs + j)" using 4(3) [OF INSERTED] sub(3) cells by blast
    then show ?thesis using INSERTED by (intro exI [of _ "INSERTED # ops"]) (simp add: script_append)
  qed
qed auto

lemma reverse_rev: "reverse_spec xs = rev xs"
  by (rule nth_equalityI) (simp_all add: reverse_spec_def rev_nth)

lemma operations_script:
  "script eqFn (operationsFromEditDistances_spec (calcEditDistances_spec eqFn ps pl cs cl)) ps cs (ps + pl) (cs + cl)"
proof -
  let ?m = "calcEditDistances_spec eqFn ps pl cs cl"
  have sh: "length ?m = pl + 1" "length (?m ! 0) = cl + 1"
    using calcEditDistances_cells(2) [of 0 pl 0 cl eqFn ps cs] by (auto simp: shape_def)
  obtain ops where "operations_loop_spec ?m pl cl (?m ! pl ! cl) [] = [] @ ops" "script eqFn (rev ops) ps cs (ps + pl) (cs + cl)"
    using operations_loop_script [of pl cl ?m eqFn ps cs "?m ! pl ! cl" "[]"] calcEditDistances_cells(1) by blast
  then show ?thesis using sh by (simp add: operationsFromEditDistances_spec_def Let_def reverse_rev)
qed

subsection \<open>Applying splices\<close>

text \<open>
  The reading of splices that the code documents: up to \<open>SpAt\<close> the previous state is copied, then
  \<open>SpRemoved\<close> of its elements are left out, and \<open>SpAdded\<close> elements of the current state from \<open>SpFrom\<close> on
  are put in their place.
\<close>

definition apply_splice :: "'a list \<Rightarrow> 'a list \<Rightarrow> 'a list \<times> nat \<Rightarrow> Splice \<Rightarrow> 'a list \<times> nat" where
  "apply_splice xs ys st s =
     (fst st @ take (SpAt s - snd st) (drop (snd st) xs) @ take (SpAdded s) (drop (SpFrom s) ys), SpAt s + SpRemoved s)"

definition apply_splices :: "Splice list \<Rightarrow> 'a list \<Rightarrow> 'a list \<Rightarrow> 'a list" where
  "apply_splices ss xs ys = (case foldl (apply_splice xs ys) ([], 0) ss of (out, at) \<Rightarrow> out @ drop at xs)"

text \<open>The splices are in order and do not overlap.\<close>

fun ordered :: "nat \<Rightarrow> Splice list \<Rightarrow> nat \<Rightarrow> bool" where
  "ordered at [] n \<longleftrightarrow> at \<le> n"
| "ordered at (s # ss) n \<longleftrightarrow> at \<le> SpAt s \<and> ordered (SpAt s + SpRemoved s) ss n"

lemma ordered_mono: "ordered at ss n \<Longrightarrow> n \<le> k \<Longrightarrow> ordered at ss k"
  by (induction at ss n rule: ordered.induct) auto

lemma ordered_snoc: "ordered at (ss @ [s]) n \<longleftrightarrow> ordered at ss (SpAt s) \<and> SpAt s + SpRemoved s \<le> n"
  by (induction at ss n rule: ordered.induct) auto

lemma take_Suc_nth: "n < length xs \<Longrightarrow> take (Suc n) xs = take n xs @ [xs ! n]"
  by (rule take_Suc_conv_app_nth)

definition splice_inv :: "'a list \<Rightarrow> 'a list \<Rightarrow> splice_state \<Rightarrow> bool" where
  "splice_inv xs ys st \<longleftrightarrow>
     (case foldl (apply_splice xs ys) ([], 0) (ss_splices st) of (out, at) \<Rightarrow>
        ss_index st \<le> length xs \<and> ss_previousIndex st \<le> length ys
        \<and> (case ss_splice st of
             None \<Rightarrow> at \<le> ss_index st \<and> ordered 0 (ss_splices st) (ss_index st)
               \<and> out @ take (ss_index st - at) (drop at xs) = take (ss_previousIndex st) ys
           | Some s \<Rightarrow> at \<le> SpAt s \<and> ss_index st = SpAt s + SpRemoved s \<and> ordered 0 (ss_splices st) (SpAt s)
               \<and> (if SpFrom s = SPLICE_UNASSIGNED
                  then SpAdded s = 0 \<and> out @ take (SpAt s - at) (drop at xs) = take (ss_previousIndex st) ys
                  else ss_previousIndex st = SpFrom s + SpAdded s
                    \<and> out @ take (SpAt s - at) (drop at xs) = take (SpFrom s) ys)))"

lemma apply_addSplice:
  assumes "splice_inv xs ys st" "ss_splice st = Some s"
  shows "foldl (apply_splice xs ys) ([], 0) (addSplice (ss_splices st) s) = (take (ss_previousIndex st) ys, ss_index st)"
    and "ordered 0 (addSplice (ss_splices st) s) (ss_index st)"
proof -
  obtain out at where f: "foldl (apply_splice xs ys) ([], 0) (ss_splices st) = (out, at)" by fastforce
  show "foldl (apply_splice xs ys) ([], 0) (addSplice (ss_splices st) s) = (take (ss_previousIndex st) ys, ss_index st)"
    using assms f
    by (cases "SpFrom s = SPLICE_UNASSIGNED")
      (auto simp: splice_inv_def addSplice_def apply_splice_def take_add simp flip: append_assoc)
  show "ordered 0 (addSplice (ss_splices st) s) (ss_index st)"
    using assms f by (auto simp: splice_inv_def addSplice_def ordered_snoc)
qed

lemma open_spliceD:
  assumes "splice_inv xs ys st" "foldl (apply_splice xs ys) ([], 0) (ss_splices st) = (out, at)"
  defines "s \<equiv> open_splice st"
  shows "at \<le> SpAt s" "ss_index st = SpAt s + SpRemoved s" "ordered 0 (ss_splices st) (SpAt s)"
    "if SpFrom s = SPLICE_UNASSIGNED
     then SpAdded s = 0 \<and> out @ take (SpAt s - at) (drop at xs) = take (ss_previousIndex st) ys
     else ss_previousIndex st = SpFrom s + SpAdded s \<and> out @ take (SpAt s - at) (drop at xs) = take (SpFrom s) ys"
  using assms by (cases "ss_splice st"; simp add: splice_inv_def open_splice_def)+

lemma splice_step_UNCHANGED:
  assumes "splice_inv xs ys st" "ss_index st < length xs" "ss_previousIndex st < length ys"
    and "xs ! ss_index st = ys ! ss_previousIndex st"
  shows "splice_inv xs ys (splice_step st UNCHANGED)"
proof (cases "ss_splice st")
  case None
  obtain out at where f: "foldl (apply_splice xs ys) ([], 0) (ss_splices st) = (out, at)" by fastforce
  have at: "at \<le> ss_index st" "ordered 0 (ss_splices st) (ss_index st)"
    and out: "out @ take (ss_index st - at) (drop at xs) = take (ss_previousIndex st) ys"
    using assms(1) f None by (simp_all add: splice_inv_def)
  have "take (Suc (ss_index st) - at) (drop at xs) = take (ss_index st - at) (drop at xs) @ [xs ! ss_index st]"
    using at(1) assms(2) by (simp add: Suc_diff_le take_Suc_conv_app_nth)
  then have "out @ take (Suc (ss_index st) - at) (drop at xs) = take (Suc (ss_previousIndex st)) ys"
    using out assms(3,4) by (simp add: take_Suc_conv_app_nth flip: append_assoc)
  then show ?thesis
    using None f at assms(2,3) ordered_mono by (auto simp: splice_inv_def)
next
  case (Some s)
  then show ?thesis
    using apply_addSplice [OF assms(1) Some] assms(2-4) ordered_mono
    by (auto simp: splice_inv_def take_Suc_conv_app_nth hd_drop_conv_nth take_Suc)
qed

lemma splice_step_inv:
  assumes "splice_inv xs ys st" "length ys < SPLICE_UNASSIGNED"
    and "script eqFn (op # ops) (ss_index st) (ss_previousIndex st) p c" "p \<le> length xs" "c \<le> length ys"
    and "\<And>i j. i < length xs \<Longrightarrow> j < length ys \<Longrightarrow> eqFn i j \<longleftrightarrow> xs ! i = ys ! j"
  shows "splice_inv xs ys (splice_step st op)
    \<and> script eqFn ops (ss_index (splice_step st op)) (ss_previousIndex (splice_step st op)) p c"
proof -
  obtain out at where f: "foldl (apply_splice xs ys) ([], 0) (ss_splices st) = (out, at)" by fastforce
  note opened = open_spliceD [OF assms(1) f]
  have le: "ss_previousIndex st \<le> length ys" using assms(1) f by (simp add: splice_inv_def)
  show ?thesis
  proof (cases op)
    case UNCHANGED
    then have eq: "eqFn (ss_index st) (ss_previousIndex st)"
      and sc: "script eqFn ops (Suc (ss_index st)) (Suc (ss_previousIndex st)) p c" using assms(3) by simp_all
    have lt: "ss_index st < length xs" "ss_previousIndex st < length ys" using script_le [OF sc] assms(4,5) by simp_all
    have "splice_inv xs ys (splice_step st UNCHANGED)"
      using splice_step_UNCHANGED [OF assms(1) lt] assms(6) [OF lt] eq by simp
    then show ?thesis using UNCHANGED sc by (cases "ss_splice st") simp_all
  next
    case UPDATED
    have sc: "script eqFn ops (Suc (ss_index st)) (Suc (ss_previousIndex st)) p c" using assms(3) UPDATED by simp
    have lt: "ss_index st < length xs" "ss_previousIndex st < length ys" using script_le [OF sc] assms(4,5) by simp_all
    then show ?thesis
      using UPDATED sc f opened assms(2) le by (auto simp: splice_inv_def assign_from_def Let_def split: if_splits)
  next
    case INSERTED
    have sc: "script eqFn ops (ss_index st) (Suc (ss_previousIndex st)) p c" using assms(3) INSERTED by simp
    have lt: "ss_index st \<le> length xs" "ss_previousIndex st < length ys" using script_le [OF sc] assms(4,5) by simp_all
    then show ?thesis
      using INSERTED sc f opened assms(2) le by (auto simp: splice_inv_def assign_from_def Let_def split: if_splits)
  next
    case REMOVED
    have sc: "script eqFn ops (Suc (ss_index st)) (ss_previousIndex st) p c" using assms(3) REMOVED by simp
    have lt: "ss_index st < length xs" using script_le [OF sc] assms(4) by simp
    then show ?thesis
      using REMOVED sc f opened le by (auto simp: splice_inv_def Let_def split: if_splits)
  qed
qed

lemma splice_fold:
  assumes "splice_inv xs ys st" "length ys < SPLICE_UNASSIGNED"
    and "script eqFn ops (ss_index st) (ss_previousIndex st) p c" "p \<le> length xs" "c \<le> length ys"
    and "\<And>i j. i < length xs \<Longrightarrow> j < length ys \<Longrightarrow> eqFn i j \<longleftrightarrow> xs ! i = ys ! j"
  shows "splice_inv xs ys (foldl splice_step st ops) \<and> ss_index (foldl splice_step st ops) = p
    \<and> ss_previousIndex (foldl splice_step st ops) = c"
  using assms(1,3)
proof (induction ops arbitrary: st)
  case (Cons op ops)
  then show ?case using splice_step_inv [OF Cons.prems(1) assms(2) Cons.prems(2) assms(4-6)] by simp
qed simp

definition final_splices :: "splice_state \<Rightarrow> Splice list" where
  "final_splices st = (case ss_splice st of None \<Rightarrow> ss_splices st | Some s \<Rightarrow> addSplice (ss_splices st) s)"

lemma final_splices_ok:
  assumes "splice_inv xs ys st" "drop (ss_index st) xs = drop (ss_previousIndex st) ys"
  shows "apply_splices (final_splices st) xs ys = ys \<and> ordered 0 (final_splices st) (length xs)"
proof (cases "ss_splice st")
  case None
  obtain out at where f: "foldl (apply_splice xs ys) ([], 0) (ss_splices st) = (out, at)" by fastforce
  have inv: "at \<le> ss_index st" "ordered 0 (ss_splices st) (ss_index st)" "ss_index st \<le> length xs"
    "out @ take (ss_index st - at) (drop at xs) = take (ss_previousIndex st) ys"
    using assms(1) None f by (simp_all add: splice_inv_def)
  have "out @ drop at xs = (out @ take (ss_index st - at) (drop at xs)) @ drop (ss_index st) xs"
    using inv(1) append_take_drop_id [of "ss_index st - at" "drop at xs"] by (simp only: drop_drop append_assoc) simp
  then have "out @ drop at xs = ys" using inv(4) assms(2) by simp
  then show ?thesis using None f inv ordered_mono by (auto simp: final_splices_def apply_splices_def)
next
  case (Some s)
  have "ss_index st \<le> length xs" using assms(1) by (auto simp: splice_inv_def split: prod.splits)
  then show ?thesis
    using apply_addSplice [OF assms(1) Some] assms(2) Some ordered_mono
    by (auto simp: final_splices_def apply_splices_def)
qed

subsection \<open>Shared prefix and suffix\<close>

lemma sharedPrefix_loop_ok:
  "\<exists>k \<le> n. sharedPrefix_loop_spec eqFn i n = i + k \<and> (\<forall>l < k. eqFn (i + l) (i + l)) \<and> (k < n \<longrightarrow> \<not> eqFn (i + k) (i + k))"
proof (induction n arbitrary: i)
  case (Suc n)
  show ?case
  proof (cases "eqFn i i")
    case True
    obtain k where k: "k \<le> n" "sharedPrefix_loop_spec eqFn (Suc i) n = Suc i + k" "\<forall>l < k. eqFn (Suc i + l) (Suc i + l)"
      "k < n \<longrightarrow> \<not> eqFn (Suc i + k) (Suc i + k)" using Suc.IH [of "Suc i"] by blast
    have "eqFn (i + l) (i + l)" if "l < Suc k" for l
      using True k(3) that by (cases l) auto
    then show ?thesis using True k by (intro exI [of _ "Suc k"]) auto
  qed auto
qed simp

lemma sharedPrefix_ok:
  obtains k where "sharedPrefix_spec eqFn n = k" "k \<le> n" "\<forall>l < k. eqFn l l" "k < n \<longrightarrow> \<not> eqFn k k"
  using sharedPrefix_loop_ok [of n eqFn 0] by (auto simp: sharedPrefix_spec_def)

lemma sharedSuffix_loop_ok:
  assumes "n \<le> p" "n \<le> c"
  shows "\<exists>k \<le> n. sharedSuffix_loop_spec eqFn (p - 1) (c - 1) cnt n = cnt + k
    \<and> (\<forall>l < k. eqFn (p - 1 - l) (c - 1 - l)) \<and> (k < n \<longrightarrow> \<not> eqFn (p - 1 - k) (c - 1 - k))"
  using assms
proof (induction n arbitrary: p c cnt)
  case (Suc n)
  show ?case
  proof (cases "eqFn (p - 1) (c - 1)")
    case True
    obtain k where k: "k \<le> n" "sharedSuffix_loop_spec eqFn (p - 1 - 1) (c - 1 - 1) (Suc cnt) n = Suc cnt + k"
      "\<forall>l < k. eqFn (p - 1 - 1 - l) (c - 1 - 1 - l)" "k < n \<longrightarrow> \<not> eqFn (p - 1 - 1 - k) (c - 1 - 1 - k)"
    proof -
      have "n \<le> p - 1" "n \<le> c - 1" using Suc.prems by simp_all
      from Suc.IH [OF this, of "Suc cnt"] show thesis using that by blast
    qed
    have "eqFn (p - 1 - l) (c - 1 - l)" if "l < Suc k" for l
      using True k(3) that by (cases l) auto
    then show ?thesis using True k by (intro exI [of _ "Suc k"]) auto
  qed auto
qed simp

lemma sharedSuffix_ok:
  assumes "n \<le> p" "n \<le> c"
  obtains k where "sharedSuffix_spec eqFn p c n = k" "k \<le> n" "\<forall>l < k. eqFn (p - 1 - l) (c - 1 - l)"
    "k < n \<longrightarrow> \<not> eqFn (p - 1 - k) (c - 1 - k)"
  using sharedSuffix_loop_ok [OF assms, of eqFn 0] by (auto simp: sharedSuffix_spec_def)

subsection \<open>Correctness\<close>

lemma calcSplices_cases:
  assumes "\<And>i j. i < length xs \<Longrightarrow> j < length ys \<Longrightarrow> eqFn i j \<longleftrightarrow> xs ! i = ys ! j"
  obtains k s where "k + s \<le> length xs" "k + s \<le> length ys" "take k xs = take k ys"
    "drop (length xs - s) xs = drop (length ys - s) ys"
    "calcSplices_spec (length xs) (length ys) maxSize eqFn =
       (let pl = length xs - s - k; cl = length ys - s - k
        in if cl = 0 \<and> pl = 0 then []
           else if cl = 0 then [\<lparr>SpAt = k, SpRemoved = pl, SpAdded = 0, SpFrom = 0\<rparr>]
           else if pl = 0 then [\<lparr>SpAt = k, SpRemoved = 0, SpAdded = cl, SpFrom = k\<rparr>]
           else if pl * cl mod 2 ^ 64 > maxSize then [\<lparr>SpAt = 0, SpRemoved = pl, SpAdded = cl, SpFrom = 0\<rparr>]
           else final_splices (foldl splice_step \<lparr>ss_splices = [], ss_splice = None, ss_index = k, ss_previousIndex = k\<rparr>
                  (operationsFromEditDistances_spec (calcEditDistances_spec eqFn k pl k cl))))"
    "k + s < length xs \<and> k + s < length ys \<Longrightarrow>
       xs ! k \<noteq> ys ! k \<and> xs ! (length xs - 1 - s) \<noteq> ys ! (length ys - 1 - s)"
    "sharedPrefix_spec eqFn (uint64Min (length xs) (length ys)) = k"
    "sharedSuffix_spec eqFn (length xs) (length ys) (uint64Min (length xs) (length ys) - k) = s"
proof -
  let ?m = "uint64Min (length xs) (length ys)"
  have m: "?m \<le> length xs" "?m \<le> length ys" by (simp_all add: uint64Min_def)
  obtain k where k: "sharedPrefix_spec eqFn ?m = k" "k \<le> ?m" "\<forall>l < k. eqFn l l" "k < ?m \<longrightarrow> \<not> eqFn k k"
    by (rule sharedPrefix_ok)
  have le: "?m - k \<le> length xs" "?m - k \<le> length ys" using m by simp_all
  obtain s where s: "sharedSuffix_spec eqFn (length xs) (length ys) (?m - k) = s" "s \<le> ?m - k"
    "\<forall>l < s. eqFn (length xs - 1 - l) (length ys - 1 - l)"
    "s < ?m - k \<longrightarrow> \<not> eqFn (length xs - 1 - s) (length ys - 1 - s)"
    by (rule sharedSuffix_ok [OF le])
  have b: "k + s \<le> length xs" "k + s \<le> length ys" using k(2) s(2) m by simp_all
  have "take k xs = take k ys"
    using b k(3) assms by (intro nth_equalityI) auto
  moreover have "drop (length xs - s) xs = drop (length ys - s) ys"
  proof (rule nth_equalityI)
    fix i
    assume "i < length (drop (length xs - s) xs)"
    then have i: "i < s" using b by simp
    then have "s - 1 - i < s" by simp
    with s(3) have "eqFn (length xs - 1 - (s - 1 - i)) (length ys - 1 - (s - 1 - i))" by blast
    then have "xs ! (length xs - 1 - (s - 1 - i)) = ys ! (length ys - 1 - (s - 1 - i))"
      using assms i b by auto
    moreover have "length xs - 1 - (s - 1 - i) = length xs - s + i" "length ys - 1 - (s - 1 - i) = length ys - s + i"
      using i b by simp_all
    ultimately show "drop (length xs - s) xs ! i = drop (length ys - s) ys ! i" using b by simp
  qed (use b in simp)
  moreover have "calcSplices_spec (length xs) (length ys) maxSize eqFn =
       (let pl = length xs - s - k; cl = length ys - s - k
        in if cl = 0 \<and> pl = 0 then []
           else if cl = 0 then [\<lparr>SpAt = k, SpRemoved = pl, SpAdded = 0, SpFrom = 0\<rparr>]
           else if pl = 0 then [\<lparr>SpAt = k, SpRemoved = 0, SpAdded = cl, SpFrom = k\<rparr>]
           else if pl * cl mod 2 ^ 64 > maxSize then [\<lparr>SpAt = 0, SpRemoved = pl, SpAdded = cl, SpFrom = 0\<rparr>]
           else final_splices (foldl splice_step \<lparr>ss_splices = [], ss_splice = None, ss_index = k, ss_previousIndex = k\<rparr>
                  (operationsFromEditDistances_spec (calcEditDistances_spec eqFn k pl k cl))))"
  proof -
    have "k = length ys - s \<longleftrightarrow> length ys - s - k = 0" "k = length xs - s \<longleftrightarrow> length xs - s - k = 0"
      using b by linarith+
    then show ?thesis unfolding calcSplices_spec_def Let_def k(1) s(1) final_splices_def by (simp only:)
  qed
  moreover have "xs ! k \<noteq> ys ! k \<and> xs ! (length xs - 1 - s) \<noteq> ys ! (length ys - 1 - s)"
    if "k + s < length xs \<and> k + s < length ys"
  proof -
    have "k < ?m" "s < ?m - k" using that by (auto simp: uint64Min_def)
    moreover have "k < length xs" "k < length ys" "length xs - 1 - s < length xs" "length ys - 1 - s < length ys"
      using that by auto
    ultimately show ?thesis using k(4) s(4) assms by blast
  qed
  ultimately show ?thesis using that b k(1) s(1) by blast
qed

lemma calcSplices_spec_correct:
  assumes "\<And>i j. i < length xs \<Longrightarrow> j < length ys \<Longrightarrow> eqFn i j \<longleftrightarrow> xs ! i = ys ! j"
    and "length xs * length ys \<le> maxSize" and "length ys < SPLICE_UNASSIGNED"
  shows "apply_splices (calcSplices_spec (length xs) (length ys) maxSize eqFn) xs ys = ys
    \<and> ordered 0 (calcSplices_spec (length xs) (length ys) maxSize eqFn) (length xs)"
proof -
  obtain k s where ks: "k + s \<le> length xs" "k + s \<le> length ys" "take k xs = take k ys"
    "drop (length xs - s) xs = drop (length ys - s) ys"
    and calc: "calcSplices_spec (length xs) (length ys) maxSize eqFn =
       (let pl = length xs - s - k; cl = length ys - s - k
        in if cl = 0 \<and> pl = 0 then []
           else if cl = 0 then [\<lparr>SpAt = k, SpRemoved = pl, SpAdded = 0, SpFrom = 0\<rparr>]
           else if pl = 0 then [\<lparr>SpAt = k, SpRemoved = 0, SpAdded = cl, SpFrom = k\<rparr>]
           else if pl * cl mod 2 ^ 64 > maxSize then [\<lparr>SpAt = 0, SpRemoved = pl, SpAdded = cl, SpFrom = 0\<rparr>]
           else final_splices (foldl splice_step \<lparr>ss_splices = [], ss_splice = None, ss_index = k, ss_previousIndex = k\<rparr>
                  (operationsFromEditDistances_spec (calcEditDistances_spec eqFn k pl k cl))))"
    by (rule calcSplices_cases [OF assms(1)])
  define pl where "pl = length xs - s - k"
  define cl where "cl = length ys - s - k"
  have len: "length xs = k + pl + s" "length ys = k + cl + s" using ks by (simp_all add: pl_def cl_def)
  have "pl * cl \<le> length xs * length ys" by (rule mult_le_mono) (simp_all add: len)
  then have "\<not> pl * cl mod 2 ^ 64 > maxSize"
    using assms(2) mod_less_eq_dividend [of "pl * cl" "2 ^ 64"] by simp
  then have calc': "calcSplices_spec (length xs) (length ys) maxSize eqFn =
      (if cl = 0 \<and> pl = 0 then []
       else if cl = 0 then [\<lparr>SpAt = k, SpRemoved = pl, SpAdded = 0, SpFrom = 0\<rparr>]
       else if pl = 0 then [\<lparr>SpAt = k, SpRemoved = 0, SpAdded = cl, SpFrom = k\<rparr>]
       else final_splices (foldl splice_step \<lparr>ss_splices = [], ss_splice = None, ss_index = k, ss_previousIndex = k\<rparr>
              (operationsFromEditDistances_spec (calcEditDistances_spec eqFn k pl k cl))))"
    unfolding calc Let_def pl_def [symmetric] cl_def [symmetric] by simp
  have suf: "drop (k + pl) xs = drop (k + cl) ys" using ks(4) len by simp
  have ys: "ys = take k ys @ take cl (drop k ys) @ drop (k + cl) ys"
    using append_take_drop_id [of k ys] append_take_drop_id [of cl "drop k ys"] by (simp add: add.commute)
  consider "cl = 0" "pl = 0" | "cl = 0" "pl \<noteq> 0" | "cl \<noteq> 0" "pl = 0" | "cl \<noteq> 0" "pl \<noteq> 0" by blast
  then show ?thesis
  proof cases
    case 4
    let ?st = "\<lparr>ss_splices = [], ss_splice = None, ss_index = k, ss_previousIndex = k\<rparr>"
    have inv: "splice_inv xs ys ?st" using ks(3) len by (simp add: splice_inv_def)
    have sc: "script eqFn (operationsFromEditDistances_spec (calcEditDistances_spec eqFn k pl k cl)) (ss_index ?st)
        (ss_previousIndex ?st) (k + pl) (k + cl)" using operations_script by simp
    have "k + pl \<le> length xs" "k + cl \<le> length ys" using len by simp_all
    note fin = splice_fold [OF inv assms(3) sc this assms(1)]
    have "apply_splices (final_splices (foldl splice_step ?st (operationsFromEditDistances_spec (calcEditDistances_spec eqFn k pl k cl)))) xs ys = ys
      \<and> ordered 0 (final_splices (foldl splice_step ?st (operationsFromEditDistances_spec (calcEditDistances_spec eqFn k pl k cl)))) (length xs)"
      by (rule final_splices_ok) (use fin suf in simp_all)
    then show ?thesis using 4 unfolding calc' by simp
  next
    case 1
    then have "drop k xs = drop k ys" using suf by simp
    then have "xs = ys" using ks(3) append_take_drop_id [of k] by metis
    then show ?thesis using 1 unfolding calc' by (simp add: apply_splices_def)
  next
    case 2
    then show ?thesis
      using ys [symmetric] suf ks(3) len(1) unfolding calc' by (simp add: apply_splices_def apply_splice_def)
  next
    case 3
    then show ?thesis
      using ys [symmetric] suf ks(3) len(1) unfolding calc' by (simp add: apply_splices_def apply_splice_def)
  qed
qed

lemma shared_ends:
  assumes "\<And>i j. i < length xs \<Longrightarrow> j < length ys \<Longrightarrow> eqFn i j \<longleftrightarrow> xs ! i = ys ! j"
    and "xs = pre @ as @ suf" "ys = pre @ bs @ suf" "pre \<noteq> []" "as \<noteq> []" "bs \<noteq> []"
    and "hd as \<noteq> hd bs" "last as \<noteq> last bs"
  shows "sharedPrefix_spec eqFn (uint64Min (length xs) (length ys)) = length pre
    \<and> sharedSuffix_spec eqFn (length xs) (length ys) (uint64Min (length xs) (length ys) - length pre) = length suf"
proof -
  obtain k s where ks: "k + s \<le> length xs" "k + s \<le> length ys" "take k xs = take k ys"
    "drop (length xs - s) xs = drop (length ys - s) ys"
    and diff: "k + s < length xs \<and> k + s < length ys \<Longrightarrow>
       xs ! k \<noteq> ys ! k \<and> xs ! (length xs - 1 - s) \<noteq> ys ! (length ys - 1 - s)"
    and shared: "sharedPrefix_spec eqFn (uint64Min (length xs) (length ys)) = k"
      "sharedSuffix_spec eqFn (length xs) (length ys) (uint64Min (length xs) (length ys) - k) = s"
    by (rule calcSplices_cases [of xs ys eqFn 0, OF assms(1)]) blast+
  have at: "xs ! length pre = hd as" "ys ! length pre = hd bs" "rev xs ! length suf = last as" "rev ys ! length suf = last bs"
    using assms(2,3,5,6) by (simp_all add: nth_append hd_conv_nth rev_nth last_conv_nth)
  have "k \<le> length pre"
  proof (rule ccontr)
    assume "\<not> k \<le> length pre"
    then have "xs ! length pre = ys ! length pre" using ks(3) by (metis not_le nth_take)
    then show False using at(1,2) assms(7) by simp
  qed
  have "s \<le> length suf"
  proof (rule ccontr)
    assume "\<not> s \<le> length suf"
    moreover have "take s (rev xs) = take s (rev ys)" using ks(4) by (simp add: take_rev)
    ultimately have "rev xs ! length suf = rev ys ! length suf" by (metis not_le nth_take)
    then show False using at(3,4) assms(8) by simp
  qed
  then have lt: "k + s < length xs" "k + s < length ys" using \<open>k \<le> length pre\<close> assms(2,3,5,6) by (cases as; cases bs; simp)+
  have k: "k = length pre"
    using diff lt \<open>k \<le> length pre\<close> assms(2,3) by (metis le_neq_implies_less nth_append)
  have s: "s = length suf"
  proof (rule ccontr)
    assume "s \<noteq> length suf"
    then have "s < length suf" using \<open>s \<le> length suf\<close> by simp
    then have "rev xs ! s = rev ys ! s" using assms(2,3) by (simp add: nth_append)
    then show False using diff lt by (simp add: rev_nth)
  qed
  show ?thesis using shared k s by simp
qed

lemma calcSplices_spec_too_large:
  assumes "\<And>i j. i < length xs \<Longrightarrow> j < length ys \<Longrightarrow> eqFn i j \<longleftrightarrow> xs ! i = ys ! j"
    and "xs = pre @ as @ suf" "ys = pre @ bs @ suf" "pre \<noteq> []" "as \<noteq> []" "bs \<noteq> []"
    and "hd as \<noteq> hd bs" "last as \<noteq> last bs" "length as * length bs mod 2 ^ 64 > maxSize"
  shows "calcSplices_spec (length xs) (length ys) maxSize eqFn = [\<lparr>SpAt = 0, SpRemoved = length as, SpAdded = length bs, SpFrom = 0\<rparr>]
    \<and> apply_splices [\<lparr>SpAt = 0, SpRemoved = length as, SpAdded = length bs, SpFrom = 0\<rparr>] xs ys \<noteq> ys"
proof -
  have ends: "sharedPrefix_spec eqFn (uint64Min (length xs) (length ys)) = length pre
    \<and> sharedSuffix_spec eqFn (length xs) (length ys) (uint64Min (length xs) (length ys) - length pre) = length suf"
    by (rule shared_ends [OF _ assms(2-8)]) (use assms(1) in blast)
  have "calcSplices_spec (length xs) (length ys) maxSize eqFn = [\<lparr>SpAt = 0, SpRemoved = length as, SpAdded = length bs, SpFrom = 0\<rparr>]"
    unfolding calcSplices_spec_def Let_def ends [THEN conjunct1] ends [THEN conjunct2] using assms(2,3,5,6,9) by simp
  moreover have "apply_splices [\<lparr>SpAt = 0, SpRemoved = length as, SpAdded = length bs, SpFrom = 0\<rparr>] xs ys = take (length bs) ys @ drop (length as) xs"
    by (simp add: apply_splices_def apply_splice_def)
  moreover have "drop (length as) xs \<noteq> drop (length bs) ys"
  proof
    assume "drop (length as) xs = drop (length bs) ys"
    then have "last (drop (length as) (pre @ as)) = last (drop (length bs) (pre @ bs))" using assms(2,3) by simp
    moreover have "last (drop (length as) (pre @ as)) = last as" "last (drop (length bs) (pre @ bs)) = last bs"
      using assms(4-6) by (simp_all add: last_drop del: drop_append)
    ultimately show False using assms(8) by simp
  qed
  ultimately show ?thesis by (metis append_same_eq append_take_drop_id same_append_eq)
qed

subsection \<open>The code computes it\<close>

text \<open>The comparison answers within the two lengths; what it does elsewhere does not matter.\<close>

definition answers :: "EditDistanceEqualsFn \<Rightarrow> equals_fn \<Rightarrow> nat \<Rightarrow> nat \<Rightarrow> bool" where
  "answers eqFn e p c \<longleftrightarrow> (\<forall>i < p. \<forall>j < c. eqFn i j = Inr (e i j))"

lemma answersD: "answers eqFn e p c \<Longrightarrow> i < p \<Longrightarrow> j < c \<Longrightarrow> eqFn i j = Inr (e i j)"
  by (simp add: answers_def)

lemma reverse_eq: "reverse xs = Inr (reverse_spec xs)"
  unfolding reverse_def reverse_spec_def by (rule mapM_res_Inr) simp

lemma sharedPrefix_loop_eq:
  "answers eqFn e p c \<Longrightarrow> i + n \<le> p \<Longrightarrow> i + n \<le> c \<Longrightarrow> sharedPrefix_loop eqFn i n = Inr (sharedPrefix_loop_spec e i n)"
  by (induction n arbitrary: i) (simp_all add: answersD)

lemma sharedSuffix_loop_eq:
  "answers eqFn e p c \<Longrightarrow> n = 0 \<or> n \<le> Suc prev \<and> prev < p \<and> n \<le> Suc cur \<and> cur < c \<Longrightarrow>
   sharedSuffix_loop eqFn prev cur cnt n = Inr (sharedSuffix_loop_spec e prev cur cnt n)"
proof (induction n arbitrary: prev cur cnt)
  case (Suc n)
  have eq: "eqFn prev cur = Inr (e prev cur)" using Suc.prems answersD by auto
  show ?case
  proof (cases n)
    case 0
    then show ?thesis by (simp add: eq)
  next
    case (Suc m)
    then have dec: "dec64 prev = prev - 1" "dec64 cur = cur - 1" using Suc.prems(2) by (auto simp: dec64_def)
    have "n \<le> Suc (prev - 1) \<and> prev - 1 < p \<and> n \<le> Suc (cur - 1) \<and> cur - 1 < c" using Suc.prems(2) Suc by auto
    then show ?thesis using Suc.IH [OF Suc.prems(1), of "prev - 1" "cur - 1" "Suc cnt"] by (simp add: eq dec)
  qed
qed simp

lemma sharedPrefix_eq: "answers eqFn e p c \<Longrightarrow> n \<le> p \<Longrightarrow> n \<le> c \<Longrightarrow> sharedPrefix eqFn n = Inr (sharedPrefix_spec e n)"
  unfolding sharedPrefix_def sharedPrefix_spec_def by (rule sharedPrefix_loop_eq [of eqFn e p c]) simp_all

lemma sharedSuffix_eq:
  assumes "answers eqFn e p c" "n \<le> p" "n \<le> c"
  shows "sharedSuffix eqFn p c n = Inr (sharedSuffix_spec e p c n)"
proof (cases n)
  case (Suc m)
  then have "dec64 p = p - 1" "dec64 c = c - 1" "n \<le> Suc (p - 1) \<and> p - 1 < p \<and> n \<le> Suc (c - 1) \<and> c - 1 < c"
    using assms(2,3) by (auto simp: dec64_def)
  then show ?thesis unfolding sharedSuffix_def sharedSuffix_spec_def using sharedSuffix_loop_eq [OF assms(1)] by simp
qed (simp add: sharedSuffix_def sharedSuffix_spec_def)

lemma get_cell_eq: "shape r c m \<Longrightarrow> i < r \<Longrightarrow> j < c \<Longrightarrow> get_cell m i j = Inr (m ! i ! j)"
  by (simp add: get_cell_def shape_def)

lemma set_cell_eq: "shape r c m \<Longrightarrow> i < r \<Longrightarrow> j < c \<Longrightarrow> set_cell m i j v = Inr (set_cell_spec m i j v)"
  by (simp add: set_cell_def set_cell_spec_def shape_def)

text \<open>A loop over a matrix that keeps its shape.\<close>

lemma foldM_shape:
  assumes "\<And>m x. shape r c m \<Longrightarrow> x \<in> set xs \<Longrightarrow> f m x = Inr (g m x) \<and> shape r c (g m x)" "shape r c m"
  shows "foldM_res f m xs = Inr (foldl g m xs) \<and> shape r c (foldl g m xs)"
  using assms
proof (induction xs arbitrary: m)
  case (Cons x xs)
  then have "f m x = Inr (g m x)" "shape r c (g m x)" by auto
  then show ?case using Cons.IH [of "g m x"] Cons.prems(1) by auto
qed simp

lemma carve_rows_eq: "n * c \<le> length d \<Longrightarrow> set d \<subseteq> {0} \<Longrightarrow> carve_rows n c d = Inr (replicate n (replicate c 0))"
proof (induction n arbitrary: d)
  case (Suc n)
  have "take c d = replicate c 0" using Suc.prems by (intro replicate_eqI) (auto dest: in_set_takeD)
  moreover have "carve_rows n c (drop c d) = Inr (replicate n (replicate c 0))"
    using Suc.prems by (intro Suc.IH) (auto dest: in_set_dropD)
  ultimately show ?case using Suc.prems(1) by simp
qed simp

lemma distance_step_eq:
  assumes "answers eqFn e p c" "shape r k m" "0 < i" "i < r" "0 < j" "j < k" "ps + i \<le> p" "cs + j \<le> c"
  shows "distance_step eqFn ps cs m i j = Inr (distance_step_spec e ps cs m i j) \<and> shape r k (distance_step_spec e ps cs m i j)"
proof -
  have "eqFn (ps + i - 1) (cs + j - 1) = Inr (e (ps + i - 1) (cs + j - 1))" using assms by (intro answersD [OF assms(1)]) simp_all
  then show ?thesis
    using assms get_cell_eq [OF assms(2)] set_cell_eq [OF assms(2)] shape_set_cell [OF assms(2)]
    by (simp add: distance_step_def distance_step_spec_def Let_def)
qed

lemma calcEditDistances_eq:
  assumes "answers eqFn e p c" "ps + pl \<le> p" "cs + cl \<le> c" "(pl + 1) * (cl + 1) < 2 ^ 64"
  shows "calcEditDistances eqFn ps pl cs cl = Inr (calcEditDistances_spec e ps pl cs cl)"
proof -
  let ?r = "pl + 1" and ?k = "cl + 1"
  have "?r * 1 \<le> ?r * ?k" "1 * ?k \<le> ?r * ?k" by (rule mult_le_mono; simp)+
  then have mods: "?r mod 2 ^ 64 = ?r" "?k mod 2 ^ 64 = ?k" "?r * ?k mod 2 ^ 64 = ?r * ?k" using assms(4) by simp_all
  let ?m0 = "replicate ?r (replicate ?k 0)"
  have m0: "carve_rows ?r ?k (replicate (?r * ?k) 0) = Inr ?m0"
    by (rule carve_rows_eq) (simp_all only: length_replicate set_replicate_conv_if, simp_all)
  have shape0: "shape ?r ?k ?m0" by (auto simp: shape_def)
  let ?m1 = "foldl (\<lambda>m i. set_cell_spec m i 0 i) ?m0 [0..<?r]"
  have m1: "foldM_res (\<lambda>m i. set_cell m i 0 i) ?m0 [0..<?r] = Inr ?m1 \<and> shape ?r ?k ?m1"
    by (rule foldM_shape [OF _ shape0]) (auto simp: set_cell_eq simp del: upt_Suc)
  let ?m2 = "foldl (\<lambda>m j. set_cell_spec m 0 j j) ?m1 [0..<?k]"
  have m2: "foldM_res (\<lambda>m j. set_cell m 0 j j) ?m1 [0..<?k] = Inr ?m2 \<and> shape ?r ?k ?m2"
    by (rule foldM_shape [OF _ m1 [THEN conjunct2]]) (auto simp: set_cell_eq simp del: upt_Suc)
  have rows: "foldM_res (\<lambda>m j. distance_step eqFn ps cs m i j) m [1..<?k] = Inr (foldl (\<lambda>m j. distance_step_spec e ps cs m i j) m [1..<?k])
      \<and> shape ?r ?k (foldl (\<lambda>m j. distance_step_spec e ps cs m i j) m [1..<?k])" if "shape ?r ?k m" "i \<in> set [1..<?r]" for m i
    by (rule foldM_shape [OF _ that(1)], rule distance_step_eq [OF assms(1)]) (use that(2) assms(2,3) in \<open>auto simp: less_Suc_eq_le\<close>)
  have "foldM_res (\<lambda>m i. foldM_res (\<lambda>m j. distance_step eqFn ps cs m i j) m [1..<?k]) ?m2 [1..<?r]
    = Inr (foldl (\<lambda>m i. foldl (\<lambda>m j. distance_step_spec e ps cs m i j) m [1..<?k]) ?m2 [1..<?r])"
    by (rule foldM_shape [OF _ m2 [THEN conjunct2], THEN conjunct1]) (rule rows)
  then show ?thesis
    unfolding calcEditDistances_def calcEditDistances_spec_def Let_def mods m0 rbind_Inr m1 [THEN conjunct1] m2 [THEN conjunct1] .
qed

lemma operations_loop_eq:
  "shape r k m \<Longrightarrow> i < r \<Longrightarrow> j < k \<Longrightarrow> operations_loop m i j current edits = Inr (operations_loop_spec m i j current edits)"
  by (induction m i j current edits rule: operations_loop_spec.induct) (auto simp: get_cell_eq split: edit_op.split)

lemma operations_eq:
  assumes "shape (r + 1) (k + 1) m"
  shows "operationsFromEditDistances m = Inr (operationsFromEditDistances_spec m)"
proof -
  have "length m = r + 1" "length (m ! 0) = k + 1" using assms by (auto simp: shape_def)
  then show ?thesis
    using operations_loop_eq [OF assms] get_cell_eq [OF assms]
    by (simp add: operationsFromEditDistances_def operationsFromEditDistances_spec_def reverse_eq)
qed

lemma small_matrix:
  assumes "pl * cl \<le> (n :: nat)" "pl \<noteq> 0" "cl \<noteq> 0" "n < 2 ^ 63 - 1"
  shows "(pl + 1) * (cl + 1) < 2 ^ 64"
proof -
  have "pl + cl \<le> pl * cl + 1" using assms(2,3) by (cases pl; cases cl) auto
  moreover have "(pl + 1) * (cl + 1) = pl * cl + pl + cl + 1" by (simp add: algebra_simps)
  ultimately have "(pl + 1) * (cl + 1) \<le> 2 * n + 2" using assms(1) by linarith
  then show ?thesis using assms(4) by simp
qed

lemma calcSplices_eq:
  assumes "answers eqFn e p c"
    and fits: "\<And>k s. sharedPrefix_spec e (uint64Min p c) = k \<Longrightarrow> sharedSuffix_spec e p c (uint64Min p c - k) = s \<Longrightarrow>
      p - s - k \<noteq> 0 \<Longrightarrow> c - s - k \<noteq> 0 \<Longrightarrow> (p - s - k) * (c - s - k) mod 2 ^ 64 \<le> maxSize \<Longrightarrow>
      (p - s - k + 1) * (c - s - k + 1) < 2 ^ 64"
  shows "calcSplices p c maxSize eqFn = Inr (calcSplices_spec p c maxSize e)"
proof -
  let ?m = "uint64Min p c"
  have m: "?m \<le> p" "?m \<le> c" by (simp_all add: uint64Min_def)
  obtain k where k: "sharedPrefix_spec e ?m = k" "k \<le> ?m" using sharedPrefix_ok [of e ?m] by metis
  have le: "?m - k \<le> p" "?m - k \<le> c" using m by simp_all
  obtain s where s: "sharedSuffix_spec e p c (?m - k) = s" "s \<le> ?m - k" using sharedSuffix_ok [OF le, of e] by metis
  have pre: "sharedPrefix eqFn ?m = Inr k" using sharedPrefix_eq [OF assms(1) m] k by simp
  have suf: "sharedSuffix eqFn p c (?m - k) = Inr s" using sharedSuffix_eq [OF assms(1) le] s by simp
  let ?pl = "p - s - k" and ?cl = "c - s - k"
  have ends: "k + ?pl \<le> p" "k + ?cl \<le> c" using k(2) s(2) m by simp_all
  have matrix: "calcEditDistances eqFn k ?pl k ?cl = Inr (calcEditDistances_spec e k ?pl k ?cl)
      \<and> operationsFromEditDistances (calcEditDistances_spec e k ?pl k ?cl) = Inr (operationsFromEditDistances_spec (calcEditDistances_spec e k ?pl k ?cl))"
    if "k \<noteq> p - s" "k \<noteq> c - s" "\<not> ?pl * ?cl mod 2 ^ 64 > maxSize"
  proof -
    have "?pl \<noteq> 0" "?cl \<noteq> 0" using that(1,2) k(2) s(2) m by linarith+
    then have "(?pl + 1) * (?cl + 1) < 2 ^ 64" using fits [OF k(1) s(1)] that(3) by simp
    then show ?thesis
      using calcEditDistances_eq [OF assms(1) ends] operations_eq [OF calcEditDistances_cells(2)] by blast
  qed
  show ?thesis
    unfolding calcSplices_def calcSplices_spec_def Let_def pre suf k(1) s(1) rbind_Inr
    using matrix by (auto simp del: diff_diff_left)
qed

subsection \<open>The claims\<close>

text \<open>
  C25: within the size limit, \<open>calcSplices\<close> returns: no slice is accessed out of range and the comparison is
  only asked about elements of the two states (so one that panics elsewhere does no harm). The splices are
  in order, do not overlap and lie within the previous state, and reading them as documented turns the
  previous state into the current one.
\<close>

theorem calcSplices_correct:
  assumes "\<forall>i < length xs. \<forall>j < length ys. eqFn i j = Inr (xs ! i = ys ! j)"
    and "length xs * length ys \<le> maxSize" and "maxSize < 2 ^ 63 - 1" and "length ys < SPLICE_UNASSIGNED"
  shows "\<exists>splices. calcSplices (length xs) (length ys) maxSize eqFn = Inr splices
    \<and> apply_splices splices xs ys = ys \<and> ordered 0 splices (length xs)"
proof -
  let ?e = "\<lambda>i j. xs ! i = ys ! j"
  have "answers eqFn ?e (length xs) (length ys)" using assms(1) by (simp add: answers_def)
  moreover have "(length xs - s - k + 1) * (length ys - s - k + 1) < 2 ^ 64" if "length xs - s - k \<noteq> 0" "length ys - s - k \<noteq> 0" for k s
  proof (rule small_matrix [OF _ that assms(3)])
    have "(length xs - s - k) * (length ys - s - k) \<le> length xs * length ys" by (rule mult_le_mono) simp_all
    then show "(length xs - s - k) * (length ys - s - k) \<le> maxSize" using assms(2) by simp
  qed
  ultimately have "calcSplices (length xs) (length ys) maxSize eqFn = Inr (calcSplices_spec (length xs) (length ys) maxSize ?e)"
    using calcSplices_eq by blast
  then show ?thesis using calcSplices_spec_correct [of xs ys ?e, OF refl assms(2,4)] by blast
qed

theorem calcSplices_correct_witness:
  "\<exists>splices. calcSplices (length [1::nat, 2, 3, 4]) (length [1::nat, 5, 4]) 100 (\<lambda>i j. rbind (nth_res [1::nat, 2, 3, 4] i) (\<lambda>x. rbind (nth_res [1, 5, 4] j) (\<lambda>y. Inr (x = y))))
     = Inr splices \<and> apply_splices splices [1::nat, 2, 3, 4] [1, 5, 4] = [1, 5, 4]
     \<and> ordered 0 splices (length [1::nat, 2, 3, 4])"
  using calcSplices_correct [of "[1::nat, 2, 3, 4]" "[1, 5, 4]"
    "\<lambda>i j. rbind (nth_res [1::nat, 2, 3, 4] i) (\<lambda>x. rbind (nth_res [1, 5, 4] j) (\<lambda>y. Inr (x = y)))" 100]
  by (simp add: SPLICE_UNASSIGNED_def)

text \<open>
  C26: beyond the size limit, \<open>calcSplices\<close> returns exactly one splice, which starts at the beginning of both
  states but has the lengths that remain after the shared prefix and suffix are left out. Whenever there is a
  shared prefix, reading it as documented does not give the current state.
\<close>

theorem calcSplices_too_large_wrong:
  assumes "\<forall>i < length xs. \<forall>j < length ys. eqFn i j = Inr (xs ! i = ys ! j)"
    and "xs = pre @ as @ suf" "ys = pre @ bs @ suf" "pre \<noteq> []" "as \<noteq> []" "bs \<noteq> []"
    and "hd as \<noteq> hd bs" "last as \<noteq> last bs" "length as * length bs mod 2 ^ 64 > maxSize"
  shows "calcSplices (length xs) (length ys) maxSize eqFn
      = Inr [\<lparr>SpAt = 0, SpRemoved = length as, SpAdded = length bs, SpFrom = 0\<rparr>]
    \<and> apply_splices [\<lparr>SpAt = 0, SpRemoved = length as, SpAdded = length bs, SpFrom = 0\<rparr>] xs ys \<noteq> ys"
proof -
  let ?e = "\<lambda>i j. xs ! i = ys ! j"
  have "answers eqFn ?e (length xs) (length ys)" using assms(1) by (simp add: answers_def)
  moreover note ends = shared_ends [of xs ys ?e, OF refl assms(2-8)]
  have "length xs - length suf - length pre = length as" "length ys - length suf - length pre = length bs" using assms(2,3) by simp_all
  then have "(length xs - s - k + 1) * (length ys - s - k + 1) < 2 ^ 64"
    if "sharedPrefix_spec ?e (uint64Min (length xs) (length ys)) = k"
      "sharedSuffix_spec ?e (length xs) (length ys) (uint64Min (length xs) (length ys) - k) = s"
      "(length xs - s - k) * (length ys - s - k) mod 2 ^ 64 \<le> maxSize" for k s
    using that ends assms(9) by auto
  ultimately have "calcSplices (length xs) (length ys) maxSize eqFn = Inr (calcSplices_spec (length xs) (length ys) maxSize ?e)"
    by (rule calcSplices_eq)
  then show ?thesis using calcSplices_spec_too_large [of xs ys ?e, OF refl assms(2-9)] by simp
qed

theorem calcSplices_too_large_wrong_witness:
  "calcSplices (length [1::nat, 2]) (length [1::nat, 3]) 0
     (\<lambda>i j. rbind (nth_res [1::nat, 2] i) (\<lambda>x. rbind (nth_res [1, 3] j) (\<lambda>y. Inr (x = y))))
     = Inr [\<lparr>SpAt = 0, SpRemoved = 1, SpAdded = 1, SpFrom = 0\<rparr>]
   \<and> apply_splices [\<lparr>SpAt = 0, SpRemoved = 1, SpAdded = 1, SpFrom = 0\<rparr>] [1::nat, 2] [1, 3] \<noteq> [1, 3]"
  using calcSplices_too_large_wrong [of "[1::nat, 2]" "[1, 3]"
    "\<lambda>i j. rbind (nth_res [1::nat, 2] i) (\<lambda>x. rbind (nth_res [1, 3] j) (\<lambda>y. Inr (x = y)))" "[1]" "[2]" "[]" "[3]" 0]
  by simp

end
