(* ===== verification/SizeCache.thy ===== *)
theory SizeCache
  imports Prelude
begin

text \<open>
  The cache that drops the least recently used entries when their sizes exceed a limit
  (\<open>go/util/sizecache/size_cache.go\<close>). The list of \<open>container/list\<close> is a list of elements with an
  identity, which an entry of the cache refers to; its lock makes every operation one step.
\<close>

record 'v sizeCacheEntry =
  sce_size :: uint64
  sce_lruEntry :: nat
  sce_value :: 'v

record ('k, 'v) SizeCache =
  sc_totalSize :: uint64
  sc_maxSize :: uint64
  sc_lru :: "(nat \<times> 'k) list"
  sc_next :: nat
  sc_cache :: "'k \<Rightarrow> 'v sizeCacheEntry option"

definition sc_New :: "uint64 \<Rightarrow> ('k, 'v) SizeCache" where
  "sc_New maxSize = \<lparr>sc_totalSize = 0, sc_maxSize = maxSize, sc_lru = [], sc_next = 0, sc_cache = Map.empty\<rparr>"

text \<open>\<open>MoveToBack\<close> and \<open>Remove\<close> of \<open>container/list\<close>, for the element with a given identity.\<close>

definition list_Remove :: "nat \<Rightarrow> (nat \<times> 'k) list \<Rightarrow> (nat \<times> 'k) list" where
  "list_Remove e l = filter (\<lambda>x. fst x \<noteq> e) l"

definition list_MoveToBack :: "nat \<Rightarrow> (nat \<times> 'k) list \<Rightarrow> (nat \<times> 'k) list" where
  "list_MoveToBack e l = filter (\<lambda>x. fst x \<noteq> e) l @ filter (\<lambda>x. fst x = e) l"

definition sc_entry :: "('k, 'v) SizeCache \<Rightarrow> 'k \<Rightarrow> ('k, 'v) SizeCache \<times> 'v sizeCacheEntry option" where
  "sc_entry c key =
     (case sc_cache c key of
        None \<Rightarrow> (c, None)
      | Some entry \<Rightarrow> (c\<lparr>sc_lru := list_MoveToBack (sce_lruEntry entry) (sc_lru c)\<rparr>, Some entry))"

definition sc_Get :: "('k, 'v) SizeCache \<Rightarrow> 'k \<Rightarrow> ('k, 'v) SizeCache \<times> 'v option" where
  "sc_Get c key = (case sc_entry c key of (c', e) \<Rightarrow> (c', map_option sce_value e))"

fun sc_evict :: "(nat \<times> 'k) list \<Rightarrow> ('k, 'v) SizeCache \<Rightarrow> ('k, 'v) SizeCache res" where
  "sc_evict [] c = Inr c"
| "sc_evict ((el, key1) # els) c =
     (if sc_totalSize c > sc_maxSize c
      then case sc_cache c key1 of
             None \<Rightarrow> Inl (Panic ''SizeCache is missing expected value'')
           | Some ce \<Rightarrow> sc_evict els (c\<lparr>sc_cache := (sc_cache c)(key1 := None),
                                       sc_totalSize := sc_totalSize c - sce_size ce,
                                       sc_lru := list_Remove el (sc_lru c)\<rparr>)
      else Inr c)"

definition sc_Add :: "('k, 'v) SizeCache \<Rightarrow> 'k \<Rightarrow> uint64 \<Rightarrow> 'v \<Rightarrow> ('k, 'v) SizeCache res" where
  "sc_Add c key sz value =
     (if sz \<le> sc_maxSize c
      then case sc_entry c key of
             (c', Some _) \<Rightarrow> Inr c'
           | (c', None) \<Rightarrow>
               let newEl = sc_next c';
                   ce = \<lparr>sce_size = sz, sce_lruEntry = newEl, sce_value = value\<rparr>;
                   c'' = c'\<lparr>sc_lru := sc_lru c' @ [(newEl, key)], sc_next := Suc newEl,
                            sc_cache := (sc_cache c')(key \<mapsto> ce), sc_totalSize := sc_totalSize c' + sce_size ce\<rparr>
               in sc_evict (sc_lru c'') c''
      else Inr c)"

definition sc_Drop :: "('k, 'v) SizeCache \<Rightarrow> 'k \<Rightarrow> ('k, 'v) SizeCache" where
  "sc_Drop c key =
     (case sc_entry c key of
        (c', Some entry) \<Rightarrow> c'\<lparr>sc_totalSize := sc_totalSize c' - sce_size entry,
                              sc_lru := list_Remove (sce_lruEntry entry) (sc_lru c'),
                              sc_cache := (sc_cache c')(key := None)\<rparr>
      | (c', None) \<Rightarrow> c')"

subsection \<open>Invariant\<close>

definition sc_keys :: "('k, 'v) SizeCache \<Rightarrow> 'k list" where
  "sc_keys c = map snd (sc_lru c)"

definition entry_size :: "('k \<Rightarrow> 'v sizeCacheEntry option) \<Rightarrow> 'k \<Rightarrow> nat" where
  "entry_size m k = (case m k of None \<Rightarrow> 0 | Some e \<Rightarrow> unat (sce_size e))"

text \<open>The structure of a cache, and its accounting, before entries are dropped.\<close>

definition sc_linked :: "('k, 'v) SizeCache \<Rightarrow> bool" where
  "sc_linked c \<longleftrightarrow>
     distinct (map fst (sc_lru c)) \<and> distinct (sc_keys c) \<and> set (sc_keys c) = dom (sc_cache c)
     \<and> list_all (\<lambda>(el, k). el < sc_next c \<and> map_option sce_lruEntry (sc_cache c k) = Some el) (sc_lru c)
     \<and> unat (sc_totalSize c) = sum_list (map (entry_size (sc_cache c)) (sc_keys c))"

definition sc_ok :: "('k, 'v) SizeCache \<Rightarrow> bool" where
  "sc_ok c \<longleftrightarrow> sc_linked c \<and> sc_totalSize c \<le> sc_maxSize c \<and> unat (sc_maxSize c) < 2 ^ 63"

lemma sc_ok_New: "unat n < 2 ^ 63 \<Longrightarrow> sc_ok (sc_New n)"
  by (simp add: sc_ok_def sc_linked_def sc_New_def sc_keys_def)

lemma sum_filter_one:
  fixes f :: "'b \<Rightarrow> nat"
  assumes "distinct xs" "x \<in> set xs"
  shows "sum_list (map f xs) = f x + sum_list (map f (filter (\<lambda>y. y \<noteq> x) xs))"
  using assms
proof (induction xs)
  case (Cons y ys)
  show ?case
  proof (cases "x = y")
    case True
    then have "filter (\<lambda>y. y \<noteq> x) ys = ys" using Cons.prems by (auto simp: filter_id_conv)
    then show ?thesis using True by simp
  qed (use Cons in auto)
qed simp

lemma unat_minus: "(b :: uint64) \<le> a \<Longrightarrow> unat (a - b) = unat a - unat b"
  by (simp add: unat_sub)

lemma entry_size_upd: "k \<notin> set ks \<Longrightarrow> map (entry_size (m(k := e))) ks = map (entry_size m) ks"
  by (auto simp: entry_size_def)

lemma evict_one:
  assumes "sc_linked c" "sc_lru c = (el, k) # rest"
  obtains ce where "sc_cache c k = Some ce" "sce_size ce \<le> sc_totalSize c"
    "sc_linked (c\<lparr>sc_cache := (sc_cache c)(k := None), sc_totalSize := sc_totalSize c - sce_size ce,
                  sc_lru := list_Remove el (sc_lru c)\<rparr>)" "list_Remove el (sc_lru c) = rest"
proof -
  obtain ce where ce: "sc_cache c k = Some ce" "sce_lruEntry ce = el"
    using assms by (auto simp: sc_linked_def)
  have "el \<notin> fst ` set rest" using assms by (simp add: sc_linked_def)
  then have rest: "list_Remove el (sc_lru c) = rest"
    using assms(2) by (force simp: list_Remove_def filter_id_conv)
  have k: "k \<notin> set (map snd rest)" "distinct (map snd rest)" "distinct (map fst rest)"
    using assms by (auto simp: sc_linked_def sc_keys_def)
  have total: "unat (sc_totalSize c) = unat (sce_size ce) + sum_list (map (entry_size (sc_cache c)) (map snd rest))"
    using assms ce by (simp add: sc_linked_def sc_keys_def entry_size_def)
  then have le: "sce_size ce \<le> sc_totalSize c" by (simp add: word_le_nat_alt)
  let ?c = "c\<lparr>sc_cache := (sc_cache c)(k := None), sc_totalSize := sc_totalSize c - sce_size ce,
              sc_lru := list_Remove el (sc_lru c)\<rparr>"
  have keys: "sc_keys ?c = map snd rest" by (simp add: sc_keys_def rest)
  have dom: "set (map snd rest) = dom (sc_cache c) - {k}"
  proof -
    have "insert k (set (map snd rest)) = dom (sc_cache c)" using assms by (simp add: sc_linked_def sc_keys_def)
    then show ?thesis using k(1) by auto
  qed
  have "list_all (\<lambda>(e, k'). e < sc_next c \<and> map_option sce_lruEntry (((sc_cache c)(k := None)) k') = Some e) rest"
  proof -
    have old: "list_all (\<lambda>(e, k'). e < sc_next c \<and> map_option sce_lruEntry (sc_cache c k') = Some e) rest"
      using assms by (simp add: sc_linked_def)
    have ne: "snd x \<noteq> k" if "x \<in> set rest" for x using k(1) that by auto
    have "(case x of (e, k') \<Rightarrow> e < sc_next c \<and> map_option sce_lruEntry (((sc_cache c)(k := None)) k') = Some e)"
      if "x \<in> set rest" for x
      using old that ne [OF that] by (cases x) (auto simp: list_all_iff)
    then show ?thesis by (simp add: list_all_iff)
  qed
  then have "sc_linked ?c"
    unfolding sc_linked_def keys using k dom total le
    by (simp add: rest unat_minus entry_size_upd del: map_map)
  then show ?thesis using that ce(1) le rest by blast
qed

lemma map_restrict_drop:
  "dom m \<subseteq> insert k A \<Longrightarrow> k \<notin> A \<Longrightarrow> (m(k := None)) |` B = m |` (B - {k})"
  by (auto simp: restrict_map_def fun_eq_iff)

lemma sc_evict_ok:
  assumes "sc_linked c"
  shows "\<exists>n c'. sc_evict (sc_lru c) c = Inr c' \<and> sc_linked c' \<and> n \<le> length (sc_lru c) \<and> sc_lru c' = drop n (sc_lru c)
    \<and> sc_cache c' = sc_cache c |` set (sc_keys c') \<and> sc_maxSize c' = sc_maxSize c \<and> sc_totalSize c' \<le> sc_maxSize c
    \<and> (\<forall>m < n. sum_list (map (entry_size (sc_cache c)) (drop m (sc_keys c))) > unat (sc_maxSize c))"
  using assms
proof (induction "sc_lru c" arbitrary: c)
  case Nil
  then have "sc_totalSize c = 0" "dom (sc_cache c) = {}" by (simp_all add: sc_linked_def sc_keys_def unat_eq_0)
  then show ?case using Nil by (intro exI [of _ 0] exI [of _ c]) (simp add: sc_keys_def flip: Nil(1))
next
  case (Cons p rest)
  obtain el k where p: "p = (el, k)" by fastforce
  have dom: "set (sc_keys c) = dom (sc_cache c)" using Cons.prems by (simp add: sc_linked_def)
  show ?case
  proof (cases "sc_totalSize c > sc_maxSize c")
    case False
    then have "sc_evict (sc_lru c) c = Inr c" using Cons(2) [symmetric] p by simp
    moreover have "sc_cache c = sc_cache c |` set (sc_keys c)" unfolding dom by (auto simp: restrict_map_def fun_eq_iff)
    ultimately show ?thesis using False Cons.prems by (intro exI [of _ 0] exI [of _ c]) simp
  next
    case True
    obtain ce where ce: "sc_cache c k = Some ce" and linked: "sc_linked (c\<lparr>sc_cache := (sc_cache c)(k := None),
        sc_totalSize := sc_totalSize c - sce_size ce, sc_lru := list_Remove el (sc_lru c)\<rparr>)"
      and rest: "list_Remove el (sc_lru c) = rest"
      using evict_one [OF Cons.prems] Cons(2) p by metis
    define c1 where "c1 = c\<lparr>sc_cache := (sc_cache c)(k := None), sc_totalSize := sc_totalSize c - sce_size ce,
        sc_lru := list_Remove el (sc_lru c)\<rparr>"
    have c1: "sc_lru c1 = rest" "sc_linked c1" "sc_maxSize c1 = sc_maxSize c" "sc_cache c1 = (sc_cache c)(k := None)"
      using rest linked by (simp_all add: c1_def)
    obtain n c' where c': "sc_evict rest c1 = Inr c'" "sc_linked c'" "n \<le> length rest" "sc_lru c' = drop n rest"
      "sc_cache c' = sc_cache c1 |` set (sc_keys c')" "sc_maxSize c' = sc_maxSize c1" "sc_totalSize c' \<le> sc_maxSize c1"
      "\<forall>m < n. sum_list (map (entry_size (sc_cache c1)) (drop m (sc_keys c1))) > unat (sc_maxSize c1)"
      using Cons(1) [of c1] c1 by auto
    have keys: "sc_keys c = k # map snd rest" "sc_keys c1 = map snd rest" "sc_keys c' = drop n (map snd rest)"
      using Cons(2) [symmetric] p c1(1) c'(4) by (simp_all add: sc_keys_def drop_map)
    have k: "k \<notin> set (map snd rest)" using Cons.prems keys(1) by (simp add: sc_linked_def)
    have "sc_cache c' = sc_cache c |` set (sc_keys c')"
      using c'(5) c1(4) keys(3) k by (auto simp: restrict_map_def fun_eq_iff dest: in_set_dropD)
    moreover have "sum_list (map (entry_size (sc_cache c)) (drop m (sc_keys c))) > unat (sc_maxSize c)" if "m < Suc n" for m
    proof (cases m)
      case 0
      then show ?thesis using True Cons.prems by (simp add: sc_linked_def word_less_nat_alt)
    next
      case (Suc l)
      have "k \<notin> set (drop l (map snd rest))" using k by (meson in_set_dropD)
      then have eq: "map (entry_size (sc_cache c1)) (drop l (map snd rest)) = map (entry_size (sc_cache c)) (drop l (map snd rest))"
        unfolding c1(4) by (rule entry_size_upd)
      have "unat (sc_maxSize c1) < sum_list (map (entry_size (sc_cache c1)) (drop l (sc_keys c1)))"
        using c'(8) Suc that by simp
      then show ?thesis unfolding keys(1,2) c1(3) Suc eq by simp
    qed
    moreover have "sc_evict (sc_lru c) c = Inr c'"
      using c'(1) True ce Cons(2) [symmetric] p by (simp add: c1_def)
    ultimately show ?thesis
      using c' c1(3) Cons(2) [symmetric] by (intro exI [of _ "Suc n"] exI [of _ c']) simp
  qed
qed

subsection \<open>Operations\<close>

lemma filter_eq_single: "distinct xs \<Longrightarrow> k \<in> set xs \<Longrightarrow> filter (\<lambda>x. x = k) xs = [k]"
proof (induction xs)
  case (Cons x xs)
  then show ?case by (cases "x = k") (auto simp: filter_empty_conv)
qed simp

lemma MoveToBack_keys:
  assumes "sc_linked c" "sc_cache c k = Some e"
  shows "map snd (list_MoveToBack (sce_lruEntry e) (sc_lru c)) = filter (\<lambda>x. x \<noteq> k) (sc_keys c) @ [k]"
    and "map snd (list_Remove (sce_lruEntry e) (sc_lru c)) = filter (\<lambda>x. x \<noteq> k) (sc_keys c)"
    and "mset (list_MoveToBack (sce_lruEntry e) (sc_lru c)) = mset (sc_lru c)"
proof -
  have iff: "fst x = sce_lruEntry e \<longleftrightarrow> snd x = k" if x: "x \<in> set (sc_lru c)" for x
  proof
    assume "snd x = k"
    then show "fst x = sce_lruEntry e" using assms x by (auto simp: sc_linked_def list_all_iff)
  next
    assume fst: "fst x = sce_lruEntry e"
    have "k \<in> set (sc_keys c)" using assms by (auto simp: sc_linked_def)
    then obtain y where y: "y \<in> set (sc_lru c)" "snd y = k" by (auto simp: sc_keys_def)
    then have "fst y = sce_lruEntry e" using assms by (auto simp: sc_linked_def list_all_iff)
    then have "x = y" using assms(1) x y(1) fst unfolding sc_linked_def by (metis eq_key_imp_eq_value prod.collapse)
    then show "snd x = k" using y(2) by simp
  qed
  have f: "filter (\<lambda>x. fst x \<noteq> sce_lruEntry e) (sc_lru c) = filter (\<lambda>x. snd x \<noteq> k) (sc_lru c)"
    "filter (\<lambda>x. fst x = sce_lruEntry e) (sc_lru c) = filter (\<lambda>x. snd x = k) (sc_lru c)"
    using iff by (auto intro: filter_cong)
  have "map snd (filter (\<lambda>x. snd x = k) (sc_lru c)) = filter (\<lambda>x. x = k) (sc_keys c)"
    by (simp add: sc_keys_def filter_map comp_def)
  also have "\<dots> = [k]"
    using assms by (intro filter_eq_single) (auto simp: sc_linked_def)
  finally show "map snd (list_MoveToBack (sce_lruEntry e) (sc_lru c)) = filter (\<lambda>x. x \<noteq> k) (sc_keys c) @ [k]"
    by (simp add: list_MoveToBack_def f sc_keys_def filter_map comp_def)
  show "map snd (list_Remove (sce_lruEntry e) (sc_lru c)) = filter (\<lambda>x. x \<noteq> k) (sc_keys c)"
    by (simp add: list_Remove_def f sc_keys_def filter_map comp_def)
  show "mset (list_MoveToBack (sce_lruEntry e) (sc_lru c)) = mset (sc_lru c)"
    by (simp add: list_MoveToBack_def mset_filter flip: multiset_partition [of _ "\<lambda>x. fst x \<noteq> sce_lruEntry e"])
qed

lemma sc_linked_MoveToBack:
  assumes "sc_linked c" "sc_cache c k = Some e"
  shows "sc_linked (c\<lparr>sc_lru := list_MoveToBack (sce_lruEntry e) (sc_lru c)\<rparr>)"
proof -
  let ?l = "list_MoveToBack (sce_lruEntry e) (sc_lru c)"
  note m = MoveToBack_keys(3) [OF assms]
  have fst: "distinct (map fst ?l) = distinct (map fst (sc_lru c))"
    and snd: "distinct (map snd ?l) = distinct (map snd (sc_lru c))"
    using m by (metis mset_eq_imp_distinct_iff mset_map)+
  have "mset (map (entry_size (sc_cache c)) (map snd ?l)) = mset (map (entry_size (sc_cache c)) (map snd (sc_lru c)))"
    using m by (metis mset_map)
  then have sum: "sum_list (map (entry_size (sc_cache c)) (map snd ?l)) = sum_list (map (entry_size (sc_cache c)) (map snd (sc_lru c)))"
    by (metis sum_mset_sum_list)
  have set: "set ?l = set (sc_lru c)" using m by (rule mset_eq_setD)
  show ?thesis
    using assms(1) fst snd sum set unfolding sc_linked_def sc_keys_def list_all_iff by (simp del: map_map)
qed

lemma sc_entry_ok:
  assumes "sc_ok c" "sc_entry c k = (c', e)"
  shows "sc_ok c' \<and> e = sc_cache c k \<and> sc_cache c' = sc_cache c \<and> sc_maxSize c' = sc_maxSize c
    \<and> sc_keys c' = (if k \<in> dom (sc_cache c) then filter (\<lambda>x. x \<noteq> k) (sc_keys c) @ [k] else sc_keys c)"
proof (cases "sc_cache c k")
  case None
  then show ?thesis using assms by (simp add: sc_entry_def domIff)
next
  case (Some x)
  have "sc_linked c" using assms(1) by (simp add: sc_ok_def)
  note s = sc_linked_MoveToBack [OF this Some] MoveToBack_keys(1) [OF this Some]
  show ?thesis using assms Some s by (auto simp: sc_entry_def sc_ok_def sc_keys_def)
qed

text \<open>
  C27: adding an entry that fits never panics and keeps the cache within its limit: afterwards the
  accounted size is the sum of the sizes of the entries and at most \<open>maxSize\<close>. The new entry is
  there; those dropped are the least recently used ones, and no more than necessary.
\<close>

theorem sc_Add_bounded:
  assumes "sc_ok c" "sc_cache c key = None" "sz \<le> sc_maxSize c"
  shows "\<exists>c' n. sc_Add c key sz value = Inr c' \<and> sc_ok c' \<and> sc_keys c' = drop n (sc_keys c @ [key])
    \<and> n \<le> length (sc_keys c) \<and> snd (sc_Get c' key) = Some value
    \<and> (\<forall>k \<in> set (sc_keys c') - {key}. sc_cache c' k = sc_cache c k)
    \<and> (\<forall>m < n. sum_list (map (entry_size (sc_cache c)) (drop m (sc_keys c))) + unat sz > unat (sc_maxSize c))"
proof -
  let ?ce = "\<lparr>sce_size = sz, sce_lruEntry = sc_next c, sce_value = value\<rparr>"
  define c1 where "c1 = c\<lparr>sc_lru := sc_lru c @ [(sc_next c, key)], sc_next := Suc (sc_next c),
    sc_cache := (sc_cache c)(key \<mapsto> ?ce), sc_totalSize := sc_totalSize c + sz\<rparr>"
  have linked: "sc_linked c" and le: "sc_totalSize c \<le> sc_maxSize c" and max: "unat (sc_maxSize c) < 2 ^ 63"
    using assms(1) by (simp_all add: sc_ok_def)
  have new: "key \<notin> set (sc_keys c)" using linked assms(2) by (auto simp: sc_linked_def)
  have keys: "sc_keys c1 = sc_keys c @ [key]" by (simp add: c1_def sc_keys_def)
  have "unat (sc_totalSize c) + unat sz < 2 ^ 64"
    using le assms(3) max by (simp add: word_le_nat_alt)
  then have total: "unat (sc_totalSize c + sz) = unat (sc_totalSize c) + unat sz"
    by (simp add: unat_word_ariths)
  have sizes: "map (entry_size (sc_cache c1)) (sc_keys c) = map (entry_size (sc_cache c)) (sc_keys c)"
    using new unfolding c1_def by (simp add: entry_size_upd)
  have sum: "sum_list (map (entry_size (sc_cache c1)) (sc_keys c)) = unat (sc_totalSize c)"
    unfolding sizes using linked by (simp add: sc_linked_def)
  have key: "entry_size (sc_cache c1) key = unat sz" by (simp add: c1_def entry_size_def)
  have "list_all (\<lambda>(el, k). el < Suc (sc_next c) \<and> map_option sce_lruEntry (sc_cache c1 k) = Some el) (sc_lru c)"
    using linked new by (fastforce simp: sc_linked_def list_all_iff c1_def sc_keys_def image_iff)
  moreover have "sc_next c \<notin> fst ` set (sc_lru c)" using linked by (auto simp: sc_linked_def list_all_iff)
  moreover have "unat (sc_totalSize c1) = sum_list (map (entry_size (sc_cache c1)) (sc_keys c @ [key]))"
    using total sum key by (simp add: c1_def)
  ultimately have linked1: "sc_linked c1"
    using linked new unfolding sc_linked_def keys by (simp add: c1_def)
  obtain n c' where c': "sc_evict (sc_lru c1) c1 = Inr c'" "sc_linked c'" "n \<le> length (sc_lru c1)" "sc_lru c' = drop n (sc_lru c1)"
    "sc_cache c' = sc_cache c1 |` set (sc_keys c')" "sc_maxSize c' = sc_maxSize c1" "sc_totalSize c' \<le> sc_maxSize c1"
    "\<forall>m < n. sum_list (map (entry_size (sc_cache c1)) (drop m (sc_keys c1))) > unat (sc_maxSize c1)"
    using sc_evict_ok [OF linked1] by blast
  have n: "n \<le> length (sc_keys c)"
  proof (rule ccontr)
    assume "\<not> n \<le> length (sc_keys c)"
    then have "sum_list (map (entry_size (sc_cache c1)) (drop (length (sc_keys c)) (sc_keys c1))) > unat (sc_maxSize c1)"
      using c'(8) by simp
    then show False using keys key assms(3) by (simp add: c1_def word_le_nat_alt)
  qed
  have keys': "sc_keys c' = drop n (sc_keys c @ [key])" using c'(4) keys unfolding sc_keys_def by (metis drop_map)
  then have "key \<in> set (sc_keys c')" using n by simp
  then have "sc_cache c' key = Some ?ce" using c'(5) by (simp add: c1_def)
  then have get: "snd (sc_Get c' key) = Some value" by (simp add: sc_Get_def sc_entry_def)
  have "sum_list (map (entry_size (sc_cache c)) (drop m (sc_keys c))) + unat sz > unat (sc_maxSize c)" if "m < n" for m
  proof -
    have "map (entry_size (sc_cache c1)) (drop m (sc_keys c @ [key]))
        = map (entry_size (sc_cache c)) (drop m (sc_keys c)) @ [unat sz]"
      using that n sizes key by (simp add: drop_map [symmetric] del: map_eq_conv)
    moreover have "unat (sc_maxSize c1) < sum_list (map (entry_size (sc_cache c1)) (drop m (sc_keys c @ [key])))"
      using c'(8) that unfolding keys by blast
    moreover have "sc_maxSize c1 = sc_maxSize c" by (simp add: c1_def)
    ultimately show ?thesis by (simp del: map_append drop_append map_eq_conv)
  qed
  moreover have "sc_Add c key sz value = Inr c'"
    using assms(2,3) c'(1) by (simp add: sc_Add_def sc_entry_def c1_def Let_def)
  moreover have "sc_ok c'" using c'(2,6,7) max by (simp add: sc_ok_def c1_def)
  moreover have "\<forall>k \<in> set (sc_keys c') - {key}. sc_cache c' k = sc_cache c k" using c'(5) by (auto simp: c1_def)
  ultimately show ?thesis using keys' n get by blast
qed

theorem sc_Add_bounded_witness:
  "\<exists>c'. sc_Add (sc_New 10 :: (nat, nat) SizeCache) 5 4 7 = Inr c' \<and> sc_keys c' = [5] \<and> sc_totalSize c' \<le> sc_maxSize c'"
proof -
  have "sc_ok (sc_New 10 :: (nat, nat) SizeCache)" by (rule sc_ok_New) simp
  from sc_Add_bounded [OF this, of 5 4 7] show ?thesis by (auto simp: sc_New_def sc_keys_def sc_ok_def)
qed

end
