(* ===== verification/GoNumber.thy ===== *)
theory GoNumber
  imports Complex_Main GoVarint "HOL-Library.Log_Nat"
begin

text \<open>
  The numbers of the Go language and library that the codec of values uses: \<open>float64\<close> with correctly
  rounded arithmetic.
\<close>

unbundle bit_operations_syntax

subsection \<open>float64\<close>

text \<open>
  A finite \<open>float64\<close> is a rational number; the two zeros, which \<open>==\<close> does not distinguish, are one
  value. The other values are the infinities, with their sign, and \<open>NaN\<close>.
\<close>

datatype float64 = Fin rat | Inf bool | NaN

text \<open>Finite numbers are smaller than this.\<close>

definition float_limit :: rat where
  "float_limit = 2 ^ 1024"

text \<open>The finite numbers of the format: 53 bits of precision, exponents from -1074 on.\<close>

definition is_float64 :: "rat \<Rightarrow> bool" where
  "is_float64 q \<longleftrightarrow> (\<exists>m e. q = of_int m * 2 powi e \<and> \<bar>m\<bar> < 2 ^ 53 \<and> - 1074 \<le> e \<and> \<bar>q\<bar> < float_limit)"

text \<open>The integer \<open>k\<close> with \<open>2^k \<le> q < 2^(k+1)\<close>, for a positive \<open>q\<close>.\<close>

definition ilog2 :: "rat \<Rightarrow> int" where
  "ilog2 q =
     (case quotient_of q of (a, b) \<Rightarrow>
        let k = int (floorlog 2 (nat a)) - int (floorlog 2 (nat b))
        in if 2 powi k \<le> q then k else k - 1)"

definition round_half_even :: "rat \<Rightarrow> int" where
  "round_half_even q =
     (let n = \<lfloor>q\<rfloor>; d = q - of_int n
      in if d < 1 / 2 \<or> d = 1 / 2 \<and> even n then n else n + 1)"

text \<open>Rounding to the nearest number of the format, ties to even.\<close>

definition round64 :: "rat \<Rightarrow> float64" where
  "round64 q =
     (if q = 0 then Fin 0
      else let e = max (- 1074) (ilog2 \<bar>q\<bar> - 52);
               r = of_int (round_half_even (q / 2 powi e)) * 2 powi e
           in if \<bar>r\<bar> < float_limit then Fin r else Inf (q < 0))"

fun fl_less :: "float64 \<Rightarrow> float64 \<Rightarrow> bool" where
  "fl_less (Fin a) (Fin b) \<longleftrightarrow> a < b"
| "fl_less (Fin a) (Inf neg) \<longleftrightarrow> \<not> neg"
| "fl_less (Inf neg) (Fin b) \<longleftrightarrow> neg"
| "fl_less (Inf neg) (Inf neg') \<longleftrightarrow> neg \<and> \<not> neg'"
| "fl_less NaN g \<longleftrightarrow> False"
| "fl_less f NaN \<longleftrightarrow> False"

fun fl_eq :: "float64 \<Rightarrow> float64 \<Rightarrow> bool" where
  "fl_eq NaN g \<longleftrightarrow> False"
| "fl_eq f NaN \<longleftrightarrow> False"
| "fl_eq f g \<longleftrightarrow> f = g"

fun fl_neg :: "float64 \<Rightarrow> bool" where
  "fl_neg (Fin a) \<longleftrightarrow> a < 0"
| "fl_neg (Inf neg) \<longleftrightarrow> neg"
| "fl_neg NaN \<longleftrightarrow> False"

fun fl_abs :: "float64 \<Rightarrow> float64" where
  "fl_abs (Fin a) = Fin \<bar>a\<bar>"
| "fl_abs (Inf neg) = Inf False"
| "fl_abs NaN = NaN"

fun fl_mult :: "float64 \<Rightarrow> float64 \<Rightarrow> float64" where
  "fl_mult NaN g = NaN"
| "fl_mult f NaN = NaN"
| "fl_mult (Fin a) (Fin b) = round64 (a * b)"
| "fl_mult (Fin a) (Inf neg) = (if a = 0 then NaN else Inf (neg \<noteq> (a < 0)))"
| "fl_mult (Inf neg) (Fin b) = (if b = 0 then NaN else Inf (neg \<noteq> (b < 0)))"
| "fl_mult (Inf neg) (Inf neg') = Inf (neg \<noteq> neg')"

fun fl_div :: "float64 \<Rightarrow> float64 \<Rightarrow> float64" where
  "fl_div NaN g = NaN"
| "fl_div f NaN = NaN"
| "fl_div (Fin a) (Fin b) = (if b = 0 then if a = 0 then NaN else Inf (a < 0) else round64 (a / b))"
| "fl_div (Fin a) (Inf neg) = Fin 0"
| "fl_div (Inf neg) (Fin b) = Inf (neg \<noteq> (b < 0))"
| "fl_div (Inf neg) (Inf neg') = NaN"

text \<open>\<open>math.Trunc\<close>, and \<open>math.Pow(2, y)\<close> for an integral \<open>y\<close>.\<close>

fun Trunc :: "float64 \<Rightarrow> float64" where
  "Trunc (Fin a) = Fin (if a < 0 then of_int \<lceil>a\<rceil> else of_int \<lfloor>a\<rfloor>)"
| "Trunc f = f"

definition Pow2 :: "int \<Rightarrow> float64" where
  "Pow2 y = (if y > 1023 then Inf False else if y < - 1074 then Fin 0 else Fin (2 powi y))"

text \<open>\<open>int64(f)\<close> for an \<open>f\<close> in range, and \<open>float64(i)\<close>.\<close>

fun int64_of :: "float64 \<Rightarrow> uint64" where
  "int64_of (Fin a) = of_int (if a < 0 then \<lceil>a\<rceil> else \<lfloor>a\<rfloor>)"
| "int64_of _ = of_int (- (2 ^ 63))"

definition float64_of :: "uint64 \<Rightarrow> float64" where
  "float64_of i = round64 (of_int (sint i))"

lemma ilog2_bounds:
  assumes "0 < q"
  shows "2 powi ilog2 q \<le> q \<and> q < 2 powi (ilog2 q + 1)"
proof -
  obtain a b where ab: "quotient_of q = (a, b)" by (cases "quotient_of q")
  have b: "0 < b" using ab by (rule quotient_of_denom_pos)
  have q: "q = of_int a / of_int b" using ab by (rule quotient_of_div)
  have a: "0 < a" using assms b q by (simp add: zero_less_divide_iff)
  define la lb where "la = floorlog 2 (nat a)" and "lb = floorlog 2 (nat b)"
  have pow1: "2 ^ (l - 1) = (2 :: rat) powi (int l - 1)" if "0 < l" for l
    using that by (cases l) simp_all
  have bnd: "2 powi (int l - 1) \<le> (of_int c :: rat) \<and> of_int c < (2 :: rat) powi int l"
    if "0 < c" "l = floorlog 2 (nat c)" for c l
  proof -
    have "2 ^ (l - 1) \<le> nat c \<and> nat c < 2 ^ l" using floorlog_bounds [of "nat c" 2] that by simp
    then have "(2::int) ^ (l - 1) \<le> c \<and> c < 2 ^ l" using that by (simp add: nat_less_iff le_nat_iff)
    then have "(of_int (2 ^ (l - 1)) :: rat) \<le> of_int c \<and> (of_int c :: rat) < of_int (2 ^ l)"
      by (simp only: of_int_le_iff of_int_less_iff)
    moreover have "0 < l" using that by (simp add: floorlog_def)
    ultimately show ?thesis using pow1 [of l] by (metis of_int_numeral of_int_power power_int_of_nat)
  qed
  let ?k = "int la - int lb"
  have A: "2 powi (int la - 1) \<le> (of_int a :: rat)" "of_int a < (2 :: rat) powi int la"
    and B: "2 powi (int lb - 1) \<le> (of_int b :: rat)" "of_int b < (2 :: rat) powi int lb"
    using bnd [OF a la_def] bnd [OF b lb_def] by blast+
  have split: "(2::rat) powi (x + y) = 2 powi x * 2 powi y" for x y :: int by (rule power_int_add) simp
  have pos: "0 < (2::rat) powi x" for x by simp
  have "q < 2 powi (?k + 1)"
  proof -
    have "of_int a < 2 powi (?k + 1) * (2 :: rat) powi (int lb - 1)"
      using A(2) by (simp add: split [symmetric])
    also have "\<dots> \<le> 2 powi (?k + 1) * of_int b" using B(1) by (intro mult_left_mono) simp_all
    finally show ?thesis using b by (simp add: q divide_less_eq)
  qed
  moreover have "2 powi (?k - 1) \<le> q"
  proof -
    have "2 powi (?k - 1) * of_int b \<le> 2 powi (?k - 1) * (2 :: rat) powi int lb"
      using B(2) by (intro mult_left_mono) simp_all
    also have "\<dots> = 2 powi (int la - 1)" using split [of "?k - 1" "int lb"] by simp
    also have "\<dots> \<le> of_int a" by (rule A(1))
    finally show ?thesis using b by (simp add: q le_divide_eq)
  qed
  ultimately show ?thesis by (auto simp: ilog2_def ab Let_def la_def lb_def)
qed

lemma round_half_even_int [simp]: "round_half_even (of_int n) = n"
  by (simp add: round_half_even_def)

lemma powi_split: "(2::rat) powi (x + y) = 2 powi x * 2 powi y"
  by (rule power_int_add) simp

lemma powi_diff: "(2::rat) powi (x - y) = 2 powi x / 2 powi y"
  by (rule power_int_diff) simp

lemma powi_nonneg_int: "0 \<le> e \<Longrightarrow> (2::rat) powi e = of_int (2 ^ nat e)"
  by (simp add: power_int_def)

lemma powi_less_iff: "(2::rat) powi x < 2 powi y \<longleftrightarrow> x < y"
  by (metis linorder_not_less one_less_numeral_iff power_int_increasing power_int_strict_increasing
      numeral_One one_le_numeral semiring_norm(76))

text \<open>A number of the format is its own rounding.\<close>

lemma round64_exact:
  assumes "is_float64 q"
  shows "round64 q = Fin q"
proof (cases "q = 0")
  case True
  then show ?thesis by (simp add: round64_def)
next
  case False
  obtain m e where q: "q = of_int m * 2 powi e" "\<bar>m\<bar> < 2 ^ 53" "- 1074 \<le> e" "\<bar>q\<bar> < float_limit"
    using assms by (auto simp: is_float64_def)
  define e' where "e' = max (- 1074) (ilog2 \<bar>q\<bar> - 52)"
  have "2 powi ilog2 \<bar>q\<bar> \<le> \<bar>q\<bar>" using ilog2_bounds [of "\<bar>q\<bar>"] False by simp
  also have "\<bar>q\<bar> = of_int \<bar>m\<bar> * 2 powi e" by (simp add: q(1) abs_mult)
  also have "\<dots> < of_int (2 ^ 53) * 2 powi e" using q(2) by (intro mult_strict_right_mono) (simp_all only: of_int_less_iff, simp)
  also have "\<dots> = 2 powi (53 + e)" by (simp add: powi_split)
  finally have "ilog2 \<bar>q\<bar> < 53 + e" by (simp only: powi_less_iff)
  then have "e' \<le> e" using q(3) by (simp add: e'_def)
  then have "q / 2 powi e' = of_int (m * 2 ^ nat (e - e'))"
    by (simp add: q(1) powi_diff powi_nonneg_int [of "e - e'", simplified, symmetric])
  then have "of_int (round_half_even (q / 2 powi e')) * 2 powi e' = q"
    by (metis round_half_even_int nonzero_eq_divide_eq power_int_not_zero zero_neq_numeral)
  then show ?thesis using False q(4) by (simp add: round64_def Let_def flip: e'_def)
qed

end
