(* ===== verification/Codec.thy ===== *)
theory Codec
  imports GoNumber Chunks
begin

text \<open>
  The binary reader and writer of \<open>go/types/codec.go\<close> and the representation of numbers by an
  integer and an exponent (\<open>go/types/number_util.go\<close>). Reader and writer work on a buffer with a
  32-bit offset; all offset arithmetic is that of \<open>uint32\<close>.
\<close>

subsection \<open>Numbers as integer and exponent\<close>

definition maxSafeInteger :: float64 where
  "maxSafeInteger = Fin 9007199254740991"

definition float64IsInt :: "float64 \<Rightarrow> bool" where
  "float64IsInt f \<longleftrightarrow> fl_eq (Trunc f) f"

text \<open>The two loops of \<open>float64ToIntExp\<close>; neither ends for an infinity or \<open>NaN\<close>.\<close>

partial_function (option) bring_down :: "float64 \<Rightarrow> int \<Rightarrow> (float64 \<times> int) option" where
  "bring_down f ex =
     (if fl_less maxSafeInteger f then bring_down (fl_div f (Fin 2)) (ex - 1) else Some (f, ex))"

partial_function (option) scale_up :: "float64 \<Rightarrow> int \<Rightarrow> (float64 \<times> int) option" where
  "scale_up f ex =
     (if \<not> float64IsInt f then scale_up (fl_mult f (Fin 2)) (ex + 1) else Some (f, ex))"

definition float64ToIntExp :: "float64 \<Rightarrow> (uint64 \<times> int) res" where
  "float64ToIntExp f =
     (if fl_eq f (Fin 0) then Inr (0, 0)
      else let isNegative = fl_neg f
           in case bring_down (fl_abs f) 0 of
                None \<Rightarrow> Inl Diverges
              | Some (f, ex) \<Rightarrow>
                  (case scale_up f ex of
                     None \<Rightarrow> Inl Diverges
                   | Some (f, ex) \<Rightarrow>
                       let f = (if isNegative then fl_mult f (Fin (- 1)) else f) in Inr (int64_of f, ex)))"

definition intExpToFloat64 :: "uint64 \<Rightarrow> int \<Rightarrow> float64" where
  "intExpToFloat64 i ex = (if ex = 0 then float64_of i else fl_div (float64_of i) (Pow2 ex))"

subsection \<open>The reader\<close>

record binaryNomsReader =
  rd_buff :: bytes
  rd_offset :: uint32

definition rd_pos :: "binaryNomsReader \<Rightarrow> uint32" where
  "rd_pos b = rd_offset b"

definition rd_seek :: "uint32 \<Rightarrow> binaryNomsReader \<Rightarrow> binaryNomsReader" where
  "rd_seek pos b = b\<lparr>rd_offset := pos\<rparr>"

text \<open>\<open>b.buff[b.offset+k]\<close>, and advancing the offset.\<close>

definition byte_at :: "binaryNomsReader \<Rightarrow> uint32 \<Rightarrow> byte res" where
  "byte_at b k = nth_res (rd_buff b) (unat (rd_offset b + k))"

definition rd_skip :: "uint32 \<Rightarrow> binaryNomsReader \<Rightarrow> binaryNomsReader" where
  "rd_skip n b = b\<lparr>rd_offset := rd_offset b + n\<rparr>"

definition readUint8 :: "binaryNomsReader \<Rightarrow> (byte \<times> binaryNomsReader) res" where
  "readUint8 b = rbind (byte_at b 0) (\<lambda>v. Inr (v, rd_skip 1 b))"

definition readUint32 :: "binaryNomsReader \<Rightarrow> (uint32 \<times> binaryNomsReader) res" where
  "readUint32 b =
     rbind (byte_at b 0) (\<lambda>b0. rbind (byte_at b 1) (\<lambda>b1. rbind (byte_at b 2) (\<lambda>b2. rbind (byte_at b 3) (\<lambda>b3.
       Inr (push_bit 24 (ucast b0) OR push_bit 16 (ucast b1) OR push_bit 8 (ucast b2) OR ucast b3, rd_skip 4 b)))))"

definition readUint64 :: "binaryNomsReader \<Rightarrow> (uint64 \<times> binaryNomsReader) res" where
  "readUint64 b =
     rbind (byte_at b 0) (\<lambda>b0. rbind (byte_at b 1) (\<lambda>b1. rbind (byte_at b 2) (\<lambda>b2. rbind (byte_at b 3) (\<lambda>b3.
     rbind (byte_at b 4) (\<lambda>b4. rbind (byte_at b 5) (\<lambda>b5. rbind (byte_at b 6) (\<lambda>b6. rbind (byte_at b 7) (\<lambda>b7.
       Inr (push_bit 56 (ucast b0) OR push_bit 48 (ucast b1) OR push_bit 40 (ucast b2) OR push_bit 32 (ucast b3)
            OR push_bit 24 (ucast b4) OR push_bit 16 (ucast b5) OR push_bit 8 (ucast b6) OR ucast b7, rd_skip 8 b)))))))))"

definition rd_slice :: "uint32 \<Rightarrow> binaryNomsReader \<Rightarrow> (bytes \<times> binaryNomsReader) res" where
  "rd_slice sz b =
     rbind (slice_res (rd_buff b) (unat (rd_offset b)) (unat (rd_offset b + sz))) (\<lambda>v. Inr (v, rd_skip sz b))"

definition readBytes :: "binaryNomsReader \<Rightarrow> (bytes \<times> binaryNomsReader) res" where
  "readBytes b = rbind (readUint32 b) (\<lambda>(size, b). rd_slice size b)"

definition readNumber :: "binaryNomsReader \<Rightarrow> (float64 \<times> binaryNomsReader) res" where
  "readNumber b =
     rbind (from_res (rd_buff b) (unat (rd_offset b))) (\<lambda>buf.
       let (i, cnt) = Varint buf; b = rd_skip (of_int cnt) b
       in rbind (from_res (rd_buff b) (unat (rd_offset b))) (\<lambda>buf.
            let (ex, count2) = Varint buf
            in Inr (intExpToFloat64 i (sint ex), rd_skip (of_int count2) b)))"

definition readBool :: "binaryNomsReader \<Rightarrow> (bool \<times> binaryNomsReader) res" where
  "readBool b = rbind (readUint8 b) (\<lambda>(v, b). Inr (v = 1, b))"

definition readString :: "binaryNomsReader \<Rightarrow> (bytes \<times> binaryNomsReader) res" where
  "readString b = rbind (readUint32 b) (\<lambda>(size, b). rd_slice size b)"

definition readHash :: "binaryNomsReader \<Rightarrow> (hash \<times> binaryNomsReader) res" where
  "readHash b = rbind (rd_slice 20 b) (\<lambda>(v, b). Inr (copy_hash v, b))"

subsection \<open>The writer\<close>

record binaryNomsWriter =
  wr_buff :: bytes
  wr_offset :: uint32

definition initialBufferSize :: nat where
  "initialBufferSize = 2048"

definition newBinaryNomsWriter :: binaryNomsWriter where
  "newBinaryNomsWriter = \<lparr>wr_buff = replicate initialBufferSize 0, wr_offset = 0\<rparr>"

definition wr_data :: "binaryNomsWriter \<Rightarrow> bytes res" where
  "wr_data b = slice_res (wr_buff b) 0 (unat (wr_offset b))"

definition wr_reset :: "binaryNomsWriter \<Rightarrow> binaryNomsWriter" where
  "wr_reset b = b\<lparr>wr_offset := 0\<rparr>"

text \<open>\<open>copy(dst, src)\<close> copies as many bytes as both have.\<close>

definition go_copy :: "bytes \<Rightarrow> bytes \<Rightarrow> bytes" where
  "go_copy dst src = take (length dst) src @ drop (length src) dst"

text \<open>
  The loop of \<open>ensureCapacity\<close> that doubles the length. The product wraps around, so that a length
  that is a power of two becomes zero once it would reach \<open>2^32\<close>; the loop then never ends.
\<close>

partial_function (option) grow :: "uint32 \<Rightarrow> uint32 \<Rightarrow> uint32 option" where
  "grow need len = (if need > len then grow need (len * 2) else Some len)"

definition ensureCapacity :: "uint32 \<Rightarrow> binaryNomsWriter \<Rightarrow> binaryNomsWriter res" where
  "ensureCapacity n b =
     (let len = of_nat (length (wr_buff b)) :: uint32
      in if wr_offset b + n \<le> len then Inr b
         else case grow (wr_offset b + n) len of
                None \<Rightarrow> Inl Diverges
              | Some len \<Rightarrow> Inr (b\<lparr>wr_buff := go_copy (replicate (unat len) 0) (wr_buff b)\<rparr>))"

text \<open>\<open>b.buff[b.offset+k] = v\<close>, and \<open>copy(b.buff[b.offset:], v)\<close>.\<close>

definition put_at :: "uint32 \<Rightarrow> byte \<Rightarrow> binaryNomsWriter \<Rightarrow> binaryNomsWriter res" where
  "put_at k v b =
     (let i = unat (wr_offset b + k)
      in if i < length (wr_buff b) then Inr (b\<lparr>wr_buff := (wr_buff b)[i := v]\<rparr>) else Inl IndexOutOfRange)"

definition wr_copy :: "bytes \<Rightarrow> binaryNomsWriter \<Rightarrow> binaryNomsWriter res" where
  "wr_copy v b =
     (let i = unat (wr_offset b)
      in rbind (from_res (wr_buff b) i) (\<lambda>dst. Inr (b\<lparr>wr_buff := take i (wr_buff b) @ go_copy dst v\<rparr>)))"

definition wr_skip :: "uint32 \<Rightarrow> binaryNomsWriter \<Rightarrow> binaryNomsWriter" where
  "wr_skip n b = b\<lparr>wr_offset := wr_offset b + n\<rparr>"

definition writeUint8 :: "byte \<Rightarrow> binaryNomsWriter \<Rightarrow> binaryNomsWriter res" where
  "writeUint8 v b = rbind (ensureCapacity 1 b) (\<lambda>b. rbind (put_at 0 v b) (\<lambda>b. Inr (wr_skip 1 b)))"

definition writeUint32 :: "uint32 \<Rightarrow> binaryNomsWriter \<Rightarrow> binaryNomsWriter res" where
  "writeUint32 v b =
     rbind (ensureCapacity 4 b) (\<lambda>b.
     rbind (put_at 0 (ucast (drop_bit 24 v)) b) (\<lambda>b.
     rbind (put_at 1 (ucast (drop_bit 16 v)) b) (\<lambda>b.
     rbind (put_at 2 (ucast (drop_bit 8 v)) b) (\<lambda>b.
     rbind (put_at 3 (ucast v) b) (\<lambda>b. Inr (wr_skip 4 b))))))"

definition writeUint64 :: "uint64 \<Rightarrow> binaryNomsWriter \<Rightarrow> binaryNomsWriter res" where
  "writeUint64 v b =
     rbind (ensureCapacity 8 b) (\<lambda>b.
     rbind (put_at 0 (ucast (drop_bit 56 v)) b) (\<lambda>b.
     rbind (put_at 1 (ucast (drop_bit 48 v)) b) (\<lambda>b.
     rbind (put_at 2 (ucast (drop_bit 40 v)) b) (\<lambda>b.
     rbind (put_at 3 (ucast (drop_bit 32 v)) b) (\<lambda>b.
     rbind (put_at 4 (ucast (drop_bit 24 v)) b) (\<lambda>b.
     rbind (put_at 5 (ucast (drop_bit 16 v)) b) (\<lambda>b.
     rbind (put_at 6 (ucast (drop_bit 8 v)) b) (\<lambda>b.
     rbind (put_at 7 (ucast v) b) (\<lambda>b. Inr (wr_skip 8 b))))))))))"

definition writeBytes :: "bytes \<Rightarrow> binaryNomsWriter \<Rightarrow> binaryNomsWriter res" where
  "writeBytes v b =
     (let size = of_nat (length v) :: uint32
      in rbind (writeUint32 size b) (\<lambda>b. rbind (ensureCapacity size b) (\<lambda>b.
         rbind (wr_copy v b) (\<lambda>b. Inr (wr_skip size b)))))"

text \<open>\<open>binary.PutVarint\<close> into \<open>b.buff[b.offset:]\<close> panics when the bytes do not fit.\<close>

definition wr_Varint :: "uint64 \<Rightarrow> binaryNomsWriter \<Rightarrow> binaryNomsWriter res" where
  "wr_Varint i b =
     rbind (write_res (unat (wr_offset b)) (PutVarint i) (wr_buff b)) (\<lambda>buf.
       Inr (wr_skip (of_nat (length (PutVarint i))) (b\<lparr>wr_buff := buf\<rparr>)))"

definition writeNumber :: "float64 \<Rightarrow> binaryNomsWriter \<Rightarrow> binaryNomsWriter res" where
  "writeNumber v b =
     rbind (ensureCapacity (10 * 2) b) (\<lambda>b.
     rbind (float64ToIntExp v) (\<lambda>(i, ex).
     rbind (wr_Varint i b) (\<lambda>b. wr_Varint (of_int ex) b)))"

definition writeBool :: "bool \<Rightarrow> binaryNomsWriter \<Rightarrow> binaryNomsWriter res" where
  "writeBool v b = (if v then writeUint8 1 b else writeUint8 0 b)"

definition writeString :: "bytes \<Rightarrow> binaryNomsWriter \<Rightarrow> binaryNomsWriter res" where
  "writeString v b =
     (let size = of_nat (length v) :: uint32
      in rbind (writeUint32 size b) (\<lambda>b. rbind (ensureCapacity size b) (\<lambda>b.
         rbind (wr_copy v b) (\<lambda>b. Inr (wr_skip size b)))))"

definition writeHash :: "hash \<Rightarrow> binaryNomsWriter \<Rightarrow> binaryNomsWriter res" where
  "writeHash h b =
     rbind (ensureCapacity 20 b) (\<lambda>b. rbind (wr_copy (hash_bytes h) b) (\<lambda>b. Inr (wr_skip 20 b)))"

subsection \<open>Growing the buffer\<close>

text \<open>
  The buffers have a power of two as length, at most \<open>2^31\<close>. Within this limit \<open>ensureCapacity\<close>
  keeps what was written and makes room.
\<close>

definition wr_ok :: "binaryNomsWriter \<Rightarrow> bool" where
  "wr_ok w \<longleftrightarrow> unat (wr_offset w) \<le> length (wr_buff w) \<and> (\<exists>k \<le> 31. length (wr_buff w) = 2 ^ k)"

definition written :: "binaryNomsWriter \<Rightarrow> bytes" where
  "written w = take (unat (wr_offset w)) (wr_buff w)"

lemma unat_pow2_32 [simp]: "j \<le> 31 \<Longrightarrow> unat (2 ^ j :: uint32) = 2 ^ j"
proof -
  assume "j \<le> 31"
  then have "(2 :: nat) ^ j < 2 ^ 32" by (intro power_strict_increasing) simp_all
  moreover have "(2 ^ j :: uint32) = of_nat (2 ^ j)" by simp
  ultimately show ?thesis by (simp only: unat_of_nat) simp
qed

lemma grow_Some:
  assumes "j \<le> 31" "unat need \<le> 2 ^ 31"
  shows "\<exists>k. grow need (2 ^ j) = Some (2 ^ k) \<and> j \<le> k \<and> k \<le> 31 \<and> unat need \<le> 2 ^ k"
  using assms
proof (induction "31 - j" arbitrary: j)
  case 0
  then have j: "j = 31" by simp
  then have "\<not> need > 2 ^ j" using 0 by (simp add: word_less_nat_alt)
  then have "grow need (2 ^ j) = Some (2 ^ j)" by (subst grow.simps) simp
  then show ?case using 0 j by blast
next
  case (Suc n)
  show ?case
  proof (cases "unat need \<le> 2 ^ j")
    case True
    then show ?thesis using Suc.prems by (subst grow.simps) (auto simp: word_less_nat_alt)
  next
    case False
    have "31 - Suc j = n" "Suc j \<le> 31" using Suc.hyps(2) by simp_all
    then obtain k where "grow need (2 ^ Suc j) = Some (2 ^ k)" "Suc j \<le> k" "k \<le> 31" "unat need \<le> 2 ^ k"
      using Suc.hyps(1) [of "Suc j"] Suc.prems by auto
    moreover have "grow need (2 ^ j) = grow need (2 ^ Suc j)"
      using False Suc.prems by (subst grow.simps) (simp add: word_less_nat_alt mult.commute)
    ultimately show ?thesis by (intro exI [of _ k]) simp
  qed
qed

lemma pow2_double: "i \<le> 31 \<Longrightarrow> (2 ^ i :: uint32) * 2 = 0 \<or> (\<exists>k \<le> 31. (2 ^ i :: uint32) * 2 = 2 ^ k)"
proof (cases "i = 31")
  case False
  moreover assume "i \<le> 31"
  ultimately have "Suc i \<le> 31" by simp
  then show ?thesis by (metis power_Suc mult.commute)
qed simp

definition stuck :: "uint32 \<Rightarrow> uint32 \<Rightarrow> bool" where
  "stuck need len \<longleftrightarrow> unat need > 2 ^ 31 \<and> (len = 0 \<or> (\<exists>i \<le> 31. len = 2 ^ i))"

lemma stuck_step: "stuck need len \<Longrightarrow> need > len \<and> stuck need (len * 2)"
proof -
  assume s: "stuck need len"
  have "(2::nat) ^ i \<le> 2 ^ 31" if "i \<le> 31" for i using that by (intro power_increasing) simp_all
  then have "unat len \<le> 2 ^ 31" using s by (auto simp: stuck_def)
  then have "need > len" using s by (simp add: word_less_nat_alt stuck_def)
  then show ?thesis using s pow2_double by (auto simp: stuck_def)
qed

lemma grow_result:
  assumes "grow need len = Some y"
  shows "\<not> stuck need len"
proof (rule grow.raw_induct [where P = "\<lambda>need len y. \<not> stuck need len", OF _ assms])
  fix f need len and y :: uint32
  assume IH: "\<And>need len (y :: uint32). f need len = Some y \<Longrightarrow> \<not> stuck need len"
    and step: "(if need > len then f need (len * 2) else Some len) = Some y"
  show "\<not> stuck need len"
  proof
    assume "stuck need len"
    note s = stuck_step [OF this]
    then have "f need (len * 2) = Some y" using step by simp
    then show False using IH s by blast
  qed
qed

lemma grow_None: "unat need > 2 ^ 31 \<Longrightarrow> j \<le> 31 \<Longrightarrow> grow need (2 ^ j) = None"
  using grow_result [of need "2 ^ j"] by (cases "grow need (2 ^ j)") (auto simp: stuck_def)

lemma length_go_copy [simp]: "length (go_copy dst src) = length dst"
  by (simp add: go_copy_def min_def)

lemma ensureCapacity_ok:
  assumes "wr_ok w" "unat (wr_offset w) + unat n \<le> 2 ^ 31"
  obtains w' where "ensureCapacity n w = Inr w'" "wr_ok w'" "written w' = written w" "wr_offset w' = wr_offset w"
    "unat (wr_offset w') + unat n \<le> length (wr_buff w')"
proof -
  have sum: "unat (wr_offset w + n) = unat (wr_offset w) + unat n"
    using assms(2) by (simp add: unat_word_ariths)
  obtain k where k: "length (wr_buff w) = 2 ^ k" "k \<le> 31" "unat (wr_offset w) \<le> 2 ^ k"
    using assms(1) by (auto simp: wr_ok_def)
  have len: "(of_nat (length (wr_buff w)) :: uint32) = 2 ^ k" by (simp add: k(1))
  show ?thesis
  proof (cases "wr_offset w + n \<le> 2 ^ k")
    case True
    then have "ensureCapacity n w = Inr w" by (simp add: ensureCapacity_def len)
    moreover have "unat (wr_offset w) + unat n \<le> length (wr_buff w)"
      using True sum k by (simp add: word_le_nat_alt)
    ultimately show ?thesis using that assms(1) by blast
  next
    case False
    obtain l where l: "grow (wr_offset w + n) (2 ^ k) = Some (2 ^ l)" "k \<le> l" "l \<le> 31" "unat (wr_offset w + n) \<le> 2 ^ l"
      using grow_Some [of k "wr_offset w + n"] k(2) sum assms(2) by auto
    let ?w = "w\<lparr>wr_buff := go_copy (replicate (2 ^ l) 0) (wr_buff w)\<rparr>"
    have "ensureCapacity n w = Inr ?w" using False l by (simp add: ensureCapacity_def len)
    moreover have "wr_ok ?w" using l sum by (auto simp: wr_ok_def)
    moreover have "written ?w = written w"
      using k l(2) power_increasing [of k l "2::nat"] by (simp add: written_def go_copy_def min_def)
    moreover have "unat (wr_offset ?w) + unat n \<le> length (wr_buff ?w)" using l(4) sum by simp
    ultimately show ?thesis using that [of ?w] by simp
  qed
qed

text \<open>
  \<open>appends f bs\<close>: the write \<open>f\<close> succeeds and adds \<open>bs\<close> to what was written, as long as the total
  stays below the limit; the margin is the room that \<open>writeNumber\<close> asks for.
\<close>

definition appends :: "(binaryNomsWriter \<Rightarrow> binaryNomsWriter res) \<Rightarrow> bytes \<Rightarrow> bool" where
  "appends f bs \<longleftrightarrow>
     (\<forall>w. wr_ok w \<longrightarrow> length (written w) + length bs + 20 \<le> 2 ^ 31 \<longrightarrow>
        (\<exists>w'. f w = Inr w' \<and> wr_ok w' \<and> written w' = written w @ bs))"

lemma length_written: "wr_ok w \<Longrightarrow> length (written w) = unat (wr_offset w)"
  by (simp add: written_def wr_ok_def)

lemma wr_data_written: "wr_ok w \<Longrightarrow> wr_data w = Inr (written w)"
  by (simp add: wr_data_def written_def wr_ok_def)

lemma appendsD:
  assumes "appends f bs" "wr_ok w" "length (written w) + length bs + 20 \<le> 2 ^ 31"
  obtains w' where "f w = Inr w'" "wr_ok w'" "written w' = written w @ bs"
  using assms unfolding appends_def by blast

lemma appends_Inr [intro]: "appends Inr []"
  by (simp add: appends_def)

lemma appends_rbind [intro]:
  assumes "appends f bs" "appends g cs"
  shows "appends (\<lambda>w. rbind (f w) g) (bs @ cs)"
  unfolding appends_def
proof (intro allI impI)
  fix w assume w: "wr_ok w" "length (written w) + length (bs @ cs) + 20 \<le> 2 ^ 31"
  have "length (written w) + length bs + 20 \<le> 2 ^ 31" using w(2) by simp
  from appendsD [OF assms(1) w(1) this]
  obtain w1 where w1: "f w = Inr w1" "wr_ok w1" "written w1 = written w @ bs" .
  have "length (written w1) + length cs + 20 \<le> 2 ^ 31" using w(2) w1(3) by simp
  from appendsD [OF assms(2) w1(2) this]
  obtain w2 where "g w1 = Inr w2" "wr_ok w2" "written w2 = written w1 @ cs" .
  then show "\<exists>w'. rbind (f w) g = Inr w' \<and> wr_ok w' \<and> written w' = written w @ bs @ cs"
    using w1 by simp
qed

lemma appends_foldM:
  assumes "\<And>x. x \<in> set xs \<Longrightarrow> appends (\<lambda>w. f w x) (g x)"
  shows "appends (\<lambda>w. foldM_res f w xs) (concat (map g xs))"
  using assms
proof (induction xs)
  case Nil
  then show ?case using appends_Inr by simp
next
  case (Cons x xs)
  then show ?case using appends_rbind [of "\<lambda>w. f w x" "g x" "\<lambda>w. foldM_res f w xs"] by simp
qed

text \<open>Once there is room, a write of \<open>bs\<close> at the offset followed by advancing it appends \<open>bs\<close>.\<close>

lemma write_skip:
  assumes "wr_ok w" "unat (wr_offset w) + length bs \<le> length (wr_buff w)" "unat n = length bs"
  defines "w' \<equiv> wr_skip n (w\<lparr>wr_buff := write_at (unat (wr_offset w)) bs (wr_buff w)\<rparr>)"
  shows "wr_ok w' \<and> written w' = written w @ bs \<and> length (wr_buff w') = length (wr_buff w)
    \<and> unat (wr_offset w') = unat (wr_offset w) + length bs"
proof -
  have "length (wr_buff w) \<le> 2 ^ 31" using assms(1) power_increasing [of _ 31 "2::nat"] by (auto simp: wr_ok_def)
  then have "unat (wr_offset w + n) = unat (wr_offset w) + length bs"
    using assms(2,3) by (simp add: unat_word_ariths)
  then show ?thesis
    using assms(1,2) by (simp add: w'_def wr_skip_def wr_ok_def written_def take_write_at)
qed

lemma appends_write:
  assumes "length bs = unat n"
    and "\<And>w. wr_ok w \<Longrightarrow> unat (wr_offset w) + length bs \<le> length (wr_buff w) \<Longrightarrow>
      g w = Inr (w\<lparr>wr_buff := write_at (unat (wr_offset w)) bs (wr_buff w)\<rparr>)"
  shows "appends (\<lambda>w. rbind (ensureCapacity n w) (\<lambda>w. rbind (g w) (\<lambda>w. Inr (wr_skip n w)))) bs"
  unfolding appends_def
proof (intro allI impI)
  fix w assume w: "wr_ok w" "length (written w) + length bs + 20 \<le> 2 ^ 31"
  then have "unat (wr_offset w) + unat n \<le> 2 ^ 31" using assms(1) by (simp add: length_written)
  from ensureCapacity_ok [OF w(1) this]
  obtain w1 where w1: "ensureCapacity n w = Inr w1" "wr_ok w1" "written w1 = written w"
    "wr_offset w1 = wr_offset w" "unat (wr_offset w1) + unat n \<le> length (wr_buff w1)" .
  then have fits: "unat (wr_offset w1) + length bs \<le> length (wr_buff w1)" using assms(1) by simp
  show "\<exists>w'. rbind (ensureCapacity n w) (\<lambda>w. rbind (g w) (\<lambda>w. Inr (wr_skip n w))) = Inr w'
      \<and> wr_ok w' \<and> written w' = written w @ bs"
    using write_skip [OF w1(2) fits assms(1) [symmetric]] w1(1,3) assms(2) [OF w1(2) fits] by auto
qed

lemma wr_copy_write:
  "wr_ok w \<Longrightarrow> unat (wr_offset w) + length bs \<le> length (wr_buff w) \<Longrightarrow>
     wr_copy bs w = Inr (w\<lparr>wr_buff := write_at (unat (wr_offset w)) bs (wr_buff w)\<rparr>)"
  by (simp add: wr_copy_def go_copy_def write_at_def Let_def add.commute)

fun put_list :: "uint32 \<Rightarrow> bytes \<Rightarrow> binaryNomsWriter \<Rightarrow> binaryNomsWriter res" where
  "put_list k [] w = Inr w"
| "put_list k (b # bs) w = rbind (put_at k b w) (put_list (k + 1) bs)"

lemma put_list_write:
  assumes "length (wr_buff w) \<le> 2 ^ 31" "unat (wr_offset w) + unat k + length bs \<le> length (wr_buff w)"
  shows "put_list k bs w = Inr (w\<lparr>wr_buff := write_at (unat (wr_offset w) + unat k) bs (wr_buff w)\<rparr>)"
  using assms
proof (induction bs arbitrary: k w)
  case Nil
  then show ?case by (simp add: write_at_def)
next
  case (Cons b bs)
  let ?i = "unat (wr_offset w) + unat k"
  have off: "unat (wr_offset w + k) = ?i" and k: "unat (k + 1) = unat k + 1"
    using Cons.prems by (simp_all add: unat_word_ariths)
  have "put_at k b w = Inr (w\<lparr>wr_buff := (wr_buff w)[?i := b]\<rparr>)"
    using Cons.prems by (simp add: put_at_def off)
  moreover have "put_list (k + 1) bs (w\<lparr>wr_buff := (wr_buff w)[?i := b]\<rparr>)
      = Inr (w\<lparr>wr_buff := write_at (?i + 1) bs ((wr_buff w)[?i := b])\<rparr>)"
    using Cons.IH [of "w\<lparr>wr_buff := (wr_buff w)[?i := b]\<rparr>" "k + 1"] Cons.prems k by simp
  moreover have "write_at (?i + 1) bs ((wr_buff w)[?i := b]) = write_at ?i (b # bs) (wr_buff w)"
    using Cons.prems by (simp add: write_at_def take_Suc_conv_app_nth)
  ultimately show ?case by simp
qed

lemma put_list_write_0:
  assumes "wr_ok w" "unat (wr_offset w) + length bs \<le> length (wr_buff w)"
  shows "put_list 0 bs w = Inr (w\<lparr>wr_buff := write_at (unat (wr_offset w)) bs (wr_buff w)\<rparr>)"
proof -
  have "length (wr_buff w) \<le> 2 ^ 31" using assms(1) power_increasing [of _ 31 "2::nat"] by (auto simp: wr_ok_def)
  then show ?thesis using put_list_write [of w 0 bs] assms(2) by simp
qed

text \<open>The bytes of the big-endian integers.\<close>

definition bytes32 :: "uint32 \<Rightarrow> bytes" where
  "bytes32 v = [ucast (drop_bit 24 v), ucast (drop_bit 16 v), ucast (drop_bit 8 v), ucast v]"

definition bytes64 :: "uint64 \<Rightarrow> bytes" where
  "bytes64 v = [ucast (drop_bit 56 v), ucast (drop_bit 48 v), ucast (drop_bit 40 v), ucast (drop_bit 32 v),
                ucast (drop_bit 24 v), ucast (drop_bit 16 v), ucast (drop_bit 8 v), ucast v]"

named_theorems appends_intros \<open>what the operations of the writer append\<close>

lemmas appends_put = appends_write [OF _ put_list_write_0]

lemma appends_writeUint8 [appends_intros]: "appends (writeUint8 v) [v]"
  using appends_put [of "[v]" 1] by (simp add: writeUint8_def [abs_def] rbind_assoc)

lemma appends_writeUint32 [appends_intros]: "appends (writeUint32 v) (bytes32 v)"
  using appends_put [of "bytes32 v" 4] by (simp add: writeUint32_def [abs_def] rbind_assoc bytes32_def)

lemma appends_writeUint64 [appends_intros]: "appends (writeUint64 v) (bytes64 v)"
  using appends_put [of "bytes64 v" 8] by (simp add: writeUint64_def [abs_def] rbind_assoc bytes64_def)

lemma appends_writeBool [appends_intros]: "appends (writeBool v) [if v then 1 else 0]"
  using appends_writeUint8 by (cases v) (simp_all add: writeBool_def [abs_def])

lemma appends_writeHash [appends_intros]: "appends (writeHash h) (hash_bytes h)"
  using appends_write [OF _ wr_copy_write, of "hash_bytes h" 20] by (simp add: writeHash_def [abs_def])

lemma appends_small: "(length bs < 2 ^ 32 \<Longrightarrow> appends f bs) \<Longrightarrow> appends f bs"
  by (cases "length bs < 2 ^ 32") (auto simp: appends_def)

lemma appends_writeBytes_aux:
  assumes "length v < 2 ^ 32"
  shows "appends (writeBytes v) (bytes32 (of_nat (length v)) @ v)"
    and "appends (writeString v) (bytes32 (of_nat (length v)) @ v)"
proof -
  have "unat (of_nat (length v) :: uint32) = length v" using assms by (simp add: unat_of_nat)
  then have "appends (\<lambda>w. rbind (ensureCapacity (of_nat (length v)) w) (\<lambda>w. rbind (wr_copy v w)
      (\<lambda>w. Inr (wr_skip (of_nat (length v)) w)))) v"
    by (intro appends_write wr_copy_write) simp_all
  note both = appends_rbind [OF appends_writeUint32 [of "of_nat (length v)"] this]
  show "appends (writeBytes v) (bytes32 (of_nat (length v)) @ v)"
    using both by (simp add: writeBytes_def [abs_def] Let_def)
  show "appends (writeString v) (bytes32 (of_nat (length v)) @ v)"
    using both by (simp add: writeString_def [abs_def] Let_def)
qed

lemma appends_writeBytes [appends_intros]:
  "appends (writeBytes v) (bytes32 (of_nat (length v)) @ v)"
  "appends (writeString v) (bytes32 (of_nat (length v)) @ v)"
  by (rule appends_small, rule appends_writeBytes_aux, simp)+

subsection \<open>Numbers\<close>

definition fl_rep :: "rat \<Rightarrow> int \<Rightarrow> int \<Rightarrow> bool" where
  "fl_rep q m e \<longleftrightarrow> q = of_int m * 2 powi e \<and> 0 < m \<and> m < 2 ^ 53 \<and> - 1074 \<le> e \<and> q < float_limit"

lemma fl_rep_pos: "fl_rep q m e \<Longrightarrow> 0 < q"
  by (simp add: fl_rep_def)

lemma fl_rep_float: "fl_rep q m e \<Longrightarrow> is_float64 q"
  by (frule fl_rep_pos, unfold is_float64_def, rule exI [of _ m], rule exI [of _ e]) (auto simp: fl_rep_def)

lemma fl_rep_shift:
  assumes "fl_rep q m e" "- 1074 \<le> e + d" "q * 2 powi d < float_limit"
  shows "fl_rep (q * 2 powi d) m (e + d)"
  using assms by (auto simp: fl_rep_def powi_split)

lemma fl_rep_small: "fl_rep q m e \<Longrightarrow> e \<le> 0 \<Longrightarrow> q \<le> of_int m"
  using power_int_increasing [of e 0 "2::rat"] by (auto simp: fl_rep_def)

lemma fl_rep_Ints: "fl_rep q m e \<Longrightarrow> 0 \<le> e \<Longrightarrow> q \<in> \<int>"
  by (simp add: fl_rep_def powi_nonneg_int del: of_int_power)

lemma float64IsInt_iff: "0 \<le> q \<Longrightarrow> float64IsInt (Fin q) \<longleftrightarrow> q \<in> \<int>"
  by (auto simp: float64IsInt_def floor_of_int elim!: Ints_cases)

lemma bring_down_ok:
  assumes "fl_rep q m e"
  shows "\<exists>k. bring_down (Fin q) x = Some (Fin (q * 2 powi - int k), x - int k)
    \<and> q * 2 powi - int k \<le> 9007199254740991 \<and> fl_rep (q * 2 powi - int k) m (e - int k)
    \<and> (k = 0 \<or> int k \<le> e)"
  using assms
proof (induction "nat e" arbitrary: q e x)
  case 0
  have "m \<le> 9007199254740991" using 0(2) by (simp add: fl_rep_def)
  then have "(of_int m :: rat) \<le> of_int 9007199254740991" by (simp only: of_int_le_iff)
  then have "q \<le> 9007199254740991" using fl_rep_small [OF 0(2)] 0(1) by simp
  then show ?case using 0(2) by (intro exI [of _ 0], subst bring_down.simps) (simp add: maxSafeInteger_def)
next
  case (Suc n)
  show ?case
  proof (cases "q \<le> 9007199254740991")
    case True
    then show ?thesis using Suc.prems by (intro exI [of _ 0], subst bring_down.simps) (simp add: maxSafeInteger_def)
  next
    case False
    have half: "q / 2 = q * 2 powi - 1" by (simp add: power_int_minus)
    have "q < float_limit" using Suc.prems by (simp add: fl_rep_def)
    then have "q / 2 < float_limit" using fl_rep_pos [OF Suc.prems] by linarith
    then have r: "fl_rep (q / 2) m (e - 1)"
      using fl_rep_shift [OF Suc.prems, of "- 1"] Suc.hyps(2) unfolding half by simp
    have "nat (e - 1) = n" using Suc.hyps(2) by simp
    from Suc.hyps(1) [OF this [symmetric] r, of "x - 1"]
    obtain k where k: "bring_down (Fin (q / 2)) (x - 1) = Some (Fin (q / 2 * 2 powi - int k), x - 1 - int k)"
      "q / 2 * 2 powi - int k \<le> 9007199254740991" "fl_rep (q / 2 * 2 powi - int k) m (e - 1 - int k)"
      "k = 0 \<or> int k \<le> e - 1" by blast
    have eq: "q / 2 * 2 powi - int k = q * 2 powi - int (Suc k)"
      by (simp only: half mult.assoc powi_split [symmetric]) simp
    have "bring_down (Fin q) x = bring_down (Fin (q / 2)) (x - 1)"
      using False round64_exact [OF fl_rep_float [OF r]] by (subst bring_down.simps) (simp add: maxSafeInteger_def)
    then show ?thesis using k Suc.hyps(2) unfolding eq by (intro exI [of _ "Suc k"]) (auto simp: algebra_simps)
  qed
qed

lemma scale_up_ok:
  assumes "fl_rep q m e" "q < 2 ^ 53"
  shows "\<exists>k. scale_up (Fin q) x = Some (Fin (q * 2 ^ k), x + int k) \<and> q * 2 ^ k \<in> \<int> \<and> q * 2 ^ k < 2 ^ 53
    \<and> (k = 0 \<or> q * 2 ^ (k - 1) \<notin> \<int>)"
  using assms
proof (induction "nat (- e)" arbitrary: q e x)
  case 0
  then have "q \<in> \<int>" using fl_rep_Ints by simp
  then show ?case using 0 fl_rep_pos [OF 0(2)]
    by (intro exI [of _ 0], subst scale_up.simps) (simp add: float64IsInt_iff)
next
  case (Suc n)
  note pos = fl_rep_pos [OF Suc.prems(1)]
  show ?case
  proof (cases "q \<in> \<int>")
    case True
    then show ?thesis using Suc.prems pos by (intro exI [of _ 0], subst scale_up.simps) (simp add: float64IsInt_iff)
  next
    case False
    have "q * 2 < float_limit" using Suc.prems(2) by (simp add: float_limit_def)
    then have r: "fl_rep (q * 2) m (e + 1)" using fl_rep_shift [OF Suc.prems(1), of 1] Suc.prems(1) by (simp add: fl_rep_def)
    have "q * 2 \<le> of_int m" using fl_rep_small [OF r] Suc.hyps(2) by simp
    moreover have "(of_int m :: rat) < of_int (2 ^ 53)" using Suc.prems(1) by (simp only: fl_rep_def of_int_less_iff)
    ultimately have lt: "q * 2 < 2 ^ 53" by simp
    have "nat (- (e + 1)) = n" using Suc.hyps(2) by simp
    from Suc.hyps(1) [OF this [symmetric] r lt, of "x + 1"]
    obtain k where k: "scale_up (Fin (q * 2)) (x + 1) = Some (Fin (q * 2 * 2 ^ k), x + 1 + int k)"
      "q * 2 * 2 ^ k \<in> \<int>" "q * 2 * 2 ^ k < 2 ^ 53" "k = 0 \<or> q * 2 * 2 ^ (k - 1) \<notin> \<int>" by blast
    have "scale_up (Fin q) x = scale_up (Fin (q * 2)) (x + 1)"
      using False pos round64_exact [OF fl_rep_float [OF r]] by (subst scale_up.simps) (simp add: float64IsInt_iff)
    moreover have "q * 2 ^ k \<notin> \<int>" using k(4) False by (cases k) (auto simp: mult.assoc)
    ultimately show ?thesis using k(1-3) by (intro exI [of _ "Suc k"]) (simp add: mult.assoc)
  qed
qed

lemma sint_small: "- (2 ^ 63) \<le> x \<Longrightarrow> x < 2 ^ 63 \<Longrightarrow> sint (of_int x :: uint64) = x"
  by (simp add: sint_sbintrunc' signed_take_bit_int_eq_self_iff)

lemma Ints_abs_iff: "\<bar>y\<bar> \<in> \<int> \<longleftrightarrow> (y :: rat) \<in> \<int>"
  by (auto simp: abs_if minus_in_Ints_iff)

lemma is_float64_rep:
  assumes "is_float64 q" "q \<noteq> 0"
  shows "\<exists>m e. fl_rep \<bar>q\<bar> m e \<and> e \<le> 1024"
proof -
  obtain m e where q: "q = of_int m * 2 powi e" "\<bar>m\<bar> < 2 ^ 53" "- 1074 \<le> e" "\<bar>q\<bar> < float_limit"
    using assms(1) by (auto simp: is_float64_def)
  have "fl_rep \<bar>q\<bar> \<bar>m\<bar> e" using q assms(2) by (auto simp: fl_rep_def abs_mult)
  moreover have "e \<le> 1024"
  proof -
    have "1 \<le> \<bar>m\<bar>" using q(1) assms(2) by auto
    then have "(1 :: rat) \<le> of_int \<bar>m\<bar>" by (simp only: of_int_1_le_iff)
    then have "1 * 2 powi e \<le> of_int \<bar>m\<bar> * (2 :: rat) powi e" by (intro mult_right_mono) simp_all
    then have "2 powi e \<le> \<bar>q\<bar>" by (simp add: q(1) abs_mult)
    also have "\<dots> < 2 powi 1024" using q(4) by (simp add: float_limit_def)
    finally show ?thesis by (simp only: powi_less_iff)
  qed
  ultimately show ?thesis by blast
qed

lemma is_float64_int: "\<bar>i\<bar> < 2 ^ 53 \<Longrightarrow> is_float64 (of_int i)"
  unfolding is_float64_def
proof (intro exI conjI)
  assume i: "\<bar>i\<bar> < 2 ^ 53"
  then have "of_int \<bar>i\<bar> < (of_int (2 ^ 53) :: rat)" by (simp only: of_int_less_iff)
  then show "\<bar>of_int i\<bar> < float_limit" by (simp add: float_limit_def)
  show "\<bar>i\<bar> < 2 ^ 53" by (rule i)
  show "of_int i = of_int i * (2 :: rat) powi 0" by simp
qed simp

text \<open>
  The integer and the exponent of a number: the exponent is positive only when it is needed to make
  the integer one.
\<close>

lemma float64ToIntExp_ok:
  assumes "is_float64 q"
  obtains i ex where "float64ToIntExp (Fin q) = Inr (i, ex)" "of_int (sint i) = q * 2 powi ex" "\<bar>sint i\<bar> < 2 ^ 53"
    "- 1024 \<le> ex" "ex \<le> 1074" "ex \<le> 0 \<or> q * 2 powi (ex - 1) \<notin> \<int>"
proof (cases "q = 0")
  case True
  then show ?thesis using that [of 0 0] by (simp add: float64ToIntExp_def)
next
  case False
  obtain m e where r: "fl_rep \<bar>q\<bar> m e" "e \<le> 1024" using is_float64_rep [OF assms False] by blast
  obtain k where k: "bring_down (Fin \<bar>q\<bar>) 0 = Some (Fin (\<bar>q\<bar> * 2 powi - int k), 0 - int k)"
    "\<bar>q\<bar> * 2 powi - int k \<le> 9007199254740991" "fl_rep (\<bar>q\<bar> * 2 powi - int k) m (e - int k)" "k = 0 \<or> int k \<le> e"
    using bring_down_ok [OF r(1), of 0] by blast
  define p where "p = \<bar>q\<bar> * 2 powi - int k"
  have "p < 2 ^ 53" using k(2) by (simp add: p_def)
  from scale_up_ok [OF k(3) [folded p_def] this, of "0 - int k"]
  obtain l where l: "scale_up (Fin p) (0 - int k) = Some (Fin (p * 2 ^ l), 0 - int k + int l)" "p * 2 ^ l \<in> \<int>"
    "p * 2 ^ l < 2 ^ 53" "l = 0 \<or> p * 2 ^ (l - 1) \<notin> \<int>" by blast
  obtain n where n: "p * 2 ^ l = of_int n" using l(2) by (auto elim: Ints_cases)
  have pos: "0 < p" using fl_rep_pos [OF k(3)] by (simp add: p_def)
  have "0 < (of_int n :: rat)" "(of_int n :: rat) < of_int (2 ^ 53)" using n l(3) pos by (simp_all flip: n)
  then have n': "0 < n" "n < 2 ^ 53" by (simp_all only: of_int_0_less_iff of_int_less_iff)
  let ?s = "if q < 0 then - n else n"
  have l0: "l = 0" if "k \<noteq> 0"
  proof (rule ccontr)
    assume "l \<noteq> 0"
    moreover have "p \<in> \<int>" using fl_rep_Ints [OF k(3)] k(4) that by (simp add: p_def)
    ultimately show False using l(4) by (auto simp: Ints_mult Ints_power)
  qed
  have q: "\<bar>q\<bar> * 2 powi (int l - int k) = of_int n"
    using n by (simp add: p_def mult.assoc flip: powi_split power_int_of_nat)
  show ?thesis
  proof (rule that)
    have "round64 (of_int (- n)) = Fin (of_int (- n))" using n' by (intro round64_exact is_float64_int) simp
    then show "float64ToIntExp (Fin q) = Inr (of_int ?s, int l - int k)"
      using False k(1) l(1) n n' by (auto simp: float64ToIntExp_def p_def Let_def ceiling_minus)
    have "sint (of_int ?s :: uint64) = ?s" using n' by (intro sint_small) auto
    note s = this
    show "\<bar>sint (of_int ?s :: uint64)\<bar> < 2 ^ 53" using n' by (simp only: s) auto
    have "of_int ?s = q * 2 powi (int l - int k)" by (cases "q < 0") (simp_all flip: q)
    then show "of_int (sint (of_int ?s :: uint64)) = q * 2 powi (int l - int k)" by (simp only: s)
    show "- 1024 \<le> int l - int k" using k(4) r(2) by auto
    show min: "int l - int k \<le> 0 \<or> q * 2 powi (int l - int k - 1) \<notin> \<int>"
    proof (cases "l = 0")
      case False
      then have "k = 0" using l0 by blast
      then have "\<bar>q\<bar> * 2 ^ (l - 1) \<notin> \<int>" using l(4) False by (simp add: p_def)
      moreover have "\<bar>q * 2 powi (int l - 1)\<bar> = \<bar>q\<bar> * 2 ^ (l - 1)" using False by (cases l) (simp_all add: abs_mult)
      ultimately have "\<bar>q * 2 powi (int l - 1)\<bar> \<notin> \<int>" by simp
      then show ?thesis using \<open>k = 0\<close> by (simp add: Ints_abs_iff)
    qed simp
    show "int l - int k \<le> 1074"
    proof (rule ccontr)
      assume big: "\<not> int l - int k \<le> 1074"
      then have "q * 2 powi (int l - int k - 1) \<notin> \<int>" using min by simp
      moreover have "0 \<le> e + (int l - int k - 1)" using r(1) big by (simp add: fl_rep_def)
      then have "of_int m * (2 :: rat) powi (e + (int l - int k - 1)) \<in> \<int>"
        by (simp only: powi_nonneg_int) (simp add: Ints_mult)
      then have "\<bar>q\<bar> * 2 powi (int l - int k - 1) \<in> \<int>"
        using r(1) by (simp only: fl_rep_def powi_split mult.assoc)
      then have "\<bar>q * 2 powi (int l - int k - 1)\<bar> \<in> \<int>" by (simp add: abs_mult)
      ultimately show False by (simp only: Ints_abs_iff)
    qed
  qed
qed

lemma intExpToFloat64_back:
  assumes "is_float64 q" "of_int (sint i) = q * 2 powi ex" "\<bar>sint i\<bar> < 2 ^ 53" "- 1074 \<le> ex"
  shows "intExpToFloat64 i ex = (if ex \<le> 1023 then Fin q else Fin 0)"
proof -
  have i: "float64_of i = Fin (q * 2 powi ex)"
    using round64_exact [OF is_float64_int [OF assms(3)]] assms(2) by (simp add: float64_of_def)
  show ?thesis
  proof (cases "ex \<le> 1023")
    case True
    have "round64 (q * 2 powi ex / 2 powi ex) = Fin q" using round64_exact [OF assms(1)] by simp
    then show ?thesis using True assms(4) i by (auto simp: intExpToFloat64_def Pow2_def)
  next
    case False
    then show ?thesis using i by (simp add: intExpToFloat64_def Pow2_def)
  qed
qed

definition number_bytes :: "rat \<Rightarrow> bytes" where
  "number_bytes q = (case float64ToIntExp (Fin q) of Inl _ \<Rightarrow> [] | Inr (i, ex) \<Rightarrow> PutVarint i @ PutVarint (of_int ex))"

lemma wr_Varint_ok:
  assumes "wr_ok w" "unat (wr_offset w) + length (PutVarint i) \<le> length (wr_buff w)"
  obtains w' where "wr_Varint i w = Inr w'" "wr_ok w'" "written w' = written w @ PutVarint i"
    "length (wr_buff w') = length (wr_buff w)" "unat (wr_offset w') = unat (wr_offset w) + length (PutVarint i)"
proof -
  have "unat (of_nat (length (PutVarint i)) :: uint32) = length (PutVarint i)"
    using length_PutVarint [of i] by (simp add: unat_of_nat)
  note s = write_skip [OF assms this]
  show ?thesis using that s assms(2) by (simp add: wr_Varint_def)
qed

lemma appends_writeNumber [appends_intros]:
  assumes "is_float64 q"
  shows "appends (writeNumber (Fin q)) (number_bytes q)"
  unfolding appends_def
proof (intro allI impI)
  fix w assume w: "wr_ok w" "length (written w) + length (number_bytes q) + 20 \<le> 2 ^ 31"
  obtain i ex where ie: "float64ToIntExp (Fin q) = Inr (i, ex)"
    using float64ToIntExp_ok [OF assms] by metis
  have "unat (wr_offset w) + unat (20 :: uint32) \<le> 2 ^ 31" using w by (simp add: length_written)
  from ensureCapacity_ok [OF w(1) this]
  obtain w1 where w1: "ensureCapacity 20 w = Inr w1" "wr_ok w1" "written w1 = written w"
    "unat (wr_offset w1) + unat (20 :: uint32) \<le> length (wr_buff w1)" by metis
  have "unat (wr_offset w1) + length (PutVarint i) \<le> length (wr_buff w1)"
    using w1(4) length_PutVarint [of i] by simp
  from wr_Varint_ok [OF w1(2) this]
  obtain w2 where w2: "wr_Varint i w1 = Inr w2" "wr_ok w2" "written w2 = written w1 @ PutVarint i"
    "length (wr_buff w2) = length (wr_buff w1)" "unat (wr_offset w2) = unat (wr_offset w1) + length (PutVarint i)" .
  have "unat (wr_offset w2) + length (PutVarint (of_int ex)) \<le> length (wr_buff w2)"
    using w1(4) w2(4,5) length_PutVarint [of i] length_PutVarint [of "of_int ex"] by simp
  from wr_Varint_ok [OF w2(2) this]
  obtain w3 where "wr_Varint (of_int ex) w2 = Inr w3" "wr_ok w3" "written w3 = written w2 @ PutVarint (of_int ex)" .
  then show "\<exists>w'. writeNumber (Fin q) w = Inr w' \<and> wr_ok w' \<and> written w' = written w @ number_bytes q"
    using w1 w2 ie by (simp add: writeNumber_def number_bytes_def)
qed

subsection \<open>Reading back\<close>

text \<open>
  \<open>consumes f bs v\<close>: wherever \<open>bs\<close> comes next in the buffer, \<open>f\<close> returns \<open>v\<close> and the offset is
  then behind \<open>bs\<close>.
\<close>

definition rd_ok :: "binaryNomsReader \<Rightarrow> bool" where
  "rd_ok r \<longleftrightarrow> unat (rd_offset r) \<le> length (rd_buff r) \<and> length (rd_buff r) < 2 ^ 32"

definition rest_of :: "binaryNomsReader \<Rightarrow> bytes" where
  "rest_of r = drop (unat (rd_offset r)) (rd_buff r)"

definition consumes :: "(binaryNomsReader \<Rightarrow> ('a \<times> binaryNomsReader) res) \<Rightarrow> bytes \<Rightarrow> 'a \<Rightarrow> bool" where
  "consumes f bs v \<longleftrightarrow>
     (\<forall>r xs. rd_ok r \<longrightarrow> rest_of r = bs @ xs \<longrightarrow> f r = Inr (v, rd_skip (of_nat (length bs)) r))"

lemma unat_of_nat_uint32: "n < 2 ^ 32 \<Longrightarrow> unat (of_nat n :: uint32) = n"
  by (simp add: unat_of_nat)

lemma rest_of_split:
  assumes "rd_ok r" "rest_of r = bs @ xs"
  shows "unat (rd_offset r) + length bs \<le> length (rd_buff r)" "length bs < 2 ^ 32"
    "\<And>i. i < length bs \<Longrightarrow> rd_buff r ! (unat (rd_offset r) + i) = bs ! i"
proof -
  have "length (rest_of r) = length bs + length xs" using assms(2) by simp
  then show le: "unat (rd_offset r) + length bs \<le> length (rd_buff r)" using assms(1) by (auto simp: rest_of_def rd_ok_def)
  then show "length bs < 2 ^ 32" using assms(1) by (simp add: rd_ok_def)
  show "rd_buff r ! (unat (rd_offset r) + i) = bs ! i" if "i < length bs" for i
  proof -
    have "rest_of r ! i = bs ! i" using assms(2) that by (simp add: nth_append)
    then show ?thesis using le that by (simp add: rest_of_def)
  qed
qed

lemma rd_skip_ok:
  assumes "rd_ok r" "rest_of r = bs @ xs"
  shows "rd_ok (rd_skip (of_nat (length bs)) r)" "rest_of (rd_skip (of_nat (length bs)) r) = xs"
proof -
  note s = rest_of_split [OF assms]
  have "unat (rd_offset r + of_nat (length bs)) = unat (rd_offset r) + length bs"
    using s(1,2) assms(1) by (simp add: unat_word_ariths unat_of_nat_uint32 rd_ok_def)
  then show "rd_ok (rd_skip (of_nat (length bs)) r)" "rest_of (rd_skip (of_nat (length bs)) r) = xs"
    using s(1) assms by (simp_all add: rd_ok_def rd_skip_def rest_of_def add.commute flip: drop_drop)
qed

lemma rd_skip_skip [simp]: "rd_skip m (rd_skip n r) = rd_skip (n + m) r"
  by (simp add: rd_skip_def add.assoc)

lemma rd_skip_buff [simp]: "rd_buff (rd_skip n r) = rd_buff r"
  by (simp add: rd_skip_def)

lemma byte_at_rest:
  assumes "rd_ok r" "rest_of r = bs @ xs" "unat k < length bs"
  shows "byte_at r k = Inr (bs ! unat k)"
proof -
  note s = rest_of_split [OF assms(1,2)]
  have "unat (rd_offset r + k) = unat (rd_offset r) + unat k"
    using s(1) assms(1,3) by (simp add: unat_word_ariths rd_ok_def)
  then show ?thesis using s(1) s(3) [OF assms(3)] assms(3) by (simp add: byte_at_def)
qed

lemma consumesI:
  assumes "\<And>r xs. rd_ok r \<Longrightarrow> rest_of r = bs @ xs \<Longrightarrow> f r = Inr (v, rd_skip (of_nat (length bs)) r)"
  shows "consumes f bs v"
  using assms by (simp add: consumes_def)

lemma consumesD:
  assumes "consumes f bs v" "rd_ok r" "rest_of r = bs @ xs"
  shows "f r = Inr (v, rd_skip (of_nat (length bs)) r)"
  using assms by (auto simp: consumes_def)

lemma consumes_rbind:
  assumes "consumes f bs v" "consumes (g v) cs u"
  shows "consumes (\<lambda>r. rbind (f r) (\<lambda>(x, r). g x r)) (bs @ cs) u"
proof (rule consumesI)
  fix r xs assume r: "rd_ok r" "rest_of r = (bs @ cs) @ xs"
  have f: "f r = Inr (v, rd_skip (of_nat (length bs)) r)" using consumesD [OF assms(1) r(1)] r(2) by simp
  have "rest_of r = bs @ (cs @ xs)" using r(2) by simp
  from consumesD [OF assms(2) rd_skip_ok [OF r(1) this]]
  show "rbind (f r) (\<lambda>(x, r). g x r) = Inr (u, rd_skip (of_nat (length (bs @ cs))) r)" by (simp add: f)
qed

lemma consumes_return: "consumes f bs v \<Longrightarrow> consumes (\<lambda>r. rbind (f r) (\<lambda>(x, r). Inr (h x, r))) bs (h v)"
  using consumes_rbind [of f bs v "\<lambda>x r. Inr (h x, r)" "[]" "h v"] by (simp add: consumes_def rd_skip_def)

named_theorems consumes_intros \<open>what the operations of the reader consume\<close>

lemma consumes_readUint8 [consumes_intros]: "consumes readUint8 [v] v"
proof (rule consumesI)
  fix r xs assume "rd_ok r" "rest_of r = [v] @ xs"
  from byte_at_rest [OF this, of 0] show "readUint8 r = Inr (v, rd_skip (of_nat (length [v])) r)"
    by (simp add: readUint8_def)
qed

lemma bit_lane:
  fixes v :: "'a::len word"
  shows "bit (push_bit k (ucast (ucast (drop_bit k v) :: byte)) :: 'a word) n \<longleftrightarrow> n < LENGTH('a) \<and> k \<le> n \<and> n < k + 8 \<and> bit v n"
    and "bit (ucast (ucast v :: byte) :: 'a word) n \<longleftrightarrow> n < LENGTH('a) \<and> n < 8 \<and> bit v n"
  by (auto simp: bit_simps)

lemma bytes32_join:
  "push_bit 24 (ucast (ucast (drop_bit 24 v) :: byte)) OR push_bit 16 (ucast (ucast (drop_bit 16 v) :: byte))
   OR push_bit 8 (ucast (ucast (drop_bit 8 v) :: byte)) OR ucast (ucast v :: byte) = (v :: uint32)"
  by (rule bit_word_eqI, simp only: bit_or_iff bit_lane, simp) linarith

lemma consumes_readUint32 [consumes_intros]: "consumes readUint32 (bytes32 v) v"
proof (rule consumesI)
  fix r xs assume r: "rd_ok r" "rest_of r = bytes32 v @ xs"
  note b = byte_at_rest [OF r]
  have "byte_at r 0 = Inr (ucast (drop_bit 24 v))" "byte_at r 1 = Inr (ucast (drop_bit 16 v))"
    "byte_at r 2 = Inr (ucast (drop_bit 8 v))" "byte_at r 3 = Inr (ucast v)"
    using b [of 0] b [of 1] b [of 2] b [of 3] by (simp_all add: bytes32_def)
  then show "readUint32 r = Inr (v, rd_skip (of_nat (length (bytes32 v))) r)"
    by (simp add: readUint32_def bytes32_join) (simp add: bytes32_def)
qed

lemma bytes64_join:
  "push_bit 56 (ucast (ucast (drop_bit 56 v) :: byte)) OR push_bit 48 (ucast (ucast (drop_bit 48 v) :: byte))
   OR push_bit 40 (ucast (ucast (drop_bit 40 v) :: byte)) OR push_bit 32 (ucast (ucast (drop_bit 32 v) :: byte))
   OR push_bit 24 (ucast (ucast (drop_bit 24 v) :: byte)) OR push_bit 16 (ucast (ucast (drop_bit 16 v) :: byte))
   OR push_bit 8 (ucast (ucast (drop_bit 8 v) :: byte)) OR ucast (ucast v :: byte) = (v :: uint64)"
  by (rule bit_word_eqI, simp only: bit_or_iff bit_lane, simp) linarith

lemma consumes_readUint64 [consumes_intros]: "consumes readUint64 (bytes64 v) v"
proof (rule consumesI)
  fix r xs assume r: "rd_ok r" "rest_of r = bytes64 v @ xs"
  note b = byte_at_rest [OF r]
  have "byte_at r 0 = Inr (ucast (drop_bit 56 v))" "byte_at r 1 = Inr (ucast (drop_bit 48 v))"
    "byte_at r 2 = Inr (ucast (drop_bit 40 v))" "byte_at r 3 = Inr (ucast (drop_bit 32 v))"
    "byte_at r 4 = Inr (ucast (drop_bit 24 v))" "byte_at r 5 = Inr (ucast (drop_bit 16 v))"
    "byte_at r 6 = Inr (ucast (drop_bit 8 v))" "byte_at r 7 = Inr (ucast v)"
    using b [of 0] b [of 1] b [of 2] b [of 3] b [of 4] b [of 5] b [of 6] b [of 7] by (simp_all add: bytes64_def)
  then show "readUint64 r = Inr (v, rd_skip (of_nat (length (bytes64 v))) r)"
    by (simp add: readUint64_def bytes64_join) (simp add: bytes64_def)
qed

lemma consumes_rd_slice: "unat n = length bs \<Longrightarrow> consumes (rd_slice n) bs bs"
proof (rule consumesI)
  fix r xs assume n: "unat n = length bs" and r: "rd_ok r" "rest_of r = bs @ xs"
  note s = rest_of_split [OF r]
  have "unat (rd_offset r + n) = unat (rd_offset r) + length bs"
    using s(1) r(1) n by (simp add: unat_word_ariths rd_ok_def)
  moreover have "take (length bs) (drop (unat (rd_offset r)) (rd_buff r)) = bs"
    using r(2) by (simp add: rest_of_def)
  moreover have "n = of_nat (length bs)" by (simp flip: n)
  ultimately show "rd_slice n r = Inr (bs, rd_skip (of_nat (length bs)) r)"
    using s(1) by (simp add: rd_slice_def)
qed

lemma consumes_small: "(length bs < 2 ^ 32 \<Longrightarrow> consumes f bs v) \<Longrightarrow> consumes f bs v"
  by (cases "length bs < 2 ^ 32") (auto simp: consumes_def dest: rest_of_split(2))

lemma consumes_readBytes_aux:
  assumes "length v < 2 ^ 32"
  shows "consumes readBytes (bytes32 (of_nat (length v)) @ v) v"
    and "consumes readString (bytes32 (of_nat (length v)) @ v) v"
proof -
  have "unat (of_nat (length v) :: uint32) = length v" using assms by (rule unat_of_nat_uint32)
  note b = consumes_rbind [of readUint32 _ _ rd_slice, OF consumes_readUint32 consumes_rd_slice [OF this]]
  show "consumes readBytes (bytes32 (of_nat (length v)) @ v) v" using b by (simp add: readBytes_def [abs_def])
  show "consumes readString (bytes32 (of_nat (length v)) @ v) v" using b by (simp add: readString_def [abs_def])
qed

lemma consumes_readBytes [consumes_intros]:
  "consumes readBytes (bytes32 (of_nat (length v)) @ v) v"
  "consumes readString (bytes32 (of_nat (length v)) @ v) v"
  by (rule consumes_small, rule consumes_readBytes_aux, simp)+

lemma consumes_readHash [consumes_intros]: "consumes readHash (hash_bytes h) h"
  using consumes_return [OF consumes_rd_slice, of 20 "hash_bytes h" copy_hash] by (simp add: readHash_def [abs_def])

lemma consumes_readBool [consumes_intros]: "consumes readBool [if b then 1 else 0] b"
  using consumes_return [OF consumes_readUint8 [of "if b then 1 else 0"], of "\<lambda>v. v = 1"]
  by (cases b) (simp_all add: readBool_def [abs_def])

text \<open>What is read for a number: tiny numbers come back as zero.\<close>

definition read_back :: "rat \<Rightarrow> float64" where
  "read_back q = (if q * 2 ^ 1023 \<in> \<int> then Fin q else Fin 0)"

lemma consumes_readNumber [consumes_intros]:
  assumes "is_float64 q"
  shows "consumes readNumber (number_bytes q) (read_back q)"
proof -
  obtain i ex where ie: "float64ToIntExp (Fin q) = Inr (i, ex)" "of_int (sint i) = q * 2 powi ex" "\<bar>sint i\<bar> < 2 ^ 53"
    "- 1024 \<le> ex" "ex \<le> 1074" "ex \<le> 0 \<or> q * 2 powi (ex - 1) \<notin> \<int>"
    using float64ToIntExp_ok [OF assms] by metis
  have val: "intExpToFloat64 i ex = (if ex \<le> 1023 then Fin q else Fin 0)"
    using intExpToFloat64_back [OF assms ie(2,3)] ie(4) by simp
  have pow: "(2 :: rat) ^ 1023 = 2 powi 1023" by (simp add: power_int_def)
  have "ex \<le> 1023 \<longleftrightarrow> q * 2 ^ 1023 \<in> \<int>"
    unfolding pow
  proof
    assume "ex \<le> 1023"
    then have "(2 :: rat) powi (1023 - ex) \<in> \<int>" by (simp only: powi_nonneg_int) simp
    then have "of_int (sint i) * (2 :: rat) powi (1023 - ex) \<in> \<int>" by (intro Ints_mult Ints_of_int)
    then have "q * 2 powi (ex + (1023 - ex)) \<in> \<int>" by (simp only: ie(2) powi_split mult.assoc)
    moreover have "ex + (1023 - ex) = 1023" by simp
    ultimately show "q * 2 powi 1023 \<in> \<int>" by (simp only:)
  next
    assume q: "q * 2 powi 1023 \<in> \<int>"
    show "ex \<le> 1023"
    proof (rule ccontr)
      assume big: "\<not> ex \<le> 1023"
      then have "(2 :: rat) powi (ex - 1 - 1023) \<in> \<int>" by (simp only: powi_nonneg_int) simp
      then have "q * 2 powi 1023 * 2 powi (ex - 1 - 1023) \<in> \<int>" by (rule Ints_mult [OF q])
      then have "q * 2 powi (1023 + (ex - 1 - 1023)) \<in> \<int>" by (simp only: powi_split mult.assoc)
      then show False using ie(6) big by simp
    qed
  qed
  then have v: "intExpToFloat64 i ex = read_back q" by (simp add: val read_back_def)
  have ex: "sint (of_int ex :: uint64) = ex" using ie(4,5) by (intro sint_small) simp_all
  have bytes: "number_bytes q = PutVarint i @ PutVarint (of_int ex)" by (simp add: number_bytes_def ie(1))
  show ?thesis
  proof (rule consumesI)
    fix r xs assume r: "rd_ok r" "rest_of r = number_bytes q @ xs"
    have rest: "rest_of r = PutVarint i @ (PutVarint (of_int ex) @ xs)" using r(2) by (simp add: bytes)
    let ?r = "rd_skip (of_nat (length (PutVarint i))) r"
    note s = rd_skip_ok [OF r(1) rest]
    have f: "from_res (rd_buff r') (unat (rd_offset r')) = Inr (rest_of r')" if "rd_ok r'" for r'
      using that by (simp add: rd_ok_def rest_of_def)
    show "readNumber r = Inr (read_back q, rd_skip (of_nat (length (number_bytes q))) r)"
      using f [OF r(1)] f [OF s(1)]
      by (simp add: readNumber_def rest s(2) Varint_PutVarint ex v bytes Let_def)
  qed
qed

text \<open>
  C28: a number that is written and read back is the same number, unless it is not a multiple of
  \<open>2^-1023\<close>. The exponent of such a tiny number exceeds 1023, \<open>math.Pow\<close> overflows to infinity, and
  the number read back is zero.
\<close>

theorem number_roundtrip:
  assumes "is_float64 q" "length xs < 2 ^ 31"
  shows "\<exists>w bs r. writeNumber (Fin q) newBinaryNomsWriter = Inr w \<and> wr_data w = Inr bs
    \<and> readNumber \<lparr>rd_buff = bs @ xs, rd_offset = 0\<rparr> = Inr (if q * 2 ^ 1023 \<in> \<int> then Fin q else Fin 0, r)
    \<and> rest_of r = xs"
proof -
  have "length (number_bytes q) \<le> 20"
    using length_PutVarint by (auto simp: number_bytes_def split: sum.splits intro!: add_mono [of _ 10 _ 10, simplified])
  note len = this
  have new: "wr_ok newBinaryNomsWriter" "written newBinaryNomsWriter = []"
    by (auto simp: wr_ok_def written_def newBinaryNomsWriter_def initialBufferSize_def intro!: exI [of _ 11])
  have "length (written newBinaryNomsWriter) + length (number_bytes q) + 20 \<le> 2 ^ 31" using len new(2) by simp
  from appendsD [OF appends_writeNumber [OF assms(1)] new(1) this]
  obtain w where w: "writeNumber (Fin q) newBinaryNomsWriter = Inr w" "wr_ok w" "written w = number_bytes q"
    using new(2) by auto
  let ?r = "\<lparr>rd_buff = number_bytes q @ xs, rd_offset = 0\<rparr>"
  have r: "rd_ok ?r" "rest_of ?r = number_bytes q @ xs" using len assms(2) by (simp_all add: rd_ok_def rest_of_def)
  show ?thesis
    using w wr_data_written [OF w(2)] consumesD [OF consumes_readNumber [OF assms(1)] r] rd_skip_ok(2) [OF r]
    by (auto simp: read_back_def)
qed

theorem number_roundtrip_witness:
  "(\<exists>w bs r. writeNumber (Fin (5 / 2)) newBinaryNomsWriter = Inr w \<and> wr_data w = Inr bs
    \<and> readNumber \<lparr>rd_buff = bs @ [7], rd_offset = 0\<rparr> = Inr (Fin (5 / 2), r) \<and> rest_of r = [7])"
proof -
  have f: "is_float64 (5 / 2)" unfolding is_float64_def
    by (rule exI [of _ 5], rule exI [of _ "- 1"]) (simp add: float_limit_def power_int_minus)
  have "(5 / 2 :: rat) * 2 ^ 1023 = of_int (5 * 2 ^ 1022)" by simp
  then have "(5 / 2 :: rat) * 2 ^ 1023 \<in> \<int>" by (metis Ints_of_int)
  with number_roundtrip [OF f, of "[7]"] show ?thesis by simp
qed

text \<open>
  C29: \<open>ensureCapacity\<close> returns exactly when the buffer does not have to exceed \<open>2^31\<close> bytes. It then
  keeps what was written and has the room that was asked for; beyond, its loop never ends.
\<close>

theorem ensureCapacity_terminates:
  assumes "wr_ok b" "unat (wr_offset b) + unat n < 2 ^ 32"
  shows "if unat (wr_offset b) + unat n \<le> 2 ^ 31
    then \<exists>b'. ensureCapacity n b = Inr b' \<and> wr_data b' = wr_data b \<and> wr_offset b' = wr_offset b
           \<and> unat (wr_offset b) + unat n \<le> length (wr_buff b')
    else ensureCapacity n b = Inl Diverges"
proof (cases "unat (wr_offset b) + unat n \<le> 2 ^ 31")
  case True
  from ensureCapacity_ok [OF assms(1) this]
  obtain b' where "ensureCapacity n b = Inr b'" "wr_ok b'" "written b' = written b" "wr_offset b' = wr_offset b"
    "unat (wr_offset b') + unat n \<le> length (wr_buff b')" .
  then have "\<exists>b'. ensureCapacity n b = Inr b' \<and> wr_data b' = wr_data b \<and> wr_offset b' = wr_offset b
      \<and> unat (wr_offset b) + unat n \<le> length (wr_buff b')"
    using assms(1) by (simp add: wr_data_written)
  then show ?thesis using True by simp
next
  case False
  obtain k where k: "length (wr_buff b) = 2 ^ k" "k \<le> 31" using assms(1) by (auto simp: wr_ok_def)
  have sum: "unat (wr_offset b + n) = unat (wr_offset b) + unat n" using assms(2) by (simp add: unat_word_ariths)
  then have big: "unat (wr_offset b + n) > 2 ^ 31" using False by simp
  have "(2::nat) ^ k \<le> 2 ^ 31" using k(2) by (intro power_increasing) simp_all
  then have "\<not> wr_offset b + n \<le> (2 ^ k :: uint32)" using big k(2) by (simp add: word_le_nat_alt)
  moreover have "grow (wr_offset b + n) (2 ^ k) = None" by (rule grow_None [OF big k(2)])
  ultimately have "ensureCapacity n b = Inl Diverges" by (simp add: ensureCapacity_def k(1))
  then show ?thesis using False by simp
qed

theorem ensureCapacity_terminates_witness:
  "ensureCapacity (2 ^ 31 + 1) newBinaryNomsWriter = Inl Diverges"
proof -
  have "wr_ok newBinaryNomsWriter"
    by (auto simp: wr_ok_def newBinaryNomsWriter_def initialBufferSize_def intro!: exI [of _ 11])
  moreover have "wr_offset newBinaryNomsWriter = 0" by (simp add: newBinaryNomsWriter_def)
  ultimately show ?thesis using ensureCapacity_terminates [of newBinaryNomsWriter "2 ^ 31 + 1"] by simp
qed

end
