(* ===== verification/NomsTypes.thy ===== *)
theory NomsTypes
  imports Codec "HOL-Library.List_Lexorder"
begin

text \<open>
  The types of values: \<open>go/types/noms_kind.go\<close>, \<open>type.go\<close>, \<open>type_desc.go\<close>, \<open>type_cache.go\<close>, the parts
  of \<open>value_encoder.go\<close> and \<open>value_decoder.go\<close> that write and read types, and the checks of names in
  \<open>struct.go\<close>.

  Types are shared, compared by address and, for structs, cyclic. They are therefore objects in a
  store: the cache keeps the list of all types that were allocated, and a \<open>*Type\<close> is an index into
  it. The fields \<open>h\<close> and \<open>serialization\<close> of a type only remember results, which are computed anew
  here. Recursion along the pointers takes the depth of the stack as its first argument and is
  \<open>Diverges\<close> when that is exceeded.
\<close>

subsection \<open>State and panics\<close>

type_synonym ('a, 's) st = "'s \<Rightarrow> ('a \<times> 's) res"

definition sbind :: "('a, 's) st \<Rightarrow> ('a \<Rightarrow> ('b, 's) st) \<Rightarrow> ('b, 's) st" where
  "sbind m k s = rbind (m s) (\<lambda>(x, s'). k x s')"

definition sreturn :: "'a \<Rightarrow> ('a, 's) st" where
  "sreturn x s = Inr (x, s)"

fun mapM_st :: "('a \<Rightarrow> ('b, 's) st) \<Rightarrow> 'a list \<Rightarrow> ('b list, 's) st" where
  "mapM_st f [] = sreturn []"
| "mapM_st f (x # xs) = sbind (f x) (\<lambda>y. sbind (mapM_st f xs) (\<lambda>ys. sreturn (y # ys)))"

text \<open>\<open>for i := 0; i < n; i++\<close> with a body that yields one element.\<close>

fun times_st :: "nat \<Rightarrow> ('a, 's) st \<Rightarrow> ('a list, 's) st" where
  "times_st 0 m = sreturn []"
| "times_st (Suc n) m = sbind m (\<lambda>y. sbind (times_st n m) (\<lambda>ys. sreturn (y # ys)))"

text \<open>A loop that leaves with \<open>true\<close> at the first element where the body says so.\<close>

fun any_res :: "('a \<Rightarrow> bool res) \<Rightarrow> 'a list \<Rightarrow> bool res" where
  "any_res f [] = Inr False"
| "any_res f (x # xs) = rbind (f x) (\<lambda>b. if b then Inr True else any_res f xs)"

subsection \<open>Kinds and types\<close>

datatype NomsKind =
  BoolKind | NumberKind | StringKind | BlobKind | ValueKind | ListKind | MapKind | RefKind | SetKind
| StructKind | TypeKind | CycleKind | UnionKind

primrec kind_code :: "NomsKind \<Rightarrow> byte" where
  "kind_code BoolKind = 0"
| "kind_code NumberKind = 1"
| "kind_code StringKind = 2"
| "kind_code BlobKind = 3"
| "kind_code ValueKind = 4"
| "kind_code ListKind = 5"
| "kind_code MapKind = 6"
| "kind_code RefKind = 7"
| "kind_code SetKind = 8"
| "kind_code StructKind = 9"
| "kind_code TypeKind = 10"
| "kind_code CycleKind = 11"
| "kind_code UnionKind = 12"

definition all_kinds :: "NomsKind list" where
  "all_kinds = [BoolKind, NumberKind, StringKind, BlobKind, ValueKind, ListKind, MapKind, RefKind, SetKind,
                StructKind, TypeKind, CycleKind, UnionKind]"

text \<open>The kind with a given number; a \<open>NomsKind\<close> that was read may be none of the constants.\<close>

definition kind_of :: "byte \<Rightarrow> NomsKind option" where
  "kind_of b = List.find (\<lambda>k. kind_code k = b) all_kinds"

definition IsPrimitiveKind :: "NomsKind \<Rightarrow> bool" where
  "IsPrimitiveKind k \<longleftrightarrow> k \<in> {BoolKind, NumberKind, StringKind, BlobKind, ValueKind, TypeKind}"

definition isKindOrderedByValue :: "NomsKind \<Rightarrow> bool" where
  "isKindOrderedByValue k \<longleftrightarrow> kind_code k \<le> kind_code StringKind"

type_synonym tptr = nat

datatype TypeDesc =
  PrimitiveDesc NomsKind
| CompoundDesc NomsKind "tptr list"
| StructDesc bytes "(bytes \<times> tptr) list"
| CycleDesc uint32

fun desc_Kind :: "TypeDesc \<Rightarrow> NomsKind" where
  "desc_Kind (PrimitiveDesc p) = p"
| "desc_Kind (CompoundDesc kind _) = kind"
| "desc_Kind (StructDesc _ _) = StructKind"
| "desc_Kind (CycleDesc _) = CycleKind"

record Type =
  ty_Desc :: TypeDesc
  ty_oid :: "hash option"
  ty_id :: uint32

text \<open>
  The trie of types. A pointer to one of its nodes is the path that leads to it from the root.
\<close>

datatype typeTrie = TypeTrie (trie_t: "tptr option") (trie_entries: "uint32 \<Rightarrow> typeTrie option")

definition newTypeTrie :: typeTrie where
  "newTypeTrie = TypeTrie None Map.empty"

fun trie_node :: "uint32 list \<Rightarrow> typeTrie \<Rightarrow> typeTrie option" where
  "trie_node [] n = Some n"
| "trie_node (i # path) n = (case trie_entries n i of None \<Rightarrow> None | Some m \<Rightarrow> trie_node path m)"

fun trie_update :: "uint32 list \<Rightarrow> (typeTrie \<Rightarrow> typeTrie) \<Rightarrow> typeTrie \<Rightarrow> typeTrie" where
  "trie_update [] f n = f n"
| "trie_update (i # path) f n =
     (case trie_entries n i of
        None \<Rightarrow> n
      | Some m \<Rightarrow> TypeTrie (trie_t n) ((trie_entries n)(i \<mapsto> trie_update path f m)))"

definition Traverse :: "uint32 \<Rightarrow> typeTrie \<Rightarrow> typeTrie" where
  "Traverse typeId tct =
     (case trie_entries tct typeId of
        Some _ \<Rightarrow> tct
      | None \<Rightarrow> TypeTrie (trie_t tct) ((trie_entries tct)(typeId \<mapsto> newTypeTrie)))"

record identTable =
  it_entries :: "bytes \<Rightarrow> uint32 option"
  it_nextId :: uint32

definition newIdentTable :: identTable where
  "newIdentTable = \<lparr>it_entries = Map.empty, it_nextId = 0\<rparr>"

definition GetId :: "bytes \<Rightarrow> identTable \<Rightarrow> uint32 \<times> identTable" where
  "GetId ident it =
     (case it_entries it ident of
        Some i \<Rightarrow> (i, it)
      | None \<Rightarrow> (it_nextId it, \<lparr>it_entries = (it_entries it)(ident \<mapsto> it_nextId it), it_nextId = it_nextId it + 1\<rparr>))"

record TypeCache =
  tc_types :: "Type list"
  tc_identTable :: identTable
  tc_trieRoots :: "NomsKind \<Rightarrow> typeTrie"
  tc_nextId :: uint32

definition makePrimitiveType :: "NomsKind \<Rightarrow> Type" where
  "makePrimitiveType k = \<lparr>ty_Desc = PrimitiveDesc k, ty_oid = None, ty_id = ucast (kind_code k)\<rparr>"

text \<open>The primitive types are the first objects of the store.\<close>

definition BoolType :: tptr where "BoolType = 0"
definition NumberType :: tptr where "NumberType = 1"
definition StringType :: tptr where "StringType = 2"
definition BlobType :: tptr where "BlobType = 3"
definition TypeType :: tptr where "TypeType = 4"
definition ValueType :: tptr where "ValueType = 5"

definition prim_types :: "Type list" where
  "prim_types = map makePrimitiveType [BoolKind, NumberKind, StringKind, BlobKind, TypeKind, ValueKind]"

definition NewTypeCache :: TypeCache where
  "NewTypeCache = \<lparr>tc_types = prim_types, tc_identTable = newIdentTable,
                   tc_trieRoots = (\<lambda>_. newTypeTrie), tc_nextId = 256\<rparr>"

fun MakePrimitiveType :: "NomsKind \<Rightarrow> tptr res" where
  "MakePrimitiveType BoolKind = Inr BoolType"
| "MakePrimitiveType NumberKind = Inr NumberType"
| "MakePrimitiveType StringKind = Inr StringType"
| "MakePrimitiveType BlobKind = Inr BlobType"
| "MakePrimitiveType ValueKind = Inr ValueType"
| "MakePrimitiveType TypeKind = Inr TypeType"
| "MakePrimitiveType _ = Inl ChkFailed"

definition MakePrimitiveTypeByString :: "string \<Rightarrow> tptr res" where
  "MakePrimitiveTypeByString p =
     (if p = ''Bool'' then Inr BoolType
      else if p = ''Number'' then Inr NumberType
      else if p = ''String'' then Inr StringType
      else if p = ''Blob'' then Inr BlobType
      else if p = ''Value'' then Inr ValueType
      else if p = ''Type'' then Inr TypeType
      else Inl ChkFailed)"

subsection \<open>Operations of the cache\<close>

definition ty_at :: "TypeCache \<Rightarrow> tptr \<Rightarrow> Type res" where
  "ty_at tc t = nth_res (tc_types tc) t"

definition nextTypeId :: "TypeCache \<Rightarrow> uint32 \<times> TypeCache" where
  "nextTypeId tc = (tc_nextId tc, tc\<lparr>tc_nextId := tc_nextId tc + 1\<rparr>)"

definition newType :: "TypeDesc \<Rightarrow> uint32 \<Rightarrow> TypeCache \<Rightarrow> tptr \<times> TypeCache" where
  "newType desc i tc =
     (length (tc_types tc), tc\<lparr>tc_types := tc_types tc @ [\<lparr>ty_Desc = desc, ty_oid = None, ty_id = i\<rparr>]\<rparr>)"

definition set_type :: "tptr \<Rightarrow> (Type \<Rightarrow> Type) \<Rightarrow> TypeCache \<Rightarrow> TypeCache" where
  "set_type t f tc = tc\<lparr>tc_types := (tc_types tc)[t := f (tc_types tc ! t)]\<rparr>"

type_synonym trie_ptr = "NomsKind \<times> uint32 list"

definition tc_Traverse :: "trie_ptr \<Rightarrow> uint32 \<Rightarrow> TypeCache \<Rightarrow> trie_ptr \<times> TypeCache" where
  "tc_Traverse p typeId tc =
     (case p of (k, path) \<Rightarrow>
        ((k, path @ [typeId]),
         tc\<lparr>tc_trieRoots := (tc_trieRoots tc)(k := trie_update path (Traverse typeId) (tc_trieRoots tc k))\<rparr>))"

definition node_t :: "TypeCache \<Rightarrow> trie_ptr \<Rightarrow> tptr option" where
  "node_t tc p = (case p of (k, path) \<Rightarrow> case trie_node path (tc_trieRoots tc k) of None \<Rightarrow> None | Some n \<Rightarrow> trie_t n)"

definition set_node_t :: "trie_ptr \<Rightarrow> tptr \<Rightarrow> TypeCache \<Rightarrow> TypeCache" where
  "set_node_t p t tc =
     (case p of (k, path) \<Rightarrow>
        tc\<lparr>tc_trieRoots := (tc_trieRoots tc)
             (k := trie_update path (\<lambda>n. TypeTrie (Some t) (trie_entries n)) (tc_trieRoots tc k))\<rparr>)"

definition tc_GetId :: "bytes \<Rightarrow> TypeCache \<Rightarrow> uint32 \<times> TypeCache" where
  "tc_GetId ident tc = (case GetId ident (tc_identTable tc) of (i, it) \<Rightarrow> (i, tc\<lparr>tc_identTable := it\<rparr>))"

definition getCompoundType :: "NomsKind \<Rightarrow> tptr list \<Rightarrow> (tptr, TypeCache) st" where
  "getCompoundType kind elemTypes tc =
     rbind (foldM_res (\<lambda>(trie, tc) t. rbind (ty_at tc t) (\<lambda>ty. Inr (tc_Traverse trie (ty_id ty) tc)))
              ((kind, []), tc) elemTypes)
       (\<lambda>(trie, tc).
          case node_t tc trie of
            Some t \<Rightarrow> Inr (t, tc)
          | None \<Rightarrow>
              let (i, tc) = nextTypeId tc; (t, tc) = newType (CompoundDesc kind elemTypes) i tc
              in Inr (t, set_node_t trie t tc))"

definition getCycleType :: "uint32 \<Rightarrow> (tptr, TypeCache) st" where
  "getCycleType level tc =
     (let (trie, tc) = tc_Traverse (CycleKind, []) level tc
      in case node_t tc trie of
           Some t \<Rightarrow> Inr (t, tc)
         | None \<Rightarrow>
             let (i, tc) = nextTypeId tc; (t, tc) = newType (CycleDesc level) i tc
             in Inr (t, set_node_t trie t tc))"

fun indexOfType :: "tptr \<Rightarrow> tptr list \<Rightarrow> nat option" where
  "indexOfType t [] = None"
| "indexOfType t (tt # ts) = (if tt = t then Some 0 else map_option Suc (indexOfType t ts))"

text \<open>The level of the back reference to the struct at index \<open>i\<close> of the enclosing ones.\<close>

definition back_level :: "tptr list \<Rightarrow> nat \<Rightarrow> uint32" where
  "back_level parentStructTypes i = of_nat (length parentStructTypes) - of_nat i - 1"

primrec hasUnresolvedCycle :: "nat \<Rightarrow> TypeCache \<Rightarrow> tptr \<Rightarrow> tptr list \<Rightarrow> bool res" where
  "hasUnresolvedCycle 0 = (\<lambda>tc t visited. Inl Diverges)"
| "hasUnresolvedCycle (Suc n) = (\<lambda>tc t visited.
     if indexOfType t visited \<noteq> None then Inr False
     else rbind (ty_at tc t) (\<lambda>ty.
       case ty_Desc ty of
         PrimitiveDesc _ \<Rightarrow> Inr False
       | CompoundDesc _ ts \<Rightarrow> any_res (\<lambda>t'. hasUnresolvedCycle n tc t' (visited @ [t])) ts
       | StructDesc _ fs \<Rightarrow> any_res (\<lambda>f. hasUnresolvedCycle n tc (snd f) (visited @ [t])) fs
       | CycleDesc _ \<Rightarrow> Inr True))"

definition HasUnresolvedCycle :: "nat \<Rightarrow> TypeCache \<Rightarrow> tptr \<Rightarrow> bool res" where
  "HasUnresolvedCycle n tc t = hasUnresolvedCycle n tc t []"

definition alloc :: "TypeDesc \<Rightarrow> (tptr, TypeCache) st" where
  "alloc desc tc = (let (i, tc) = nextTypeId tc in Inr (newType desc i tc))"

primrec toUnresolvedType :: "nat \<Rightarrow> int \<Rightarrow> tptr list \<Rightarrow> tptr \<Rightarrow> (tptr \<times> bool, TypeCache) st" where
  "toUnresolvedType 0 = (\<lambda>level parentStructTypes t tc. Inl Diverges)"
| "toUnresolvedType (Suc n) = (\<lambda>level parentStructTypes t tc.
     case indexOfType t parentStructTypes of
       Some i \<Rightarrow>
         let (t', tc) = newType (CycleDesc (back_level parentStructTypes i)) 0xfa15e tc in Inr ((t', True), tc)
     | None \<Rightarrow>
         rbind (ty_at tc t) (\<lambda>ty.
           case ty_Desc ty of
             CompoundDesc k ts \<Rightarrow>
               sbind (mapM_st (toUnresolvedType n level parentStructTypes) ts) (\<lambda>rs.
                 if \<not> list_ex snd rs then sreturn (t, False)
                 else sbind (alloc (CompoundDesc k (map fst rs))) (\<lambda>t'. sreturn (t', True))) tc
           | StructDesc name fs \<Rightarrow>
               sbind (mapM_st (\<lambda>f. toUnresolvedType n (level + 1) (parentStructTypes @ [t]) (snd f)) fs) (\<lambda>rs.
                 if \<not> list_ex snd rs then sreturn (t, False)
                 else sbind (alloc (StructDesc name (zip (map fst fs) (map fst rs)))) (\<lambda>t'. sreturn (t', True))) tc
           | CycleDesc c \<Rightarrow> Inr ((t, int (unat c) \<le> level), tc)
           | PrimitiveDesc _ \<Rightarrow> Inr ((t, False), tc)))"

definition ToUnresolvedType :: "nat \<Rightarrow> tptr \<Rightarrow> (tptr, TypeCache) st" where
  "ToUnresolvedType n t = sbind (toUnresolvedType n 0 [] t) (\<lambda>r. sreturn (fst r))"

text \<open>\<open>desc.ElemTypes[i]\<close> and \<open>desc.fields[i].t\<close>, read and assigned in place.\<close>

fun desc_elem :: "TypeDesc \<Rightarrow> nat \<Rightarrow> tptr res" where
  "desc_elem (CompoundDesc _ ts) i = nth_res ts i"
| "desc_elem (StructDesc _ fs) i = nth_res (map snd fs) i"
| "desc_elem _ i = Inl IndexOutOfRange"

fun desc_set :: "nat \<Rightarrow> tptr \<Rightarrow> TypeDesc \<Rightarrow> TypeDesc" where
  "desc_set i t (CompoundDesc k ts) = CompoundDesc k (ts[i := t])"
| "desc_set i t (StructDesc name fs) = StructDesc name (fs[i := (fst (fs ! i), t)])"
| "desc_set i t d = d"

definition resolve_elems :: "(tptr \<Rightarrow> (tptr, TypeCache) st) \<Rightarrow> tptr \<Rightarrow> nat \<Rightarrow> TypeCache \<Rightarrow> TypeCache res" where
  "resolve_elems resolve t len tc =
     foldM_res (\<lambda>tc i.
       rbind (ty_at tc t) (\<lambda>ty. rbind (desc_elem (ty_Desc ty) i) (\<lambda>et. rbind (resolve et tc) (\<lambda>(r, tc).
         Inr (set_type t (\<lambda>ty. ty\<lparr>ty_Desc := desc_set i r (ty_Desc ty)\<rparr>) tc))))) tc [0..<len]"

primrec resolveStructCycles :: "nat \<Rightarrow> tptr list \<Rightarrow> tptr \<Rightarrow> (tptr, TypeCache) st" where
  "resolveStructCycles 0 = (\<lambda>parentStructTypes t tc. Inl Diverges)"
| "resolveStructCycles (Suc n) = (\<lambda>parentStructTypes t tc.
     rbind (ty_at tc t) (\<lambda>ty.
       case ty_Desc ty of
         CompoundDesc _ ts \<Rightarrow>
           rbind (resolve_elems (resolveStructCycles n parentStructTypes) t (length ts) tc) (\<lambda>tc. Inr (t, tc))
       | StructDesc _ fs \<Rightarrow>
           rbind (resolve_elems (resolveStructCycles n (parentStructTypes @ [t])) t (length fs) tc) (\<lambda>tc. Inr (t, tc))
       | CycleDesc idx \<Rightarrow>
           if idx < of_nat (length parentStructTypes)
           then rbind (nth_res parentStructTypes (unat (of_nat (length parentStructTypes) - 1 - idx))) (\<lambda>p. Inr (p, tc))
           else Inr (t, tc)
       | PrimitiveDesc _ \<Rightarrow> Inr (t, tc)))"

subsection \<open>Writing types\<close>

definition writeKind :: "NomsKind \<Rightarrow> binaryNomsWriter \<Rightarrow> binaryNomsWriter res" where
  "writeKind kind w = writeUint8 (kind_code kind) w"

definition writeCycle :: "uint32 \<Rightarrow> binaryNomsWriter \<Rightarrow> binaryNomsWriter res" where
  "writeCycle i w = rbind (writeKind CycleKind w) (writeUint32 i)"

definition writeStructType ::
    "(tptr list \<Rightarrow> tptr \<Rightarrow> binaryNomsWriter \<Rightarrow> binaryNomsWriter res) \<Rightarrow> tptr list \<Rightarrow> tptr \<Rightarrow> bytes \<Rightarrow> (bytes \<times> tptr) list
      \<Rightarrow> binaryNomsWriter \<Rightarrow> binaryNomsWriter res" where
  "writeStructType writeType parentStructTypes t name fs w =
     (case indexOfType t parentStructTypes of
        Some i \<Rightarrow> writeCycle (back_level parentStructTypes i) w
      | None \<Rightarrow>
          rbind (writeKind StructKind w) (\<lambda>w. rbind (writeString name w) (\<lambda>w.
          rbind (writeUint32 (of_nat (length fs)) w) (\<lambda>w.
            foldM_res (\<lambda>w f. rbind (writeString (fst f) w) (writeType (parentStructTypes @ [t]) (snd f))) w fs))))"

primrec writeType :: "nat \<Rightarrow> TypeCache \<Rightarrow> tptr list \<Rightarrow> tptr \<Rightarrow> binaryNomsWriter \<Rightarrow> binaryNomsWriter res" where
  "writeType 0 = (\<lambda>tc parentStructTypes t w. Inl Diverges)"
| "writeType (Suc n) = (\<lambda>tc parentStructTypes t w.
     rbind (ty_at tc t) (\<lambda>ty.
       case ty_Desc ty of
         CompoundDesc k elemTypes \<Rightarrow>
           if k \<in> {ListKind, MapKind, RefKind, SetKind}
           then rbind (writeKind k w) (\<lambda>w. foldM_res (\<lambda>w e. writeType n tc parentStructTypes e w) w elemTypes)
           else rbind (writeKind k w) (\<lambda>w. rbind (writeUint32 (of_nat (length elemTypes)) w) (\<lambda>w.
                  foldM_res (\<lambda>w e. writeType n tc parentStructTypes e w) w elemTypes))
       | StructDesc name fs \<Rightarrow> writeStructType (writeType n tc) parentStructTypes t name fs w
       | CycleDesc i \<Rightarrow> writeCycle i w
       | PrimitiveDesc k \<Rightarrow> rbind (writeKind k w) (\<lambda>w. chk (IsPrimitiveKind k) (Inr w))))"

definition initialTypeBufferSize :: nat where
  "initialTypeBufferSize = 128"

definition ensureTypeSerialization :: "nat \<Rightarrow> TypeCache \<Rightarrow> tptr \<Rightarrow> bytes res" where
  "ensureTypeSerialization n tc t =
     rbind (writeType n tc [] t \<lparr>wr_buff = replicate initialTypeBufferSize 0, wr_offset = 0\<rparr>) wr_data"

definition appendType :: "nat \<Rightarrow> TypeCache \<Rightarrow> tptr \<Rightarrow> binaryNomsWriter \<Rightarrow> binaryNomsWriter res" where
  "appendType n tc t b =
     rbind (ensureTypeSerialization n tc t) (\<lambda>dat.
       let size = of_nat (length dat) :: uint32
       in rbind (ensureCapacity size b) (\<lambda>b. rbind (wr_copy dat b) (\<lambda>b. Inr (wr_skip size b))))"

text \<open>The hash of a type as a value: the hash of its encoding, which starts with the type \<open>Type\<close>.\<close>

definition type_Hash :: "nat \<Rightarrow> TypeCache \<Rightarrow> tptr \<Rightarrow> hash res" where
  "type_Hash n tc t =
     rbind (appendType n tc TypeType newBinaryNomsWriter) (\<lambda>w.
     rbind (writeType n tc [] t w) (\<lambda>w. rbind (wr_data w) (\<lambda>dat. Inr (hash_Of dat))))"

definition type_Equals :: "nat \<Rightarrow> TypeCache \<Rightarrow> tptr \<Rightarrow> tptr \<Rightarrow> bool res" where
  "type_Equals n tc t other =
     (if t = other then Inr True
      else rbind (type_Hash n tc t) (\<lambda>h. rbind (type_Hash n tc other) (\<lambda>h'. Inr (h = h'))))"

subsection \<open>Names\<close>

definition is_letter :: "byte \<Rightarrow> bool" where
  "is_letter c \<longleftrightarrow> 97 \<le> c \<and> c \<le> 122 \<or> 65 \<le> c \<and> c \<le> 90"

definition is_name_tail :: "byte \<Rightarrow> bool" where
  "is_name_tail c \<longleftrightarrow> is_letter c \<or> 48 \<le> c \<and> c \<le> 57 \<or> c = 95"

text \<open>The regular expression \<open>^[a-zA-Z][a-zA-Z0-9_]*$\<close>.\<close>

fun IsValidStructFieldName :: "bytes \<Rightarrow> bool" where
  "IsValidStructFieldName [] \<longleftrightarrow> False"
| "IsValidStructFieldName (c # cs) \<longleftrightarrow> is_letter c \<and> list_all is_name_tail cs"

definition verifyName :: "bytes \<Rightarrow> unit res" where
  "verifyName name = (if IsValidStructFieldName name then Inr () else Inl (Panic ''Invalid struct name''))"

definition verifyFieldName :: "bytes \<Rightarrow> unit res" where
  "verifyFieldName name = verifyName name"

definition verifyStructName :: "bytes \<Rightarrow> unit res" where
  "verifyStructName name = (if name \<noteq> [] then verifyName name else Inr ())"

fun verify_ordered :: "bytes list \<Rightarrow> unit res" where
  "verify_ordered (a # b # names) =
     rbind (verifyFieldName b) (\<lambda>_. chk (a < b) (verify_ordered (b # names)))"
| "verify_ordered _ = Inr ()"

definition verifyFieldNames :: "bytes list \<Rightarrow> unit res" where
  "verifyFieldNames names =
     (case names of [] \<Rightarrow> Inr () | name # _ \<Rightarrow> rbind (verifyFieldName name) (\<lambda>_. verify_ordered names))"

definition verifyFields :: "(bytes \<times> tptr) list \<Rightarrow> unit res" where
  "verifyFields fs = verifyFieldNames (map fst fs)"

subsection \<open>The order of the members of a union\<close>

datatype checkKindType = checkKindNormalize | checkKindNoValidate | checkKindValidate

primrec walkType ::
    "nat \<Rightarrow> (tptr \<Rightarrow> tptr list \<Rightarrow> TypeCache \<Rightarrow> TypeCache res) \<Rightarrow> tptr list \<Rightarrow> tptr \<Rightarrow> TypeCache \<Rightarrow> TypeCache res" where
  "walkType 0 = (\<lambda>cb parentStructTypes t tc. Inl Diverges)"
| "walkType (Suc n) = (\<lambda>cb parentStructTypes t tc.
     rbind (ty_at tc t) (\<lambda>ty.
       if desc_Kind (ty_Desc ty) = StructKind \<and> indexOfType t parentStructTypes \<noteq> None then Inr tc
       else rbind (cb t parentStructTypes tc) (\<lambda>tc.
            rbind (ty_at tc t) (\<lambda>ty.
              case ty_Desc ty of
                CompoundDesc _ ts \<Rightarrow> foldM_res (\<lambda>tc tt. walkType n cb parentStructTypes tt tc) tc ts
              | StructDesc _ fs \<Rightarrow> foldM_res (\<lambda>tc f. walkType n cb (parentStructTypes @ [t]) (snd f) tc) tc fs
              | _ \<Rightarrow> Inr tc))))"

primrec checkForUnresolvedCycles :: "nat \<Rightarrow> TypeCache \<Rightarrow> tptr \<Rightarrow> tptr list \<Rightarrow> tptr \<Rightarrow> unit res" where
  "checkForUnresolvedCycles 0 = (\<lambda>tc root parentStructTypes t. Inl Diverges)"
| "checkForUnresolvedCycles (Suc n) = (\<lambda>tc root parentStructTypes t.
     rbind (ty_at tc t) (\<lambda>ty.
       case ty_Desc ty of
         CycleDesc _ \<Rightarrow> Inl (Panic ''ound an unexpected resolved cycle'')
       | CompoundDesc _ ts \<Rightarrow>
           if t = root then Inr ()
           else foldM_res (\<lambda>_ e. checkForUnresolvedCycles n tc root parentStructTypes e) () ts
       | StructDesc _ fs \<Rightarrow>
           if indexOfType t parentStructTypes \<noteq> None then Inr ()
           else foldM_res (\<lambda>_ f. checkForUnresolvedCycles n tc root (parentStructTypes @ [t]) (snd f)) () fs
       | PrimitiveDesc _ \<Rightarrow> Inr ()))"

text \<open>
  The loop over the members of a union in \<open>encodeForOID\<close>: their order ids are collected in a set, and
  remembered in the members unless these are among the enclosing structs.
\<close>

definition set_oid :: "tptr \<Rightarrow> hash \<Rightarrow> TypeCache \<Rightarrow> TypeCache" where
  "set_oid t h tc = set_type t (\<lambda>ty. ty\<lparr>ty_oid := Some h\<rparr>) tc"

definition member_oid ::
    "(tptr \<Rightarrow> TypeCache \<times> binaryNomsWriter \<Rightarrow> (TypeCache \<times> binaryNomsWriter) res) \<Rightarrow> (TypeCache \<Rightarrow> tptr \<Rightarrow> unit res)
      \<Rightarrow> tptr list \<Rightarrow> TypeCache \<times> binaryNomsWriter \<times> hash list \<Rightarrow> tptr \<Rightarrow> (TypeCache \<times> binaryNomsWriter \<times> hash list) res" where
  "member_oid encode check parentStructTypes = (\<lambda>(tc, mbuf, oids) elemType.
     rbind (ty_at tc elemType) (\<lambda>ty.
       case ty_oid ty of
         None \<Rightarrow>
           rbind (encode elemType (tc, wr_reset mbuf)) (\<lambda>(tc, mbuf). rbind (wr_data mbuf) (\<lambda>dat.
             let h2 = hash_Of dat
             in Inr (if indexOfType elemType parentStructTypes = None then set_oid elemType h2 tc else tc,
                     mbuf, List.insert h2 oids)))
       | Some h \<Rightarrow> rbind (check tc elemType) (\<lambda>_. Inr (tc, mbuf, List.insert h oids))))"

definition xor_oids :: "hash list \<Rightarrow> bytes" where
  "xor_oids oids = foldl (\<lambda>dat o'. map2 (XOR) dat (hash_bytes o')) (replicate 20 0) oids"

primrec encodeForOID ::
    "nat \<Rightarrow> bool \<Rightarrow> tptr \<Rightarrow> tptr list \<Rightarrow> tptr \<Rightarrow> TypeCache \<times> binaryNomsWriter \<Rightarrow> (TypeCache \<times> binaryNomsWriter) res" where
  "encodeForOID 0 = (\<lambda>allowUnresolvedCycles root parentStructTypes t s. Inl Diverges)"
| "encodeForOID (Suc n) = (\<lambda>allowUnresolvedCycles root parentStructTypes t (tc, buf).
     rbind (ty_at tc t) (\<lambda>ty.
       case ty_Desc ty of
         CycleDesc c \<Rightarrow>
           if allowUnresolvedCycles
           then rbind (writeUint8 (kind_code CycleKind) buf) (\<lambda>buf. rbind (writeUint32 c buf) (\<lambda>buf. Inr (tc, buf)))
           else Inl (Panic ''found an unexpected unresolved cycle'')
       | PrimitiveDesc k \<Rightarrow> rbind (writeUint8 (kind_code k) buf) (\<lambda>buf. Inr (tc, buf))
       | CompoundDesc k ts \<Rightarrow>
           if k \<in> {ListKind, MapKind, RefKind, SetKind}
           then rbind (writeUint8 (kind_code k) buf) (\<lambda>buf. rbind (writeUint32 (of_nat (length ts)) buf) (\<lambda>buf.
                  foldM_res (\<lambda>s tt. encodeForOID n allowUnresolvedCycles root parentStructTypes tt s) (tc, buf) ts))
           else if k = UnionKind
           then rbind (writeUint8 (kind_code k) buf) (\<lambda>buf.
                  if t = root then Inr (tc, buf)
                  else rbind (writeUint32 (of_nat (length ts)) buf) (\<lambda>buf.
                       rbind (foldM_res
                                (member_oid (encodeForOID n allowUnresolvedCycles root parentStructTypes)
                                   (\<lambda>tc. checkForUnresolvedCycles n tc root parentStructTypes) parentStructTypes)
                                (tc, newBinaryNomsWriter, []) ts) (\<lambda>(tc, _, oids).
                         rbind (writeBytes (xor_oids oids) buf) (\<lambda>buf. Inr (tc, buf)))))
           else Inl (Panic ''unknown compound type'')
       | StructDesc name fs \<Rightarrow>
           (case indexOfType t parentStructTypes of
              Some idx \<Rightarrow>
                rbind (writeUint8 (kind_code CycleKind) buf) (\<lambda>buf.
                rbind (writeUint32 (back_level parentStructTypes idx) buf) (\<lambda>buf. Inr (tc, buf)))
            | None \<Rightarrow>
                rbind (writeUint8 (kind_code StructKind) buf) (\<lambda>buf. rbind (writeString name buf) (\<lambda>buf.
                  foldM_res (\<lambda>(tc, buf) f. rbind (writeString (fst f) buf) (\<lambda>buf.
                      encodeForOID n allowUnresolvedCycles root (parentStructTypes @ [t]) (snd f) (tc, buf)))
                    (tc, buf) fs)))))"

definition generateOID :: "nat \<Rightarrow> bool \<Rightarrow> tptr \<Rightarrow> TypeCache \<Rightarrow> TypeCache res" where
  "generateOID n allowUnresolvedCycles t tc =
     rbind (ty_at tc t) (\<lambda>ty.
       if ty_oid ty = None
       then rbind (encodeForOID n allowUnresolvedCycles t [] t (tc, newBinaryNomsWriter)) (\<lambda>(tc, buf).
              rbind (wr_data buf) (\<lambda>dat. Inr (set_oid t (hash_Of dat) tc)))
       else Inr tc)"

definition generateOIDs :: "nat \<Rightarrow> tptr \<Rightarrow> tptr list \<Rightarrow> TypeCache \<Rightarrow> TypeCache res" where
  "generateOIDs n t parentStructTypes tc = generateOID n False t tc"

definition oid_at :: "TypeCache \<Rightarrow> tptr \<Rightarrow> hash res" where
  "oid_at tc t =
     rbind (ty_at tc t) (\<lambda>ty. case ty_oid ty of None \<Rightarrow> Inl NilDereference | Some h \<Rightarrow> Inr h)"

definition checkForUnrolledCycles :: "tptr \<Rightarrow> tptr list \<Rightarrow> TypeCache \<Rightarrow> TypeCache res" where
  "checkForUnrolledCycles t parentStructTypes tc =
     rbind (ty_at tc t) (\<lambda>ty.
       if desc_Kind (ty_Desc ty) = StructKind
       then foldM_res (\<lambda>tc ttt. rbind (oid_at tc t) (\<lambda>h. rbind (oid_at tc ttt) (\<lambda>h'.
                if h = h' then Inl (Panic ''unrolled cycle types are not supported; ahl owes you a beer'')
                else Inr tc))) tc parentStructTypes
       else Inr tc)"

text \<open>\<open>sort.Sort\<close> of types by their order ids.\<close>

definition sort_types :: "TypeCache \<Rightarrow> tptr list \<Rightarrow> tptr list res" where
  "sort_types tc ts =
     (if length ts \<le> 1 then Inr ts
      else rbind (mapM_res (oid_at tc) ts) (\<lambda>_. Inr (Sort (\<lambda>t. the (ty_oid (tc_types tc ! t))) ts)))"

definition sortUnions :: "tptr \<Rightarrow> tptr list \<Rightarrow> TypeCache \<Rightarrow> TypeCache res" where
  "sortUnions t parentStructTypes tc =
     rbind (ty_at tc t) (\<lambda>ty.
       case ty_Desc ty of
         CompoundDesc UnionKind ts \<Rightarrow>
           rbind (sort_types tc ts) (\<lambda>ts'. Inr (set_type t (\<lambda>ty. ty\<lparr>ty_Desc := CompoundDesc UnionKind ts'\<rparr>) tc))
       | _ \<Rightarrow> Inr tc)"

fun increasing_oids :: "TypeCache \<Rightarrow> tptr list \<Rightarrow> unit res" where
  "increasing_oids tc (a # b # ts) =
     rbind (oid_at tc a) (\<lambda>h. rbind (oid_at tc b) (\<lambda>h'.
       if \<not> Less h h' then Inl (Panic ''Invalid union order'') else increasing_oids tc (b # ts)))"
| "increasing_oids tc _ = Inr ()"

definition validateTypes :: "tptr \<Rightarrow> tptr list \<Rightarrow> TypeCache \<Rightarrow> TypeCache res" where
  "validateTypes t parentStructTypes tc =
     rbind (ty_at tc t) (\<lambda>ty.
       case ty_Desc ty of
         CompoundDesc UnionKind elemTypes \<Rightarrow>
           if length elemTypes = 1 then Inl (Panic ''Invalid union type'')
           else rbind (increasing_oids tc elemTypes) (\<lambda>_. Inr tc)
       | StructDesc name fs \<Rightarrow> rbind (verifyStructName name) (\<lambda>_. rbind (verifyFields fs) (\<lambda>_. Inr tc))
       | _ \<Rightarrow> Inr tc)"

definition checkStructType :: "nat \<Rightarrow> tptr \<Rightarrow> checkKindType \<Rightarrow> TypeCache \<Rightarrow> TypeCache res" where
  "checkStructType n t checkKind tc =
     (if checkKind = checkKindNoValidate then Inr tc
      else rbind (walkType n (generateOIDs n) [] t tc) (\<lambda>tc.
           rbind (walkType n checkForUnrolledCycles [] t tc) (\<lambda>tc.
             case checkKind of
               checkKindNormalize \<Rightarrow> walkType n sortUnions [] t tc
             | checkKindValidate \<Rightarrow> walkType n validateTypes [] t tc
             | checkKindNoValidate \<Rightarrow> Inl (Panic ''unreachable''))))"

subsection \<open>Making types\<close>

text \<open>The walk of \<open>makeStructTypeQuickly\<close> along the trie: the name, then each field's name and type.\<close>

definition struct_trie :: "bytes \<Rightarrow> (bytes \<times> tptr) list \<Rightarrow> (trie_ptr, TypeCache) st" where
  "struct_trie name fs tc =
     (let (i, tc) = tc_GetId name tc
      in foldM_res (\<lambda>(trie, tc) f.
            let (i, tc) = tc_GetId (fst f) tc; (trie, tc) = tc_Traverse trie i tc
            in rbind (ty_at tc (snd f)) (\<lambda>ty. Inr (tc_Traverse trie (ty_id ty) tc)))
          (tc_Traverse (StructKind, []) i tc) fs)"

definition makeStructTypeQuickly :: "nat \<Rightarrow> bytes \<Rightarrow> (bytes \<times> tptr) list \<Rightarrow> checkKindType \<Rightarrow> (tptr, TypeCache) st" where
  "makeStructTypeQuickly n name fs checkKind tc =
     rbind (struct_trie name fs tc) (\<lambda>(trie, tc).
       case node_t tc trie of
         Some t \<Rightarrow> Inr (t, tc)
       | None \<Rightarrow>
           let (t, tc) = newType (StructDesc name fs) 0 tc
           in rbind (HasUnresolvedCycle n tc t) (\<lambda>cyclic.
              rbind (if \<not> cyclic then Inr (t, tc)
                     else rbind (toUnresolvedType n (- 1) [] t tc) (\<lambda>((t, _), tc).
                          rbind (resolveStructCycles n [] t tc) (\<lambda>(_, tc).
                          rbind (HasUnresolvedCycle n tc t) (\<lambda>open_cycle.
                            if open_cycle then Inr (t, tc)
                            else rbind (checkStructType n t checkKind tc) (\<lambda>tc. Inr (t, tc))))))
                (\<lambda>(t, tc).
                   let (i, tc) = nextTypeId tc; tc = set_type t (\<lambda>ty. ty\<lparr>ty_id := i\<rparr>) tc
                   in Inr (t, set_node_t trie t tc))))"

definition makeStructType :: "nat \<Rightarrow> bytes \<Rightarrow> bytes list \<Rightarrow> tptr list \<Rightarrow> (tptr, TypeCache) st" where
  "makeStructType n name fieldNames fieldTypes tc =
     (if length fieldNames \<noteq> length fieldTypes then Inl (Panic ''len(fieldNames) != len(fieldTypes)'')
      else rbind (verifyStructName name) (\<lambda>_. rbind (verifyFieldNames fieldNames) (\<lambda>_.
             makeStructTypeQuickly n name (zip fieldNames fieldTypes) checkKindNormalize tc)))"

text \<open>\<open>flattenUnionTypes\<close>, with the set of the hashes of the types seen so far.\<close>

primrec flattenUnionTypes :: "nat \<Rightarrow> TypeCache \<Rightarrow> tptr list \<Rightarrow> hash set \<Rightarrow> (tptr list \<times> hash set) res" where
  "flattenUnionTypes 0 = (\<lambda>tc ts seenTypes. Inl Diverges)"
| "flattenUnionTypes (Suc n) = (\<lambda>tc ts seenTypes.
     foldM_res (\<lambda>(ts2, seen) t.
         rbind (ty_at tc t) (\<lambda>ty.
           case ty_Desc ty of
             CompoundDesc UnionKind us \<Rightarrow>
               rbind (flattenUnionTypes n tc us seen) (\<lambda>(us2, seen). Inr (ts2 @ us2, seen))
           | _ \<Rightarrow>
               rbind (type_Hash n tc t) (\<lambda>h.
                 if h \<notin> seen then Inr (ts2 @ [t], insert h seen) else Inr (ts2, seen))))
       ([], seenTypes) ts)"

definition makeUnionType :: "nat \<Rightarrow> tptr list \<Rightarrow> (tptr, TypeCache) st" where
  "makeUnionType n elemTypes tc =
     rbind (flattenUnionTypes n tc elemTypes {}) (\<lambda>(ts, _).
       case ts of
         [t] \<Rightarrow> Inr (t, tc)
       | _ \<Rightarrow>
           rbind (foldM_res (\<lambda>tc tt. generateOID n True tt tc) tc ts) (\<lambda>tc.
           rbind (sort_types tc ts) (\<lambda>ts. getCompoundType UnionKind ts tc)))"

definition MakeListType :: "tptr \<Rightarrow> (tptr, TypeCache) st" where
  "MakeListType elemType = getCompoundType ListKind [elemType]"

definition MakeSetType :: "tptr \<Rightarrow> (tptr, TypeCache) st" where
  "MakeSetType elemType = getCompoundType SetKind [elemType]"

definition MakeRefType :: "tptr \<Rightarrow> (tptr, TypeCache) st" where
  "MakeRefType elemType = getCompoundType RefKind [elemType]"

definition MakeMapType :: "tptr \<Rightarrow> tptr \<Rightarrow> (tptr, TypeCache) st" where
  "MakeMapType keyType valType = getCompoundType MapKind [keyType, valType]"

definition MakeStructType :: "nat \<Rightarrow> bytes \<Rightarrow> bytes list \<Rightarrow> tptr list \<Rightarrow> (tptr, TypeCache) st" where
  "MakeStructType n name fieldNames fieldTypes = makeStructType n name fieldNames fieldTypes"

text \<open>A \<open>FieldMap\<close> is given by its entries in the order the runtime enumerates them.\<close>

definition MakeStructTypeFromFields :: "nat \<Rightarrow> bytes \<Rightarrow> (bytes \<times> tptr) list \<Rightarrow> (tptr, TypeCache) st" where
  "MakeStructTypeFromFields n name fs =
     (let sorted_fs = Sort fst fs in MakeStructType n name (map fst sorted_fs) (map snd sorted_fs))"

definition MakeUnionType :: "nat \<Rightarrow> tptr list \<Rightarrow> (tptr, TypeCache) st" where
  "MakeUnionType n elemTypes = makeUnionType n elemTypes"

definition MakeCycleType :: "uint32 \<Rightarrow> (tptr, TypeCache) st" where
  "MakeCycleType level = getCycleType level"

subsection \<open>Reading types\<close>

record valueDecoder =
  vd_reader :: binaryNomsReader
  vd_tc :: TypeCache
  vd_typeDepth :: int
  vd_validating :: bool

text \<open>Operations of the reader and of the cache within the decoder.\<close>

definition rd :: "(binaryNomsReader \<Rightarrow> ('a \<times> binaryNomsReader) res) \<Rightarrow> ('a, valueDecoder) st" where
  "rd f r = rbind (f (vd_reader r)) (\<lambda>(x, b). Inr (x, r\<lparr>vd_reader := b\<rparr>))"

definition on_tc :: "('a, TypeCache) st \<Rightarrow> ('a, valueDecoder) st" where
  "on_tc f r = rbind (f (vd_tc r)) (\<lambda>(x, tc). Inr (x, r\<lparr>vd_tc := tc\<rparr>))"

definition readIdent :: "(uint32, valueDecoder) st" where
  "readIdent = sbind (rd readString) (\<lambda>ident. on_tc (\<lambda>tc. Inr (tc_GetId ident tc)))"

definition readKind :: "(NomsKind option, valueDecoder) st" where
  "readKind = sbind (rd readUint8) (\<lambda>b. sreturn (kind_of b))"

definition type_id :: "tptr \<Rightarrow> (uint32, valueDecoder) st" where
  "type_id t = on_tc (\<lambda>tc. rbind (ty_at tc t) (\<lambda>ty. Inr (ty_id ty, tc)))"

definition traverse :: "trie_ptr \<Rightarrow> uint32 \<Rightarrow> (trie_ptr, valueDecoder) st" where
  "traverse trie i = on_tc (\<lambda>tc. Inr (tc_Traverse trie i tc))"

fun cached_fields :: "nat \<Rightarrow> (tptr, valueDecoder) st \<Rightarrow> trie_ptr \<Rightarrow> (trie_ptr, valueDecoder) st" where
  "cached_fields 0 readType trie = sreturn trie"
| "cached_fields (Suc k) readType trie =
     sbind readIdent (\<lambda>i. sbind (traverse trie i) (\<lambda>trie. sbind readType (\<lambda>t. sbind (type_id t) (\<lambda>i.
       sbind (traverse trie i) (cached_fields k readType)))))"

definition readCachedStructType :: "(tptr, valueDecoder) st \<Rightarrow> (tptr option, valueDecoder) st" where
  "readCachedStructType readType =
     sbind readIdent (\<lambda>i. sbind (traverse (StructKind, []) i) (\<lambda>trie. sbind (rd readUint32) (\<lambda>cnt.
     sbind (cached_fields (unat cnt) readType trie) (\<lambda>trie. on_tc (\<lambda>tc. Inr (node_t tc trie, tc))))))"

definition readStructType :: "nat \<Rightarrow> (tptr, valueDecoder) st \<Rightarrow> (tptr, valueDecoder) st" where
  "readStructType n readType r =
     (let pos = rd_pos (vd_reader r)
      in sbind (readCachedStructType readType) (\<lambda>t.
           case t of
             Some t \<Rightarrow> sreturn t
           | None \<Rightarrow>
               sbind (rd (\<lambda>b. Inr ((), rd_seek pos b))) (\<lambda>_.
               sbind (rd readString) (\<lambda>name. sbind (rd readUint32) (\<lambda>cnt.
               sbind (times_st (unat cnt) (sbind (rd readString) (\<lambda>fn. sbind readType (\<lambda>t. sreturn (fn, t))))) (\<lambda>fs.
                 on_tc (makeStructTypeQuickly n name fs checkKindNoValidate)))))) r)"

definition readUnionType :: "(tptr, valueDecoder) st \<Rightarrow> (tptr, valueDecoder) st" where
  "readUnionType readType =
     sbind (rd readUint32) (\<lambda>l. sbind (times_st (unat l) readType) (\<lambda>ts. on_tc (getCompoundType UnionKind ts)))"

definition readTypeInner :: "nat \<Rightarrow> (tptr, valueDecoder) st \<Rightarrow> (tptr, valueDecoder) st" where
  "readTypeInner n readType =
     sbind readKind (\<lambda>k.
       case k of
         Some ListKind \<Rightarrow> sbind readType (\<lambda>t. on_tc (getCompoundType ListKind [t]))
       | Some MapKind \<Rightarrow> sbind readType (\<lambda>t. sbind readType (\<lambda>u. on_tc (getCompoundType MapKind [t, u])))
       | Some RefKind \<Rightarrow> sbind readType (\<lambda>t. on_tc (getCompoundType RefKind [t]))
       | Some SetKind \<Rightarrow> sbind readType (\<lambda>t. on_tc (getCompoundType SetKind [t]))
       | Some StructKind \<Rightarrow> readStructType n readType
       | Some UnionKind \<Rightarrow> readUnionType readType
       | Some CycleKind \<Rightarrow> sbind (rd readUint32) (\<lambda>level. on_tc (getCycleType level))
       | Some k \<Rightarrow> (\<lambda>r. chk (IsPrimitiveKind k) (rbind (MakePrimitiveType k) (\<lambda>t. Inr (t, r))))
       | None \<Rightarrow> (\<lambda>r. Inl ChkFailed))"

primrec readType :: "nat \<Rightarrow> (tptr, valueDecoder) st" where
  "readType 0 = (\<lambda>r. Inl Diverges)"
| "readType (Suc n) = (\<lambda>r.
     sbind (readTypeInner n (readType n)) (\<lambda>t r.
       let r = r\<lparr>vd_typeDepth := vd_typeDepth r - 1\<rparr>
       in if vd_typeDepth r = 0 \<and> vd_validating r
          then rbind (checkStructType n t checkKindValidate (vd_tc r)) (\<lambda>tc. Inr (t, r\<lparr>vd_tc := tc\<rparr>))
          else Inr (t, r)) (r\<lparr>vd_typeDepth := vd_typeDepth r + 1\<rparr>))"

end
