(* ===== verification/Values.thy ===== *)
theory Values
  imports NomsTypes
begin

text \<open>
  The values of \<open>go/types\<close> (\<open>bool.go\<close>, \<open>number.go\<close>, \<open>string.go\<close>, \<open>ref.go\<close>, \<open>value.go\<close>, \<open>less.go\<close>) and
  the sequences that hold the contents of blobs, lists, maps and sets: the leaf sequences and the meta
  sequences, the inner nodes of a prolly tree.

  A value is immutable, so the pointers to its parts are the parts themselves; pointers to types are
  indices into the heap of a type cache. The hash a value caches is left out: \<open>Hash\<close> is a function of
  the value, a parameter \<open>H\<close> here and the encoder's result in the theory ValueCodec. A value reader is
  the function \<open>ReadValue\<close> from hashes to values, \<open>None\<close> for nil.
\<close>

subsection \<open>Data\<close>

record Ref =
  ref_target :: hash
  ref_height :: uint64
  ref_t :: tptr

datatype Value =
    Bool bool
  | Number float64
  | String bytes
  | Blob sequence
  | List sequence
  | Map sequence
  | Set sequence
  | RefV Ref
  | Struct tptr "Value list"
  | TypeV tptr
and sequence =
    blobLeafSequence bytes
  | listLeafSequence tptr "Value list"
  | setLeafSequence tptr "Value list"
  | mapLeafSequence tptr "(Value \<times> Value) list"
  | metaSequence "metaTuple list" tptr
and metaTuple = metaTuple (mt_ref: Ref) (mt_key: orderedKey) (mt_numLeaves: uint64) (mt_child: "Value option")
and orderedKey = orderedKey (ok_isOrderedByValue: bool) (ok_v: "Value option") (ok_h: hash)

type_synonym hash_fn = "Value \<Rightarrow> hash"
type_synonym ValueReader = "hash \<Rightarrow> Value option"

text \<open>What \<open>getItem\<close> returns, an \<open>interface{}\<close>.\<close>

datatype sequenceItem = ByteItem byte | ValueItem Value | EntryItem "Value \<times> Value" | TupleItem metaTuple

subsection \<open>Sequences\<close>

definition nth_int :: "'a list \<Rightarrow> int \<Rightarrow> 'a res" where
  "nth_int xs i = (if i < 0 then Inl IndexOutOfRange else nth_res xs (nat i))"

fun seq_items :: "sequence \<Rightarrow> sequenceItem list" where
  "seq_items (blobLeafSequence dat) = map ByteItem dat"
| "seq_items (listLeafSequence t vs) = map ValueItem vs"
| "seq_items (setLeafSequence t vs) = map ValueItem vs"
| "seq_items (mapLeafSequence t es) = map EntryItem es"
| "seq_items (metaSequence tuples t) = map TupleItem tuples"

definition getItem :: "sequence \<Rightarrow> int \<Rightarrow> sequenceItem res" where
  "getItem seq idx = nth_int (seq_items seq) idx"

definition seqLen :: "sequence \<Rightarrow> int" where
  "seqLen seq = int (length (seq_items seq))"

definition isMetaSequence :: "sequence \<Rightarrow> bool" where
  "isMetaSequence seq \<longleftrightarrow> (case seq of metaSequence _ _ \<Rightarrow> True | _ \<Rightarrow> False)"

text \<open>The sum over the tuples up to and including \<open>idx\<close>, with the wrap-around of \<open>uint64\<close>.\<close>

definition cumulativeNumberOfLeaves :: "metaTuple list \<Rightarrow> int \<Rightarrow> uint64 res" where
  "cumulativeNumberOfLeaves tuples idx =
     foldM_res (\<lambda>cum i. rbind (nth_int tuples i) (\<lambda>mt. Inr (cum + mt_numLeaves mt))) 0 [0..idx]"

fun numLeaves :: "sequence \<Rightarrow> uint64 res" where
  "numLeaves (metaSequence tuples t) = cumulativeNumberOfLeaves tuples (int (length tuples) - 1)"
| "numLeaves seq = Inr (of_int (seqLen seq))"

fun seq_Type :: "sequence \<Rightarrow> tptr" where
  "seq_Type (blobLeafSequence dat) = BlobType"
| "seq_Type (listLeafSequence t vs) = t"
| "seq_Type (setLeafSequence t vs) = t"
| "seq_Type (mapLeafSequence t es) = t"
| "seq_Type (metaSequence tuples t) = t"

subsection \<open>Values\<close>

fun value_Type :: "Value \<Rightarrow> tptr" where
  "value_Type (Bool b) = BoolType"
| "value_Type (Number f) = NumberType"
| "value_Type (String s) = StringType"
| "value_Type (Blob seq) = seq_Type seq"
| "value_Type (List seq) = seq_Type seq"
| "value_Type (Map seq) = seq_Type seq"
| "value_Type (Set seq) = seq_Type seq"
| "value_Type (RefV r) = ref_t r"
| "value_Type (Struct t vs) = t"
| "value_Type (TypeV t) = TypeType"

text \<open>
  \<open>v.Type().Kind()\<close>. The type of a value made by the package has the kind of the value's own Go type; a
  value of this model has the kind of its constructor.
\<close>

fun value_Kind :: "Value \<Rightarrow> NomsKind" where
  "value_Kind (Bool b) = BoolKind"
| "value_Kind (Number f) = NumberKind"
| "value_Kind (String s) = StringKind"
| "value_Kind (Blob seq) = BlobKind"
| "value_Kind (List seq) = ListKind"
| "value_Kind (Map seq) = MapKind"
| "value_Kind (Set seq) = SetKind"
| "value_Kind (RefV r) = RefKind"
| "value_Kind (Struct t vs) = StructKind"
| "value_Kind (TypeV t) = TypeKind"

text \<open>\<open>Equals\<close>: the primitive values compare themselves, the others their hashes.\<close>

fun value_Equals :: "hash_fn \<Rightarrow> Value \<Rightarrow> Value \<Rightarrow> bool" where
  "value_Equals H (Bool b) other \<longleftrightarrow> other = Bool b"
| "value_Equals H (Number f) other \<longleftrightarrow> (case other of Number g \<Rightarrow> fl_eq f g | _ \<Rightarrow> False)"
| "value_Equals H (String s) other \<longleftrightarrow> other = String s"
| "value_Equals H (TypeV t) other \<longleftrightarrow> other = TypeV t \<or> H (TypeV t) = H other"
| "value_Equals H v other \<longleftrightarrow> H v = H other"

definition valueLess :: "hash_fn \<Rightarrow> Value \<Rightarrow> Value \<Rightarrow> bool" where
  "valueLess H v1 v2 \<longleftrightarrow>
     (if value_Kind v2 \<in> {BoolKind, NumberKind, StringKind} then False else Less (H v1) (H v2))"

fun value_Less :: "hash_fn \<Rightarrow> Value \<Rightarrow> Value \<Rightarrow> bool" where
  "value_Less H (Bool b) other \<longleftrightarrow> (case other of Bool b2 \<Rightarrow> \<not> b \<and> b2 | _ \<Rightarrow> True)"
| "value_Less H (Number f) other \<longleftrightarrow>
     (case other of Number g \<Rightarrow> fl_less f g | _ \<Rightarrow> kind_code NumberKind < kind_code (value_Kind other))"
| "value_Less H (String s) other \<longleftrightarrow>
     (case other of String s2 \<Rightarrow> s < s2 | _ \<Rightarrow> kind_code StringKind < kind_code (value_Kind other))"
| "value_Less H v other \<longleftrightarrow> valueLess H v other"

definition ValueSlice_Equals :: "hash_fn \<Rightarrow> Value list \<Rightarrow> Value list \<Rightarrow> bool" where
  "ValueSlice_Equals H vs other \<longleftrightarrow>
     (if length vs \<noteq> length other then False else list_all (\<lambda>(v, w). value_Equals H v w) (zip vs other))"

definition mapEntrySlice_Less :: "hash_fn \<Rightarrow> Value \<times> Value \<Rightarrow> Value \<times> Value \<Rightarrow> bool" where
  "mapEntrySlice_Less H e f \<longleftrightarrow> value_Less H (fst e) (fst f)"

definition mapEntrySlice_Equals :: "hash_fn \<Rightarrow> (Value \<times> Value) list \<Rightarrow> (Value \<times> Value) list \<Rightarrow> bool" where
  "mapEntrySlice_Equals H mes other \<longleftrightarrow>
     (if length mes \<noteq> length other then False
      else list_all (\<lambda>(e, f). value_Equals H (fst e) (fst f) \<and> value_Equals H (snd e) (snd f)) (zip mes other))"

text \<open>The refs a value is built from, in the order of \<open>WalkRefs\<close>.\<close>

fun value_WalkRefs :: "Value \<Rightarrow> Ref list" and seq_WalkRefs :: "sequence \<Rightarrow> Ref list" where
  "value_WalkRefs (Blob seq) = seq_WalkRefs seq"
| "value_WalkRefs (List seq) = seq_WalkRefs seq"
| "value_WalkRefs (Map seq) = seq_WalkRefs seq"
| "value_WalkRefs (Set seq) = seq_WalkRefs seq"
| "value_WalkRefs (RefV r) = [r]"
| "value_WalkRefs (Struct t vs) = concat (map value_WalkRefs vs)"
| "value_WalkRefs v = []"
| "seq_WalkRefs (blobLeafSequence dat) = []"
| "seq_WalkRefs (listLeafSequence t vs) = concat (map value_WalkRefs vs)"
| "seq_WalkRefs (setLeafSequence t vs) = concat (map value_WalkRefs vs)"
| "seq_WalkRefs (mapLeafSequence t es) = concat (map (\<lambda>e. value_WalkRefs (fst e) @ value_WalkRefs (snd e)) es)"
| "seq_WalkRefs (metaSequence tuples t) = map mt_ref tuples"

definition maxChunkHeight :: "Value \<Rightarrow> uint64" where
  "maxChunkHeight v = foldl (\<lambda>m r. if ref_height r > m then ref_height r else m) 0 (value_WalkRefs v)"

definition NewRef :: "hash_fn \<Rightarrow> Value \<Rightarrow> (Ref, TypeCache) st" where
  "NewRef H v tc =
     rbind (MakeRefType (value_Type v) tc) (\<lambda>(t, tc).
       Inr (\<lparr>ref_target = H v, ref_height = maxChunkHeight v + 1, ref_t = t\<rparr>, tc))"

definition constructRef :: "TypeCache \<Rightarrow> tptr \<Rightarrow> hash \<Rightarrow> uint64 \<Rightarrow> Ref res" where
  "constructRef tc t target height =
     rbind (ty_at tc t) (\<lambda>ty.
       chk (desc_Kind (ty_Desc ty) = RefKind)
         (case ty_Desc ty of
            CompoundDesc _ elemTypes \<Rightarrow>
              rbind (nth_res elemTypes 0) (\<lambda>e.
                chk (e \<noteq> ValueType) (Inr \<lparr>ref_target = target, ref_height = height, ref_t = t\<rparr>))
          | _ \<Rightarrow> Inl (Panic ''interface conversion'')))"

subsection \<open>Ordered keys\<close>

definition emptyKey :: orderedKey where
  "emptyKey = orderedKey False None emptyHash"

definition newOrderedKey :: "hash_fn \<Rightarrow> Value \<Rightarrow> orderedKey" where
  "newOrderedKey H v =
     (if isKindOrderedByValue (value_Kind v) then orderedKey True (Some v) emptyHash
      else orderedKey False (Some v) (H v))"

definition orderedKeyFromHash :: "hash \<Rightarrow> orderedKey" where
  "orderedKeyFromHash h = orderedKey False None h"

definition orderedKeyFromInt :: "hash_fn \<Rightarrow> int \<Rightarrow> orderedKey" where
  "orderedKeyFromInt H n = newOrderedKey H (Number (round64 (of_int n)))"

definition orderedKeyFromUint64 :: "hash_fn \<Rightarrow> uint64 \<Rightarrow> orderedKey" where
  "orderedKeyFromUint64 H n = newOrderedKey H (Number (round64 (of_nat (unat n))))"

definition orderedKey_Less :: "hash_fn \<Rightarrow> orderedKey \<Rightarrow> orderedKey \<Rightarrow> bool res" where
  "orderedKey_Less H key mk2 =
     (if ok_isOrderedByValue key \<and> ok_isOrderedByValue mk2
      then case (ok_v key, ok_v mk2) of
             (Some v, Some w) \<Rightarrow> Inr (value_Less H v w)
           | _ \<Rightarrow> Inl NilDereference
      else if ok_isOrderedByValue key then Inr True
      else if ok_isOrderedByValue mk2 then Inr False
      else if IsEmpty (ok_h key) \<or> IsEmpty (ok_h mk2) then Inl ChkFailed
      else Inr (Less (ok_h key) (ok_h mk2)))"

text \<open>\<open>getKey\<close> of the ordered sequences.\<close>

fun getKey :: "hash_fn \<Rightarrow> sequence \<Rightarrow> int \<Rightarrow> orderedKey res" where
  "getKey H (setLeafSequence t vs) idx = rbind (nth_int vs idx) (\<lambda>v. Inr (newOrderedKey H v))"
| "getKey H (mapLeafSequence t es) idx = rbind (nth_int es idx) (\<lambda>e. Inr (newOrderedKey H (fst e)))"
| "getKey H (metaSequence tuples t) idx = rbind (nth_int tuples idx) (\<lambda>mt. Inr (mt_key mt))"
| "getKey H seq idx = Inl (Panic ''interface conversion: not an orderedSequence'')"

text \<open>\<open>getCompareFn\<close>: the type assertion on the other sequence is part of making the function.\<close>

fun getCompareFn :: "hash_fn \<Rightarrow> sequence \<Rightarrow> sequence \<Rightarrow> (int \<Rightarrow> int \<Rightarrow> bool res) res" where
  "getCompareFn H (blobLeafSequence dat) (blobLeafSequence dat') =
     Inr (\<lambda>i j. rbind (nth_int dat i) (\<lambda>x. rbind (nth_int dat' j) (\<lambda>y. Inr (x = y))))"
| "getCompareFn H (listLeafSequence t vs) (listLeafSequence t' vs') =
     Inr (\<lambda>i j. rbind (nth_int vs i) (\<lambda>x. rbind (nth_int vs' j) (\<lambda>y. Inr (value_Equals H x y))))"
| "getCompareFn H (setLeafSequence t vs) (setLeafSequence t' vs') =
     Inr (\<lambda>i j. rbind (nth_int vs i) (\<lambda>x. rbind (nth_int vs' j) (\<lambda>y. Inr (value_Equals H x y))))"
| "getCompareFn H (mapLeafSequence t es) (mapLeafSequence t' es') =
     Inr (\<lambda>i j. rbind (nth_int es i) (\<lambda>x. rbind (nth_int es' j) (\<lambda>y.
       Inr (value_Equals H (fst x) (fst y) \<and> value_Equals H (snd x) (snd y)))))"
| "getCompareFn H (metaSequence ms t) (metaSequence ms' t') =
     Inr (\<lambda>i j. rbind (nth_int ms i) (\<lambda>x. rbind (nth_int ms' j) (\<lambda>y.
       Inr (ref_target (mt_ref x) = ref_target (mt_ref y)))))"
| "getCompareFn H seq other = Inl (Panic ''interface conversion'')"

subsection \<open>Making leaf and meta sequences\<close>

definition newListLeafSequence :: "nat \<Rightarrow> Value list \<Rightarrow> (sequence, TypeCache) st" where
  "newListLeafSequence n vs =
     sbind (MakeUnionType n (map value_Type vs)) (\<lambda>u. sbind (MakeListType u) (\<lambda>t. sreturn (listLeafSequence t vs)))"

definition newSetLeafSequence :: "nat \<Rightarrow> Value list \<Rightarrow> (sequence, TypeCache) st" where
  "newSetLeafSequence n vs =
     sbind (MakeUnionType n (map value_Type vs)) (\<lambda>u. sbind (MakeSetType u) (\<lambda>t. sreturn (setLeafSequence t vs)))"

definition newMapLeafSequence :: "nat \<Rightarrow> (Value \<times> Value) list \<Rightarrow> (sequence, TypeCache) st" where
  "newMapLeafSequence n es =
     sbind (MakeUnionType n (map (value_Type \<circ> fst) es)) (\<lambda>kt. sbind (MakeUnionType n (map (value_Type \<circ> snd) es)) (\<lambda>vt.
     sbind (MakeMapType kt vt) (\<lambda>t. sreturn (mapLeafSequence t es))))"

definition newBlobMetaSequence :: "metaTuple list \<Rightarrow> sequence" where
  "newBlobMetaSequence tuples = metaSequence tuples BlobType"

text \<open>\<open>mt.ref.Type().Desc.(CompoundDesc).ElemTypes[0].Desc.(CompoundDesc).ElemTypes\<close>\<close>

definition elem_types :: "TypeCache \<Rightarrow> tptr \<Rightarrow> tptr list res" where
  "elem_types tc t =
     rbind (ty_at tc t) (\<lambda>ty. case ty_Desc ty of CompoundDesc _ ts \<Rightarrow> Inr ts | _ \<Rightarrow> Inl (Panic ''interface conversion''))"

definition tuple_elem_types :: "TypeCache \<Rightarrow> metaTuple \<Rightarrow> tptr list res" where
  "tuple_elem_types tc mt =
     rbind (elem_types tc (ref_t (mt_ref mt))) (\<lambda>ts. rbind (nth_res ts 0) (elem_types tc))"

definition tuple_elem_type :: "nat \<Rightarrow> TypeCache \<Rightarrow> metaTuple \<Rightarrow> tptr res" where
  "tuple_elem_type i tc mt = rbind (tuple_elem_types tc mt) (\<lambda>ts. nth_res ts i)"

definition newListMetaSequence :: "nat \<Rightarrow> metaTuple list \<Rightarrow> (sequence, TypeCache) st" where
  "newListMetaSequence n tuples tc =
     rbind (mapM_res (tuple_elem_type 0 tc) tuples) (\<lambda>ts.
       sbind (MakeUnionType n ts) (\<lambda>u. sbind (MakeListType u) (\<lambda>t. sreturn (metaSequence tuples t))) tc)"

definition newSetMetaSequence :: "nat \<Rightarrow> metaTuple list \<Rightarrow> (sequence, TypeCache) st" where
  "newSetMetaSequence n tuples tc =
     rbind (mapM_res (tuple_elem_type 0 tc) tuples) (\<lambda>ts.
       sbind (MakeUnionType n ts) (\<lambda>u. sbind (MakeSetType u) (\<lambda>t. sreturn (metaSequence tuples t))) tc)"

definition newMapMetaSequence :: "nat \<Rightarrow> metaTuple list \<Rightarrow> (sequence, TypeCache) st" where
  "newMapMetaSequence n tuples tc =
     rbind (mapM_res (tuple_elem_type 0 tc) tuples) (\<lambda>kts. rbind (mapM_res (tuple_elem_type 1 tc) tuples) (\<lambda>vts.
       sbind (MakeUnionType n kts) (\<lambda>ku. sbind (MakeUnionType n vts) (\<lambda>vu.
         sbind (MakeMapType ku vu) (\<lambda>t. sreturn (metaSequence tuples t)))) tc))"

definition orderedKeyFromSum :: "hash_fn \<Rightarrow> metaTuple list \<Rightarrow> orderedKey" where
  "orderedKeyFromSum H msd = orderedKeyFromUint64 H (foldl (\<lambda>s mt. s + mt_numLeaves mt) 0 msd)"

subsection \<open>The order of values\<close>

lemma fl_less_irrefl: "\<not> fl_less f f"
  by (cases f) auto

lemma fl_less_trans: "fl_less f g \<Longrightarrow> fl_less g h \<Longrightarrow> fl_less f h"
  by (cases f; cases g; cases h) auto

lemma fl_trichotomy: "f \<noteq> NaN \<Longrightarrow> g \<noteq> NaN \<Longrightarrow> fl_less f g \<longleftrightarrow> \<not> fl_less g f \<and> \<not> fl_eq f g"
  by (cases f; cases g) auto

text \<open>The rank of a kind in the order: booleans, numbers, strings, everything else.\<close>

fun kind_rank :: "NomsKind \<Rightarrow> nat" where
  "kind_rank BoolKind = 0"
| "kind_rank NumberKind = 1"
| "kind_rank StringKind = 2"
| "kind_rank _ = 3"

lemma value_Less_rank:
  "value_Less H v w \<longleftrightarrow>
     kind_rank (value_Kind v) < kind_rank (value_Kind w)
     \<or> (case (v, w) of
          (Bool b, Bool c) \<Rightarrow> b < c
        | (Number f, Number g) \<Rightarrow> fl_less f g
        | (String s, String s') \<Rightarrow> s < s'
        | _ \<Rightarrow> kind_rank (value_Kind v) = 3 \<and> kind_rank (value_Kind w) = 3 \<and> H v < H w)"
  by (cases v; cases w) (auto simp: valueLess_def)

lemma value_Less_irrefl: "\<not> value_Less H v v"
  by (cases v) (auto simp: value_Less_rank fl_less_irrefl)

lemma value_Less_trans: "value_Less H u v \<Longrightarrow> value_Less H v w \<Longrightarrow> value_Less H u w"
  by (cases u; cases v; cases w) (auto simp: value_Less_rank intro: fl_less_trans)

text \<open>
  C32. \<open>Less\<close> orders values the way \<open>value.go\<close> documents: booleans before numbers before strings before
  everything else, the first three by their own order and the rest by hash. It is transitive, and of two
  values (other than NaN) exactly one of \<open>u < v\<close>, \<open>v < u\<close> and \<open>u\<close> equals \<open>v\<close> holds, if hashes of values of
  different kinds differ. So sorted sequences of values have no duplicates beyond those \<open>Equals\<close> finds.
\<close>

theorem value_order_total:
  assumes "\<And>a b. H a = H b \<Longrightarrow> value_Kind a = value_Kind b" "u \<noteq> Number NaN" "v \<noteq> Number NaN"
  shows "(value_Less H u v \<and> value_Less H v w \<longrightarrow> value_Less H u w)
    \<and> (value_Less H u v \<longleftrightarrow> \<not> value_Less H v u \<and> \<not> value_Equals H u v)
    \<and> (kind_rank (value_Kind u) < kind_rank (value_Kind v) \<longrightarrow> value_Less H u v)"
proof -
  have ne: "H u \<noteq> H v" if "value_Kind u \<noteq> value_Kind v" using assms(1) that by blast
  have "value_Less H u v \<longleftrightarrow> \<not> value_Less H v u \<and> \<not> value_Equals H u v"
  proof (cases "\<exists>f g. u = Number f \<and> v = Number g")
    case True
    then obtain f g where "u = Number f" "v = Number g" by blast
    then show ?thesis using fl_trichotomy [of f g] assms(2,3) by simp
  next
    case False
    then show ?thesis using ne by (cases u; cases v) (auto simp: valueLess_def)
  qed
  then show ?thesis using value_Less_trans by (auto simp: value_Less_rank)
qed

theorem value_order_total_witness:
  "(value_Less (\<lambda>v. copy_hash [kind_code (value_Kind v)]) (Bool True) (Number (Fin 1)) \<longleftrightarrow>
     \<not> value_Less (\<lambda>v. copy_hash [kind_code (value_Kind v)]) (Number (Fin 1)) (Bool True)
     \<and> \<not> value_Equals (\<lambda>v. copy_hash [kind_code (value_Kind v)]) (Bool True) (Number (Fin 1)))
   \<and> value_Less (\<lambda>v. copy_hash [kind_code (value_Kind v)]) (Bool True) (Number (Fin 1))"
proof -
  have inj: "a = b" if "copy_hash [kind_code a] = copy_hash [kind_code b]" for a b
  proof -
    have "hash_bytes (copy_hash [kind_code a]) ! 0 = hash_bytes (copy_hash [kind_code b]) ! 0" using that by simp
    then have "kind_code a = kind_code b" by (simp add: copy_hash_def Abs_hash_inverse)
    then show ?thesis by (cases a; cases b) simp_all
  qed
  show ?thesis using value_order_total [of "\<lambda>v. copy_hash [kind_code (value_Kind v)]" "Bool True" "Number (Fin 1)", OF inj] by auto
qed

end
