(* ===== verification/TypeCodec.thy ===== *)
theory TypeCodec
  imports NomsTypes
begin

text \<open>
  What the encoding of types guarantees. A type expression is what the encoding of a type shows: its
  tree, with the cycles cut by back references. Writing follows the pointers of a type
  (\<open>shape\<close>), reading looks the parts up in the cache (\<open>found\<close>).
\<close>

subsection \<open>Type expressions\<close>

datatype texpr =
  EPrim NomsKind
| ECompound NomsKind "texpr list"
| EStruct bytes "(bytes \<times> texpr) list"
| ECycle uint32

definition str_bytes :: "bytes \<Rightarrow> bytes" where
  "str_bytes s = bytes32 (of_nat (length s)) @ s"

fun tbytes :: "texpr \<Rightarrow> bytes" where
  "tbytes (EPrim k) = [kind_code k]"
| "tbytes (ECycle i) = kind_code CycleKind # bytes32 i"
| "tbytes (ECompound k es) =
     kind_code k # (if k = UnionKind then bytes32 (of_nat (length es)) else []) @ concat (map tbytes es)"
| "tbytes (EStruct name fs) =
     kind_code StructKind # str_bytes name @ bytes32 (of_nat (length fs))
       @ concat (map (\<lambda>f. str_bytes (fst f) @ tbytes (snd f)) fs)"

lemma length_bytes32 [simp]: "length (bytes32 v) = 4"
  by (simp add: bytes32_def)

lemma length_bytes64 [simp]: "length (bytes64 v) = 8"
  by (simp add: bytes64_def)

lemma tbytes_pos [simp]: "0 < length (tbytes e)"
  by (cases e rule: tbytes.cases) simp_all

lemma tbytes_neq_Nil [simp]: "tbytes e \<noteq> []"
  using tbytes_pos [of e] by simp

lemma length_concat_member: "x \<in> set xs \<Longrightarrow> length (f x) \<le> length (concat (map f xs))"
  by (induction xs) auto

lemma tbytes_elem: "e \<in> set es \<Longrightarrow> length (tbytes e) < length (tbytes (ECompound k es))"
  using length_concat_member [of e es tbytes] by simp

lemma tbytes_field: "f \<in> set fs \<Longrightarrow> length (tbytes (snd f)) < length (tbytes (EStruct name fs))"
  using length_concat_member [of f fs "\<lambda>f. str_bytes (fst f) @ tbytes (snd f)"] by simp

lemma length_le_concat: "(\<And>x. x \<in> set xs \<Longrightarrow> 0 < length (f x)) \<Longrightarrow> length xs \<le> length (concat (map f xs))"
proof (induction xs)
  case (Cons x xs)
  then have "0 < length (f x)" "length xs \<le> length (concat (map f xs))" by auto
  then show ?case by (simp del: length_greater_0_conv)
qed simp

subsection \<open>Writing\<close>

definition container :: "NomsKind \<Rightarrow> nat \<Rightarrow> bool" where
  "container k n \<longleftrightarrow> (k = ListKind \<or> k = RefKind \<or> k = SetKind) \<and> n = 1 \<or> k = MapKind \<and> n = 2 \<or> k = UnionKind"

inductive shape :: "TypeCache \<Rightarrow> tptr list \<Rightarrow> tptr \<Rightarrow> texpr \<Rightarrow> bool" for tc where
  prim: "t < length (tc_types tc) \<Longrightarrow> ty_Desc (tc_types tc ! t) = PrimitiveDesc k \<Longrightarrow> IsPrimitiveKind k \<Longrightarrow>
    shape tc ps t (EPrim k)"
| cycle: "t < length (tc_types tc) \<Longrightarrow> ty_Desc (tc_types tc ! t) = CycleDesc i \<Longrightarrow> shape tc ps t (ECycle i)"
| compound: "t < length (tc_types tc) \<Longrightarrow> ty_Desc (tc_types tc ! t) = CompoundDesc k ts \<Longrightarrow> container k (length ts) \<Longrightarrow>
    list_all2 (shape tc ps) ts es \<Longrightarrow> shape tc ps t (ECompound k es)"
| struct: "t < length (tc_types tc) \<Longrightarrow> ty_Desc (tc_types tc ! t) = StructDesc name fs \<Longrightarrow> indexOfType t ps = None \<Longrightarrow>
    list_all2 (\<lambda>f e. fst f = fst e \<and> shape tc (ps @ [t]) (snd f) (snd e)) fs es \<Longrightarrow> shape tc ps t (EStruct name es)"
| back_ref: "t < length (tc_types tc) \<Longrightarrow> ty_Desc (tc_types tc ! t) = StructDesc name fs \<Longrightarrow> indexOfType t ps = Some i \<Longrightarrow>
    shape tc ps t (ECycle (back_level ps i))"

lemma ty_at_ok [simp]: "t < length (tc_types tc) \<Longrightarrow> ty_at tc t = Inr (tc_types tc ! t)"
  by (simp add: ty_at_def)

lemma appends_foldM_rel:
  assumes "list_all2 (\<lambda>x y. appends (\<lambda>w. f w x) (g y)) xs ys"
  shows "appends (\<lambda>w. foldM_res f w xs) (concat (map g ys))"
  using assms
proof (induction rule: list_all2_induct)
  case Nil
  then show ?case using appends_Inr by simp
next
  case (Cons x xs y ys)
  then show ?case using appends_rbind [of "\<lambda>w. f w x" "g y" "\<lambda>w. foldM_res f w xs"] by simp
qed

lemma appends_writeKind [appends_intros]: "appends (writeKind k) [kind_code k]"
  by (simp add: writeKind_def [abs_def] appends_writeUint8)

lemma appends_writeString [appends_intros]: "appends (writeString s) (str_bytes s)"
  unfolding str_bytes_def by (rule appends_writeBytes)

lemma appends_writeCycle [appends_intros]: "appends (writeCycle i) (kind_code CycleKind # bytes32 i)"
  using appends_rbind [OF appends_writeKind appends_writeUint32, of CycleKind i] by (simp add: writeCycle_def [abs_def])

lemma writeType_appends:
  "shape tc ps t e \<Longrightarrow> length (tbytes e) \<le> n \<Longrightarrow> appends (writeType n tc ps t) (tbytes e)"
proof (induction ps t e arbitrary: n rule: shape.induct)
  case (prim t k ps)
  then obtain m where n: "n = Suc m" by (cases n) auto
  show ?case using prim(1-3) appends_rbind [OF appends_writeKind [of k] appends_Inr] by (simp add: n)
next
  case (cycle t i ps)
  then obtain m where n: "n = Suc m" by (cases n) auto
  show ?case using cycle(1,2) appends_writeCycle by (simp add: n)
next
  case (back_ref t name fs ps i)
  then obtain m where n: "n = Suc m" by (cases n) auto
  show ?case using back_ref(1-3) appends_writeCycle by (simp add: n writeStructType_def)
next
  case (compound t k ts ps es)
  then obtain m where n: "n = Suc m" using tbytes_pos [of "ECompound k es"] by (cases n) (auto simp del: tbytes_pos)
  have "list_all2 (\<lambda>t e. appends (\<lambda>w. writeType m tc ps t w) (tbytes e)) ts es"
  proof (rule list_all2_all_nthI)
    show "length ts = length es" using compound(4) by (rule list_all2_lengthD)
    fix i assume i: "i < length ts"
    then have "es ! i \<in> set es" using \<open>length ts = length es\<close> by simp
    then have "length (tbytes (es ! i)) \<le> m" using tbytes_elem [of "es ! i" es k] compound(5) n by simp
    then show "appends (writeType m tc ps (ts ! i)) (tbytes (es ! i))"
      using list_all2_nthD [OF compound(4) i] by blast
  qed
  note elems = appends_foldM_rel [OF this]
  have len: "length ts = length es" using compound(4) by (rule list_all2_lengthD)
  show ?case
  proof (cases "k = UnionKind")
    case True
    then show ?thesis
      using compound(1,2) len appends_rbind [OF appends_writeKind [of k] appends_rbind [OF appends_writeUint32 elems]]
      by (simp add: n)
  next
    case False
    then have "k \<in> {ListKind, MapKind, RefKind, SetKind}" using compound(3) by (auto simp: container_def)
    then show ?thesis
      using compound(1,2) False appends_rbind [OF appends_writeKind [of k] elems] by (simp add: n)
  qed
next
  case (struct t name fs ps es)
  then obtain m where n: "n = Suc m" by (cases n) auto
  have len: "length fs = length es" using struct(4) by (rule list_all2_lengthD)
  have "list_all2 (\<lambda>f e. appends (\<lambda>w. rbind (writeString (fst f) w) (writeType m tc (ps @ [t]) (snd f)))
      (str_bytes (fst e) @ tbytes (snd e))) fs es"
  proof (rule list_all2_all_nthI [OF len])
    fix i assume i: "i < length fs"
    then have "es ! i \<in> set es" using len by simp
    then have "length (tbytes (snd (es ! i))) \<le> m" using tbytes_field [of "es ! i" es name] struct(5) n by simp
    then show "appends (\<lambda>w. rbind (writeString (fst (fs ! i)) w) (writeType m tc (ps @ [t]) (snd (fs ! i))))
        (str_bytes (fst (es ! i)) @ tbytes (snd (es ! i)))"
      using list_all2_nthD [OF struct(4) i] by (metis appends_rbind appends_writeString)
  qed
  note elems = appends_foldM_rel [OF this]
  show ?case
    using struct(1-3) len
      appends_rbind [OF appends_writeKind [of StructKind] appends_rbind [OF appends_writeString [of name]
        appends_rbind [OF appends_writeUint32 elems]]]
    by (simp add: n writeStructType_def)
qed

subsection \<open>Reading\<close>

definition vd_skip :: "nat \<Rightarrow> valueDecoder \<Rightarrow> valueDecoder" where
  "vd_skip n r = r\<lparr>vd_reader := rd_skip (of_nat n) (vd_reader r)\<rparr>"

text \<open>
  \<open>decodes tc f bs v\<close>: with the cache \<open>tc\<close>, a decoder that does not validate reads \<open>v\<close> from \<open>bs\<close> and
  leaves the cache as it is.
\<close>

definition decodes :: "TypeCache \<Rightarrow> ('a, valueDecoder) st \<Rightarrow> bytes \<Rightarrow> 'a \<Rightarrow> bool" where
  "decodes tc f bs v \<longleftrightarrow>
     (\<forall>r xs. vd_tc r = tc \<longrightarrow> \<not> vd_validating r \<longrightarrow> rd_ok (vd_reader r) \<longrightarrow> rest_of (vd_reader r) = bs @ xs \<longrightarrow>
        f r = Inr (v, vd_skip (length bs) r))"

lemma vd_skip_simps [simp]:
  "vd_tc (vd_skip n r) = vd_tc r" "vd_validating (vd_skip n r) = vd_validating r"
  "vd_typeDepth (vd_skip n r) = vd_typeDepth r"
  "vd_reader (vd_skip n r) = rd_skip (of_nat n) (vd_reader r)"
  "vd_skip m (vd_skip n r) = vd_skip (n + m) r" "vd_skip 0 r = r"
  by (simp_all add: vd_skip_def rd_skip_def)

lemma decodesI:
  assumes "\<And>r xs. vd_tc r = tc \<Longrightarrow> \<not> vd_validating r \<Longrightarrow> rd_ok (vd_reader r) \<Longrightarrow> rest_of (vd_reader r) = bs @ xs \<Longrightarrow>
    f r = Inr (v, vd_skip (length bs) r)"
  shows "decodes tc f bs v"
  using assms by (simp add: decodes_def)

lemma decodesD:
  assumes "decodes tc f bs v" "vd_tc r = tc" "\<not> vd_validating r" "rd_ok (vd_reader r)" "rest_of (vd_reader r) = bs @ xs"
  shows "f r = Inr (v, vd_skip (length bs) r)"
  using assms by (auto simp: decodes_def)

lemma decodes_small: "(length bs < 2 ^ 32 \<Longrightarrow> decodes tc f bs v) \<Longrightarrow> decodes tc f bs v"
  by (cases "length bs < 2 ^ 32") (auto simp: decodes_def dest: rest_of_split(2))

lemma decodes_sreturn: "decodes tc (sreturn v) [] v"
  by (simp add: decodes_def sreturn_def)

lemma decodes_sbind:
  assumes "decodes tc f bs v" "decodes tc (g v) cs u"
  shows "decodes tc (sbind f g) (bs @ cs) u"
proof (rule decodesI)
  fix r :: valueDecoder and xs assume r: "vd_tc r = tc" "\<not> vd_validating r" "rd_ok (vd_reader r)" "rest_of (vd_reader r) = (bs @ cs) @ xs"
  have rest: "rest_of (vd_reader r) = bs @ (cs @ xs)" using r(4) by simp
  have f: "f r = Inr (v, vd_skip (length bs) r)" by (rule decodesD [OF assms(1) r(1-3) rest])
  have "g v (vd_skip (length bs) r) = Inr (u, vd_skip (length cs) (vd_skip (length bs) r))"
    using decodesD [OF assms(2), of "vd_skip (length bs) r" xs] r(1,2) rd_skip_ok [OF r(3) rest] by simp
  then show "sbind f g r = Inr (u, vd_skip (length (bs @ cs)) r)" by (simp add: sbind_def f)
qed

lemma decodes_seq: "decodes tc f bs v \<Longrightarrow> decodes tc (g v) cs u \<Longrightarrow> xs = bs @ cs \<Longrightarrow> decodes tc (sbind f g) xs u"
  by (auto intro: decodes_sbind)

lemma decodes_then: "decodes tc f bs v \<Longrightarrow> g v = sreturn u \<Longrightarrow> decodes tc (sbind f g) bs u"
  using decodes_sbind [of tc f bs v g "[]" u] decodes_sreturn [of tc u] by simp

lemma decodes_rd: "consumes f bs v \<Longrightarrow> decodes tc (rd f) bs v"
proof (rule decodesI)
  fix r :: valueDecoder and xs assume "consumes f bs v" "rd_ok (vd_reader r)" "rest_of (vd_reader r) = bs @ xs"
  from consumesD [OF this] show "rd f r = Inr (v, vd_skip (length bs) r)" by (simp add: rd_def vd_skip_def)
qed

lemma decodes_on_tc: "f tc = Inr (v, tc) \<Longrightarrow> decodes tc (on_tc f) [] v"
  by (auto simp: decodes_def on_tc_def)

lemma decodes_times:
  assumes "list_all2 (\<lambda>b v. decodes tc f b v) bss vs"
  shows "decodes tc (times_st (length vs) f) (concat bss) vs"
  using assms
proof (induction rule: list_all2_induct)
  case Nil
  show ?case by (simp add: decodes_sreturn)
next
  case (Cons b bss v vs)
  show ?case
    using decodes_sbind [OF Cons(1) decodes_then [OF Cons(3)], of "\<lambda>y. \<lambda>ys. sreturn (y # ys)"] by simp
qed

lemma kind_of_code [simp]: "kind_of (kind_code k) = Some k"
  by (cases k) (simp_all add: kind_of_def all_kinds_def)

lemma decodes_readKind: "decodes tc readKind [kind_code k] (Some k)"
  unfolding readKind_def by (rule decodes_then [OF decodes_rd [OF consumes_readUint8]]) simp

text \<open>Walking along a path that is there does not change the trie.\<close>

lemma trie_update_id: "trie_node path n = Some m \<Longrightarrow> f m = m \<Longrightarrow> trie_update path f n = n"
  by (induction path arbitrary: n) (auto split: option.splits simp: fun_upd_idem)

lemma trie_node_append:
  "trie_node (p @ q) n = (case trie_node p n of None \<Rightarrow> None | Some m \<Rightarrow> trie_node q m)"
  by (induction p arbitrary: n) (auto split: option.splits)

lemma tc_Traverse_there:
  assumes "node_t tc (k, path @ i # q) \<noteq> None"
  shows "tc_Traverse (k, path) i tc = ((k, path @ [i]), tc)"
proof -
  obtain m where m: "trie_node path (tc_trieRoots tc k) = Some m" "trie_entries m i \<noteq> None"
    using assms by (auto simp: node_t_def trie_node_append split: option.splits)
  then have "trie_update path (Traverse i) (tc_trieRoots tc k) = tc_trieRoots tc k"
    by (intro trie_update_id [OF m(1)]) (auto simp: Traverse_def)
  then show ?thesis by (simp add: tc_Traverse_def)
qed

definition id_at :: "TypeCache \<Rightarrow> tptr \<Rightarrow> uint32" where
  "id_at tc t = ty_id (tc_types tc ! t)"

lemma elems_Traverse_there:
  assumes "list_all (\<lambda>t. t < length (tc_types tc)) ts" "node_t tc (k, path @ map (id_at tc) ts) \<noteq> None"
  shows "foldM_res (\<lambda>(trie, tc) t. rbind (ty_at tc t) (\<lambda>ty. Inr (tc_Traverse trie (ty_id ty) tc))) ((k, path), tc) ts
    = Inr ((k, path @ map (id_at tc) ts), tc)"
  using assms
proof (induction ts arbitrary: path)
  case (Cons t ts)
  have "tc_Traverse (k, path) (id_at tc t) tc = ((k, path @ [id_at tc t]), tc)"
    using Cons.prems(2) by (intro tc_Traverse_there) simp
  then show ?case using Cons.IH [of "path @ [id_at tc t]"] Cons.prems by (simp add: id_at_def)
qed simp

lemma getCompoundType_there:
  assumes "list_all (\<lambda>t. t < length (tc_types tc)) ts" "node_t tc (k, map (id_at tc) ts) = Some t"
  shows "getCompoundType k ts tc = Inr (t, tc)"
  using elems_Traverse_there [of tc ts k "[]"] assms by (simp add: getCompoundType_def)

lemma getCycleType_there: "node_t tc (CycleKind, [i]) = Some t \<Longrightarrow> getCycleType i tc = Inr (t, tc)"
  using tc_Traverse_there [of tc CycleKind "[]" i "[]"] by (simp add: getCycleType_def)

text \<open>
  What reading finds: the expression is looked up part by part in the identifier table and the tries.
\<close>

definition ident_at :: "TypeCache \<Rightarrow> bytes \<Rightarrow> uint32" where
  "ident_at tc s = the (it_entries (tc_identTable tc) s)"

definition known_ident :: "TypeCache \<Rightarrow> bytes \<Rightarrow> bool" where
  "known_ident tc s \<longleftrightarrow> it_entries (tc_identTable tc) s \<noteq> None"

definition fields_path :: "TypeCache \<Rightarrow> (bytes \<times> tptr) list \<Rightarrow> uint32 list" where
  "fields_path tc fs = concat (map (\<lambda>f. [ident_at tc (fst f), id_at tc (snd f)]) fs)"

definition struct_path :: "TypeCache \<Rightarrow> bytes \<Rightarrow> (bytes \<times> tptr) list \<Rightarrow> uint32 list" where
  "struct_path tc name fs = ident_at tc name # fields_path tc fs"

inductive found :: "TypeCache \<Rightarrow> texpr \<Rightarrow> tptr \<Rightarrow> bool" for tc where
  fprim: "IsPrimitiveKind k \<Longrightarrow> MakePrimitiveType k = Inr t \<Longrightarrow> t < length (tc_types tc) \<Longrightarrow> found tc (EPrim k) t"
| fcycle: "node_t tc (CycleKind, [i]) = Some t \<Longrightarrow> t < length (tc_types tc) \<Longrightarrow> found tc (ECycle i) t"
| fcompound: "container k (length ts) \<Longrightarrow> list_all2 (found tc) es ts \<Longrightarrow>
    node_t tc (k, map (id_at tc) ts) = Some t \<Longrightarrow> t < length (tc_types tc) \<Longrightarrow> found tc (ECompound k es) t"
| fstruct: "list_all2 (\<lambda>e f. fst e = fst f \<and> found tc (snd e) (snd f)) es fs \<Longrightarrow>
    known_ident tc name \<Longrightarrow> list_all (\<lambda>f. known_ident tc (fst f)) fs \<Longrightarrow>
    node_t tc (StructKind, struct_path tc name fs) = Some t \<Longrightarrow> t < length (tc_types tc) \<Longrightarrow> found tc (EStruct name es) t"


lemma found_valid: "found tc e t \<Longrightarrow> t < length (tc_types tc)"
  by (cases rule: found.cases) auto

lemma tc_GetId_there: "known_ident tc s \<Longrightarrow> tc_GetId s tc = (ident_at tc s, tc)"
  by (auto simp: tc_GetId_def GetId_def known_ident_def ident_at_def)

lemma decodes_readIdent: "known_ident tc s \<Longrightarrow> decodes tc readIdent (str_bytes s) (ident_at tc s)"
  using decodes_sbind [OF decodes_rd [OF consumes_readBytes(2)] decodes_on_tc, of "\<lambda>i tc. Inr (tc_GetId i tc)" s tc]
  by (simp add: readIdent_def str_bytes_def tc_GetId_there)

lemma decodes_traverse:
  "node_t tc (k, path @ i # q) \<noteq> None \<Longrightarrow> decodes tc (traverse (k, path) i) [] (k, path @ [i])"
  unfolding traverse_def by (rule decodes_on_tc) (simp add: tc_Traverse_there)

lemma decodes_type_id: "t < length (tc_types tc) \<Longrightarrow> decodes tc (type_id t) [] (id_at tc t)"
  unfolding type_id_def by (rule decodes_on_tc) (simp add: id_at_def)

lemma decodes_cached_fields:
  assumes "list_all2 (\<lambda>b f. decodes tc rdt b (snd f) \<and> known_ident tc (fst f) \<and> snd f < length (tc_types tc)) bss fs"
    and "node_t tc (k, path @ fields_path tc fs) \<noteq> None"
  shows "decodes tc (cached_fields (length fs) rdt (k, path)) (concat (map2 (\<lambda>b f. str_bytes (fst f) @ b) bss fs))
    (k, path @ fields_path tc fs)"
  using assms
proof (induction bss fs arbitrary: path rule: list_all2_induct)
  case Nil
  then show ?case by (simp add: decodes_sreturn fields_path_def)
next
  case (Cons b bss f fs)
  let ?i = "ident_at tc (fst f)" and ?j = "id_at tc (snd f)"
  have there: "node_t tc (k, path @ ?i # ?j # fields_path tc fs) \<noteq> None" using Cons.prems by (simp add: fields_path_def)
  have 1: "decodes tc (traverse (k, path) ?i) [] (k, path @ [?i])" using there by (rule decodes_traverse)
  have 2: "decodes tc (traverse (k, path @ [?i]) ?j) [] (k, path @ [?i] @ [?j])"
    using there decodes_traverse [of tc k "path @ [?i]"] by simp
  have 3: "decodes tc (cached_fields (length fs) rdt (k, path @ [?i] @ [?j]))
      (concat (map2 (\<lambda>b f. str_bytes (fst f) @ b) bss fs)) (k, path @ fields_path tc (f # fs))"
    using Cons.IH [of "path @ [?i] @ [?j]"] there by (simp add: fields_path_def)
  have f: "known_ident tc (fst f)" "decodes tc rdt b (snd f)" "snd f < length (tc_types tc)" using Cons.hyps by auto
  show ?case
    unfolding list.size(4) add_Suc_right add_0_right cached_fields.simps
    by (rule decodes_seq [OF decodes_readIdent [OF f(1)]], rule decodes_seq [OF 1], rule decodes_seq [OF f(2)],
        rule decodes_seq [OF decodes_type_id [OF f(3)]], rule decodes_seq [OF 2], rule 3) simp_all
qed

lemma readType_Suc:
  assumes "decodes tc (readTypeInner n (readType n)) bs t"
  shows "decodes tc (readType (Suc n)) bs t"
proof (rule decodesI)
  fix r :: valueDecoder and xs
  assume r: "vd_tc r = tc" "\<not> vd_validating r" "rd_ok (vd_reader r)" "rest_of (vd_reader r) = bs @ xs"
  let ?r = "r\<lparr>vd_typeDepth := vd_typeDepth r + 1\<rparr>"
  have "readTypeInner n (readType n) ?r = Inr (t, vd_skip (length bs) ?r)"
    using decodesD [OF assms, of ?r xs] r by simp
  then show "readType (Suc n) r = Inr (t, vd_skip (length bs) r)"
    using r(2) by (simp add: sbind_def vd_skip_def)
qed

lemma list_all2_found_valid: "list_all2 (found tc) es ts \<Longrightarrow> list_all (\<lambda>t. t < length (tc_types tc)) ts"
  by (induction rule: list_all2_induct) (auto dest: found_valid)

lemma decodes_readStructType:
  assumes "decodes tc (readCachedStructType rdt) bs (Some t)"
  shows "decodes tc (readStructType n rdt) bs t"
proof (rule decodesI)
  fix r :: valueDecoder and xs
  assume "vd_tc r = tc" "\<not> vd_validating r" "rd_ok (vd_reader r)" "rest_of (vd_reader r) = bs @ xs"
  from decodesD [OF assms this] show "readStructType n rdt r = Inr (t, vd_skip (length bs) r)"
    by (simp add: readStructType_def sbind_def sreturn_def)
qed

text \<open>Reading the encoding of a type finds it in the cache, within a stack as deep as the encoding is long.\<close>

lemma readType_decodes: "found tc e t \<Longrightarrow> length (tbytes e) \<le> n \<Longrightarrow> decodes tc (readType n) (tbytes e) t"
proof (induction e t arbitrary: n rule: found.induct)
  case (fprim k t)
  then obtain m where n: "n = Suc m" by (cases n) auto
  have "(\<lambda>r. chk (IsPrimitiveKind k) (rbind (MakePrimitiveType k) (\<lambda>t. Inr (t, r)))) = sreturn t"
    using fprim by (simp add: sreturn_def fun_eq_iff)
  then have "decodes tc (readTypeInner m (readType m)) (tbytes (EPrim k)) t"
    unfolding readTypeInner_def using fprim(1)
    by (intro decodes_then [OF decodes_readKind [of tc k, folded tbytes.simps(1)]])
       (cases k; simp add: IsPrimitiveKind_def)
  then show ?case unfolding n by (rule readType_Suc)
next
  case (fcycle i t)
  then obtain m where n: "n = Suc m" by (cases n) auto
  have "decodes tc (readTypeInner m (readType m)) (tbytes (ECycle i)) t"
    unfolding readTypeInner_def
    by (rule decodes_seq [OF decodes_readKind [of tc CycleKind]], simp,
        rule decodes_seq [OF decodes_rd [OF consumes_readUint32]], rule decodes_on_tc, rule getCycleType_there [OF fcycle(1)]) simp_all
  then show ?case unfolding n by (rule readType_Suc)
next
  case (fcompound k ts es t)
  then obtain m where n: "n = Suc m" using tbytes_pos [of "ECompound k es"] by (cases n) (auto simp del: tbytes_pos)
  have len: "length es = length ts" using fcompound(4) by (rule list_all2_lengthD)
  have elem: "decodes tc (readType m) (tbytes (es ! i)) (ts ! i)" if "i < length es" for i
  proof -
    have "es ! i \<in> set es" using that by simp
    then have "length (tbytes (es ! i)) \<le> m" using tbytes_elem [of "es ! i" es k] fcompound(5) n by simp
    then show ?thesis using list_all2_nthD [OF fcompound(4) that] by blast
  qed
  have get: "getCompoundType k ts tc = Inr (t, tc)"
  proof (rule getCompoundType_there [OF _ fcompound(2)])
    show "list_all (\<lambda>t. t < length (tc_types tc)) ts"
      using fcompound(4) len by (auto simp: list_all2_conv_all_nth list_all_length dest: found_valid)
  qed
  have one: "decodes tc (sbind (readType m) (\<lambda>t. on_tc (getCompoundType k [t]))) (concat (map tbytes es)) t"
    if l1: "length ts = 1"
  proof -
    obtain e where es: "es = [e]" using len l1 by (auto simp: length_Suc_conv)
    obtain u where ts: "ts = [u]" using l1 by (auto simp: length_Suc_conv)
    have "decodes tc (readType m) (tbytes e) u" using elem [of 0] by (simp add: es ts)
    moreover have "decodes tc (on_tc (getCompoundType k [u])) [] t" by (rule decodes_on_tc) (use get ts in simp)
    ultimately show ?thesis by (rule decodes_seq) (simp add: es)
  qed
  have "decodes tc (readTypeInner m (readType m)) (tbytes (ECompound k es)) t"
  proof (cases "k = UnionKind")
    case True
    have "length bs < 2 ^ 32 \<Longrightarrow> bs = tbytes (ECompound k es) \<Longrightarrow> decodes tc (readTypeInner m (readType m)) bs t" for bs
    proof -
      assume small: "length bs < 2 ^ 32" and bs: "bs = tbytes (ECompound k es)"
      have "length es \<le> length (concat (map tbytes es))" by (rule length_le_concat) simp
      then have "length ts < 2 ^ 32" using small bs len by simp
      then have cnt: "unat (of_nat (length es) :: uint32) = length ts" using len by (simp add: unat_of_nat)
      have "list_all2 (\<lambda>b v. decodes tc (readType m) b v) (map tbytes es) ts"
        using elem len by (simp add: list_all2_conv_all_nth)
      note elems = decodes_times [OF this]
      show ?thesis
        unfolding readTypeInner_def bs
        by (rule decodes_seq [OF decodes_readKind [of tc UnionKind]], simp add: readUnionType_def,
            rule decodes_seq [OF decodes_rd [OF consumes_readUint32 [of "of_nat (length es)"]]], unfold cnt,
            rule decodes_seq [OF elems], rule decodes_on_tc, rule get [unfolded True]) (simp_all add: True)
    qed
    then show ?thesis by (blast intro: decodes_small)
  next
    case False
    then consider "k = MapKind" "length ts = 2" | "k = ListKind \<or> k = RefKind \<or> k = SetKind" "length ts = 1"
      using fcompound(1) by (auto simp: container_def)
    then show ?thesis
    proof cases
      case 1
      obtain e1 e2 where es: "es = [e1, e2]" using 1 len by (auto simp: length_Suc_conv numeral_2_eq_2)
      obtain t1 t2 where ts: "ts = [t1, t2]" using 1 by (auto simp: length_Suc_conv numeral_2_eq_2)
      have d: "decodes tc (readType m) (tbytes e1) t1" "decodes tc (readType m) (tbytes e2) t2"
        using elem [of 0] elem [of 1] by (simp_all add: es ts)
      show ?thesis
        unfolding readTypeInner_def
        by (rule decodes_seq [OF decodes_readKind [of tc MapKind]], simp, rule decodes_seq [OF d(1)],
            rule decodes_seq [OF d(2)], rule decodes_on_tc, rule get [unfolded 1 ts]) (simp_all add: 1 es)
    next
      case 2
      have "decodes tc (readTypeInner m (readType m)) ([kind_code k] @ concat (map tbytes es)) t"
        unfolding readTypeInner_def
        by (rule decodes_sbind [OF decodes_readKind [of tc k]]) (use 2(1) one [OF 2(2)] in auto)
      then show ?thesis using False by simp
    qed
  qed
  then show ?case unfolding n by (rule readType_Suc)
next
  case (fstruct es fs name t)
  then obtain m where n: "n = Suc m" by (cases n) auto
  have len: "length es = length fs" using fstruct(1) by (rule list_all2_lengthD)
  have elem: "decodes tc (readType m) (tbytes (snd (es ! i))) (snd (fs ! i)) \<and> fst (es ! i) = fst (fs ! i)
      \<and> snd (fs ! i) < length (tc_types tc)" if "i < length es" for i
  proof -
    have "es ! i \<in> set es" using that by simp
    then have "length (tbytes (snd (es ! i))) \<le> m" using tbytes_field [of "es ! i" es name] fstruct(6) n by simp
    then show ?thesis using list_all2_nthD [OF fstruct(1) that] by (blast dest: found_valid)
  qed
  have "length bs < 2 ^ 32 \<Longrightarrow> bs = tbytes (EStruct name es) \<Longrightarrow> decodes tc (readTypeInner m (readType m)) bs t" for bs
  proof -
    assume small: "length bs < 2 ^ 32" and bs: "bs = tbytes (EStruct name es)"
    have "length es \<le> length (concat (map (\<lambda>f. str_bytes (fst f) @ tbytes (snd f)) es))" by (rule length_le_concat) simp
    then have "length fs < 2 ^ 32" using small bs len by simp
    then have cnt: "unat (of_nat (length es) :: uint32) = length fs" using len by (simp add: unat_of_nat)
    have "list_all2 (\<lambda>b f. decodes tc (readType m) b (snd f) \<and> known_ident tc (fst f) \<and> snd f < length (tc_types tc))
        (map (\<lambda>e. tbytes (snd e)) es) fs"
      using elem len fstruct(3) by (auto simp: list_all2_conv_all_nth list_all_length)
    note fields = decodes_cached_fields [OF this, of StructKind "[ident_at tc name]"]
    have bytes: "map2 (\<lambda>b f. str_bytes (fst f) @ b) (map (\<lambda>e. tbytes (snd e)) es) fs
        = map (\<lambda>f. str_bytes (fst f) @ tbytes (snd f)) es"
      by (rule nth_equalityI) (use elem len in simp_all)
    have there: "node_t tc (StructKind, [] @ ident_at tc name # fields_path tc fs) = Some t"
      "node_t tc (StructKind, [ident_at tc name] @ fields_path tc fs) = Some t"
      using fstruct(4) by (simp_all add: struct_path_def)
    have "decodes tc (readCachedStructType (readType m)) (str_bytes name @ bytes32 (of_nat (length es))
        @ concat (map (\<lambda>f. str_bytes (fst f) @ tbytes (snd f)) es)) (Some t)"
      unfolding readCachedStructType_def
      by (rule decodes_seq [OF decodes_readIdent [OF fstruct(2)]],
          rule decodes_seq [OF decodes_traverse [of tc StructKind "[]" "ident_at tc name" "fields_path tc fs"]],
          simp only: there, simp,
          rule decodes_seq [OF decodes_rd [OF consumes_readUint32 [of "of_nat (length es)"]]], unfold cnt append_Nil,
          rule decodes_seq [OF fields], simp only: there, simp, rule decodes_on_tc, simp only: there)
         (simp_all add: bytes)
    from decodes_readStructType [OF this]
    show ?thesis
      unfolding readTypeInner_def bs
      by (intro decodes_seq [OF decodes_readKind [of tc StructKind]]) simp_all
  qed
  then have "decodes tc (readTypeInner m (readType m)) (tbytes (EStruct name es)) t" by (blast intro: decodes_small)
  then show ?case unfolding n by (rule readType_Suc)
qed

subsection \<open>Caches grow\<close>

text \<open>A later state of the cache has all types, identifiers and trie entries of the earlier one.\<close>

definition grown :: "TypeCache \<Rightarrow> TypeCache \<Rightarrow> bool" where
  "grown tc tc' \<longleftrightarrow>
     length (tc_types tc) \<le> length (tc_types tc')
     \<and> (\<forall>t < length (tc_types tc). ty_Desc (tc_types tc' ! t) = ty_Desc (tc_types tc ! t) \<and> id_at tc' t = id_at tc t)
     \<and> (\<forall>k q t. node_t tc (k, q) = Some t \<longrightarrow> node_t tc' (k, q) = Some t)
     \<and> (\<forall>s. known_ident tc s \<longrightarrow> known_ident tc' s \<and> ident_at tc' s = ident_at tc s)"

lemma grown_refl: "grown tc tc"
  by (simp add: grown_def)

lemma grown_trans: "grown a b \<Longrightarrow> grown b c \<Longrightarrow> grown a c"
  unfolding grown_def by (elim conjE, intro conjI allI impI) (simp_all add: order_less_le_trans)

lemma shape_grown: "shape tc ps t e \<Longrightarrow> grown tc tc' \<Longrightarrow> shape tc' ps t e"
proof (induction ps t e rule: shape.induct)
  case (compound t k ts ps es)
  then show ?case by (intro shape.compound) (auto simp: grown_def elim: list_all2_mono)
next
  case (struct t name fs ps es)
  then show ?case by (intro shape.struct) (auto simp: grown_def elim: list_all2_mono)
qed (auto simp: grown_def intro: shape.intros)

lemma fields_path_cong:
  "(\<And>f. f \<in> set fs \<Longrightarrow> ident_at tc' (fst f) = ident_at tc (fst f) \<and> id_at tc' (snd f) = id_at tc (snd f)) \<Longrightarrow>
     fields_path tc' fs = fields_path tc fs"
  by (induction fs) (auto simp: fields_path_def)

lemma found_grown: "found tc e t \<Longrightarrow> grown tc tc' \<Longrightarrow> found tc' e t"
proof (induction e t rule: found.induct)
  case (fcompound k ts es t)
  have "map (id_at tc') ts = map (id_at tc) ts"
    using fcompound(4,5) by (auto simp: grown_def list_all2_conv_all_nth list_eq_iff_nth_eq) (metis found_valid)
  moreover have "list_all2 (found tc') es ts" using fcompound(4,5) by (auto elim: list_all2_mono)
  moreover have "node_t tc' (k, map (id_at tc) ts) = Some t" "t < length (tc_types tc')"
    using fcompound(2,3,5) by (auto simp: grown_def)
  ultimately show ?case using fcompound(1) found.fcompound [of k ts tc' es t] by (simp only:)
next
  case (fstruct es fs name t)
  have "list_all2 (\<lambda>e f. fst e = fst f \<and> found tc' (snd e) (snd f)) es fs"
    using fstruct(1,6) by (auto elim: list_all2_mono)
  moreover have "fields_path tc' fs = fields_path tc fs"
  proof (rule fields_path_cong)
    fix f assume "f \<in> set fs"
    then obtain i where i: "i < length fs" "f = fs ! i" by (auto simp: in_set_conv_nth)
    have "i < length es" using i(1) list_all2_lengthD [OF fstruct(1)] by simp
    from list_all2_nthD [OF fstruct(1) this] have "snd f < length (tc_types tc)" using i(2) found_valid by blast
    then show "ident_at tc' (fst f) = ident_at tc (fst f) \<and> id_at tc' (snd f) = id_at tc (snd f)"
      using fstruct(3,6) \<open>f \<in> set fs\<close> by (simp add: grown_def list_all_iff)
  qed
  moreover have "ident_at tc' name = ident_at tc name" "known_ident tc' name"
    "list_all (\<lambda>f. known_ident tc' (fst f)) fs" "t < length (tc_types tc')"
    using fstruct(2,3,5,6) by (auto simp: grown_def list_all_iff)
  ultimately show ?case
    using fstruct(4,6) by (intro found.fstruct [of _ es fs]) (auto simp: grown_def struct_path_def)
qed (auto simp: grown_def intro!: found.fprim found.fcycle)

subsection \<open>Lookups in the tries\<close>

definition lookup :: "uint32 list \<Rightarrow> typeTrie \<Rightarrow> tptr option" where
  "lookup q n = (case trie_node q n of None \<Rightarrow> None | Some m \<Rightarrow> trie_t m)"

definition has_node :: "TypeCache \<Rightarrow> trie_ptr \<Rightarrow> bool" where
  "has_node tc p \<longleftrightarrow> trie_node (snd p) (tc_trieRoots tc (fst p)) \<noteq> None"

lemma lookup_Nil [simp]: "lookup [] n = trie_t n"
  by (simp add: lookup_def)

lemma lookup_Cons [simp]: "lookup (i # q) n = (case trie_entries n i of None \<Rightarrow> None | Some m \<Rightarrow> lookup q m)"
  by (simp add: lookup_def split: option.splits)

lemma lookup_new [simp]: "lookup q newTypeTrie = None"
  by (cases q) (simp_all add: newTypeTrie_def)

lemma node_t_lookup: "node_t tc (k, q) = lookup q (tc_trieRoots tc k)"
  by (simp add: node_t_def lookup_def)

lemma lookup_Traverse [simp]: "lookup q (Traverse i n) = lookup q n"
  by (cases q) (auto simp: Traverse_def split: option.splits)

lemma lookup_update_same:
  "(\<And>q m. lookup q (f m) = lookup q m) \<Longrightarrow> lookup q (trie_update path f n) = lookup q n"
proof (induction path arbitrary: q n)
  case (Cons i path)
  then show ?case by (cases q) (auto split: option.splits)
qed simp

lemma trie_node_update_exists:
  "(\<And>q m. trie_node q m \<noteq> None \<Longrightarrow> trie_node q (f m) \<noteq> None) \<Longrightarrow> trie_node q n \<noteq> None \<Longrightarrow>
     trie_node q (trie_update path f n) \<noteq> None"
proof (induction path arbitrary: q n)
  case (Cons i path)
  then show ?case by (cases q) (auto split: option.splits)
qed simp

lemma trie_node_Traverse: "trie_node q m \<noteq> None \<Longrightarrow> trie_node q (Traverse i m) \<noteq> None"
  by (cases q) (auto simp: Traverse_def split: option.splits)

lemma trie_node_Traverse_new:
  "trie_node path n \<noteq> None \<Longrightarrow> trie_node (path @ [i]) (trie_update path (Traverse i) n) \<noteq> None"
proof (induction path arbitrary: n)
  case (Cons j path)
  then show ?case by (auto split: option.splits)
qed (auto simp: Traverse_def split: option.splits)

lemma lookup_set:
  "trie_node path n \<noteq> None \<Longrightarrow>
     lookup q (trie_update path (\<lambda>n. TypeTrie (Some t) (trie_entries n)) n) = (if q = path then Some t else lookup q n)"
proof (induction path arbitrary: q n)
  case Nil
  then show ?case by (cases q) auto
next
  case (Cons i path)
  then show ?case by (cases q) (auto split: option.splits)
qed

lemma tc_Traverse_simps:
  assumes "tc_Traverse p i tc = (p', tc')"
  shows "p' = (fst p, snd p @ [i])" "tc_types tc' = tc_types tc" "tc_identTable tc' = tc_identTable tc"
    "tc_nextId tc' = tc_nextId tc" "node_t tc' q = node_t tc q" "has_node tc q \<Longrightarrow> has_node tc' q"
    "has_node tc p \<Longrightarrow> has_node tc' p'"
proof -
  obtain k path where p: "p = (k, path)" by fastforce
  have tc': "tc' = tc\<lparr>tc_trieRoots := (tc_trieRoots tc)(k := trie_update path (Traverse i) (tc_trieRoots tc k))\<rparr>"
    and p': "p' = (k, path @ [i])" using assms by (auto simp: tc_Traverse_def p)
  show "p' = (fst p, snd p @ [i])" "tc_types tc' = tc_types tc" "tc_identTable tc' = tc_identTable tc"
    "tc_nextId tc' = tc_nextId tc" by (simp_all add: tc' p p')
  show "node_t tc' q = node_t tc q" by (cases q) (auto simp: node_t_lookup tc' lookup_update_same)
  show "has_node tc q \<Longrightarrow> has_node tc' q"
    using trie_node_update_exists [of "Traverse i", OF trie_node_Traverse, of "snd q" "tc_trieRoots tc (fst q)" path]
    by (cases "fst q = k") (auto simp: has_node_def tc')
  show "has_node tc p \<Longrightarrow> has_node tc' p'"
    using trie_node_Traverse_new [of path "tc_trieRoots tc k" i] by (simp add: has_node_def tc' p p')
qed

lemma set_node_t_simps:
  shows "tc_types (set_node_t p t tc) = tc_types tc" "tc_identTable (set_node_t p t tc) = tc_identTable tc"
    "tc_nextId (set_node_t p t tc) = tc_nextId tc"
    "has_node tc p \<Longrightarrow> node_t (set_node_t p t tc) q = (if q = p then Some t else node_t tc q)"
  by (cases p; cases q; simp add: set_node_t_def node_t_lookup has_node_def lookup_set)+

lemma has_root: "has_node tc (k, [])"
  by (simp add: has_node_def)

end
