(* ===== verification/TypeIntern.thy ===== *)
theory TypeIntern
  imports TypeCodec
begin

text \<open>
  The type cache interns types: the invariant of a cache whose types were made by its operations, and
  that a type without cycles that is written and read back is the same object.
\<close>

subsection \<open>The invariant\<close>

text \<open>The place of a type in the tries.\<close>

fun desc_path :: "TypeCache \<Rightarrow> TypeDesc \<Rightarrow> trie_ptr" where
  "desc_path tc (CompoundDesc k ts) = (k, map (id_at tc) ts)"
| "desc_path tc (StructDesc name fs) = (StructKind, struct_path tc name fs)"
| "desc_path tc (CycleDesc i) = (CycleKind, [i])"
| "desc_path tc (PrimitiveDesc k) = (k, [])"

text \<open>A description whose parts are older than the type at \<open>t\<close>.\<close>

fun desc_wf :: "TypeCache \<Rightarrow> tptr \<Rightarrow> TypeDesc \<Rightarrow> bool" where
  "desc_wf tc t (CompoundDesc k ts) \<longleftrightarrow> container k (length ts) \<and> list_all (\<lambda>u. u < t) ts"
| "desc_wf tc t (StructDesc name fs) \<longleftrightarrow>
     known_ident tc name \<and> list_all (\<lambda>f. known_ident tc (fst f) \<and> snd f < t) fs"
| "desc_wf tc t _ \<longleftrightarrow> False"

definition desc_at :: "TypeCache \<Rightarrow> tptr \<Rightarrow> TypeDesc" where
  "desc_at tc t = ty_Desc (tc_types tc ! t)"

definition idents_ok :: "TypeCache \<Rightarrow> bool" where
  "idents_ok tc \<longleftrightarrow>
     (let es = it_entries (tc_identTable tc)
      in finite (dom es) \<and> it_nextId (tc_identTable tc) = of_nat (card (dom es))
         \<and> (\<forall>s. known_ident tc s \<longrightarrow> unat (ident_at tc s) < card (dom es))
         \<and> inj_on (ident_at tc) (dom es))"

definition tc_inv :: "TypeCache \<Rightarrow> bool" where
  "tc_inv tc \<longleftrightarrow>
     6 \<le> length (tc_types tc)
     \<and> (\<forall>t < 6. desc_at tc t = ty_Desc (prim_types ! t) \<and> id_at tc t = ty_id (prim_types ! t))
     \<and> (\<forall>t. 6 \<le> t \<and> t < length (tc_types tc) \<longrightarrow> id_at tc t = of_nat (250 + t)
            \<and> desc_wf tc t (desc_at tc t) \<and> node_t tc (desc_path tc (desc_at tc t)) = Some t)
     \<and> (\<forall>k q t. node_t tc (k, q) = Some t \<longrightarrow>
            6 \<le> t \<and> t < length (tc_types tc) \<and> (k, q) = desc_path tc (desc_at tc t))
     \<and> tc_nextId tc = of_nat (250 + length (tc_types tc))
     \<and> idents_ok tc"

text \<open>Room for more types and names.\<close>

definition room :: "TypeCache \<Rightarrow> nat \<Rightarrow> bool" where
  "room tc n \<longleftrightarrow> length (tc_types tc) < 2 ^ 31 \<and> card (dom (it_entries (tc_identTable tc))) + n < 2 ^ 31"

lemma all_less_6: "(\<forall>t < 6. P t) \<longleftrightarrow> P 0 \<and> P 1 \<and> P 2 \<and> P 3 \<and> P 4 \<and> P (5 :: nat)"
  by (auto simp: numeral_eq_Suc All_less_Suc)

lemma tc_inv_New: "tc_inv NewTypeCache"
  by (auto simp: tc_inv_def NewTypeCache_def idents_ok_def known_ident_def newIdentTable_def desc_at_def id_at_def
      prim_types_def node_t_lookup)

lemma tc_invD:
  assumes "tc_inv tc" "6 \<le> t" "t < length (tc_types tc)"
  shows "id_at tc t = of_nat (250 + t)" "desc_wf tc t (desc_at tc t)" "node_t tc (desc_path tc (desc_at tc t)) = Some t"
  using assms unfolding tc_inv_def by blast+

lemma tc_inv_prim: "tc_inv tc \<Longrightarrow> t < 6 \<Longrightarrow> desc_at tc t = ty_Desc (prim_types ! t) \<and> id_at tc t = ty_id (prim_types ! t)"
  unfolding tc_inv_def by blast

lemma id_at_inj:
  assumes "tc_inv tc" "length (tc_types tc) < 2 ^ 31" "t < length (tc_types tc)" "u < length (tc_types tc)"
    "id_at tc t = id_at tc u"
  shows "t = u"
proof -
  have prim: "unat (id_at tc t) < 256 \<and> (t < 6 \<longrightarrow> (\<forall>u < 6. id_at tc t = id_at tc u \<longrightarrow> t = u))" if "t < 6" for t
  proof -
    have "\<forall>t < 6. id_at tc t = ty_id (prim_types ! t)" using tc_inv_prim [OF assms(1)] by blast
    then have "id_at tc 0 = 0" "id_at tc 1 = 1" "id_at tc 2 = 2" "id_at tc 3 = 3" "id_at tc 4 = 10" "id_at tc 5 = 4"
      by (simp_all add: prim_types_def makePrimitiveType_def)
    moreover have "t = 0 \<or> t = 1 \<or> t = 2 \<or> t = 3 \<or> t = 4 \<or> t = 5" using that by linarith
    ultimately show ?thesis by (elim disjE) (simp_all add: all_less_6)
  qed
  have other: "unat (id_at tc t) = 250 + t" if "6 \<le> t" "t < length (tc_types tc)" for t
  proof -
    have "id_at tc t = of_nat (250 + t)" using tc_invD(1) [OF assms(1) that] .
    moreover have "250 + t < 2 ^ 32" using that assms(2) by simp
    ultimately show ?thesis by (simp only: unat_of_nat_uint32)
  qed
  show ?thesis
  proof (cases "t < 6"; cases "u < 6")
    assume "t < 6" "u < 6"
    then show ?thesis using prim [of t] assms(5) by blast
  next
    assume "t < 6" "\<not> u < 6"
    then have "unat (id_at tc t) < 256" "unat (id_at tc u) = 250 + u" using prim [of t] other [of u] assms(4) by auto
    then show ?thesis using assms(5) \<open>\<not> u < 6\<close> by simp
  next
    assume "\<not> t < 6" "u < 6"
    then have "unat (id_at tc u) < 256" "unat (id_at tc t) = 250 + t" using prim [of u] other [of t] assms(3) by auto
    then show ?thesis using assms(5) \<open>\<not> t < 6\<close> by simp
  next
    assume "\<not> t < 6" "\<not> u < 6"
    then have "unat (id_at tc u) = 250 + u" "unat (id_at tc t) = 250 + t" using other assms(3,4) by auto
    then show ?thesis using assms(5) by simp
  qed
qed

lemma map_id_at_inj:
  assumes "tc_inv tc" "length (tc_types tc) < 2 ^ 31" "list_all (\<lambda>t. t < length (tc_types tc)) ts"
    "list_all (\<lambda>t. t < length (tc_types tc)) us" "map (id_at tc) ts = map (id_at tc) us"
  shows "ts = us"
proof (rule nth_equalityI)
  show len: "length ts = length us" using assms(5) by (rule map_eq_imp_length_eq)
  fix i assume i: "i < length ts"
  then have "id_at tc (ts ! i) = id_at tc (us ! i)" using assms(5) len by (metis nth_map)
  then show "ts ! i = us ! i" using assms(3,4) i len by (intro id_at_inj [OF assms(1,2)]) (auto simp: list_all_length)
qed

lemma desc_wf_valid_compound:
  "desc_wf tc t (CompoundDesc k ts) \<Longrightarrow> t \<le> n \<Longrightarrow> list_all (\<lambda>u. u < n) ts"
  by (auto simp: list_all_iff)

text \<open>Types with the same description are the same object.\<close>

lemma desc_at_inj:
  assumes "tc_inv tc" "6 \<le> t" "t < length (tc_types tc)" "6 \<le> u" "u < length (tc_types tc)" "desc_at tc t = desc_at tc u"
  shows "t = u"
proof -
  have "node_t tc (desc_path tc (desc_at tc t)) = Some t" "node_t tc (desc_path tc (desc_at tc u)) = Some u"
    using tc_invD(3) [OF assms(1)] assms(2-5) by blast+
  then show ?thesis using assms(6) by (metis option.inject)
qed

subsection \<open>Every type is found again\<close>

lemma list_all2_exists: "(\<And>x. x \<in> set xs \<Longrightarrow> \<exists>y. P x y) \<Longrightarrow> \<exists>ys. list_all2 P xs ys"
  by (induction xs) (auto simp: list_all2_Cons1)

lemma prim_found:
  assumes "tc_inv tc" "t < 6"
  shows "\<exists>k. desc_at tc t = PrimitiveDesc k \<and> IsPrimitiveKind k \<and> MakePrimitiveType k = Inr t"
proof -
  have "\<forall>t < 6. desc_at tc t = ty_Desc (prim_types ! t)" using tc_inv_prim [OF assms(1)] by blast
  moreover have "\<forall>t < 6. \<exists>k. ty_Desc (prim_types ! t) = PrimitiveDesc k \<and> IsPrimitiveKind k \<and> MakePrimitiveType k = Inr t"
    by (simp add: all_less_6 prim_types_def makePrimitiveType_def IsPrimitiveKind_def BoolType_def NumberType_def
        StringType_def BlobType_def TypeType_def ValueType_def)
  ultimately show ?thesis using assms(2) by simp
qed

definition tree_of :: "TypeCache \<Rightarrow> tptr \<Rightarrow> texpr \<Rightarrow> bool" where
  "tree_of tc t e \<longleftrightarrow> found tc e t \<and> (\<forall>ps. (\<forall>p \<in> set ps. t < p) \<longrightarrow> shape tc ps t e)"

lemma indexOfType_None: "t \<notin> set ps \<Longrightarrow> indexOfType t ps = None"
  by (induction ps) auto

lemma tree_of_ex:
  assumes "tc_inv tc"
  shows "t < length (tc_types tc) \<Longrightarrow> \<exists>e. tree_of tc t e"
proof (induction t rule: less_induct)
  case (less t)
  show ?case
  proof (cases "t < 6")
    case True
    obtain k where k: "desc_at tc t = PrimitiveDesc k" "IsPrimitiveKind k" "MakePrimitiveType k = Inr t"
      using prim_found [OF assms True] by blast
    then show ?thesis using less.prems
      by (intro exI [of _ "EPrim k"]) (auto simp: tree_of_def desc_at_def intro: found.fprim shape.prim)
  next
    case False
    then have t: "desc_wf tc t (desc_at tc t)" "node_t tc (desc_path tc (desc_at tc t)) = Some t"
      using tc_invD(2,3) [OF assms] less.prems by simp_all
    show ?thesis
    proof (cases "desc_at tc t")
      case (CompoundDesc k ts)
      have "\<exists>e. tree_of tc u e" if "u \<in> set ts" for u
        using less that t(1) CompoundDesc by (auto simp: list_all_iff)
      then obtain es where es: "list_all2 (tree_of tc) ts es" using list_all2_exists by metis
      have "found tc (ECompound k es) t"
        using t CompoundDesc less.prems es
        by (intro found.fcompound [of k ts]) (auto simp: tree_of_def list_all2_conv_all_nth)
      moreover have "shape tc ps t (ECompound k es)" if "\<forall>p \<in> set ps. t < p" for ps
      proof (rule shape.compound [OF less.prems, of k ts])
        show "list_all2 (shape tc ps) ts es"
          using es that t(1) CompoundDesc by (fastforce simp: tree_of_def list_all2_conv_all_nth list_all_length)
      qed (use t CompoundDesc in \<open>simp_all add: desc_at_def\<close>)
      ultimately show ?thesis by (auto simp: tree_of_def)
    next
      case (StructDesc name fs)
      have "\<exists>e. tree_of tc (snd f) e" if "f \<in> set fs" for f
        using less that t(1) StructDesc by (auto simp: list_all_iff)
      then obtain es where es: "list_all2 (\<lambda>f e. tree_of tc (snd f) e) fs es" using list_all2_exists by metis
      let ?es = "map2 (\<lambda>f e. (fst f, e)) fs es"
      have len: "length fs = length es" using es by (rule list_all2_lengthD)
      have nth: "i < length fs \<Longrightarrow> tree_of tc (snd (fs ! i)) (es ! i)" for i using es by (rule list_all2_nthD)
      have "found tc (EStruct name ?es) t"
        using t StructDesc less.prems nth len
        by (intro found.fstruct [of tc ?es fs]) (auto simp: tree_of_def list_all2_conv_all_nth list_all_length)
      moreover have "shape tc ps t (EStruct name ?es)" if "\<forall>p \<in> set ps. t < p" for ps
      proof (rule shape.struct [OF less.prems, of name fs])
        show "indexOfType t ps = None" using that by (intro indexOfType_None) auto
        have "shape tc (ps @ [t]) (snd (fs ! i)) (es ! i)" if "i < length fs" for i
        proof -
          have "snd (fs ! i) < t" using t(1) StructDesc that by (simp add: list_all_length)
          then have "\<forall>p \<in> set (ps @ [t]). snd (fs ! i) < p" using \<open>\<forall>p \<in> set ps. t < p\<close> by auto
          then show ?thesis using nth [OF that] unfolding tree_of_def by blast
        qed
        then show "list_all2 (\<lambda>f e. fst f = fst e \<and> shape tc (ps @ [t]) (snd f) (snd e)) fs ?es"
          using len by (simp add: list_all2_conv_all_nth)
      qed (use t StructDesc in \<open>simp_all add: desc_at_def\<close>)
      ultimately show ?thesis by (auto simp: tree_of_def)
    qed (use t(1) in auto)
  qed
qed

subsection \<open>Making types keeps the invariant\<close>

lemma desc_grown:
  assumes "grown tc tc'" "t < length (tc_types tc)"
  shows "desc_at tc' t = desc_at tc t" "id_at tc' t = id_at tc t"
  using assms by (simp_all add: grown_def desc_at_def)

lemma desc_wf_grown:
  assumes "grown tc tc'" "desc_wf tc t d" "t \<le> length (tc_types tc)"
  shows "desc_wf tc' t d \<and> desc_path tc' d = desc_path tc d"
proof (cases d)
  case (CompoundDesc k ts)
  then show ?thesis using assms by (auto simp: list_all_iff grown_def)
next
  case (StructDesc name fs)
  have "fields_path tc' fs = fields_path tc fs"
    using assms StructDesc by (intro fields_path_cong) (auto simp: list_all_iff grown_def)
  then show ?thesis using assms StructDesc by (auto simp: list_all_iff grown_def struct_path_def)
qed (use assms(2) in auto)

lemma tc_inv_same:
  assumes inv: "tc_inv tc" and g: "grown tc tc'" and len: "length (tc_types tc') = length (tc_types tc)"
    and node: "\<And>k q. node_t tc' (k, q) = node_t tc (k, q)"
    and "tc_nextId tc' = tc_nextId tc" "idents_ok tc'"
  shows "tc_inv tc'"
  unfolding tc_inv_def
proof (intro conjI allI impI)
  show "6 \<le> length (tc_types tc')" "tc_nextId tc' = of_nat (250 + length (tc_types tc'))"
    using inv len assms(5) by (simp_all add: tc_inv_def)
  show "idents_ok tc'" by (rule assms)
next
  fix t :: nat assume "t < 6"
  moreover have "6 \<le> length (tc_types tc)" using inv by (simp add: tc_inv_def)
  ultimately show "desc_at tc' t = ty_Desc (prim_types ! t)" "id_at tc' t = ty_id (prim_types ! t)"
    using desc_grown [OF g, of t] tc_inv_prim [OF inv, of t] by simp_all
next
  fix t assume "6 \<le> t \<and> t < length (tc_types tc')"
  then have t: "6 \<le> t" "t < length (tc_types tc)" using len by simp_all
  note d = desc_grown [OF g t(2)] and i = tc_invD [OF inv t]
  note w = desc_wf_grown [OF g i(2)]
  show "id_at tc' t = of_nat (250 + t)" "desc_wf tc' t (desc_at tc' t)" using d i(1) w t by simp_all
  obtain k q where p: "desc_path tc (desc_at tc t) = (k, q)" by fastforce
  have "desc_path tc' (desc_at tc' t) = (k, q)" using d w t p by simp
  then show "node_t tc' (desc_path tc' (desc_at tc' t)) = Some t" using i(3) node p by simp
next
  fix k q t assume "node_t tc' (k, q) = Some t"
  then have "6 \<le> t \<and> t < length (tc_types tc) \<and> (k, q) = desc_path tc (desc_at tc t)"
    using inv node by (simp add: tc_inv_def)
  moreover from this have "desc_wf tc t (desc_at tc t)" using tc_invD(2) [OF inv] by blast
  ultimately show "6 \<le> t" "t < length (tc_types tc')" "(k, q) = desc_path tc' (desc_at tc' t)"
    using desc_wf_grown [OF g, of t] desc_grown [OF g, of t] len by auto
qed

lemma tc_inv_add:
  fixes d
  defines "ty i \<equiv> \<lparr>ty_Desc = d, ty_oid = None, ty_id = i\<rparr>"
  assumes inv: "tc_inv tc" and types: "tc_types tc' = tc_types tc @ [ty (tc_nextId tc)]"
    and next': "tc_nextId tc' = tc_nextId tc + 1" and ids: "idents_ok tc'"
    and known: "\<And>s. known_ident tc s \<Longrightarrow> known_ident tc' s \<and> ident_at tc' s = ident_at tc s"
    and node: "\<And>k q. node_t tc' (k, q) = (if (k, q) = desc_path tc' d then Some (length (tc_types tc)) else node_t tc (k, q))"
    and new: "node_t tc (desc_path tc' d) = None" and wf: "desc_wf tc' (length (tc_types tc)) d"
  shows "tc_inv tc' \<and> grown tc tc'"
proof -
  let ?n = "length (tc_types tc)"
  have g: "grown tc tc'"
    unfolding grown_def
  proof (intro conjI allI impI)
    fix k q t assume "node_t tc (k, q) = Some t"
    then show "node_t tc' (k, q) = Some t" using node new by (metis option.distinct(1))
  qed (use types known in \<open>simp_all add: nth_append id_at_def\<close>)
  have last: "desc_at tc' ?n = d" "id_at tc' ?n = tc_nextId tc" by (simp_all add: desc_at_def id_at_def types ty_def)
  have "tc_inv tc'"
    unfolding tc_inv_def
  proof (intro conjI allI impI)
    show "6 \<le> length (tc_types tc')" using inv types by (simp add: tc_inv_def)
    show "tc_nextId tc' = of_nat (250 + length (tc_types tc'))" using inv types next' by (simp add: tc_inv_def)
    show "idents_ok tc'" by (rule ids)
  next
    fix t :: nat assume "t < 6"
    moreover have "6 \<le> ?n" using inv by (simp add: tc_inv_def)
    ultimately show "desc_at tc' t = ty_Desc (prim_types ! t)" "id_at tc' t = ty_id (prim_types ! t)"
      using desc_grown [OF g, of t] tc_inv_prim [OF inv, of t] by simp_all
  next
    fix t assume t: "6 \<le> t \<and> t < length (tc_types tc')"
    have "id_at tc' t = of_nat (250 + t) \<and> desc_wf tc' t (desc_at tc' t) \<and> node_t tc' (desc_path tc' (desc_at tc' t)) = Some t"
    proof (cases "t = ?n")
      case True
      have "tc_nextId tc = of_nat (250 + ?n)" using inv by (simp add: tc_inv_def)
      moreover obtain k q where "desc_path tc' d = (k, q)" by fastforce
      ultimately show ?thesis using last wf node [of "fst (desc_path tc' d)" "snd (desc_path tc' d)"] True by simp
    next
      case False
      then have t': "6 \<le> t" "t < ?n" using t types by simp_all
      note i = tc_invD [OF inv t']
      have "desc_wf tc' t (desc_at tc t)" "desc_path tc' (desc_at tc t) = desc_path tc (desc_at tc t)"
        using desc_wf_grown [OF g i(2)] t' by simp_all
      moreover have "node_t tc' (desc_path tc (desc_at tc t)) = Some t"
        using i(3) g by (cases "desc_path tc (desc_at tc t)") (simp add: grown_def)
      ultimately show ?thesis using i(1) desc_grown [OF g t'(2)] by simp
    qed
    then show "id_at tc' t = of_nat (250 + t)" "desc_wf tc' t (desc_at tc' t)"
      "node_t tc' (desc_path tc' (desc_at tc' t)) = Some t" by blast+
  next
    fix k q t assume kq: "node_t tc' (k, q) = Some t"
    have "6 \<le> t \<and> t < length (tc_types tc') \<and> (k, q) = desc_path tc' (desc_at tc' t)"
    proof (cases "(k, q) = desc_path tc' d")
      case True
      then have "t = ?n" using kq node [of k q] by simp
      then show ?thesis using inv last True types by (simp add: tc_inv_def)
    next
      case False
      then have old: "6 \<le> t \<and> t < ?n \<and> (k, q) = desc_path tc (desc_at tc t)"
        using inv kq node [of k q] by (simp add: tc_inv_def)
      then have "desc_wf tc t (desc_at tc t)" using tc_invD(2) [OF inv] by blast
      then show ?thesis using old desc_wf_grown [OF g, of t] desc_grown [OF g, of t] types by auto
    qed
    then show "6 \<le> t" "t < length (tc_types tc')" "(k, q) = desc_path tc' (desc_at tc' t)" by blast+
  qed
  with g show ?thesis by blast
qed

definition same_lookups :: "TypeCache \<Rightarrow> TypeCache \<Rightarrow> bool" where
  "same_lookups tc tc' \<longleftrightarrow> tc_types tc' = tc_types tc \<and> tc_identTable tc' = tc_identTable tc
     \<and> tc_nextId tc' = tc_nextId tc \<and> (\<forall>k q. node_t tc' (k, q) = node_t tc (k, q))"

lemma same_lookupsD:
  assumes "same_lookups tc tc'"
  shows "tc_types tc' = tc_types tc" "tc_identTable tc' = tc_identTable tc" "tc_nextId tc' = tc_nextId tc"
    "node_t tc' p = node_t tc p" "id_at tc' = id_at tc" "ident_at tc' = ident_at tc" "known_ident tc' = known_ident tc"
    "desc_at tc' = desc_at tc" "idents_ok tc' = idents_ok tc"
  using assms
  by (cases p; simp add: same_lookups_def id_at_def [abs_def] ident_at_def [abs_def] known_ident_def [abs_def]
      desc_at_def [abs_def] idents_ok_def)+

lemma same_lookups_path: "same_lookups tc tc' \<Longrightarrow> desc_path tc' d = desc_path tc d"
  by (cases d) (simp_all add: same_lookupsD struct_path_def fields_path_def)

lemma same_lookups_refl: "same_lookups tc tc"
  by (simp add: same_lookups_def)

lemma same_lookups_trans: "same_lookups a b \<Longrightarrow> same_lookups b c \<Longrightarrow> same_lookups a c"
  by (simp add: same_lookups_def)

lemma same_lookups_Traverse: "same_lookups tc (snd (tc_Traverse p i tc))"
proof -
  obtain p' tc' where T: "tc_Traverse p i tc = (p', tc')" by fastforce
  show ?thesis using tc_Traverse_simps [OF T] by (simp add: T same_lookups_def)
qed

lemma same_lookups_grown: "same_lookups tc tc' \<Longrightarrow> grown tc tc'"
  by (simp add: grown_def same_lookupsD)

lemma same_lookups_inv: "same_lookups tc tc' \<Longrightarrow> tc_inv tc \<Longrightarrow> tc_inv tc'"
  by (rule tc_inv_same [OF _ same_lookups_grown], assumption+) (simp_all add: same_lookupsD tc_inv_def [of tc])

lemma fold_Traverse:
  assumes "list_all (\<lambda>t. t < length (tc_types tc)) ts" "has_node tc (k, path)"
  shows "\<exists>tc'. foldM_res (\<lambda>(trie, tc) t. rbind (ty_at tc t) (\<lambda>ty. Inr (tc_Traverse trie (ty_id ty) tc))) ((k, path), tc) ts
      = Inr ((k, path @ map (id_at tc) ts), tc') \<and> same_lookups tc tc' \<and> has_node tc' (k, path @ map (id_at tc) ts)"
  using assms
proof (induction ts arbitrary: path tc)
  case Nil
  then show ?case by (simp add: same_lookups_refl)
next
  case (Cons t ts)
  obtain tc1 where T: "tc_Traverse (k, path) (id_at tc t) tc = ((k, path @ [id_at tc t]), tc1)"
    using tc_Traverse_simps(1) [of "(k, path)" "id_at tc t" tc] by (cases "tc_Traverse (k, path) (id_at tc t) tc") auto
  have s: "same_lookups tc tc1" using same_lookups_Traverse [of tc "(k, path)" "id_at tc t"] by (simp add: T)
  have "has_node tc1 (k, path @ [id_at tc t])" using tc_Traverse_simps(7) [OF T Cons.prems(2)] .
  then obtain tc' where "foldM_res (\<lambda>(trie, tc) t. rbind (ty_at tc t) (\<lambda>ty. Inr (tc_Traverse trie (ty_id ty) tc)))
      ((k, path @ [id_at tc t]), tc1) ts = Inr ((k, (path @ [id_at tc t]) @ map (id_at tc1) ts), tc')"
    "same_lookups tc1 tc'" "has_node tc' (k, (path @ [id_at tc t]) @ map (id_at tc1) ts)"
    using Cons.IH [of tc1 "path @ [id_at tc t]"] Cons.prems(1) s by (auto simp: same_lookupsD)
  then show ?case using Cons.prems(1) T s by (auto simp: same_lookupsD id_at_def [of tc t] intro: same_lookups_trans)
qed

lemma getCompoundType_inv:
  assumes inv: "tc_inv tc" and len: "length (tc_types tc) < 2 ^ 31" and k: "container k (length ts)"
    and valid: "list_all (\<lambda>t. t < length (tc_types tc)) ts"
  obtains t tc' where "getCompoundType k ts tc = Inr (t, tc')" "tc_inv tc'" "grown tc tc'"
    "6 \<le> t" "t < length (tc_types tc')" "desc_at tc' t = CompoundDesc k ts"
proof -
  obtain tc1 where fold: "foldM_res (\<lambda>(trie, tc) t. rbind (ty_at tc t) (\<lambda>ty. Inr (tc_Traverse trie (ty_id ty) tc)))
      ((k, []), tc) ts = Inr ((k, map (id_at tc) ts), tc1)"
    and s: "same_lookups tc tc1" and has: "has_node tc1 (k, map (id_at tc) ts)"
    using fold_Traverse [OF valid has_root, of k] by auto
  have inv1: "tc_inv tc1" by (rule same_lookups_inv [OF s inv])
  show ?thesis
  proof (cases "node_t tc1 (k, map (id_at tc) ts)")
    case (Some t)
    then have get: "getCompoundType k ts tc = Inr (t, tc1)" by (simp add: getCompoundType_def fold)
    have t: "6 \<le> t" "t < length (tc_types tc1)" "(k, map (id_at tc) ts) = desc_path tc1 (desc_at tc1 t)"
      using inv1 Some unfolding tc_inv_def by blast+
    note wf = tc_invD(2) [OF inv1 t(1,2)]
    have "desc_at tc1 t = CompoundDesc k ts"
    proof (cases "desc_at tc1 t")
      case (CompoundDesc k' us)
      then have "list_all (\<lambda>u. u < length (tc_types tc1)) us"
        using wf t(2) by (auto simp: list_all_iff)
      moreover have "map (id_at tc1) ts = map (id_at tc1) us" using t(3) CompoundDesc s by (simp add: same_lookupsD)
      ultimately have "ts = us" using map_id_at_inj [OF inv1] len valid s by (simp add: same_lookupsD)
      then show ?thesis using CompoundDesc t(3) by simp
    qed (use t(3) k wf in \<open>auto simp: container_def\<close>)
    then show ?thesis using that get inv1 same_lookups_grown [OF s] t by blast
  next
    case None
    let ?t = "length (tc_types tc)"
    let ?ty = "\<lparr>ty_Desc = CompoundDesc k ts, ty_oid = None, ty_id = tc_nextId tc\<rparr>"
    let ?p = "(k, map (id_at tc) ts)"
    define tc2 where "tc2 = tc1\<lparr>tc_nextId := tc_nextId tc1 + 1, tc_types := tc_types tc1 @ [?ty]\<rparr>"
    define tc' where "tc' = set_node_t ?p ?t tc2"
    have get: "getCompoundType k ts tc = Inr (?t, tc')"
      using None s by (simp add: getCompoundType_def fold nextTypeId_def newType_def tc2_def tc'_def same_lookupsD)
    have has2: "has_node tc2 ?p" using has by (simp add: has_node_def tc2_def)
    have node2: "node_t tc2 q = node_t tc q" for q
      using s by (cases q) (simp add: tc2_def node_t_lookup same_lookups_def)
    have tc'_types: "tc_types tc' = tc_types tc @ [?ty]" "tc_nextId tc' = tc_nextId tc + 1" "tc_identTable tc' = tc_identTable tc"
      using s by (simp_all add: tc'_def set_node_t_simps tc2_def same_lookupsD)
    have ids: "id_at tc' u = id_at tc u" if "u < ?t" for u using that by (simp add: id_at_def tc'_types nth_append)
    have path: "desc_path tc' (CompoundDesc k ts) = ?p" using ids valid by (auto simp: list_all_iff)
    have "tc_inv tc' \<and> grown tc tc'"
    proof (rule tc_inv_add [OF inv])
      show "tc_types tc' = tc_types tc @ [?ty]" "tc_nextId tc' = tc_nextId tc + 1" by (simp_all add: tc'_types)
      show "idents_ok tc'" using inv by (simp add: tc_inv_def idents_ok_def tc'_types known_ident_def ident_at_def [abs_def])
      show "known_ident tc' x \<and> ident_at tc' x = ident_at tc x" if "known_ident tc x" for x
        using that by (simp add: known_ident_def ident_at_def tc'_types)
      show "node_t tc' (k', q) = (if (k', q) = desc_path tc' (CompoundDesc k ts) then Some ?t else node_t tc (k', q))" for k' q
        unfolding path by (simp only: tc'_def set_node_t_simps(4) [OF has2] node2)
      show "node_t tc (desc_path tc' (CompoundDesc k ts)) = None" unfolding path using None s by (simp add: same_lookupsD)
      show "desc_wf tc' ?t (CompoundDesc k ts)" using k valid by simp
    qed
    moreover have "desc_at tc' ?t = CompoundDesc k ts" by (simp add: desc_at_def tc'_types)
    moreover have "6 \<le> ?t" "?t < length (tc_types tc')" using inv by (simp_all add: tc'_types tc_inv_def)
    ultimately show ?thesis using that get by blast
  qed
qed

text \<open>Looking up names only adds identifiers.\<close>

definition names_added :: "TypeCache \<Rightarrow> TypeCache \<Rightarrow> nat \<Rightarrow> bool" where
  "names_added tc tc' n \<longleftrightarrow> tc_types tc' = tc_types tc \<and> tc_nextId tc' = tc_nextId tc
     \<and> (\<forall>k q. node_t tc' (k, q) = node_t tc (k, q)) \<and> idents_ok tc'
     \<and> (\<forall>s. known_ident tc s \<longrightarrow> known_ident tc' s \<and> ident_at tc' s = ident_at tc s)
     \<and> card (dom (it_entries (tc_identTable tc'))) \<le> card (dom (it_entries (tc_identTable tc))) + n"

lemma names_added_trans: "names_added a b m \<Longrightarrow> names_added b c n \<Longrightarrow> names_added a c (m + n)"
  unfolding names_added_def by (elim conjE, intro conjI allI impI) simp_all

lemma names_added_same: "same_lookups tc tc' \<Longrightarrow> idents_ok tc \<Longrightarrow> names_added tc tc' 0"
  by (simp add: names_added_def same_lookupsD)

lemma names_added_grown: "names_added tc tc' n \<Longrightarrow> grown tc tc'"
  by (auto simp: names_added_def grown_def id_at_def)

lemma names_added_inv: "names_added tc tc' n \<Longrightarrow> tc_inv tc \<Longrightarrow> tc_inv tc'"
  by (rule tc_inv_same [OF _ names_added_grown]) (auto simp: names_added_def)

lemma tc_GetId_ok:
  assumes ok: "idents_ok tc" and small: "card (dom (it_entries (tc_identTable tc))) < 2 ^ 32"
  obtains tc' where "tc_GetId s tc = (ident_at tc' s, tc')" "names_added tc tc' 1" "known_ident tc' s"
    "tc_trieRoots tc' = tc_trieRoots tc"
proof (cases "known_ident tc s")
  case True
  have "names_added tc tc 1" using ok by (simp add: names_added_def)
  then show ?thesis using that tc_GetId_there [OF True] True by blast
next
  case False
  let ?it = "tc_identTable tc" let ?es = "it_entries ?it" let ?n = "card (dom ?es)"
  have new: "?es s = None" using False by (simp add: known_ident_def)
  have fin: "finite (dom ?es)" and nx: "it_nextId ?it = of_nat ?n"
    and lt: "\<And>s. known_ident tc s \<Longrightarrow> unat (ident_at tc s) < ?n" and inj: "inj_on (ident_at tc) (dom ?es)"
    using ok by (auto simp: idents_ok_def Let_def)
  define tc' where "tc' = tc\<lparr>tc_identTable := \<lparr>it_entries = ?es(s \<mapsto> of_nat ?n), it_nextId = of_nat ?n + 1\<rparr>\<rparr>"
  have es': "it_entries (tc_identTable tc') = ?es(s \<mapsto> of_nat ?n)" by (simp add: tc'_def)
  have s: "ident_at tc' s = of_nat ?n" "known_ident tc' s" by (simp_all add: ident_at_def known_ident_def es')
  have other: "ident_at tc' x = ident_at tc x" if "x \<noteq> s" for x using that by (simp add: ident_at_def es')
  have kn: "known_ident tc' x \<longleftrightarrow> x = s \<or> known_ident tc x" for x by (simp add: known_ident_def es')
  have card: "card (dom (it_entries (tc_identTable tc'))) = Suc ?n"
    using fin new by (simp add: es' card_insert_if domIff)
  have un: "unat (of_nat ?n :: uint32) = ?n" using small by (rule unat_of_nat_uint32)
  have "idents_ok tc'"
    unfolding idents_ok_def Let_def
  proof (intro conjI allI impI)
    show "finite (dom (it_entries (tc_identTable tc')))" using fin by (simp add: es')
    show "it_nextId (tc_identTable tc') = of_nat (card (dom (it_entries (tc_identTable tc'))))"
      unfolding card by (simp add: tc'_def add.commute)
    show "unat (ident_at tc' x) < card (dom (it_entries (tc_identTable tc')))" if "known_ident tc' x" for x
      unfolding card using that lt [of x] s other [of x] kn [of x] un by (cases "x = s") auto
    show "inj_on (ident_at tc') (dom (it_entries (tc_identTable tc')))"
    proof (rule inj_onI)
      fix x y assume xy: "x \<in> dom (it_entries (tc_identTable tc'))" "y \<in> dom (it_entries (tc_identTable tc'))"
        "ident_at tc' x = ident_at tc' y"
      have neq: "ident_at tc z \<noteq> of_nat ?n" if "z \<in> dom ?es" for z
        using lt [of z] that un by (auto simp: known_ident_def domIff)
      have fresh: "z = s" if "z \<in> dom (it_entries (tc_identTable tc'))" "ident_at tc' z = of_nat ?n" for z
      proof (rule ccontr)
        assume "z \<noteq> s"
        moreover from this have "z \<in> dom ?es" using that(1) by (simp add: es')
        ultimately show False using neq other that(2) by metis
      qed
      show "x = y"
      proof (cases "x = s \<or> y = s")
        case True
        then show ?thesis using xy fresh s(1) by metis
      next
        case False
        then show ?thesis using xy inj other [of x] other [of y] by (auto simp: es' inj_on_def)
      qed
    qed
  qed
  moreover have "tc_GetId s tc = (ident_at tc' s, tc')"
    unfolding s(1) using new nx by (simp add: tc_GetId_def GetId_def tc'_def)
  moreover have "known_ident tc' x \<and> ident_at tc' x = ident_at tc x" if "known_ident tc x" for x
    using that False other [of x] kn [of x] by auto
  ultimately show ?thesis using that [of tc'] s(2) card by (auto simp: names_added_def tc'_def node_t_def)
qed

lemma has_node_cong: "tc_trieRoots tc' = tc_trieRoots tc \<Longrightarrow> has_node tc' p = has_node tc p"
  by (simp add: has_node_def)

lemma fields_Traverse:
  assumes "list_all (\<lambda>f. snd f < length (tc_types tc)) fs" "has_node tc (k, path)" "idents_ok tc"
    "card (dom (it_entries (tc_identTable tc))) + length fs < 2 ^ 32"
  shows "\<exists>tc'. foldM_res (\<lambda>(trie, tc) f.
            let (i, tc) = tc_GetId (fst f) tc; (trie, tc) = tc_Traverse trie i tc
            in rbind (ty_at tc (snd f)) (\<lambda>ty. Inr (tc_Traverse trie (ty_id ty) tc))) ((k, path), tc) fs
      = Inr ((k, path @ fields_path tc' fs), tc') \<and> names_added tc tc' (length fs)
    \<and> list_all (\<lambda>f. known_ident tc' (fst f)) fs \<and> has_node tc' (k, path @ fields_path tc' fs)"
    (is "\<exists>tc'. foldM_res ?g _ fs = _ \<and> _")
  using assms
proof (induction fs arbitrary: path tc)
  case Nil
  then show ?case by (simp add: fields_path_def names_added_same same_lookups_refl)
next
  case (Cons f fs)
  have "card (dom (it_entries (tc_identTable tc))) < 2 ^ 32" using Cons.prems(4) by simp
  from tc_GetId_ok [OF Cons.prems(3) this]
  obtain tc1 where G: "tc_GetId (fst f) tc = (ident_at tc1 (fst f), tc1)" and n1: "names_added tc tc1 1"
    and kn1: "known_ident tc1 (fst f)" and r1: "tc_trieRoots tc1 = tc_trieRoots tc" by metis
  let ?i = "ident_at tc1 (fst f)" and ?j = "id_at tc (snd f)"
  obtain tc2 where T2: "tc_Traverse (k, path) ?i tc1 = ((k, path @ [?i]), tc2)"
    using tc_Traverse_simps(1) [of "(k, path)" ?i tc1] by (cases "tc_Traverse (k, path) ?i tc1") auto
  obtain tc3 where T3: "tc_Traverse (k, path @ [?i]) ?j tc2 = ((k, path @ [?i, ?j]), tc3)"
    using tc_Traverse_simps(1) [of "(k, path @ [?i])" ?j tc2] by (cases "tc_Traverse (k, path @ [?i]) ?j tc2") auto
  have s2: "same_lookups tc1 tc2" using same_lookups_Traverse [of tc1 "(k, path)" ?i] by (simp add: T2)
  have s3: "same_lookups tc2 tc3" using same_lookups_Traverse [of tc2 "(k, path @ [?i])" ?j] by (simp add: T3)
  note s = same_lookups_trans [OF s2 s3]
  have n3: "names_added tc tc3 1"
    using names_added_trans [OF n1 names_added_same [OF s]] n1 by (simp add: names_added_def)
  have h3: "has_node tc3 (k, path @ [?i, ?j])"
    using tc_Traverse_simps(7) [OF T3 tc_Traverse_simps(7) [OF T2]] Cons.prems(2) by (simp add: has_node_cong [OF r1])
  have types: "tc_types tc2 = tc_types tc" "tc_types tc3 = tc_types tc"
    using n1 s2 n3 by (simp_all add: names_added_def same_lookupsD)
  have step: "?g ((k, path), tc) f = Inr ((k, path @ [?i, ?j]), tc3)"
    using Cons.prems(1) T3 by (simp add: G T2 types id_at_def)
  have "list_all (\<lambda>f. snd f < length (tc_types tc3)) fs" "idents_ok tc3"
    "card (dom (it_entries (tc_identTable tc3))) + length fs < 2 ^ 32"
    using Cons.prems(1,4) n3 by (simp_all add: names_added_def types)
  from Cons.IH [OF this(1) h3 this(2,3)]
  obtain tc' where IH: "foldM_res ?g ((k, path @ [?i, ?j]), tc3) fs = Inr ((k, (path @ [?i, ?j]) @ fields_path tc' fs), tc')"
    "names_added tc3 tc' (length fs)" "list_all (\<lambda>f. known_ident tc' (fst f)) fs"
    "has_node tc' (k, (path @ [?i, ?j]) @ fields_path tc' fs)" by blast
  have "known_ident tc3 (fst f)" "ident_at tc3 (fst f) = ?i" using kn1 s by (simp_all add: same_lookupsD)
  then have f: "known_ident tc' (fst f)" "ident_at tc' (fst f) = ?i" using IH(2) by (simp_all add: names_added_def)
  have "id_at tc' (snd f) = ?j" using IH(2) types(2) by (simp add: names_added_def id_at_def)
  then have path: "fields_path tc' (f # fs) = ?i # ?j # fields_path tc' fs" by (simp add: fields_path_def f(2))
  have "names_added tc tc' (length (f # fs))" using names_added_trans [OF n3 IH(2)] by simp
  then show ?case using step IH f(1) by (simp add: path)
qed

lemma ident_at_inj: "idents_ok tc \<Longrightarrow> known_ident tc x \<Longrightarrow> known_ident tc y \<Longrightarrow> ident_at tc x = ident_at tc y \<Longrightarrow> x = y"
  by (auto simp: idents_ok_def Let_def known_ident_def inj_on_def)

definition fields_known :: "TypeCache \<Rightarrow> (bytes \<times> tptr) list \<Rightarrow> bool" where
  "fields_known tc fs \<longleftrightarrow> list_all (\<lambda>f. known_ident tc (fst f) \<and> snd f < length (tc_types tc)) fs"

lemma fields_path_inj:
  assumes "tc_inv tc" "length (tc_types tc) < 2 ^ 31" "fields_known tc fs" "fields_known tc gs"
    "fields_path tc fs = fields_path tc gs"
  shows "fs = gs"
  using assms(3-)
proof (induction fs arbitrary: gs)
  case Nil
  then show ?case by (cases gs) (simp_all add: fields_path_def)
next
  case (Cons f fs)
  then obtain g gs' where gs: "gs = g # gs'" by (cases gs) (auto simp: fields_path_def)
  have "ident_at tc (fst f) = ident_at tc (fst g)" "id_at tc (snd f) = id_at tc (snd g)"
    "fields_path tc fs = fields_path tc gs'" using Cons.prems(3) by (simp_all add: gs fields_path_def)
  moreover have "idents_ok tc" using assms(1) by (simp add: tc_inv_def)
  ultimately show ?case
    using Cons.IH [of gs'] Cons.prems(1,2) ident_at_inj [of tc "fst f" "fst g"] id_at_inj [OF assms(1,2), of "snd f" "snd g"]
    by (simp add: gs fields_known_def prod_eq_iff)
qed

lemma any_res_False: "(\<And>x. x \<in> set xs \<Longrightarrow> f x = Inr False) \<Longrightarrow> any_res f xs = Inr False"
  by (induction xs) auto

lemma no_unresolved_cycle:
  assumes "\<And>t. t < length (tc_types tc) \<Longrightarrow> (\<exists>k. desc_at tc t = PrimitiveDesc k) \<or> desc_wf tc t (desc_at tc t)"
  shows "t < length (tc_types tc) \<Longrightarrow> t < n \<Longrightarrow> hasUnresolvedCycle n tc t visited = Inr False"
proof (induction n arbitrary: t visited)
  case (Suc n)
  have sub: "hasUnresolvedCycle n tc u vs = Inr False" if "u < t" for u vs
    using Suc that by (intro Suc.IH) auto
  show ?case
    using assms [OF Suc.prems(1)] Suc.prems(1) sub
    by (cases "desc_at tc t") (auto simp: desc_at_def list_all_iff intro!: any_res_False)
qed simp

lemma tc_inv_no_cycles:
  "tc_inv tc \<Longrightarrow> t < length (tc_types tc) \<Longrightarrow> (\<exists>k. desc_at tc t = PrimitiveDesc k) \<or> desc_wf tc t (desc_at tc t)"
  using prim_found [of tc t] tc_invD(2) [of tc t] by (cases "t < 6") auto

lemma makeStructTypeQuickly_inv:
  assumes inv: "tc_inv tc" and room: "room tc (length fs + 1)" and n: "length (tc_types tc) < n"
    and valid: "list_all (\<lambda>f. snd f < length (tc_types tc)) fs"
  obtains t tc' where "makeStructTypeQuickly n name fs ck tc = Inr (t, tc')" "tc_inv tc'" "grown tc tc'"
    "6 \<le> t" "t < length (tc_types tc')" "desc_at tc' t = StructDesc name fs"
proof -
  have idents: "idents_ok tc" using inv by (simp add: tc_inv_def)
  have "card (dom (it_entries (tc_identTable tc))) < 2 ^ 32" using room by (simp add: room_def)
  from tc_GetId_ok [OF idents this]
  obtain tc0 where G: "tc_GetId name tc = (ident_at tc0 name, tc0)" and n0: "names_added tc tc0 1"
    and kn0: "known_ident tc0 name" by metis
  let ?i = "ident_at tc0 name"
  obtain tc1 where T: "tc_Traverse (StructKind, []) ?i tc0 = ((StructKind, [?i]), tc1)"
    using tc_Traverse_simps(1) [of "(StructKind, [])" ?i tc0] by (cases "tc_Traverse (StructKind, []) ?i tc0") auto
  have s1: "same_lookups tc0 tc1" using same_lookups_Traverse [of tc0 "(StructKind, [])" ?i] by (simp add: T)
  have h1: "has_node tc1 (StructKind, [?i])" using tc_Traverse_simps(7) [OF T has_root] .
  have n1: "names_added tc tc1 1"
    using names_added_trans [OF n0 names_added_same [OF s1]] n0 by (simp add: names_added_def)
  have "list_all (\<lambda>f. snd f < length (tc_types tc1)) fs" "idents_ok tc1"
    "card (dom (it_entries (tc_identTable tc1))) + length fs < 2 ^ 32"
    using valid n1 room by (simp_all add: names_added_def room_def)
  from fields_Traverse [OF this(1) h1 this(2,3)]
  obtain tc2 where fold: "struct_trie name fs tc = Inr ((StructKind, [?i] @ fields_path tc2 fs), tc2)"
    and n2': "names_added tc1 tc2 (length fs)" and kn: "list_all (\<lambda>f. known_ident tc2 (fst f)) fs"
    and has: "has_node tc2 (StructKind, [?i] @ fields_path tc2 fs)"
    by (auto simp: struct_trie_def G T)
  have n2: "names_added tc tc2 (1 + length fs)" by (rule names_added_trans [OF n1 n2'])
  have kname: "known_ident tc2 name" "ident_at tc2 name = ?i"
    using kn0 s1 n2' by (simp_all add: names_added_def same_lookupsD)
  let ?p = "(StructKind, struct_path tc2 name fs)"
  have path: "[?i] @ fields_path tc2 fs = struct_path tc2 name fs" by (simp add: struct_path_def kname)
  note trie = fold [unfolded path]
  have inv2: "tc_inv tc2" by (rule names_added_inv [OF n2 inv])
  have types2: "tc_types tc2 = tc_types tc" "tc_nextId tc2 = tc_nextId tc" using n2 by (simp_all add: names_added_def)
  have known: "fields_known tc2 fs" using kn valid by (simp add: fields_known_def types2 list_all_iff)
  have len: "length (tc_types tc2) < 2 ^ 31" using room by (simp add: types2 room_def)
  show ?thesis
  proof (cases "node_t tc2 ?p")
    case (Some t)
    then have get: "makeStructTypeQuickly n name fs ck tc = Inr (t, tc2)"
      using trie by (simp add: makeStructTypeQuickly_def)
    have t: "6 \<le> t" "t < length (tc_types tc2)" "?p = desc_path tc2 (desc_at tc2 t)"
      using inv2 Some unfolding tc_inv_def by blast+
    note wf = tc_invD(2) [OF inv2 t(1,2)]
    have "desc_at tc2 t = StructDesc name fs"
    proof (cases "desc_at tc2 t")
      case (StructDesc name' gs)
      then have "struct_path tc2 name fs = struct_path tc2 name' gs" "known_ident tc2 name'" "fields_known tc2 gs"
        using t wf by (auto simp: fields_known_def list_all_iff)
      then show ?thesis
        using StructDesc fields_path_inj [OF inv2 len known] ident_at_inj [of tc2 name name'] kname inv2
        by (simp add: struct_path_def tc_inv_def)
    qed (use t(3) wf in \<open>auto simp: container_def\<close>)
    then show ?thesis using that get inv2 names_added_grown [OF n2] t by blast
  next
    case None
    let ?t = "length (tc_types tc)"
    let ?ty = "\<lambda>i. \<lparr>ty_Desc = StructDesc name fs, ty_oid = None, ty_id = i\<rparr>"
    define tc3 where "tc3 = tc2\<lparr>tc_types := tc_types tc @ [?ty 0]\<rparr>"
    define tc' where "tc' = set_node_t ?p ?t (tc2\<lparr>tc_nextId := tc_nextId tc + 1, tc_types := tc_types tc @ [?ty (tc_nextId tc)]\<rparr>)"
    have names3: "known_ident tc3 = known_ident tc2" by (simp add: tc3_def known_ident_def [abs_def])
    then have wf3: "desc_wf tc3 u d \<longleftrightarrow> desc_wf tc2 u d" for u d by (cases d) simp_all
    have "HasUnresolvedCycle n tc3 ?t = Inr False"
      unfolding HasUnresolvedCycle_def
    proof (rule no_unresolved_cycle [of tc3])
      fix u assume "u < length (tc_types tc3)"
      moreover have "desc_wf tc3 ?t (StructDesc name fs)"
        using kname known by (simp add: names3 fields_known_def types2)
      ultimately show "(\<exists>k. desc_at tc3 u = PrimitiveDesc k) \<or> desc_wf tc3 u (desc_at tc3 u)"
        using tc_inv_no_cycles [OF inv2, of u] unfolding wf3
        by (cases "u = ?t") (auto simp: desc_at_def tc3_def nth_append types2)
    qed (use n in \<open>simp_all add: tc3_def\<close>)
    then have get: "makeStructTypeQuickly n name fs ck tc = Inr (?t, tc')"
      using trie None
      by (simp add: makeStructTypeQuickly_def newType_def nextTypeId_def set_type_def tc3_def tc'_def types2)
    have tc'_simps: "tc_types tc' = tc_types tc2 @ [?ty (tc_nextId tc2)]" "tc_nextId tc' = tc_nextId tc2 + 1"
      "tc_identTable tc' = tc_identTable tc2" by (simp_all add: tc'_def set_node_t_simps types2)
    have ids: "id_at tc' u = id_at tc2 u" if "u < length (tc_types tc2)" for u
      using that by (simp add: id_at_def tc'_simps nth_append)
    have names: "ident_at tc' = ident_at tc2" "known_ident tc' = known_ident tc2"
      by (simp_all add: ident_at_def [abs_def] known_ident_def [abs_def] tc'_simps)
    have "fields_path tc' fs = fields_path tc2 fs"
      using known by (intro fields_path_cong) (auto simp: names ids fields_known_def list_all_iff)
    then have path': "desc_path tc' (StructDesc name fs) = ?p" by (simp add: struct_path_def names)
    have has2: "has_node (tc2\<lparr>tc_nextId := Y, tc_types := X\<rparr>) ?p" for X Y
      using has [unfolded path] by (simp add: has_node_def)
    have "tc_inv tc' \<and> grown tc2 tc'"
    proof (rule tc_inv_add [OF inv2])
      show "tc_types tc' = tc_types tc2 @ [?ty (tc_nextId tc2)]" "tc_nextId tc' = tc_nextId tc2 + 1" by (rule tc'_simps)+
      show "idents_ok tc'" using inv2 by (simp add: tc_inv_def idents_ok_def tc'_simps names)
      show "known_ident tc' x \<and> ident_at tc' x = ident_at tc2 x" if "known_ident tc2 x" for x using that by (simp add: names)
      show "node_t tc' (k', q) = (if (k', q) = desc_path tc' (StructDesc name fs) then Some (length (tc_types tc2)) else node_t tc2 (k', q))" for k' q
        unfolding path' types2 by (simp only: tc'_def set_node_t_simps(4) [OF has2]) (simp add: node_t_def)
      show "node_t tc2 (desc_path tc' (StructDesc name fs)) = None" unfolding path' by (rule None)
      show "desc_wf tc' (length (tc_types tc2)) (StructDesc name fs)"
        using kname known by (simp add: names fields_known_def)
    qed
    moreover have "desc_at tc' ?t = StructDesc name fs" by (simp add: desc_at_def tc'_simps types2)
    moreover have "6 \<le> ?t" "?t < length (tc_types tc')" using inv by (simp_all add: tc'_simps types2 tc_inv_def)
    ultimately show ?thesis using that get grown_trans [OF names_added_grown [OF n2]] by blast
  qed
qed

subsection \<open>Union types\<close>

text \<open>\<open>oid_only tc tc'\<close>: only order ids have changed.\<close>

definition oid_only :: "TypeCache \<Rightarrow> TypeCache \<Rightarrow> bool" where
  "oid_only tc tc' \<longleftrightarrow> tc' = tc\<lparr>tc_types := tc_types tc'\<rparr>
     \<and> list_all2 (\<lambda>a b. ty_Desc b = ty_Desc a \<and> ty_id b = ty_id a) (tc_types tc) (tc_types tc')"

lemma oid_only_refl [simp]: "oid_only tc tc"
  by (simp add: oid_only_def list_all2_refl)

lemma oid_only_trans: "oid_only a b \<Longrightarrow> oid_only b c \<Longrightarrow> oid_only a c"
  by (auto simp: oid_only_def list_all2_conv_all_nth) (metis TypeCache.surjective TypeCache.update_convs(1))

lemma oid_only_set_oid: "oid_only tc (set_oid t h tc)"
  by (cases "t < length (tc_types tc)") (auto simp: oid_only_def set_oid_def set_type_def list_all2_conv_all_nth nth_list_update)

lemma foldM_res_rel:
  assumes "\<And>s x s'. x \<in> set xs \<Longrightarrow> f s x = Inr s' \<Longrightarrow> R s s'" "\<And>s. R s s" "\<And>a b c. R a b \<Longrightarrow> R b c \<Longrightarrow> R a c"
    "foldM_res f s xs = Inr s'"
  shows "R s s'"
  using assms(1,4)
proof (induction xs arbitrary: s)
  case (Cons x xs)
  then obtain s1 where s1: "f s x = Inr s1" "foldM_res f s1 xs = Inr s'" by (auto simp: rbind_eq_Inr)
  have "R s s1" by (rule Cons.prems(1) [OF _ s1(1)]) simp
  moreover have "R s1 s'" by (rule Cons.IH [OF _ s1(2)]) (rule Cons.prems(1), simp_all)
  ultimately show ?case by (rule assms(3))
qed (use assms(2) in simp)

lemma foldM_oid_only:
  assumes "foldM_res f s xs = Inr s'" "\<And>s x s'. x \<in> set xs \<Longrightarrow> f s x = Inr s' \<Longrightarrow> oid_only (fst s) (fst s')"
  shows "oid_only (fst s) (fst s')"
  by (rule foldM_res_rel [where R = "\<lambda>s s'. oid_only (fst s) (fst s')", OF assms(2) _ _ assms(1)]) (auto intro: oid_only_trans)

lemma member_oid_only:
  assumes "\<And>t s s'. encode t s = Inr s' \<Longrightarrow> oid_only (fst s) (fst s')" "member_oid encode check ps s t = Inr s'"
  shows "oid_only (fst s) (fst s')"
  using assms(2) by (cases s)
    (auto simp: member_oid_def rbind_eq_Inr Let_def split: option.splits if_splits prod.splits
      intro: oid_only_trans [OF _ oid_only_set_oid] dest!: assms(1))

lemma encodeForOID_only: "encodeForOID n allow rt ps t s = Inr s' \<Longrightarrow> oid_only (fst s) (fst s')"
proof (induction n arbitrary: ps t s s')
  case (Suc n)
  obtain tc buf where s: "s = (tc, buf)" by fastforce
  obtain ty where ty: "ty_at tc t = Inr ty" using Suc.prems by (auto simp: s rbind_eq_Inr)
  show ?case
  proof (cases "ty_Desc ty")
    case (CompoundDesc k ts)
    have a: "oid_only (fst x) (fst y)"
      if "foldM_res (\<lambda>s tt. encodeForOID n allow rt ps tt s) x ts = Inr y" for x y
      by (rule foldM_oid_only [OF that]) (auto intro: Suc.IH)
    have b: "oid_only (fst x) (fst y)"
      if "foldM_res (member_oid (encodeForOID n allow rt ps) ch ps) x ts = Inr y" for x y ch
      by (rule foldM_oid_only [OF that]) (auto intro: member_oid_only [OF Suc.IH])
    show ?thesis using Suc.prems
      by (auto simp: s ty CompoundDesc rbind_eq_Inr split: if_splits dest!: a b)
  next
    case (StructDesc name fs)
    have a: "oid_only (fst x) (fst y)"
      if "foldM_res (\<lambda>(tc, buf) f. rbind (writeString (fst f) buf) (\<lambda>buf. encodeForOID n allow rt (ps @ [t]) (snd f) (tc, buf))) x fs = Inr y"
      for x y
      by (rule foldM_oid_only [OF that]) (auto simp: rbind_eq_Inr dest!: Suc.IH)
    show ?thesis using Suc.prems
      by (auto simp: s ty StructDesc rbind_eq_Inr split: option.splits dest!: a)
  qed (use Suc.prems ty in \<open>auto simp: s rbind_eq_Inr split: if_splits\<close>)
qed simp

lemma generateOID_only: "generateOID n allow t tc = Inr tc' \<Longrightarrow> oid_only tc tc'"
  by (auto simp: generateOID_def rbind_eq_Inr split: if_splits prod.splits
      intro: oid_only_trans [OF _ oid_only_set_oid] dest!: encodeForOID_only)

lemma foldM_res_inv:
  assumes "foldM_res f s xs = Inr s'" "P s" "\<And>s x s'. x \<in> set xs \<Longrightarrow> P s \<Longrightarrow> f s x = Inr s' \<Longrightarrow> P s'"
  shows "P s'"
  using assms
proof (induction xs arbitrary: s)
  case (Cons x xs)
  then obtain s1 where s1: "f s x = Inr s1" "foldM_res f s1 xs = Inr s'" by (auto simp: rbind_eq_Inr)
  have "P s1" by (rule Cons.prems(3) [OF _ Cons.prems(2) s1(1)]) simp
  then show ?case by (rule Cons.IH [OF s1(2)]) (rule Cons.prems(3), simp_all)
qed simp

lemma oid_only_inv:
  assumes "oid_only tc tc'" "tc_inv tc"
  shows "tc_inv tc'" "grown tc tc'" "length (tc_types tc') = length (tc_types tc)"
proof -
  have tc': "tc' = tc\<lparr>tc_types := tc_types tc'\<rparr>" and types: "list_all2 (\<lambda>a b. ty_Desc b = ty_Desc a \<and> ty_id b = ty_id a) (tc_types tc) (tc_types tc')"
    using assms(1) by (simp_all add: oid_only_def)
  have same: "tc_identTable tc' = tc_identTable tc" "tc_nextId tc' = tc_nextId tc" "tc_trieRoots tc' = tc_trieRoots tc"
    by (subst tc', simp)+
  then have look: "node_t tc' (k, q) = node_t tc (k, q)" "known_ident tc' = known_ident tc" "ident_at tc' = ident_at tc" for k q
    by (simp_all add: node_t_def known_ident_def [abs_def] ident_at_def [abs_def])
  show len: "length (tc_types tc') = length (tc_types tc)" using types by (simp add: list_all2_lengthD)
  show g: "grown tc tc'" using types by (simp add: grown_def look id_at_def list_all2_conv_all_nth)
  show "tc_inv tc'"
    by (rule tc_inv_same [OF assms(2) g len]) (use assms(2) in \<open>simp_all add: look same tc_inv_def idents_ok_def\<close>)
qed

lemma flatten_valid:
  "tc_inv tc \<Longrightarrow> list_all (\<lambda>t. t < length (tc_types tc)) ts \<Longrightarrow> flattenUnionTypes n tc ts seen = Inr (us, seen')
    \<Longrightarrow> list_all (\<lambda>t. t < length (tc_types tc)) us"
proof (induction n arbitrary: ts seen us seen')
  case (Suc n)
  have sub: "list_all (\<lambda>t. t < length (tc_types tc)) vs"
    if "t < length (tc_types tc)" "ty_Desc (tc_types tc ! t) = CompoundDesc UnionKind vs" for t vs
    using tc_inv_no_cycles [OF Suc.prems(1) that(1)] that by (auto simp: desc_at_def list_all_iff)
  have "list_all (\<lambda>t. t < length (tc_types tc)) (fst (us, seen'))"
  proof (rule foldM_res_inv [where P = "\<lambda>s. list_all (\<lambda>t. t < length (tc_types tc)) (fst s)", OF Suc.prems(3) [simplified]])
    fix s t s'
    assume t: "t \<in> set ts" and s: "list_all (\<lambda>t. t < length (tc_types tc)) (fst s)"
      and step: "(\<lambda>(ts2, seen) t. rbind (ty_at tc t) (\<lambda>ty. case ty_Desc ty of
             CompoundDesc UnionKind us \<Rightarrow>
               rbind (flattenUnionTypes n tc us seen) (\<lambda>(us2, seen). Inr (ts2 @ us2, seen))
           | _ \<Rightarrow>
               rbind (type_Hash n tc t) (\<lambda>h.
                 if h \<notin> seen then Inr (ts2 @ [t], insert h seen) else Inr (ts2, seen)))) s t = Inr s'"
    have tv: "t < length (tc_types tc)" using Suc.prems(2) t by (simp add: list_all_iff)
    show "list_all (\<lambda>t. t < length (tc_types tc)) (fst s')"
    proof (cases "\<exists>vs. ty_Desc (tc_types tc ! t) = CompoundDesc UnionKind vs")
      case True
      then obtain vs where vs: "ty_Desc (tc_types tc ! t) = CompoundDesc UnionKind vs" by blast
      show ?thesis using step s tv vs Suc.IH [OF Suc.prems(1) sub [OF tv vs]]
        by (auto simp: rbind_eq_Inr split: prod.splits)
    next
      case False
      then show ?thesis using step s tv
        by (auto simp: rbind_eq_Inr split: prod.splits TypeDesc.splits NomsKind.splits if_splits)
    qed
  qed simp
  then show ?case by simp
qed simp

lemma makeUnionType_inv:
  assumes inv: "tc_inv tc" and len: "length (tc_types tc) < 2 ^ 31" and valid: "list_all (\<lambda>t. t < length (tc_types tc)) ts"
    and made: "makeUnionType n ts tc = Inr (t, tc')"
  shows "tc_inv tc'" "grown tc tc'" "t < length (tc_types tc')"
proof -
  obtain us seen where flat: "flattenUnionTypes n tc ts {} = Inr (us, seen)"
    and rest: "(case us of [t] \<Rightarrow> Inr (t, tc)
       | _ \<Rightarrow> rbind (foldM_res (\<lambda>tc tt. generateOID n True tt tc) tc us) (\<lambda>tc.
           rbind (sort_types tc us) (\<lambda>ts. getCompoundType UnionKind ts tc))) = Inr (t, tc')"
    using made by (auto simp: makeUnionType_def rbind_eq_Inr)
  have us: "list_all (\<lambda>t. t < length (tc_types tc)) us" by (rule flatten_valid [OF inv valid flat])
  have "tc_inv tc' \<and> grown tc tc' \<and> t < length (tc_types tc')"
  proof (cases "\<exists>u. us = [u]")
    case True
    then show ?thesis using rest us inv by (auto intro: grown_refl)
  next
    case False
    then obtain tc1 vs where oids: "foldM_res (\<lambda>tc tt. generateOID n True tt tc) tc us = Inr tc1"
      and sorted: "sort_types tc1 us = Inr vs" and get: "getCompoundType UnionKind vs tc1 = Inr (t, tc')"
      using rest by (auto simp: rbind_eq_Inr split: list.splits)
    have "oid_only tc tc1"
      by (rule foldM_res_rel [OF generateOID_only oid_only_refl oid_only_trans oids])
    note tc1 = oid_only_inv [OF this inv]
    have "set vs = set us" using sorted by (auto simp: sort_types_def rbind_eq_Inr split: if_splits)
    then have vs: "list_all (\<lambda>t. t < length (tc_types tc1)) vs" using us tc1(3) by (simp add: list_all_iff)
    have "container UnionKind (length vs)" by (simp add: container_def)
    from getCompoundType_inv [OF tc1(1) _ this vs] len tc1(3) get grown_trans [OF tc1(2)] show ?thesis by auto
  qed
  then show "tc_inv tc'" "grown tc tc'" "t < length (tc_types tc')" by simp_all
qed

subsection \<open>Caches made by the operations\<close>

text \<open>
  The caches the operations make from a new one, for types without unresolved cycles: compound types,
  unions, and structs whose field types are all resolved. \<open>n\<close> is the stack depth.
\<close>

inductive types_made :: "TypeCache \<Rightarrow> bool" where
  made_new: "types_made NewTypeCache"
| made_compound: "types_made tc \<Longrightarrow> length (tc_types tc) < 2 ^ 31 \<Longrightarrow> container k (length ts) \<Longrightarrow>
    list_all (\<lambda>t. t < length (tc_types tc)) ts \<Longrightarrow> getCompoundType k ts tc = Inr (t, tc') \<Longrightarrow> types_made tc'"
| made_union: "types_made tc \<Longrightarrow> length (tc_types tc) < 2 ^ 31 \<Longrightarrow> list_all (\<lambda>t. t < length (tc_types tc)) ts \<Longrightarrow>
    makeUnionType n ts tc = Inr (t, tc') \<Longrightarrow> types_made tc'"
| made_struct: "types_made tc \<Longrightarrow> room tc (length fs + 1) \<Longrightarrow> length (tc_types tc) < n \<Longrightarrow>
    list_all (\<lambda>f. snd f < length (tc_types tc)) fs \<Longrightarrow> makeStructTypeQuickly n name fs ck tc = Inr (t, tc') \<Longrightarrow> types_made tc'"

lemma types_made_inv: "types_made tc \<Longrightarrow> tc_inv tc"
proof (induction rule: types_made.induct)
  case made_new
  show ?case by (rule tc_inv_New)
next
  case (made_compound tc k ts t tc')
  from getCompoundType_inv [OF made_compound.IH made_compound.hyps(2-4)] made_compound.hyps(5) show ?case by auto
next
  case (made_union tc ts n t tc')
  then show ?case by (blast intro: makeUnionType_inv(1))
next
  case (made_struct tc fs n name ck t tc')
  from makeStructTypeQuickly_inv [OF made_struct.IH made_struct.hyps(2-4), of name ck] made_struct.hyps(5) show ?case by auto
qed

lemma desc_at_inj_all:
  assumes inv: "tc_inv tc" and t: "t < length (tc_types tc)" "u < length (tc_types tc)" and eq: "desc_at tc t = desc_at tc u"
  shows "t = u"
proof -
  have inj6: "\<forall>t < 6. \<forall>u < 6. ty_Desc (prim_types ! t) = ty_Desc (prim_types ! u) \<longrightarrow> t = u"
    by (simp add: all_less_6 prim_types_def makePrimitiveType_def)
  have big: "\<not> desc_wf tc v (PrimitiveDesc k)" for v k by simp
  consider "t < 6" "u < 6" | "6 \<le> t" "6 \<le> u" | "t < 6" "6 \<le> u" | "6 \<le> t" "u < 6" by linarith
  then show ?thesis
  proof cases
    case 1
    then show ?thesis using inj6 eq tc_inv_prim [OF inv] by metis
  next
    case 2
    then show ?thesis using desc_at_inj [OF inv _ t(1) _ t(2) eq] by blast
  next
    case 3
    then show ?thesis using prim_found [OF inv] tc_invD(2) [OF inv _ t(2)] eq big by metis
  next
    case 4
    then show ?thesis using prim_found [OF inv] tc_invD(2) [OF inv _ t(1)] eq big by metis
  qed
qed

text \<open>The types a description refers to.\<close>

fun desc_parts :: "TypeDesc \<Rightarrow> tptr list" where
  "desc_parts (CompoundDesc k ts) = ts"
| "desc_parts (StructDesc name fs) = map snd fs"
| "desc_parts _ = []"

lemma fold_Traverse_types:
  "foldM_res (\<lambda>(trie, tc) t. rbind (ty_at tc t) (\<lambda>ty. Inr (tc_Traverse trie (ty_id ty) tc))) s ts = Inr s'
    \<Longrightarrow> tc_types (snd s') = tc_types (snd s)"
  by (rule foldM_res_rel [where R = "\<lambda>s s'. tc_types (snd s') = tc_types (snd s)"])
     (auto simp: rbind_eq_Inr dest: tc_Traverse_simps(2))

lemma getCompoundType_length:
  "getCompoundType k ts tc = Inr (t, tc') \<Longrightarrow> length (tc_types tc') \<le> Suc (length (tc_types tc))"
  by (auto simp: getCompoundType_def rbind_eq_Inr Let_def newType_def nextTypeId_def set_node_t_simps
      dest!: fold_Traverse_types split: option.splits prod.splits)

text \<open>
  C30. The type cache interns types: in a cache made by its operations for compound types, unions and structs, cycle
  types and so recursive structs excluded, no two type objects have the same
  description, or the same id while the cache has fewer than \<open>2 ^ 31\<close> types, and the parts of a type are
  type objects made before it. So equality of types without cycles is equality of pointers, which is what
  \<open>Equals\<close> compares first.
\<close>

theorem types_interned:
  assumes "types_made tc" "t < length (tc_types tc)" "u < length (tc_types tc)"
  shows "(ty_Desc (tc_types tc ! t) = ty_Desc (tc_types tc ! u) \<longleftrightarrow> t = u)
    \<and> (length (tc_types tc) < 2 ^ 31 \<longrightarrow> (ty_id (tc_types tc ! t) = ty_id (tc_types tc ! u) \<longleftrightarrow> t = u))
    \<and> set (desc_parts (ty_Desc (tc_types tc ! t))) \<subseteq> {..< t}"
proof -
  note inv = types_made_inv [OF assms(1)]
  have "set (desc_parts (desc_at tc t)) \<subseteq> {..< t}"
    using tc_inv_no_cycles [OF inv assms(2)] by (cases "desc_at tc t") (auto simp: list_all_iff)
  then show ?thesis
    using desc_at_inj_all [OF inv assms(2,3)] id_at_inj [OF inv _ assms(2,3)] by (auto simp: desc_at_def id_at_def)
qed

text \<open>The cache with the type \<open>List<Number>\<close>.\<close>

lemma made_list_type:
  obtains t tc where "getCompoundType ListKind [NumberType] NewTypeCache = Inr (t, tc)" "types_made tc" "tc_inv tc" "6 \<le> t"
    "t < length (tc_types tc)" "length (tc_types tc) < 2 ^ 31" "desc_at tc t = CompoundDesc ListKind [NumberType]" "grown NewTypeCache tc"
proof -
  have new: "length (tc_types NewTypeCache) < 2 ^ 31" "container ListKind (length [NumberType])"
    "list_all (\<lambda>t. t < length (tc_types NewTypeCache)) [NumberType]"
    by (simp_all add: NewTypeCache_def prim_types_def container_def NumberType_def)
  obtain t tc where made: "getCompoundType ListKind [NumberType] NewTypeCache = Inr (t, tc)" "tc_inv tc" "grown NewTypeCache tc"
    "6 \<le> t" "t < length (tc_types tc)" "desc_at tc t = CompoundDesc ListKind [NumberType]"
    using getCompoundType_inv [OF tc_inv_New new] by blast
  have "types_made tc" by (rule made_compound [OF made_new new made(1)])
  moreover have "length (tc_types tc) \<le> Suc (length (tc_types NewTypeCache))"
    by (rule getCompoundType_length [OF made(1)])
  ultimately show ?thesis using that made new(1) by (simp add: NewTypeCache_def prim_types_def)
qed

theorem types_interned_witness:
  "\<exists>t tc. getCompoundType ListKind [NumberType] NewTypeCache = Inr (t, tc)
    \<and> (ty_Desc (tc_types tc ! t) = ty_Desc (tc_types tc ! NumberType) \<longleftrightarrow> t = NumberType)
    \<and> set (desc_parts (ty_Desc (tc_types tc ! t))) \<subseteq> {..< t}"
proof -
  obtain t tc where made: "getCompoundType ListKind [NumberType] NewTypeCache = Inr (t, tc)" "types_made tc" "tc_inv tc" "6 \<le> t"
    "t < length (tc_types tc)" by (rule made_list_type)
  have "NumberType < length (tc_types tc)" using made(4,5) by (simp add: NumberType_def)
  from types_interned [OF made(2,5) this] made(1) show ?thesis by blast
qed

lemma appends_data:
  assumes "appends f bs" "length bs + 20 \<le> 2 ^ 31" "wr_ok w" "written w = []"
  shows "rbind (f w) wr_data = Inr bs"
proof -
  have "length (written w) + length bs + 20 \<le> 2 ^ 31" using assms(2,4) by simp
  from appendsD [OF assms(1,3) this] obtain w' where "f w = Inr w'" "wr_ok w'" "written w' = written w @ bs" .
  then show ?thesis using assms(4) by (simp add: wr_data_written)
qed

lemma ensureTypeSerialization_bytes:
  assumes "shape tc [] t e" "length (tbytes e) \<le> n" "length (tbytes e) + 20 \<le> 2 ^ 31"
  shows "ensureTypeSerialization n tc t = Inr (tbytes e)"
  unfolding ensureTypeSerialization_def
  by (rule appends_data [OF writeType_appends [OF assms(1,2)] assms(3)])
     (auto simp: wr_ok_def written_def initialTypeBufferSize_def intro!: exI [of _ 7])

definition type_decoder :: "TypeCache \<Rightarrow> bytes \<Rightarrow> valueDecoder" where
  "type_decoder tc bs = \<lparr>vd_reader = \<lparr>rd_buff = bs, rd_offset = 0\<rparr>, vd_tc = tc, vd_typeDepth = 0, vd_validating = False\<rparr>"

lemma shape_det: "shape tc ps t e \<Longrightarrow> shape tc ps t e' \<Longrightarrow> e = e'"
proof (induction ps t e arbitrary: e' rule: shape.induct)
  case (prim t k ps)
  from prim(4) show ?case by cases (use prim(2) in simp_all)
next
  case (cycle t i ps)
  from cycle(3) show ?case by cases (use cycle(2) in simp_all)
next
  case (compound t k ts ps es)
  from compound(5) show ?case
  proof cases
    case (compound k' ts' es')
    have ih: "list_all2 (\<lambda>t e. \<forall>e'. shape tc ps t e' \<longrightarrow> e = e') ts es"
      by (rule list_all2_mono [OF \<open>list_all2 _ ts es\<close>]) blast
    have "es = es'"
      using ih compound(3,5) \<open>ty_Desc (tc_types tc ! t) = CompoundDesc k ts\<close>
      by (auto simp: list_all2_conv_all_nth intro: nth_equalityI)
    then show ?thesis using compound(1,3) \<open>ty_Desc (tc_types tc ! t) = CompoundDesc k ts\<close> by simp
  qed (use compound(2) in simp_all)
next
  case (struct t name fs ps es)
  from struct(5) show ?case
  proof cases
    case (struct name' fs' es')
    have ih: "list_all2 (\<lambda>f e. fst f = fst e \<and> (\<forall>e'. shape tc (ps @ [t]) (snd f) e' \<longrightarrow> snd e = e')) fs es"
      by (rule list_all2_mono [OF \<open>list_all2 _ fs es\<close>]) blast
    have "es = es'"
      using ih struct(3,5) \<open>ty_Desc (tc_types tc ! t) = StructDesc name fs\<close>
      by (auto simp: list_all2_conv_all_nth prod_eq_iff intro!: nth_equalityI)
    then show ?thesis using struct(1,3) \<open>ty_Desc (tc_types tc ! t) = StructDesc name fs\<close> by simp
  qed (use struct(2,3) in simp_all)
next
  case (back_ref t name fs ps i)
  from back_ref(4) show ?case by cases (use back_ref(2,3) in simp_all)
qed

text \<open>
  C31. Types survive being written and read back as the same object. A type of a cache made by its
  operations, none of them on cycle types, stands for a type expression; \<open>ensureTypeSerialization\<close> gives the bytes of that expression, and
  reading these (followed by any other bytes) with the same cache gives the pointer they were made from,
  leaves the cache as it was and stops at the end of the bytes. The bounds are those of the buffers: \<open>2 ^ 31\<close>
  bytes for writing, \<open>2 ^ 32\<close> for reading, and a stack at least as deep as the bytes are long.
\<close>

theorem type_roundtrip:
  assumes "types_made tc" "t < length (tc_types tc)"
  shows "\<exists>e. shape tc [] t e \<and> (\<forall>n \<ge> length (tbytes e).
    (length (tbytes e) + 20 \<le> 2 ^ 31 \<longrightarrow> ensureTypeSerialization n tc t = Inr (tbytes e))
    \<and> (\<forall>xs. length (tbytes e @ xs) < 2 ^ 32 \<longrightarrow>
         (\<exists>r. readType n (type_decoder tc (tbytes e @ xs)) = Inr (t, r) \<and> vd_tc r = tc \<and> rest_of (vd_reader r) = xs)))"
proof -
  obtain e where e: "found tc e t" "shape tc [] t e"
    using tree_of_ex [OF types_made_inv [OF assms(1)] assms(2)] unfolding tree_of_def by fastforce
  have "\<exists>r. readType n (type_decoder tc (tbytes e @ xs)) = Inr (t, r) \<and> vd_tc r = tc \<and> rest_of (vd_reader r) = xs"
    if n: "length (tbytes e) \<le> n" and xs: "length (tbytes e @ xs) < 2 ^ 32" for n xs
  proof -
    let ?r = "type_decoder tc (tbytes e @ xs)"
    have r: "vd_tc ?r = tc" "\<not> vd_validating ?r" "rd_ok (vd_reader ?r)" "rest_of (vd_reader ?r) = tbytes e @ xs"
      using xs by (simp_all add: type_decoder_def rd_ok_def rest_of_def)
    show ?thesis using decodesD [OF readType_decodes [OF e(1) n] r] rd_skip_ok(2) [OF r(3,4)] r(1) by simp
  qed
  then show ?thesis using e(2) ensureTypeSerialization_bytes [OF e(2)] by blast
qed

theorem type_roundtrip_witness:
  "\<exists>t tc r. getCompoundType ListKind [NumberType] NewTypeCache = Inr (t, tc)
    \<and> ensureTypeSerialization 2 tc t = Inr [kind_code ListKind, kind_code NumberKind]
    \<and> readType 2 (type_decoder tc [kind_code ListKind, kind_code NumberKind, 7]) = Inr (t, r)
    \<and> vd_tc r = tc \<and> rest_of (vd_reader r) = [7]"
proof -
  obtain t tc where made: "getCompoundType ListKind [NumberType] NewTypeCache = Inr (t, tc)" "types_made tc" "tc_inv tc" "6 \<le> t"
    "t < length (tc_types tc)" "desc_at tc t = CompoundDesc ListKind [NumberType]" by (rule made_list_type) blast
  have num: "NumberType < length (tc_types tc)" "ty_Desc (tc_types tc ! NumberType) = PrimitiveDesc NumberKind"
    using tc_inv_prim [OF made(3), of 1] made(4,5) by (simp_all add: NumberType_def desc_at_def prim_types_def makePrimitiveType_def)
  have "shape tc [] NumberType (EPrim NumberKind)" by (rule shape.prim [OF num]) (simp add: IsPrimitiveKind_def)
  then have sh: "shape tc [] t (ECompound ListKind [EPrim NumberKind])"
    using made(5,6) by (intro shape.compound [where ts = "[NumberType]"]) (simp_all add: desc_at_def container_def)
  obtain e where e: "shape tc [] t e" "\<forall>n \<ge> length (tbytes e).
    (length (tbytes e) + 20 \<le> 2 ^ 31 \<longrightarrow> ensureTypeSerialization n tc t = Inr (tbytes e))
    \<and> (\<forall>xs. length (tbytes e @ xs) < 2 ^ 32 \<longrightarrow>
         (\<exists>r. readType n (type_decoder tc (tbytes e @ xs)) = Inr (t, r) \<and> vd_tc r = tc \<and> rest_of (vd_reader r) = xs))"
    using type_roundtrip [OF made(2,5)] by blast
  have bytes: "tbytes e = [kind_code ListKind, kind_code NumberKind]" using shape_det [OF e(1) sh] by simp
  have "ensureTypeSerialization 2 tc t = Inr (tbytes e)" using e(2) [rule_format, of 2] bytes by simp
  moreover have "\<exists>r. readType 2 (type_decoder tc (tbytes e @ [7])) = Inr (t, r) \<and> vd_tc r = tc \<and> rest_of (vd_reader r) = [7]"
    using e(2) [rule_format, of 2] bytes by simp
  ultimately show ?thesis using made(1) bytes by auto
qed

end
