(* ===== verification/ValueCodec.thy ===== *)
theory ValueCodec
  imports Values TypeIntern
begin

text \<open>
  Encoding of values (\<open>value_encoder.go\<close>, \<open>value_decoder.go\<close>, \<open>EncodeValue\<close> and \<open>DecodeValue\<close> of \<open>codec.go\<close>,
  \<open>getHash\<close>). The encoder and the decoder share one type cache, the static one in the program. The first
  argument of the recursive functions is the depth of the stack. Decoding returns the encoded value, with
  unwritten children of prolly trees dropped and their keys normalised; and there are bytes on which
  decoding never ends.
\<close>

subsection \<open>The encoder\<close>

text \<open>
  The state of the encoder: its writer, the type cache, and the values handed to \<open>vw.WriteValue\<close> so far.
  Whether \<open>vw\<close> is nil is an argument.
\<close>

record valueEncoder =
  ve_w :: binaryNomsWriter
  ve_tc :: TypeCache
  ve_written :: "Value list"

definition newValueEncoder :: "binaryNomsWriter \<Rightarrow> TypeCache \<Rightarrow> valueEncoder" where
  "newValueEncoder w tc = \<lparr>ve_w = w, ve_tc = tc, ve_written = []\<rparr>"

definition wr :: "(binaryNomsWriter \<Rightarrow> binaryNomsWriter res) \<Rightarrow> valueEncoder \<Rightarrow> valueEncoder res" where
  "wr f e = rbind (f (ve_w e)) (\<lambda>w. Inr (e\<lparr>ve_w := w\<rparr>))"

definition wr_tc :: "(TypeCache \<Rightarrow> binaryNomsWriter \<Rightarrow> binaryNomsWriter res) \<Rightarrow> valueEncoder \<Rightarrow> valueEncoder res" where
  "wr_tc f e = wr (f (ve_tc e)) e"

definition ebind :: "(valueEncoder \<Rightarrow> valueEncoder res) \<Rightarrow> (valueEncoder \<Rightarrow> valueEncoder res) \<Rightarrow> valueEncoder \<Rightarrow> valueEncoder res" where
  "ebind f g e = rbind (f e) g"

definition writeRef :: "Ref \<Rightarrow> valueEncoder \<Rightarrow> valueEncoder res" where
  "writeRef r = ebind (wr (writeHash (ref_target r))) (wr (writeUint64 (ref_height r)))"

definition writeBlobLeafSequence :: "bytes \<Rightarrow> valueEncoder \<Rightarrow> valueEncoder res" where
  "writeBlobLeafSequence dat = wr (writeBytes dat)"

definition writeValueSlice :: "(Value \<Rightarrow> valueEncoder \<Rightarrow> valueEncoder res) \<Rightarrow> Value list \<Rightarrow> valueEncoder \<Rightarrow> valueEncoder res" where
  "writeValueSlice writeValue values =
     ebind (wr (writeUint32 (of_nat (length values)))) (\<lambda>e. foldM_res (\<lambda>e v. writeValue v e) e values)"

definition writeListLeafSequence :: "(Value \<Rightarrow> valueEncoder \<Rightarrow> valueEncoder res) \<Rightarrow> Value list \<Rightarrow> valueEncoder \<Rightarrow> valueEncoder res" where
  "writeListLeafSequence writeValue vs = writeValueSlice writeValue vs"

definition writeSetLeafSequence :: "(Value \<Rightarrow> valueEncoder \<Rightarrow> valueEncoder res) \<Rightarrow> Value list \<Rightarrow> valueEncoder \<Rightarrow> valueEncoder res" where
  "writeSetLeafSequence writeValue vs = writeValueSlice writeValue vs"

definition writeMapLeafSequence ::
    "(Value \<Rightarrow> valueEncoder \<Rightarrow> valueEncoder res) \<Rightarrow> (Value \<times> Value) list \<Rightarrow> valueEncoder \<Rightarrow> valueEncoder res" where
  "writeMapLeafSequence writeValue es =
     ebind (wr (writeUint32 (of_nat (length es))))
       (\<lambda>e. foldM_res (\<lambda>e entry. ebind (writeValue (fst entry)) (writeValue (snd entry)) e) e es)"

text \<open>The value that stands for the key of a meta tuple: itself, or a reference to its hash.\<close>

definition key_value :: "orderedKey \<Rightarrow> (Value, TypeCache) st" where
  "key_value key tc =
     (if \<not> ok_isOrderedByValue key
      then chk (\<not> IsEmpty (ok_h key))
             (rbind (MakeRefType BoolType tc) (\<lambda>(t, tc). rbind (constructRef tc t (ok_h key) 0) (\<lambda>r. Inr (RefV r, tc))))
      else case ok_v key of Some v \<Rightarrow> Inr (v, tc) | None \<Rightarrow> Inl NilDereference)"

definition writeMetaTuple :: "(Value \<Rightarrow> valueEncoder \<Rightarrow> valueEncoder res) \<Rightarrow> bool \<Rightarrow> metaTuple \<Rightarrow> valueEncoder \<Rightarrow> valueEncoder res" where
  "writeMetaTuple writeValue vw tuple e =
     (let e = (case mt_child tuple of
                 Some child \<Rightarrow> if vw then e\<lparr>ve_written := ve_written e @ [child]\<rparr> else e
               | None \<Rightarrow> e)
      in rbind (writeValue (RefV (mt_ref tuple)) e) (\<lambda>e.
         rbind (key_value (mt_key tuple) (ve_tc e)) (\<lambda>(v, tc).
         rbind (writeValue v (e\<lparr>ve_tc := tc\<rparr>)) (wr (writeUint64 (mt_numLeaves tuple))))))"

text \<open>\<open>maybeWriteMetaSequence\<close>, with what the caller does for a leaf sequence as the last argument.\<close>

definition maybeWriteMetaSequence ::
    "(Value \<Rightarrow> valueEncoder \<Rightarrow> valueEncoder res) \<Rightarrow> bool \<Rightarrow> sequence
      \<Rightarrow> (valueEncoder \<Rightarrow> valueEncoder res) \<Rightarrow> valueEncoder \<Rightarrow> valueEncoder res" where
  "maybeWriteMetaSequence writeValue vw seq leaf =
     (case seq of
        metaSequence tuples t \<Rightarrow>
          ebind (wr (writeBool True)) (ebind (wr (writeUint32 (of_nat (length tuples))))
            (\<lambda>e. foldM_res (\<lambda>e tuple. writeMetaTuple writeValue vw tuple e) e tuples))
      | _ \<Rightarrow> ebind (wr (writeBool False)) leaf)"

definition writeStruct :: "(Value \<Rightarrow> valueEncoder \<Rightarrow> valueEncoder res) \<Rightarrow> Value list \<Rightarrow> valueEncoder \<Rightarrow> valueEncoder res" where
  "writeStruct writeValue vs e = foldM_res (\<lambda>e v. writeValue v e) e vs"

text \<open>The switch of \<open>writeValue\<close> on the kind of the type; the type assertions panic if they fail.\<close>

definition conversion_panic :: "valueEncoder \<Rightarrow> valueEncoder res" where
  "conversion_panic e = Inl (Panic ''interface conversion'')"

definition write_kind_of ::
    "nat \<Rightarrow> (Value \<Rightarrow> valueEncoder \<Rightarrow> valueEncoder res) \<Rightarrow> bool \<Rightarrow> NomsKind \<Rightarrow> Value \<Rightarrow> valueEncoder \<Rightarrow> valueEncoder res" where
  "write_kind_of n writeValue vw k v =
     (case k of
        BlobKind \<Rightarrow>
          (case v of Blob seq \<Rightarrow>
             maybeWriteMetaSequence writeValue vw seq
               (case seq of blobLeafSequence dat \<Rightarrow> writeBlobLeafSequence dat | _ \<Rightarrow> conversion_panic)
           | _ \<Rightarrow> conversion_panic)
      | BoolKind \<Rightarrow> (case v of Bool b \<Rightarrow> wr (writeBool b) | _ \<Rightarrow> conversion_panic)
      | NumberKind \<Rightarrow>
          (case v of Number f \<Rightarrow>
             (case f of Fin q \<Rightarrow> wr (writeNumber f) | _ \<Rightarrow> (\<lambda>e. Inl (Panic ''%f is not a supported number'')))
           | _ \<Rightarrow> conversion_panic)
      | ListKind \<Rightarrow>
          (case v of List seq \<Rightarrow>
             maybeWriteMetaSequence writeValue vw seq
               (case seq of listLeafSequence t vs \<Rightarrow> writeListLeafSequence writeValue vs | _ \<Rightarrow> conversion_panic)
           | _ \<Rightarrow> conversion_panic)
      | MapKind \<Rightarrow>
          (case v of Map seq \<Rightarrow>
             maybeWriteMetaSequence writeValue vw seq
               (case seq of mapLeafSequence t es \<Rightarrow> writeMapLeafSequence writeValue es | _ \<Rightarrow> conversion_panic)
           | _ \<Rightarrow> conversion_panic)
      | RefKind \<Rightarrow> (case v of RefV r \<Rightarrow> writeRef r | _ \<Rightarrow> conversion_panic)
      | SetKind \<Rightarrow>
          (case v of Set seq \<Rightarrow>
             maybeWriteMetaSequence writeValue vw seq
               (case seq of setLeafSequence t vs \<Rightarrow> writeSetLeafSequence writeValue vs | _ \<Rightarrow> conversion_panic)
           | _ \<Rightarrow> conversion_panic)
      | StringKind \<Rightarrow> (case v of String s \<Rightarrow> wr (writeString s) | _ \<Rightarrow> conversion_panic)
      | TypeKind \<Rightarrow> (case v of TypeV t \<Rightarrow> wr_tc (\<lambda>tc. writeType n tc [] t) | _ \<Rightarrow> conversion_panic)
      | StructKind \<Rightarrow> (case v of Struct t vs \<Rightarrow> writeStruct writeValue vs | _ \<Rightarrow> conversion_panic)
      | _ \<Rightarrow> (\<lambda>e. Inl ChkFailed))"

primrec writeValue :: "nat \<Rightarrow> bool \<Rightarrow> Value \<Rightarrow> valueEncoder \<Rightarrow> valueEncoder res" where
  "writeValue 0 = (\<lambda>vw v e. Inl Diverges)"
| "writeValue (Suc n) = (\<lambda>vw v e.
     rbind (ty_at (ve_tc e) (value_Type v)) (\<lambda>ty.
       ebind (wr_tc (\<lambda>tc. appendType n tc (value_Type v)))
         (write_kind_of n (writeValue n vw) vw (desc_Kind (ty_Desc ty)) v) e))"

definition EncodeValue :: "nat \<Rightarrow> bool \<Rightarrow> Value \<Rightarrow> TypeCache \<Rightarrow> (Chunk \<times> TypeCache \<times> Value list) res" where
  "EncodeValue n vw v tc =
     rbind (writeValue n vw v (newValueEncoder newBinaryNomsWriter tc)) (\<lambda>e.
     rbind (wr_data (ve_w e)) (\<lambda>dat. Inr (NewChunk (Some dat), ve_tc e, ve_written e)))"

definition getHashNoOverride :: "nat \<Rightarrow> Value \<Rightarrow> (hash, TypeCache) st" where
  "getHashNoOverride n v tc = rbind (EncodeValue n False v tc) (\<lambda>(c, tc, _). Inr (Chunk_Hash c, tc))"

subsection \<open>The decoder\<close>

definition readRef :: "tptr \<Rightarrow> (Ref, valueDecoder) st" where
  "readRef t =
     sbind (rd readHash) (\<lambda>h. sbind (rd readUint64) (\<lambda>height.
       on_tc (\<lambda>tc. rbind (constructRef tc t h height) (\<lambda>r. Inr (r, tc)))))"

definition readBlobLeafSequence :: "(sequence, valueDecoder) st" where
  "readBlobLeafSequence = sbind (rd readBytes) (\<lambda>b. sreturn (blobLeafSequence b))"

definition readValueSequence :: "(Value, valueDecoder) st \<Rightarrow> (Value list, valueDecoder) st" where
  "readValueSequence readValue = sbind (rd readUint32) (\<lambda>cnt. times_st (unat cnt) readValue)"

definition readListLeafSequence :: "(Value, valueDecoder) st \<Rightarrow> tptr \<Rightarrow> (sequence, valueDecoder) st" where
  "readListLeafSequence readValue t = sbind (readValueSequence readValue) (\<lambda>dat. sreturn (listLeafSequence t dat))"

definition readSetLeafSequence :: "(Value, valueDecoder) st \<Rightarrow> tptr \<Rightarrow> (sequence, valueDecoder) st" where
  "readSetLeafSequence readValue t = sbind (readValueSequence readValue) (\<lambda>dat. sreturn (setLeafSequence t dat))"

definition readMapLeafSequence :: "(Value, valueDecoder) st \<Rightarrow> tptr \<Rightarrow> (sequence, valueDecoder) st" where
  "readMapLeafSequence readValue t =
     sbind (rd readUint32) (\<lambda>cnt.
     sbind (times_st (unat cnt) (sbind readValue (\<lambda>k. sbind readValue (\<lambda>v. sreturn (k, v))))) (\<lambda>dat.
       sreturn (mapLeafSequence t dat)))"

text \<open>The key of a tuple: a reference stands for a hash; another value that is not ordered by value is hashed.\<close>

definition read_key :: "nat \<Rightarrow> Value \<Rightarrow> (orderedKey, valueDecoder) st" where
  "read_key n v =
     (case v of
        RefV r \<Rightarrow> sreturn (orderedKeyFromHash (ref_target r))
      | _ \<Rightarrow> if isKindOrderedByValue (value_Kind v) then sreturn (newOrderedKey (\<lambda>_. emptyHash) v)
             else sbind (on_tc (getHashNoOverride n v)) (\<lambda>h. sreturn (newOrderedKey (\<lambda>_. h) v)))"

definition readMetaTuple :: "nat \<Rightarrow> (Value, valueDecoder) st \<Rightarrow> (metaTuple, valueDecoder) st" where
  "readMetaTuple n readValue =
     sbind readValue (\<lambda>ref.
       case ref of
         RefV r \<Rightarrow>
           sbind readValue (\<lambda>v. sbind (read_key n v) (\<lambda>key. sbind (rd readUint64) (\<lambda>numLeaves.
             sreturn (metaTuple r key numLeaves None))))
       | _ \<Rightarrow> (\<lambda>r. Inl (Panic ''interface conversion'')))"

definition readMetaSequence :: "nat \<Rightarrow> (Value, valueDecoder) st \<Rightarrow> tptr \<Rightarrow> (sequence, valueDecoder) st" where
  "readMetaSequence n readValue t =
     sbind (rd readUint32) (\<lambda>cnt.
     sbind (times_st (unat cnt) (readMetaTuple n readValue)) (\<lambda>dat. sreturn (metaSequence dat t)))"

definition readStruct :: "(Value, valueDecoder) st \<Rightarrow> tptr \<Rightarrow> (bytes \<times> tptr) list \<Rightarrow> (Value, valueDecoder) st" where
  "readStruct readValue t fs = sbind (times_st (length fs) readValue) (\<lambda>vs. sreturn (Struct t vs))"

text \<open>The part common to the collections: the flag, and a meta sequence or the leaf sequence.\<close>

definition read_collection ::
    "nat \<Rightarrow> (Value, valueDecoder) st \<Rightarrow> tptr \<Rightarrow> (sequence \<Rightarrow> Value) \<Rightarrow> (sequence, valueDecoder) st \<Rightarrow> (Value, valueDecoder) st" where
  "read_collection n readValue t new leaf =
     sbind (rd readBool) (\<lambda>isMeta.
       if isMeta then sbind (readMetaSequence n readValue t) (\<lambda>seq. sreturn (new seq))
       else sbind leaf (\<lambda>seq. sreturn (new seq)))"

definition read_kind_of :: "nat \<Rightarrow> (Value, valueDecoder) st \<Rightarrow> tptr \<Rightarrow> TypeDesc \<Rightarrow> (Value, valueDecoder) st" where
  "read_kind_of n readValue t d =
     (case desc_Kind d of
        BlobKind \<Rightarrow> read_collection n readValue t Blob readBlobLeafSequence
      | BoolKind \<Rightarrow> sbind (rd readBool) (\<lambda>b. sreturn (Bool b))
      | NumberKind \<Rightarrow> sbind (rd readNumber) (\<lambda>f. sreturn (Number f))
      | StringKind \<Rightarrow> sbind (rd readString) (\<lambda>s. sreturn (String s))
      | ListKind \<Rightarrow> read_collection n readValue t List (readListLeafSequence readValue t)
      | MapKind \<Rightarrow> read_collection n readValue t Map (readMapLeafSequence readValue t)
      | RefKind \<Rightarrow> sbind (readRef t) (\<lambda>r. sreturn (RefV r))
      | SetKind \<Rightarrow> read_collection n readValue t Set (readSetLeafSequence readValue t)
      | StructKind \<Rightarrow>
          (case d of StructDesc name fs \<Rightarrow> readStruct readValue t fs | _ \<Rightarrow> (\<lambda>r. Inl (Panic ''interface conversion'')))
      | TypeKind \<Rightarrow> sbind (readType n) (\<lambda>u. sreturn (TypeV u))
      | _ \<Rightarrow> (\<lambda>r. Inl ChkFailed))"

definition desc_of :: "tptr \<Rightarrow> (TypeDesc, valueDecoder) st" where
  "desc_of t = on_tc (\<lambda>tc. rbind (ty_at tc t) (\<lambda>ty. Inr (ty_Desc ty, tc)))"

primrec readValue :: "nat \<Rightarrow> (Value, valueDecoder) st" where
  "readValue 0 = (\<lambda>r. Inl Diverges)"
| "readValue (Suc n) = sbind (readType n) (\<lambda>t. sbind (desc_of t) (read_kind_of n (readValue n) t))"

definition newValueDecoder :: "bytes \<Rightarrow> TypeCache \<Rightarrow> valueDecoder" where
  "newValueDecoder dat tc =
     \<lparr>vd_reader = \<lparr>rd_buff = dat, rd_offset = 0\<rparr>, vd_tc = tc, vd_typeDepth = 0, vd_validating = False\<rparr>"

definition newValueDecoderWithValidation :: "bytes \<Rightarrow> TypeCache \<Rightarrow> valueDecoder" where
  "newValueDecoderWithValidation dat tc = (newValueDecoder dat tc)\<lparr>vd_validating := True\<rparr>"

definition DecodeFromBytes :: "nat \<Rightarrow> bytes \<Rightarrow> (Value, TypeCache) st" where
  "DecodeFromBytes n dat tc =
     rbind (readValue n (newValueDecoder dat tc)) (\<lambda>(v, r).
       chk (rd_pos (vd_reader r) = of_nat (length dat)) (Inr (v, vd_tc r)))"

definition decodeFromBytesWithValidation :: "nat \<Rightarrow> bytes \<Rightarrow> (Value, TypeCache) st" where
  "decodeFromBytesWithValidation n dat tc =
     rbind (readValue n (newValueDecoderWithValidation dat tc)) (\<lambda>(v, r).
       chk (rd_pos (vd_reader r) = of_nat (length dat)) (Inr (v, vd_tc r)))"

definition DecodeValue :: "nat \<Rightarrow> Chunk \<Rightarrow> (Value, TypeCache) st" where
  "DecodeValue n c tc = chk (\<not> Chunk_IsEmpty c) (DecodeFromBytes n (Chunk_Data c) tc)"

end
