(* ===== verification/ValueRoundtrip.thy ===== *)
theory ValueRoundtrip
  imports ValueCodec
begin

text \<open>
  The format of encoded values as a relation, and that the encoder and the decoder both implement it.
\<close>

subsection \<open>What an encoder writes\<close>

text \<open>
  \<open>encodes tc f bs\<close>: with the cache \<open>tc\<close>, the operation \<open>f\<close> of the encoder writes \<open>bs\<close> and leaves the cache
  as it is.
\<close>

definition encodes :: "TypeCache \<Rightarrow> (valueEncoder \<Rightarrow> valueEncoder res) \<Rightarrow> bytes \<Rightarrow> bool" where
  "encodes tc f bs \<longleftrightarrow>
     (\<forall>e. ve_tc e = tc \<longrightarrow> wr_ok (ve_w e) \<longrightarrow> length (written (ve_w e)) + length bs + 20 \<le> 2 ^ 31 \<longrightarrow>
        (\<exists>e'. f e = Inr e' \<and> ve_tc e' = tc \<and> wr_ok (ve_w e') \<and> written (ve_w e') = written (ve_w e) @ bs))"

lemma encodesI:
  assumes "\<And>e. ve_tc e = tc \<Longrightarrow> wr_ok (ve_w e) \<Longrightarrow> length (written (ve_w e)) + length bs + 20 \<le> 2 ^ 31 \<Longrightarrow>
    \<exists>e'. f e = Inr e' \<and> ve_tc e' = tc \<and> wr_ok (ve_w e') \<and> written (ve_w e') = written (ve_w e) @ bs"
  shows "encodes tc f bs"
  using assms by (simp add: encodes_def)

lemma encodesD:
  assumes "encodes tc f bs" "ve_tc e = tc" "wr_ok (ve_w e)" "length (written (ve_w e)) + length bs + 20 \<le> 2 ^ 31"
  obtains e' where "f e = Inr e'" "ve_tc e' = tc" "wr_ok (ve_w e')" "written (ve_w e') = written (ve_w e) @ bs"
  using assms unfolding encodes_def by blast

lemma encodes_wr: "appends f bs \<Longrightarrow> encodes tc (wr f) bs"
  by (fastforce simp: appends_def encodes_def wr_def)

lemma encodes_wr_tc: "appends (f tc) bs \<Longrightarrow> encodes tc (wr_tc f) bs"
  by (fastforce simp: appends_def encodes_def wr_def wr_tc_def)

lemma encodes_ebind:
  assumes "encodes tc f bs" "encodes tc g cs"
  shows "encodes tc (ebind f g) (bs @ cs)"
proof (rule encodesI)
  fix e :: valueEncoder assume e: "ve_tc e = tc" "wr_ok (ve_w e)" "length (written (ve_w e)) + length (bs @ cs) + 20 \<le> 2 ^ 31"
  have "length (written (ve_w e)) + length bs + 20 \<le> 2 ^ 31" using e(3) by simp
  from encodesD [OF assms(1) e(1,2) this]
  obtain e1 where e1: "f e = Inr e1" "ve_tc e1 = tc" "wr_ok (ve_w e1)" "written (ve_w e1) = written (ve_w e) @ bs" .
  have "length (written (ve_w e1)) + length cs + 20 \<le> 2 ^ 31" using e(3) e1(4) by simp
  from encodesD [OF assms(2) e1(2,3) this]
  obtain e2 where "g e1 = Inr e2" "ve_tc e2 = tc" "wr_ok (ve_w e2)" "written (ve_w e2) = written (ve_w e1) @ cs" .
  then show "\<exists>e'. ebind f g e = Inr e' \<and> ve_tc e' = tc \<and> wr_ok (ve_w e') \<and> written (ve_w e') = written (ve_w e) @ bs @ cs"
    using e1 by (simp add: ebind_def)
qed

lemma encodes_foldM:
  assumes "list_all2 (\<lambda>x b. encodes tc (\<lambda>e. f e x) b) xs bss"
  shows "encodes tc (\<lambda>e. foldM_res f e xs) (concat bss)"
  using assms
proof (induction rule: list_all2_induct)
  case Nil
  show ?case by (simp add: encodes_def)
next
  case (Cons x xs b bss)
  show ?case using encodes_ebind [OF Cons(1,3)] by (simp add: ebind_def [abs_def])
qed

lemma encodes_log: "encodes tc f bs \<Longrightarrow> encodes tc (\<lambda>e. f (e\<lparr>ve_written := L e\<rparr>)) bs"
  unfolding encodes_def
proof (intro allI impI)
  fix e :: valueEncoder
  assume f: "\<forall>e. ve_tc e = tc \<longrightarrow> wr_ok (ve_w e) \<longrightarrow> length (written (ve_w e)) + length bs + 20 \<le> 2 ^ 31 \<longrightarrow>
        (\<exists>e'. f e = Inr e' \<and> ve_tc e' = tc \<and> wr_ok (ve_w e') \<and> written (ve_w e') = written (ve_w e) @ bs)"
    and e: "ve_tc e = tc" "wr_ok (ve_w e)" "length (written (ve_w e)) + length bs + 20 \<le> 2 ^ 31"
  show "\<exists>e'. f (e\<lparr>ve_written := L e\<rparr>) = Inr e' \<and> ve_tc e' = tc \<and> wr_ok (ve_w e') \<and> written (ve_w e') = written (ve_w e) @ bs"
    using f [rule_format, of "e\<lparr>ve_written := L e\<rparr>"] e by simp
qed

subsection \<open>The format\<close>

text \<open>The bytes of a type of the cache.\<close>

definition type_bytes :: "TypeCache \<Rightarrow> tptr \<Rightarrow> bytes \<Rightarrow> bool" where
  "type_bytes tc t tb \<longleftrightarrow>
     t < length (tc_types tc) \<and> (\<exists>x. shape tc [] t x \<and> found tc x t \<and> tb = tbytes x)"

lemma type_bytes_pos: "type_bytes tc t tb \<Longrightarrow> 0 < length tb"
  by (auto simp: type_bytes_def tbytes_pos)

lemma appends_bounded: "(length bs + 20 \<le> 2 ^ 31 \<Longrightarrow> appends f bs) \<Longrightarrow> appends f bs"
  by (cases "length bs + 20 \<le> 2 ^ 31") (auto simp: appends_def)

lemma appends_appendType:
  assumes "type_bytes tc t tb" "length tb \<le> n"
  shows "appends (appendType n tc t) tb"
proof (rule appends_bounded)
  assume small: "length tb + 20 \<le> 2 ^ 31"
  obtain x where x: "shape tc [] t x" "tb = tbytes x" using assms(1) by (auto simp: type_bytes_def)
  have "ensureTypeSerialization n tc t = Inr tb"
    using ensureTypeSerialization_bytes [OF x(1)] x(2) small assms(2) by simp
  moreover have "appends (\<lambda>w. rbind (ensureCapacity (of_nat (length tb)) w) (\<lambda>w. rbind (wr_copy tb w)
      (\<lambda>w. Inr (wr_skip (of_nat (length tb)) w)))) tb"
    using small by (intro appends_write wr_copy_write) (simp_all add: unat_of_nat)
  ultimately show "appends (appendType n tc t) tb" by (simp add: appendType_def [abs_def] Let_def)
qed

lemma decodes_readType: "type_bytes tc t tb \<Longrightarrow> length tb \<le> n \<Longrightarrow> decodes tc (readType n) tb t"
  by (auto simp: type_bytes_def intro: readType_decodes)

text \<open>The collection with a meta sequence of a kind.\<close>

fun collection :: "NomsKind \<Rightarrow> sequence \<Rightarrow> Value option" where
  "collection BlobKind seq = Some (Blob seq)"
| "collection ListKind seq = Some (List seq)"
| "collection MapKind seq = Some (Map seq)"
| "collection SetKind seq = Some (Set seq)"
| "collection _ seq = None"

definition kind_at :: "TypeCache \<Rightarrow> tptr \<Rightarrow> NomsKind" where
  "kind_at tc t = desc_Kind (ty_Desc (tc_types tc ! t))"

text \<open>
  \<open>codes tc v bs w\<close>: the value \<open>v\<close>, whose types are types of the cache and have the kinds of the values, is
  encoded as \<open>bs\<close>, and these decode as \<open>w\<close>. They differ in the numbers that do not survive (C28) and in
  meta tuples: children are not encoded, and of a key that is not ordered by value only the hash is.
\<close>

inductive codes :: "TypeCache \<Rightarrow> Value \<Rightarrow> bytes \<Rightarrow> Value \<Rightarrow> bool"
  and codes_key :: "TypeCache \<Rightarrow> orderedKey \<Rightarrow> bytes \<Rightarrow> orderedKey \<Rightarrow> bool"
  for tc :: TypeCache where
  c_bool: "type_bytes tc BoolType tb \<Longrightarrow> kind_at tc BoolType = BoolKind \<Longrightarrow>
    codes tc (Bool b) (tb @ [if b then 1 else 0]) (Bool b)"
| c_number: "type_bytes tc NumberType tb \<Longrightarrow> kind_at tc NumberType = NumberKind \<Longrightarrow> is_float64 q \<Longrightarrow>
    codes tc (Number (Fin q)) (tb @ number_bytes q) (Number (read_back q))"
| c_string: "type_bytes tc StringType tb \<Longrightarrow> kind_at tc StringType = StringKind \<Longrightarrow>
    codes tc (String s) (tb @ str_bytes s) (String s)"
| c_type: "type_bytes tc TypeType tb \<Longrightarrow> kind_at tc TypeType = TypeKind \<Longrightarrow> type_bytes tc u ub \<Longrightarrow>
    codes tc (TypeV u) (tb @ ub) (TypeV u)"
| c_ref: "type_bytes tc (ref_t r) tb \<Longrightarrow> ty_Desc (tc_types tc ! ref_t r) = CompoundDesc RefKind [u] \<Longrightarrow> u \<noteq> ValueType \<Longrightarrow>
    codes tc (RefV r) (tb @ hash_bytes (ref_target r) @ bytes64 (ref_height r)) (RefV r)"
| c_struct: "type_bytes tc t tb \<Longrightarrow> ty_Desc (tc_types tc ! t) = StructDesc name fs \<Longrightarrow> length fs = length vs \<Longrightarrow>
    list_all2 (\<lambda>v p. codes tc v (fst p) (snd p)) vs ps \<Longrightarrow>
    codes tc (Struct t vs) (tb @ concat (map fst ps)) (Struct t (map snd ps))"
| c_blob: "type_bytes tc BlobType tb \<Longrightarrow> kind_at tc BlobType = BlobKind \<Longrightarrow>
    codes tc (Blob (blobLeafSequence d)) (tb @ [0] @ str_bytes d) (Blob (blobLeafSequence d))"
| c_list: "type_bytes tc t tb \<Longrightarrow> kind_at tc t = ListKind \<Longrightarrow> list_all2 (\<lambda>v p. codes tc v (fst p) (snd p)) vs ps \<Longrightarrow>
    length vs < 2 ^ 32 \<Longrightarrow>
    codes tc (List (listLeafSequence t vs)) (tb @ [0] @ bytes32 (of_nat (length vs)) @ concat (map fst ps))
      (List (listLeafSequence t (map snd ps)))"
| c_set: "type_bytes tc t tb \<Longrightarrow> kind_at tc t = SetKind \<Longrightarrow> list_all2 (\<lambda>v p. codes tc v (fst p) (snd p)) vs ps \<Longrightarrow>
    length vs < 2 ^ 32 \<Longrightarrow>
    codes tc (Set (setLeafSequence t vs)) (tb @ [0] @ bytes32 (of_nat (length vs)) @ concat (map fst ps))
      (Set (setLeafSequence t (map snd ps)))"
| c_map: "type_bytes tc t tb \<Longrightarrow> kind_at tc t = MapKind \<Longrightarrow>
    list_all2 (\<lambda>e p. codes tc (fst e) (fst (fst p)) (snd (fst p)) \<and> codes tc (snd e) (fst (snd p)) (snd (snd p))) es ps \<Longrightarrow>
    length es < 2 ^ 32 \<Longrightarrow>
    codes tc (Map (mapLeafSequence t es))
      (tb @ [0] @ bytes32 (of_nat (length es)) @ concat (map (\<lambda>p. fst (fst p) @ fst (snd p)) ps))
      (Map (mapLeafSequence t (map (\<lambda>p. (snd (fst p), snd (snd p))) ps)))"
| c_meta: "type_bytes tc t tb \<Longrightarrow> collection (kind_at tc t) (metaSequence ms t) = Some v \<Longrightarrow>
    list_all2 (\<lambda>m p. codes tc (RefV (mt_ref m)) (fst p) (RefV (mt_ref m)) \<and> codes_key tc (mt_key m) (fst (snd p)) (snd (snd p))) ms ps \<Longrightarrow>
    length ms < 2 ^ 32 \<Longrightarrow>
    collection (kind_at tc t) (metaSequence (map2 (\<lambda>m p. metaTuple (mt_ref m) (snd (snd p)) (mt_numLeaves m) None) ms ps) t) = Some w \<Longrightarrow>
    codes tc v
      (tb @ [1] @ bytes32 (of_nat (length ms))
         @ concat (map2 (\<lambda>m p. fst p @ fst (snd p) @ bytes64 (mt_numLeaves m)) ms ps)) w"
| c_key_value: "codes tc v bs w \<Longrightarrow> isKindOrderedByValue (value_Kind v) \<Longrightarrow>
    codes_key tc (orderedKey True (Some v) h) bs (orderedKey True (Some w) emptyHash)"
| c_key_hash: "\<not> IsEmpty h \<Longrightarrow> MakeRefType BoolType tc = Inr (t, tc) \<Longrightarrow>
    codes tc (RefV \<lparr>ref_target = h, ref_height = 0, ref_t = t\<rparr>) bs (RefV \<lparr>ref_target = h, ref_height = 0, ref_t = t\<rparr>) \<Longrightarrow>
    codes_key tc (orderedKey False vo h) bs (orderedKey False None h)"


subsection \<open>The encoder implements the format\<close>

lemma type_bytes_valid: "type_bytes tc t tb \<Longrightarrow> t < length (tc_types tc)"
  by (simp add: type_bytes_def)

text \<open>Writing a value: its type, then what the kind of the type says.\<close>

lemma encodes_writeValue:
  assumes "type_bytes tc (value_Type v) tb" "length tb \<le> n"
    and "encodes tc (write_kind_of n (writeValue n vw) vw (kind_at tc (value_Type v)) v) bs"
  shows "encodes tc (writeValue (Suc n) vw v) (tb @ bs)"
proof -
  let ?k = "kind_at tc (value_Type v)"
  have "encodes tc (ebind (wr_tc (\<lambda>tc. appendType n tc (value_Type v))) (write_kind_of n (writeValue n vw) vw ?k v)) (tb @ bs)"
    by (rule encodes_ebind [OF _ assms(3)], rule encodes_wr_tc, rule appends_appendType [OF assms(1,2)])
  then show ?thesis using type_bytes_valid [OF assms(1)] unfolding encodes_def by (simp add: kind_at_def)
qed

lemma encodes_writeValueSlice:
  assumes "list_all2 (\<lambda>v p. encodes tc (wv v) (fst p)) vs ps"
  shows "encodes tc (writeValueSlice wv vs) (bytes32 (of_nat (length vs)) @ concat (map fst ps))"
  unfolding writeValueSlice_def
  by (rule encodes_ebind [OF encodes_wr [OF appends_writeUint32] encodes_foldM]) (use assms in \<open>simp add: list_all2_map2\<close>)

lemma encodes_writeMetaTuple:
  assumes ref: "encodes tc (wv (RefV (mt_ref m))) rb"
    and key: "key_value (mt_key m) tc = Inr (v, tc)" "encodes tc (wv v) kb"
  shows "encodes tc (writeMetaTuple wv vw m) (rb @ kb @ bytes64 (mt_numLeaves m))"
proof -
  have step: "encodes tc (\<lambda>e. rbind (key_value (mt_key m) (ve_tc e)) (\<lambda>(v, tc).
         rbind (wv v (e\<lparr>ve_tc := tc\<rparr>)) (wr (writeUint64 (mt_numLeaves m))))) (kb @ bytes64 (mt_numLeaves m))"
  proof (rule encodesI)
    fix e :: valueEncoder
    assume e: "ve_tc e = tc" "wr_ok (ve_w e)" "length (written (ve_w e)) + length (kb @ bytes64 (mt_numLeaves m)) + 20 \<le> 2 ^ 31"
    have same: "e\<lparr>ve_tc := tc\<rparr> = e" using e(1) by (cases e) simp
    from encodesD [OF encodes_ebind [OF key(2) encodes_wr [OF appends_writeUint64 [of "mt_numLeaves m"]]] e]
    obtain e' where e': "ebind (wv v) (wr (writeUint64 (mt_numLeaves m))) e = Inr e'" "ve_tc e' = tc" "wr_ok (ve_w e')"
      "written (ve_w e') = written (ve_w e) @ kb @ bytes64 (mt_numLeaves m)" .
    have "rbind (key_value (mt_key m) (ve_tc e)) (\<lambda>(v, tc). rbind (wv v (e\<lparr>ve_tc := tc\<rparr>)) (wr (writeUint64 (mt_numLeaves m)))) = Inr e'"
      using e'(1) by (simp add: e(1) key(1) same ebind_def)
    then show "\<exists>e'. rbind (key_value (mt_key m) (ve_tc e)) (\<lambda>(v, tc). rbind (wv v (e\<lparr>ve_tc := tc\<rparr>)) (wr (writeUint64 (mt_numLeaves m))))
        = Inr e' \<and> ve_tc e' = tc \<and> wr_ok (ve_w e') \<and> written (ve_w e') = written (ve_w e) @ kb @ bytes64 (mt_numLeaves m)"
      using e'(2-4) by blast
  qed
  have "encodes tc (\<lambda>e. (\<lambda>e. rbind (wv (RefV (mt_ref m)) e) (\<lambda>e. rbind (key_value (mt_key m) (ve_tc e)) (\<lambda>(v, tc).
         rbind (wv v (e\<lparr>ve_tc := tc\<rparr>)) (wr (writeUint64 (mt_numLeaves m))))))
      (e\<lparr>ve_written := (case mt_child m of Some c \<Rightarrow> if vw then ve_written e @ [c] else ve_written e | None \<Rightarrow> ve_written e)\<rparr>))
      (rb @ kb @ bytes64 (mt_numLeaves m))"
    by (rule encodes_log) (use encodes_ebind [OF ref step] in \<open>simp add: ebind_def [abs_def]\<close>)
  moreover have "e\<lparr>ve_written := ve_written e\<rparr> = e" for e :: valueEncoder by simp
  ultimately show ?thesis
    by (cases "mt_child m"; cases vw) (simp_all add: writeMetaTuple_def [abs_def] Let_def)
qed

lemma encodes_meta:
  assumes "list_all2 (\<lambda>m b. encodes tc (writeMetaTuple wv vw m) b) ms bss"
  shows "encodes tc (maybeWriteMetaSequence wv vw (metaSequence ms t) leaf) ([1] @ bytes32 (of_nat (length ms)) @ concat bss)"
proof -
  have "encodes tc (\<lambda>e. foldM_res (\<lambda>e m. writeMetaTuple wv vw m e) e ms) (concat bss)"
    by (rule encodes_foldM [OF assms])
  from encodes_ebind [OF encodes_wr [OF appends_writeBool [of True]] encodes_ebind [OF encodes_wr [OF appends_writeUint32] this]]
  show ?thesis by (simp add: maybeWriteMetaSequence_def)
qed

lemma encodes_leaf:
  assumes "\<not> isMetaSequence seq" "encodes tc leaf bs"
  shows "encodes tc (maybeWriteMetaSequence wv vw seq leaf) ([0] @ bs)"
  using encodes_ebind [OF encodes_wr [OF appends_writeBool [of False]] assms(2)] assms(1)
  by (cases seq) (simp_all add: maybeWriteMetaSequence_def isMetaSequence_def)

lemma length_concat_ge: "x \<in> set xs \<Longrightarrow> length x \<le> length (concat xs)"
  by (auto simp: length_concat intro: member_le_sum_list)

lemma list_all2_strengthen:
  assumes "list_all2 P xs ys" "\<And>x y. x \<in> set xs \<Longrightarrow> y \<in> set ys \<Longrightarrow> P x y \<Longrightarrow> Q x y"
  shows "list_all2 Q xs ys"
  using assms by (rule list.rel_mono_strong)

lemma list_all2_map2_right:
  "list_all2 P xs ys \<Longrightarrow> (\<And>x y. (x, y) \<in> set (zip xs ys) \<Longrightarrow> P x y \<Longrightarrow> Q x (f x y)) \<Longrightarrow> list_all2 Q xs (map2 f xs ys)"
  by (induction rule: list_all2_induct) auto

lemma encodes_value_all:
  assumes "type_bytes tc (value_Type v) tb"
    and "\<And>m vw. length (tb @ bs) \<le> m \<Longrightarrow> encodes tc (write_kind_of m (writeValue m vw) vw (kind_at tc (value_Type v)) v) bs"
  shows "\<forall>n > length (tb @ bs). \<forall>vw. encodes tc (writeValue n vw v) (tb @ bs)"
proof (intro allI impI)
  fix n vw assume "length (tb @ bs) < n"
  then obtain m where n: "n = Suc m" "length (tb @ bs) \<le> m" by (cases n) auto
  show "encodes tc (writeValue n vw v) (tb @ bs)"
    unfolding n(1) by (rule encodes_writeValue [OF assms(1) _ assms(2) [OF n(2)]]) (use n(2) in simp)
qed

lemma encodes_values:
  assumes "list_all2 (\<lambda>v p. codes tc v (fst p) (snd p) \<and> (\<forall>n > length (fst p). \<forall>vw. encodes tc (writeValue n vw v) (fst p))) vs ps"
    and "length (concat (map fst ps)) < m"
  shows "list_all2 (\<lambda>v p. encodes tc (writeValue m vw v) (fst p)) vs ps"
proof (rule list_all2_strengthen [OF assms(1)])
  fix v p assume p: "p \<in> set ps"
    and ih: "codes tc v (fst p) (snd p) \<and> (\<forall>n > length (fst p). \<forall>vw. encodes tc (writeValue n vw v) (fst p))"
  have "length (fst p) \<le> length (concat (map fst ps))" using p by (intro length_concat_ge) simp
  then show "encodes tc (writeValue m vw v) (fst p)" using ih assms(2) by simp
qed

lemma collection_RefV [simp]: "collection k s \<noteq> Some (RefV r)"
  by (cases k) simp_all

lemma codes_RefV:
  assumes "codes tc (RefV r) bs w"
  obtains u tb where "type_bytes tc (ref_t r) tb" "ty_Desc (tc_types tc ! ref_t r) = CompoundDesc RefKind [u]" "u \<noteq> ValueType"
    "bs = tb @ hash_bytes (ref_target r) @ bytes64 (ref_height r)" "w = RefV r"
  using assms by (auto elim!: codes.cases)

lemma codes_encodes:
  "codes tc v bs w \<Longrightarrow> \<forall>n > length bs. \<forall>vw. encodes tc (writeValue n vw v) bs"
  "codes_key tc key bs key' \<Longrightarrow> \<exists>v. key_value key tc = Inr (v, tc) \<and> (\<forall>n > length bs. \<forall>vw. encodes tc (writeValue n vw v) bs)"
proof (induction rule: codes_codes_key.inducts)
  case (c_bool tb b)
  then show ?case
    by (intro encodes_value_all) (simp_all add: write_kind_of_def encodes_wr appends_writeBool del: append_assoc split del: if_split)
next
  case (c_number tb q)
  then show ?case
    by (intro encodes_value_all) (simp_all add: write_kind_of_def encodes_wr appends_writeNumber)
next
  case (c_string tb s)
  then show ?case
    by (intro encodes_value_all) (simp_all add: write_kind_of_def encodes_wr appends_writeString)
next
  case (c_type tb u ub)
  obtain x where x: "shape tc [] u x" "ub = tbytes x" using c_type(3) by (auto simp: type_bytes_def)
  show ?case
  proof (rule encodes_value_all)
    fix m vw assume "length (tb @ ub) \<le> m"
    then have "appends (writeType m tc [] u) ub" using writeType_appends [OF x(1)] x(2) by simp
    then have "encodes tc (wr_tc (\<lambda>tc. writeType m tc [] u)) ub" by (rule encodes_wr_tc)
    then show "encodes tc (write_kind_of m (writeValue m vw) vw (kind_at tc (value_Type (TypeV u))) (TypeV u)) ub"
      using c_type(2) by (simp add: write_kind_of_def)
  qed (use c_type(1) in simp)
next
  case (c_ref r tb u)
  then show ?case
    by (intro encodes_value_all)
       (simp_all add: write_kind_of_def kind_at_def writeRef_def encodes_ebind encodes_wr appends_writeHash appends_writeUint64)
next
  case (c_struct t tb name fs vs ps)
  show ?case
  proof (rule encodes_value_all)
    fix m vw assume "length (tb @ concat (map fst ps)) \<le> m"
    then have "length (concat (map fst ps)) < m" using type_bytes_pos [OF c_struct(1)] unfolding length_append by linarith
    from encodes_values [OF c_struct(3) this, of vw]
    have "list_all2 (\<lambda>v b. encodes tc (\<lambda>e. writeValue m vw v e) b) vs (map fst ps)" by (simp add: list_all2_map2)
    from encodes_foldM [OF this]
    show "encodes tc (write_kind_of m (writeValue m vw) vw (kind_at tc (value_Type (Struct t vs))) (Struct t vs)) (concat (map fst ps))"
      using c_struct(2) by (simp add: write_kind_of_def kind_at_def writeStruct_def [abs_def])
  qed (use c_struct(1) in simp)
next
  case (c_blob tb d)
  have "encodes tc (maybeWriteMetaSequence wv vw (blobLeafSequence d) (writeBlobLeafSequence d)) ([0] @ str_bytes d)" for wv vw
    by (rule encodes_leaf)
       (simp_all add: isMetaSequence_def writeBlobLeafSequence_def encodes_wr appends_writeBytes str_bytes_def)
  then show ?case using c_blob by (intro encodes_value_all) (simp_all add: write_kind_of_def)
next
  case (c_list t tb vs ps)
  show ?case
  proof (rule encodes_value_all)
    fix m vw assume "length (tb @ [0] @ bytes32 (of_nat (length vs)) @ concat (map fst ps)) \<le> m"
    then have "length (concat (map fst ps)) < m" by simp
    note slice = encodes_writeValueSlice [OF encodes_values [OF c_list(3) this, of vw]]
    show "encodes tc (write_kind_of m (writeValue m vw) vw (kind_at tc (value_Type (List (listLeafSequence t vs)))) (List (listLeafSequence t vs)))
      ([0] @ bytes32 (of_nat (length vs)) @ concat (map fst ps))"
      using encodes_leaf [OF _ slice, of "listLeafSequence t vs" "writeValue m vw" vw] c_list(2)
      by (simp add: write_kind_of_def isMetaSequence_def writeListLeafSequence_def)
  qed (use c_list(1) in simp)
next
  case (c_set t tb vs ps)
  show ?case
  proof (rule encodes_value_all)
    fix m vw assume "length (tb @ [0] @ bytes32 (of_nat (length vs)) @ concat (map fst ps)) \<le> m"
    then have "length (concat (map fst ps)) < m" by simp
    note slice = encodes_writeValueSlice [OF encodes_values [OF c_set(3) this, of vw]]
    show "encodes tc (write_kind_of m (writeValue m vw) vw (kind_at tc (value_Type (Set (setLeafSequence t vs)))) (Set (setLeafSequence t vs)))
      ([0] @ bytes32 (of_nat (length vs)) @ concat (map fst ps))"
      using encodes_leaf [OF _ slice, of "setLeafSequence t vs" "writeValue m vw" vw] c_set(2)
      by (simp add: write_kind_of_def isMetaSequence_def writeSetLeafSequence_def)
  qed (use c_set(1) in simp)
next
  case (c_map t tb es ps)
  let ?bs = "concat (map (\<lambda>p. fst (fst p) @ fst (snd p)) ps)"
  show ?case
  proof (rule encodes_value_all)
    fix m vw assume "length (tb @ [0] @ bytes32 (of_nat (length es)) @ ?bs) \<le> m"
    then have m: "length ?bs < m" by simp
    have "list_all2 (\<lambda>e b. encodes tc (ebind (writeValue m vw (fst e)) (writeValue m vw (snd e))) b)
        es (map (\<lambda>p. fst (fst p) @ fst (snd p)) ps)"
      unfolding list_all2_map2
    proof (rule list_all2_strengthen [OF c_map(3)], goal_cases)
      case (1 e p)
      have "length (fst (fst p) @ fst (snd p)) \<le> length ?bs" using 1(2) by (intro length_concat_ge) simp
      then show ?case using 1(3) m by (intro encodes_ebind) simp_all
    qed
    from encodes_ebind [OF encodes_wr [OF appends_writeUint32] encodes_foldM [OF this]]
    have "encodes tc (writeMapLeafSequence (writeValue m vw) es) (bytes32 (of_nat (length es)) @ ?bs)"
      by (simp add: writeMapLeafSequence_def)
    from encodes_leaf [OF _ this, of "mapLeafSequence t es" "writeValue m vw" vw]
    show "encodes tc (write_kind_of m (writeValue m vw) vw (kind_at tc (value_Type (Map (mapLeafSequence t es)))) (Map (mapLeafSequence t es)))
      ([0] @ bytes32 (of_nat (length es)) @ ?bs)"
      using c_map(2) by (simp add: write_kind_of_def isMetaSequence_def)
  qed (use c_map(1) in simp)
next
  case (c_meta t tb ms v ps w)
  let ?bss = "map2 (\<lambda>m p. fst p @ fst (snd p) @ bytes64 (mt_numLeaves m)) ms ps"
  have vt: "value_Type v = t" using c_meta(2) by (cases "kind_at tc t") auto
  show ?case
  proof (rule encodes_value_all)
    fix m vw assume "length (tb @ [1] @ bytes32 (of_nat (length ms)) @ concat ?bss) \<le> m"
    then have m: "length (concat ?bss) < m" by simp
    have "list_all2 (\<lambda>x b. encodes tc (writeMetaTuple (writeValue m vw) vw x) b) ms ?bss"
    proof (rule list_all2_map2_right [OF c_meta(3)], goal_cases)
      case (1 x p)
      have "length (fst p @ fst (snd p) @ bytes64 (mt_numLeaves x)) \<le> length (concat ?bss)"
        using 1(1) by (intro length_concat_ge) force
      then show ?case using 1(2) m by (auto intro!: encodes_writeMetaTuple)
    qed
    from encodes_meta [OF this]
    show "encodes tc (write_kind_of m (writeValue m vw) vw (kind_at tc (value_Type v)) v) ([1] @ bytes32 (of_nat (length ms)) @ concat ?bss)"
      using c_meta(2) by (cases "kind_at tc t") (auto simp: write_kind_of_def vt)
  qed (use c_meta(1) vt in simp)
next
  case (c_key_value v bs w h)
  then show ?case by (simp add: key_value_def)
next
  case (c_key_hash h t bs vo)
  obtain u where u: "t < length (tc_types tc)" "ty_Desc (tc_types tc ! t) = CompoundDesc RefKind [u]" "u \<noteq> ValueType"
    using codes_RefV [OF c_key_hash(3)] by (auto dest: type_bytes_valid)
  then show ?case using c_key_hash(1,2,4) by (simp add: key_value_def constructRef_def)
qed

subsection \<open>The decoder implements the format\<close>

lemma decodes_value_all:
  assumes "type_bytes tc t tb"
    and "\<And>m. length (tb @ bs) \<le> m \<Longrightarrow> decodes tc (read_kind_of m (readValue m) t (ty_Desc (tc_types tc ! t))) bs w"
  shows "\<forall>n > length (tb @ bs). decodes tc (readValue n) (tb @ bs) w"
proof (intro allI impI)
  fix n assume "length (tb @ bs) < n"
  then obtain m where n: "n = Suc m" "length (tb @ bs) \<le> m" by (cases n) auto
  have "decodes tc (desc_of t) [] (ty_Desc (tc_types tc ! t))"
    unfolding desc_of_def by (rule decodes_on_tc) (use type_bytes_valid [OF assms(1)] in simp)
  then have "decodes tc (sbind (desc_of t) (read_kind_of m (readValue m) t)) bs w"
    by (rule decodes_seq) (rule assms(2) [OF n(2)], simp)
  then show "decodes tc (readValue n) (tb @ bs) w"
    unfolding n(1) readValue.simps
    by (intro decodes_seq [OF decodes_readType [OF assms(1)]]) (use n(2) in simp_all)
qed

lemma decodes_values:
  assumes "list_all2 (\<lambda>v p. codes tc v (fst p) (snd p) \<and> (\<forall>n > length (fst p). decodes tc (readValue n) (fst p) (snd p))) vs ps"
    and "length (concat (map fst ps)) < m"
  shows "decodes tc (times_st (length vs) (readValue m)) (concat (map fst ps)) (map snd ps)"
proof -
  have "decodes tc (readValue m) (fst p) (snd p)" if p: "p \<in> set ps" for p
  proof -
    have "length (fst p) \<le> length (concat (map fst ps))" using p by (intro length_concat_ge) simp
    moreover have "\<forall>n > length (fst p). decodes tc (readValue n) (fst p) (snd p)"
      using assms(1) p by (auto simp: list_all2_conv_all_nth in_set_conv_nth)
    ultimately show ?thesis using assms(2) by simp
  qed
  then have "list_all2 (\<lambda>b v. decodes tc (readValue m) b v) (map fst ps) (map snd ps)"
    by (simp add: list_all2_conv_all_nth)
  from decodes_times [OF this] show ?thesis using list_all2_lengthD [OF assms(1)] by simp
qed

lemma decodes_readValueSequence:
  assumes "decodes tc (times_st (length vs) rv) bs ws" "length vs < 2 ^ 32"
  shows "decodes tc (readValueSequence rv) (bytes32 (of_nat (length vs)) @ bs) ws"
  unfolding readValueSequence_def
  by (rule decodes_seq [OF decodes_rd [OF consumes_readUint32]]) (use assms in \<open>simp_all add: unat_of_nat\<close>)

lemma decodes_bool: "decodes tc (rd readBool) [if b then 1 else 0] b"
  by (rule decodes_rd [OF consumes_readBool])

lemma decodes_read_leaf:
  assumes "decodes tc leaf bs seq"
  shows "decodes tc (read_collection m rv t new leaf) ([0] @ bs) (new seq)"
  unfolding read_collection_def
  by (rule decodes_seq [OF decodes_bool [of tc False]], simp, rule decodes_then [OF assms]) simp_all

lemma decodes_read_meta:
  assumes "decodes tc (times_st (length ms) (readMetaTuple m rv)) bs ms'" "length ms < 2 ^ 32"
  shows "decodes tc (read_collection m rv t new leaf) ([1] @ bytes32 (of_nat (length ms)) @ bs) (new (metaSequence ms' t))"
  unfolding read_collection_def readMetaSequence_def
  by (rule decodes_seq [OF decodes_bool [of tc True]], simp, rule decodes_then,
      rule decodes_seq [OF decodes_rd [OF consumes_readUint32 [of "of_nat (length ms)"]]], rule decodes_then)
     (use assms in \<open>simp_all add: unat_of_nat\<close>)

lemma decodes_readMetaTuple:
  assumes "decodes tc rv rb (RefV r)" "decodes tc rv kb w" "read_key m w = sreturn key"
  shows "decodes tc (readMetaTuple m rv) (rb @ kb @ bytes64 nl) (metaTuple r key nl None)"
  unfolding readMetaTuple_def
  by (rule decodes_seq [OF assms(1)], simp, rule decodes_seq [OF assms(2)], unfold assms(3),
      rule decodes_seq [OF decodes_sreturn], rule decodes_then [OF decodes_rd [OF consumes_readUint64]]) simp_all

lemma collection_kind: "collection k s = Some v \<Longrightarrow> \<not> isKindOrderedByValue (value_Kind v)"
  by (cases k) (auto simp: isKindOrderedByValue_def)

lemma codes_ordered: "codes tc v bs w \<Longrightarrow> isKindOrderedByValue (value_Kind v) \<Longrightarrow>
    isKindOrderedByValue (value_Kind w) \<and> (\<forall>r. w \<noteq> RefV r)"
  by (erule codes.cases) (auto simp: isKindOrderedByValue_def dest: collection_kind [unfolded isKindOrderedByValue_def])

lemma codes_decodes:
  "codes tc v bs w \<Longrightarrow> \<forall>n > length bs. decodes tc (readValue n) bs w"
  "codes_key tc key bs key' \<Longrightarrow> \<exists>w. (\<forall>m. read_key m w = sreturn key') \<and> (\<forall>n > length bs. decodes tc (readValue n) bs w)"
proof (induction rule: codes_codes_key.inducts)
  case (c_bool tb b)
  have "decodes tc (read_kind_of m rv BoolType (ty_Desc (tc_types tc ! BoolType))) [if b then 1 else 0] (Bool b)" for m rv
    using c_bool(2) decodes_then [OF decodes_bool [of tc b], of "\<lambda>b. sreturn (Bool b)"]
    by (simp add: read_kind_of_def kind_at_def)
  then show ?case by (rule decodes_value_all [OF c_bool(1)])
next
  case (c_number tb q)
  have "decodes tc (read_kind_of m rv NumberType (ty_Desc (tc_types tc ! NumberType))) (number_bytes q) (Number (read_back q))" for m rv
    using c_number(2) decodes_then [OF decodes_rd [OF consumes_readNumber [OF c_number(3)]], of "\<lambda>f. sreturn (Number f)"]
    by (simp add: read_kind_of_def kind_at_def)
  then show ?case by (rule decodes_value_all [OF c_number(1)])
next
  case (c_string tb s)
  have "decodes tc (read_kind_of m rv StringType (ty_Desc (tc_types tc ! StringType))) (str_bytes s) (String s)" for m rv
    using c_string(2) decodes_then [OF decodes_rd [OF consumes_readBytes(2) [of s]], of "\<lambda>s. sreturn (String s)"]
    by (simp add: read_kind_of_def kind_at_def str_bytes_def)
  then show ?case by (rule decodes_value_all [OF c_string(1)])
next
  case (c_type tb u ub)
  show ?case
  proof (rule decodes_value_all [OF c_type(1)])
    fix m assume "length (tb @ ub) \<le> m"
    then have "decodes tc (readType m) ub u" by (intro decodes_readType [OF c_type(3)]) simp
    then show "decodes tc (read_kind_of m (readValue m) TypeType (ty_Desc (tc_types tc ! TypeType))) ub (TypeV u)"
      using c_type(2) decodes_then [of tc "readType m" ub u "\<lambda>u. sreturn (TypeV u)"] by (simp add: read_kind_of_def kind_at_def)
  qed
next
  case (c_ref r tb u)
  have r: "constructRef tc (ref_t r) (ref_target r) (ref_height r) = Inr r"
    using c_ref by (cases r) (simp add: constructRef_def type_bytes_valid)
  have "decodes tc (readRef (ref_t r)) (hash_bytes (ref_target r) @ bytes64 (ref_height r)) r"
    unfolding readRef_def
    by (rule decodes_seq [OF decodes_rd [OF consumes_readHash]], rule decodes_seq [OF decodes_rd [OF consumes_readUint64]],
        rule decodes_on_tc) (simp_all add: r)
  then have "decodes tc (read_kind_of m rv (ref_t r) (ty_Desc (tc_types tc ! ref_t r)))
      (hash_bytes (ref_target r) @ bytes64 (ref_height r)) (RefV r)" for m rv
    using c_ref(2) decodes_then [of tc "readRef (ref_t r)" _ r "\<lambda>r. sreturn (RefV r)"] by (simp add: read_kind_of_def)
  then show ?case by (rule decodes_value_all [OF c_ref(1)])
next
  case (c_struct t tb name fs vs ps)
  show ?case
  proof (rule decodes_value_all [OF c_struct(1)])
    fix m assume "length (tb @ concat (map fst ps)) \<le> m"
    then have "length (concat (map fst ps)) < m" using type_bytes_pos [OF c_struct(1)] unfolding length_append by linarith
    from decodes_values [OF c_struct(3) this]
    have "decodes tc (readStruct (readValue m) t fs) (concat (map fst ps)) (Struct t (map snd ps))"
      unfolding readStruct_def c_struct(4) by (rule decodes_then) simp
    then show "decodes tc (read_kind_of m (readValue m) t (ty_Desc (tc_types tc ! t))) (concat (map fst ps)) (Struct t (map snd ps))"
      using c_struct(2) by (simp add: read_kind_of_def)
  qed
next
  case (c_blob tb d)
  have "decodes tc readBlobLeafSequence (str_bytes d) (blobLeafSequence d)"
    unfolding readBlobLeafSequence_def str_bytes_def by (rule decodes_then [OF decodes_rd [OF consumes_readBytes(1)]]) simp
  from decodes_read_leaf [OF this]
  have "decodes tc (read_kind_of m rv BlobType (ty_Desc (tc_types tc ! BlobType))) ([0] @ str_bytes d) (Blob (blobLeafSequence d))" for m rv
    using c_blob(2) by (simp add: read_kind_of_def kind_at_def)
  then show ?case by (rule decodes_value_all [OF c_blob(1)])
next
  case (c_list t tb vs ps)
  show ?case
  proof (rule decodes_value_all [OF c_list(1)])
    fix m assume "length (tb @ [0] @ bytes32 (of_nat (length vs)) @ concat (map fst ps)) \<le> m"
    then have "length (concat (map fst ps)) < m" by simp
    note elems = decodes_readValueSequence [OF decodes_values [OF c_list(3) this] c_list(4)]
    have "decodes tc (readListLeafSequence (readValue m) t) (bytes32 (of_nat (length vs)) @ concat (map fst ps)) (listLeafSequence t (map snd ps))"
      unfolding readListLeafSequence_def by (rule decodes_then [OF elems]) simp
    from decodes_read_leaf [OF this]
    show "decodes tc (read_kind_of m (readValue m) t (ty_Desc (tc_types tc ! t)))
       ([0] @ bytes32 (of_nat (length vs)) @ concat (map fst ps)) (List (listLeafSequence t (map snd ps)))"
      using c_list(2) by (simp add: read_kind_of_def kind_at_def)
  qed
next
  case (c_set t tb vs ps)
  show ?case
  proof (rule decodes_value_all [OF c_set(1)])
    fix m assume "length (tb @ [0] @ bytes32 (of_nat (length vs)) @ concat (map fst ps)) \<le> m"
    then have "length (concat (map fst ps)) < m" by simp
    note elems = decodes_readValueSequence [OF decodes_values [OF c_set(3) this] c_set(4)]
    have "decodes tc (readSetLeafSequence (readValue m) t) (bytes32 (of_nat (length vs)) @ concat (map fst ps)) (setLeafSequence t (map snd ps))"
      unfolding readSetLeafSequence_def by (rule decodes_then [OF elems]) simp
    from decodes_read_leaf [OF this]
    show "decodes tc (read_kind_of m (readValue m) t (ty_Desc (tc_types tc ! t)))
       ([0] @ bytes32 (of_nat (length vs)) @ concat (map fst ps)) (Set (setLeafSequence t (map snd ps)))"
      using c_set(2) by (simp add: read_kind_of_def kind_at_def)
  qed
next
  case (c_map t tb es ps)
  let ?bs = "concat (map (\<lambda>p. fst (fst p) @ fst (snd p)) ps)"
  let ?es = "map (\<lambda>p. (snd (fst p), snd (snd p))) ps"
  have len: "length es = length ps" using c_map(3) by (rule list_all2_lengthD)
  show ?case
  proof (rule decodes_value_all [OF c_map(1)])
    fix m assume "length (tb @ [0] @ bytes32 (of_nat (length es)) @ ?bs) \<le> m"
    then have m: "length ?bs < m" by simp
    let ?rd = "sbind (readValue m) (\<lambda>k. sbind (readValue m) (\<lambda>v. sreturn (k, v)))"
    have "decodes tc ?rd (fst (fst p) @ fst (snd p)) (snd (fst p), snd (snd p))" if p: "p \<in> set ps" for p
    proof -
      have small: "length (fst (fst p) @ fst (snd p)) \<le> length ?bs" using p by (intro length_concat_ge) simp
      have "\<forall>n > length (fst (fst p)). decodes tc (readValue n) (fst (fst p)) (snd (fst p))"
        "\<forall>n > length (fst (snd p)). decodes tc (readValue n) (fst (snd p)) (snd (snd p))"
        using c_map(3) p by (auto simp: list_all2_conv_all_nth in_set_conv_nth)
      then have "decodes tc (readValue m) (fst (fst p)) (snd (fst p))" "decodes tc (readValue m) (fst (snd p)) (snd (snd p))"
        using small m by simp_all
      then show ?thesis by (intro decodes_sbind decodes_then [of tc _ _ "snd (snd p)"]) simp_all
    qed
    then have "list_all2 (\<lambda>b e. decodes tc ?rd b e) (map (\<lambda>p. fst (fst p) @ fst (snd p)) ps) ?es"
      by (simp add: list_all2_conv_all_nth)
    from decodes_times [OF this] have "decodes tc (times_st (length es) ?rd) ?bs ?es" by (simp add: len)
    then have "decodes tc (readMapLeafSequence (readValue m) t) (bytes32 (of_nat (length es)) @ ?bs) (mapLeafSequence t ?es)"
      unfolding readMapLeafSequence_def using c_map(4)
      by (intro decodes_seq [OF decodes_rd [OF consumes_readUint32]] decodes_then) (simp_all add: unat_of_nat)
    from decodes_read_leaf [OF this]
    show "decodes tc (read_kind_of m (readValue m) t (ty_Desc (tc_types tc ! t)))
       ([0] @ bytes32 (of_nat (length es)) @ ?bs) (Map (mapLeafSequence t ?es))"
      using c_map(2) by (simp add: read_kind_of_def kind_at_def)
  qed
next
  case (c_meta t tb ms v ps w)
  let ?bss = "map2 (\<lambda>m p. fst p @ fst (snd p) @ bytes64 (mt_numLeaves m)) ms ps"
  let ?ms = "map2 (\<lambda>m p. metaTuple (mt_ref m) (snd (snd p)) (mt_numLeaves m) None) ms ps"
  have len: "length ms = length ps" using c_meta(3) by (rule list_all2_lengthD)
  show ?case
  proof (rule decodes_value_all [OF c_meta(1)])
    fix m assume "length (tb @ [1] @ bytes32 (of_nat (length ms)) @ concat ?bss) \<le> m"
    then have m: "length (concat ?bss) < m" by simp
    have "decodes tc (readMetaTuple m (readValue m)) (?bss ! i) (?ms ! i)" if i: "i < length ms" for i
    proof -
      have "length (?bss ! i) \<le> length (concat ?bss)" using i len by (intro length_concat_ge nth_mem) simp
      moreover have "\<forall>n > length (fst (ps ! i)). decodes tc (readValue n) (fst (ps ! i)) (RefV (mt_ref (ms ! i)))"
        and "\<exists>w. (\<forall>m. read_key m w = sreturn (snd (snd (ps ! i)))) \<and> (\<forall>n > length (fst (snd (ps ! i))). decodes tc (readValue n) (fst (snd (ps ! i))) w)"
        using list_all2_nthD [OF c_meta(3) i] by blast+
      ultimately show ?thesis using m i len by (auto intro!: decodes_readMetaTuple)
    qed
    then have "list_all2 (\<lambda>b e. decodes tc (readMetaTuple m (readValue m)) b e) ?bss ?ms"
      unfolding list_all2_conv_all_nth using len by (simp del: nth_map nth_zip)
    from decodes_times [OF this] have "decodes tc (times_st (length ms) (readMetaTuple m (readValue m))) (concat ?bss) ?ms"
      by (simp add: len)
    from decodes_read_meta [OF this c_meta(5)]
    show "decodes tc (read_kind_of m (readValue m) t (ty_Desc (tc_types tc ! t))) ([1] @ bytes32 (of_nat (length ms)) @ concat ?bss) w"
      using c_meta(4) by (cases "kind_at tc t") (auto simp: read_kind_of_def kind_at_def)
  qed
next
  case (c_key_value v bs w h)
  have "read_key m w = sreturn (orderedKey True (Some w) emptyHash)" for m
    using codes_ordered [OF c_key_value(1,3)] by (cases w) (auto simp: read_key_def newOrderedKey_def)
  then show ?case using c_key_value(2) by blast
next
  case (c_key_hash h t bs vo)
  then show ?case by (intro exI [of _ "RefV \<lparr>ref_target = h, ref_height = 0, ref_t = t\<rparr>"]) (simp add: read_key_def orderedKeyFromHash_def)
qed

subsection \<open>Round trip\<close>

text \<open>The values whose types are types of the cache and fit the values.\<close>

definition ref_ok :: "TypeCache \<Rightarrow> Ref \<Rightarrow> bool" where
  "ref_ok tc r \<longleftrightarrow> ref_t r < length (tc_types tc)
     \<and> (case ty_Desc (tc_types tc ! ref_t r) of CompoundDesc RefKind [u] \<Rightarrow> u \<noteq> ValueType | _ \<Rightarrow> False)"

definition has_kind :: "TypeCache \<Rightarrow> tptr \<Rightarrow> NomsKind \<Rightarrow> bool" where
  "has_kind tc t k \<longleftrightarrow> t < length (tc_types tc) \<and> kind_at tc t = k"

fun value_ok :: "TypeCache \<Rightarrow> Value \<Rightarrow> bool"
  and seq_ok :: "TypeCache \<Rightarrow> NomsKind \<Rightarrow> sequence \<Rightarrow> bool"
  and tuple_ok :: "TypeCache \<Rightarrow> metaTuple \<Rightarrow> bool"
  and key_ok :: "TypeCache \<Rightarrow> orderedKey \<Rightarrow> bool" where
  "value_ok tc (Bool b) \<longleftrightarrow> True"
| "value_ok tc (Number f) \<longleftrightarrow> (case f of Fin q \<Rightarrow> is_float64 q | _ \<Rightarrow> False)"
| "value_ok tc (String s) \<longleftrightarrow> True"
| "value_ok tc (TypeV u) \<longleftrightarrow> u < length (tc_types tc)"
| "value_ok tc (RefV r) \<longleftrightarrow> ref_ok tc r"
| "value_ok tc (Struct t vs) \<longleftrightarrow> t < length (tc_types tc)
     \<and> (case ty_Desc (tc_types tc ! t) of StructDesc name fs \<Rightarrow> length fs = length vs | _ \<Rightarrow> False)
     \<and> list_all (value_ok tc) vs"
| "value_ok tc (Blob seq) \<longleftrightarrow> seq_ok tc BlobKind seq"
| "value_ok tc (List seq) \<longleftrightarrow> seq_ok tc ListKind seq"
| "value_ok tc (Map seq) \<longleftrightarrow> seq_ok tc MapKind seq"
| "value_ok tc (Set seq) \<longleftrightarrow> seq_ok tc SetKind seq"
| "seq_ok tc k (blobLeafSequence d) \<longleftrightarrow> k = BlobKind"
| "seq_ok tc k (listLeafSequence t vs) \<longleftrightarrow> k = ListKind \<and> has_kind tc t k \<and> length vs < 2 ^ 32 \<and> list_all (value_ok tc) vs"
| "seq_ok tc k (setLeafSequence t vs) \<longleftrightarrow> k = SetKind \<and> has_kind tc t k \<and> length vs < 2 ^ 32 \<and> list_all (value_ok tc) vs"
| "seq_ok tc k (mapLeafSequence t es) \<longleftrightarrow> k = MapKind \<and> has_kind tc t k \<and> length es < 2 ^ 32
     \<and> list_all (\<lambda>e. value_ok tc (fst e) \<and> value_ok tc (snd e)) es"
| "seq_ok tc k (metaSequence ms t) \<longleftrightarrow> has_kind tc t k \<and> length ms < 2 ^ 32 \<and> list_all (tuple_ok tc) ms"
| "tuple_ok tc (metaTuple r key nl child) \<longleftrightarrow> ref_ok tc r \<and> key_ok tc key"
| "key_ok tc (orderedKey True (Some v) h) \<longleftrightarrow> isKindOrderedByValue (value_Kind v) \<and> value_ok tc v"
| "key_ok tc (orderedKey True None h) \<longleftrightarrow> False"
| "key_ok tc (orderedKey False vo h) \<longleftrightarrow> \<not> IsEmpty h"

text \<open>What is left of a value when it is decoded.\<close>

fun decoded :: "Value \<Rightarrow> Value" and decoded_seq :: "sequence \<Rightarrow> sequence"
  and decoded_tuple :: "metaTuple \<Rightarrow> metaTuple" and decoded_key :: "orderedKey \<Rightarrow> orderedKey" where
  "decoded (Number (Fin q)) = Number (read_back q)"
| "decoded (Struct t vs) = Struct t (map decoded vs)"
| "decoded (Blob seq) = Blob (decoded_seq seq)"
| "decoded (List seq) = List (decoded_seq seq)"
| "decoded (Map seq) = Map (decoded_seq seq)"
| "decoded (Set seq) = Set (decoded_seq seq)"
| "decoded v = v"
| "decoded_seq (blobLeafSequence d) = blobLeafSequence d"
| "decoded_seq (listLeafSequence t vs) = listLeafSequence t (map decoded vs)"
| "decoded_seq (setLeafSequence t vs) = setLeafSequence t (map decoded vs)"
| "decoded_seq (mapLeafSequence t es) = mapLeafSequence t (map (\<lambda>e. (decoded (fst e), decoded (snd e))) es)"
| "decoded_seq (metaSequence ms t) = metaSequence (map decoded_tuple ms) t"
| "decoded_tuple (metaTuple r key nl child) = metaTuple r (decoded_key key) nl None"
| "decoded_key (orderedKey True (Some v) h) = orderedKey True (Some (decoded v)) emptyHash"
| "decoded_key (orderedKey True None h) = orderedKey True None h"
| "decoded_key (orderedKey False vo h) = orderedKey False None h"

text \<open>
  Values that come back as they are: their numbers are multiples of \<open>2 ^ -1023\<close>, and the tuples of their prolly trees
  carry no unwritten child and no more of a key than is written.
\<close>

fun exact :: "Value \<Rightarrow> bool" and exact_seq :: "sequence \<Rightarrow> bool"
  and exact_tuple :: "metaTuple \<Rightarrow> bool" and exact_key :: "orderedKey \<Rightarrow> bool" where
  "exact (Number (Fin q)) \<longleftrightarrow> q * 2 ^ 1023 \<in> \<int>"
| "exact (Struct t vs) \<longleftrightarrow> list_all exact vs"
| "exact (Blob seq) \<longleftrightarrow> exact_seq seq"
| "exact (List seq) \<longleftrightarrow> exact_seq seq"
| "exact (Map seq) \<longleftrightarrow> exact_seq seq"
| "exact (Set seq) \<longleftrightarrow> exact_seq seq"
| "exact v \<longleftrightarrow> True"
| "exact_seq (blobLeafSequence d) \<longleftrightarrow> True"
| "exact_seq (listLeafSequence t vs) \<longleftrightarrow> list_all exact vs"
| "exact_seq (setLeafSequence t vs) \<longleftrightarrow> list_all exact vs"
| "exact_seq (mapLeafSequence t es) \<longleftrightarrow> list_all (\<lambda>e. exact (fst e) \<and> exact (snd e)) es"
| "exact_seq (metaSequence ms t) \<longleftrightarrow> list_all exact_tuple ms"
| "exact_tuple (metaTuple r key nl child) \<longleftrightarrow> exact_key key \<and> child = None"
| "exact_key (orderedKey True (Some v) h) \<longleftrightarrow> exact v \<and> h = emptyHash"
| "exact_key (orderedKey True None h) \<longleftrightarrow> True"
| "exact_key (orderedKey False vo h) \<longleftrightarrow> vo = None"

lemma decoded_exact:
  "exact v \<Longrightarrow> decoded v = v" "exact_seq seq \<Longrightarrow> decoded_seq seq = seq"
  "exact_tuple m \<Longrightarrow> decoded_tuple m = m" "exact_key key \<Longrightarrow> decoded_key key = key"
  by (induction v and seq and m and key rule: exact_exact_seq_exact_tuple_exact_key.induct)
    (auto simp: read_back_def list_all_iff intro!: map_idI)

lemma type_bytes_ex:
  assumes "tc_inv tc" "t < length (tc_types tc)"
  obtains tb where "type_bytes tc t tb"
proof -
  obtain x where "found tc x t" "shape tc [] t x"
    using tree_of_ex [OF assms] unfolding tree_of_def by fastforce
  then show ?thesis using that assms(2) by (auto simp: type_bytes_def)
qed

lemma prim_kinds:
  assumes "tc_inv tc"
  shows "kind_at tc BoolType = BoolKind" "kind_at tc NumberType = NumberKind" "kind_at tc StringType = StringKind"
    "kind_at tc BlobType = BlobKind" "kind_at tc TypeType = TypeKind"
    "BoolType < length (tc_types tc)" "NumberType < length (tc_types tc)" "StringType < length (tc_types tc)"
    "BlobType < length (tc_types tc)" "TypeType < length (tc_types tc)"
proof -
  have len: "6 \<le> length (tc_types tc)" using assms by (simp add: tc_inv_def)
  show "kind_at tc BoolType = BoolKind" "kind_at tc NumberType = NumberKind" "kind_at tc StringType = StringKind"
    "kind_at tc BlobType = BlobKind" "kind_at tc TypeType = TypeKind"
    using tc_inv_prim [OF assms, of 0] tc_inv_prim [OF assms, of 1] tc_inv_prim [OF assms, of 2]
      tc_inv_prim [OF assms, of 3] tc_inv_prim [OF assms, of 4]
    by (simp_all add: kind_at_def desc_at_def prim_types_def makePrimitiveType_def
        BoolType_def NumberType_def StringType_def BlobType_def TypeType_def)
  show "BoolType < length (tc_types tc)" "NumberType < length (tc_types tc)" "StringType < length (tc_types tc)"
    "BlobType < length (tc_types tc)" "TypeType < length (tc_types tc)"
    using len by (auto simp: BoolType_def NumberType_def StringType_def BlobType_def TypeType_def)
qed

lemma codes_list_ex:
  assumes "\<And>v. v \<in> set vs \<Longrightarrow> \<exists>bs. codes tc v bs (decoded v)"
  shows "\<exists>ps. list_all2 (\<lambda>v p. codes tc v (fst p) (snd p)) vs ps \<and> map snd ps = map decoded vs"
  using assms
proof (induction vs)
  case (Cons v vs)
  obtain bs where bs: "codes tc v bs (decoded v)" using Cons.prems [of v] by auto
  obtain ps where "list_all2 (\<lambda>v p. codes tc v (fst p) (snd p)) vs ps \<and> map snd ps = map decoded vs"
    using Cons.IH Cons.prems by auto
  then show ?case using bs by (intro exI [of _ "(bs, decoded v) # ps"]) simp
qed simp

lemma codes_entries_ex:
  assumes "\<And>e. e \<in> set es \<Longrightarrow> (\<exists>bs. codes tc (fst e) bs (decoded (fst e))) \<and> (\<exists>bs. codes tc (snd e) bs (decoded (snd e)))"
  shows "\<exists>ps. list_all2 (\<lambda>e p. codes tc (fst e) (fst (fst p)) (snd (fst p)) \<and> codes tc (snd e) (fst (snd p)) (snd (snd p))) es ps
    \<and> map (\<lambda>p. (snd (fst p), snd (snd p))) ps = map (\<lambda>e. (decoded (fst e), decoded (snd e))) es"
  using assms
proof (induction es)
  case (Cons e es)
  obtain ks vs where kv: "codes tc (fst e) ks (decoded (fst e))" "codes tc (snd e) vs (decoded (snd e))"
    using Cons.prems [of e] by auto
  obtain ps where "list_all2 (\<lambda>e p. codes tc (fst e) (fst (fst p)) (snd (fst p)) \<and> codes tc (snd e) (fst (snd p)) (snd (snd p))) es ps
    \<and> map (\<lambda>p. (snd (fst p), snd (snd p))) ps = map (\<lambda>e. (decoded (fst e), decoded (snd e))) es"
    using Cons.IH Cons.prems by auto
  then show ?case using kv by (intro exI [of _ "((ks, decoded (fst e)), (vs, decoded (snd e))) # ps"]) simp
qed simp

lemma codes_tuples_ex:
  assumes "\<And>m. m \<in> set ms \<Longrightarrow> \<exists>rb kb. codes tc (RefV (mt_ref m)) rb (RefV (mt_ref m)) \<and> codes_key tc (mt_key m) kb (decoded_key (mt_key m))"
  shows "\<exists>ps. list_all2 (\<lambda>m p. codes tc (RefV (mt_ref m)) (fst p) (RefV (mt_ref m)) \<and> codes_key tc (mt_key m) (fst (snd p)) (snd (snd p))) ms ps
    \<and> map2 (\<lambda>m p. metaTuple (mt_ref m) (snd (snd p)) (mt_numLeaves m) None) ms ps = map decoded_tuple ms"
  using assms
proof (induction ms)
  case (Cons m ms)
  obtain rb kb where rk: "codes tc (RefV (mt_ref m)) rb (RefV (mt_ref m))" "codes_key tc (mt_key m) kb (decoded_key (mt_key m))"
    using Cons.prems [of m] by auto
  obtain ps where "list_all2 (\<lambda>m p. codes tc (RefV (mt_ref m)) (fst p) (RefV (mt_ref m)) \<and> codes_key tc (mt_key m) (fst (snd p)) (snd (snd p))) ms ps
    \<and> map2 (\<lambda>m p. metaTuple (mt_ref m) (snd (snd p)) (mt_numLeaves m) None) ms ps = map decoded_tuple ms"
    using Cons.IH Cons.prems by auto
  then show ?case using rk by (intro exI [of _ "(rb, kb, decoded_key (mt_key m)) # ps"]) (cases m, simp)
qed simp

lemma ref_ok_codes:
  assumes "tc_inv tc" "ref_ok tc r"
  shows "\<exists>bs. codes tc (RefV r) bs (RefV r)"
proof -
  obtain u where u: "ref_t r < length (tc_types tc)" "ty_Desc (tc_types tc ! ref_t r) = CompoundDesc RefKind [u]" "u \<noteq> ValueType"
    using assms(2) by (auto simp: ref_ok_def split: TypeDesc.splits NomsKind.splits list.splits)
  obtain tb where "type_bytes tc (ref_t r) tb" by (rule type_bytes_ex [OF assms(1) u(1)])
  then show ?thesis using c_ref u(2,3) by blast
qed

text \<open>A cache made by the operations that has the type of the references that stand for hashes.\<close>

definition ready :: "TypeCache \<Rightarrow> bool" where
  "ready tc \<longleftrightarrow> tc_inv tc \<and> (\<exists>rb < length (tc_types tc). MakeRefType BoolType tc = Inr (rb, tc)
     \<and> ty_Desc (tc_types tc ! rb) = CompoundDesc RefKind [BoolType])"

lemma value_ok_codes:
  "ready tc \<Longrightarrow> value_ok tc v \<Longrightarrow> \<exists>bs. codes tc v bs (decoded v)"
  "ready tc \<Longrightarrow> seq_ok tc k seq \<Longrightarrow> collection k seq = Some v' \<Longrightarrow> \<exists>bs. codes tc v' bs (decoded v')"
  "ready tc \<Longrightarrow> tuple_ok tc m \<Longrightarrow> \<exists>rb kb. codes tc (RefV (mt_ref m)) rb (RefV (mt_ref m)) \<and> codes_key tc (mt_key m) kb (decoded_key (mt_key m))"
  "ready tc \<Longrightarrow> key_ok tc key \<Longrightarrow> \<exists>kb. codes_key tc key kb (decoded_key key)"
proof (induction tc v and tc k seq and tc m and tc key arbitrary: and v' rule: value_ok_seq_ok_tuple_ok_key_ok.induct)
  case (1 tc b)
  then have inv: "tc_inv tc" by (simp add: ready_def)
  obtain tb where "type_bytes tc BoolType tb" by (rule type_bytes_ex [OF inv prim_kinds(6) [OF inv]])
  then show ?case using c_bool prim_kinds(1) [OF inv] by (simp, blast)
next
  case (2 tc f)
  then have inv: "tc_inv tc" by (simp add: ready_def)
  obtain q where q: "f = Fin q" "is_float64 q" using 2(2) by (auto split: float64.splits)
  obtain tb where "type_bytes tc NumberType tb" by (rule type_bytes_ex [OF inv prim_kinds(7) [OF inv]])
  then show ?case using c_number prim_kinds(2) [OF inv] q(2) unfolding q(1) decoded.simps by blast
next
  case (3 tc s)
  then have inv: "tc_inv tc" by (simp add: ready_def)
  obtain tb where "type_bytes tc StringType tb" by (rule type_bytes_ex [OF inv prim_kinds(8) [OF inv]])
  then show ?case using c_string prim_kinds(3) [OF inv] by (simp, blast)
next
  case (4 tc u)
  then have inv: "tc_inv tc" and u: "u < length (tc_types tc)" by (simp_all add: ready_def)
  obtain tb where tb: "type_bytes tc TypeType tb" by (rule type_bytes_ex [OF inv prim_kinds(10) [OF inv]])
  obtain ub where ub: "type_bytes tc u ub" by (rule type_bytes_ex [OF inv u])
  show ?case using c_type [OF tb prim_kinds(5) [OF inv] ub] by auto
next
  case (5 tc r)
  then show ?case using ref_ok_codes by (simp add: ready_def)
next
  case (6 tc t vs)
  then have inv: "tc_inv tc" and t: "t < length (tc_types tc)" by (simp_all add: ready_def)
  obtain name fs where fs: "ty_Desc (tc_types tc ! t) = StructDesc name fs" "length fs = length vs"
    using 6(3) by (auto split: TypeDesc.splits)
  have "\<exists>bs. codes tc v bs (decoded v)" if "v \<in> set vs" for v using 6 that by (simp add: list_all_iff)
  then obtain ps where ps: "list_all2 (\<lambda>v p. codes tc v (fst p) (snd p)) vs ps" "map snd ps = map decoded vs"
    using codes_list_ex by blast
  obtain tb where tb: "type_bytes tc t tb" by (rule type_bytes_ex [OF inv t])
  show ?case using c_struct [OF tb fs ps(1)] ps(2) by auto
next
  case (7 tc seq)
  then show ?case using 7(1) [of "Blob seq"] by simp
next
  case (8 tc seq)
  then show ?case using 8(1) [of "List seq"] by simp
next
  case (9 tc seq)
  then show ?case using 9(1) [of "Map seq"] by simp
next
  case (10 tc seq)
  then show ?case using 10(1) [of "Set seq"] by simp
next
  case (11 tc k d)
  then have inv: "tc_inv tc" by (simp add: ready_def)
  obtain tb where tb: "type_bytes tc BlobType tb" by (rule type_bytes_ex [OF inv prim_kinds(9) [OF inv]])
  show ?case using 11(2,3) c_blob [OF tb prim_kinds(4) [OF inv], of d] by auto
next
  case (12 tc k t vs)
  then have inv: "tc_inv tc" and t: "t < length (tc_types tc)" "kind_at tc t = ListKind" and k: "k = ListKind" "length vs < 2 ^ 32"
    by (auto simp: ready_def has_kind_def)
  have "\<exists>bs. codes tc v bs (decoded v)" if "v \<in> set vs" for v using 12 that by (simp add: list_all_iff)
  then obtain ps where ps: "list_all2 (\<lambda>v p. codes tc v (fst p) (snd p)) vs ps" "map snd ps = map decoded vs"
    using codes_list_ex by blast
  obtain tb where tb: "type_bytes tc t tb" by (rule type_bytes_ex [OF inv t(1)])
  show ?case using 12(4) k(1) c_list [OF tb t(2) ps(1) k(2)] ps(2) by auto
next
  case (13 tc k t vs)
  then have inv: "tc_inv tc" and t: "t < length (tc_types tc)" "kind_at tc t = SetKind" and k: "k = SetKind" "length vs < 2 ^ 32"
    by (auto simp: ready_def has_kind_def)
  have "\<exists>bs. codes tc v bs (decoded v)" if "v \<in> set vs" for v using 13 that by (simp add: list_all_iff)
  then obtain ps where ps: "list_all2 (\<lambda>v p. codes tc v (fst p) (snd p)) vs ps" "map snd ps = map decoded vs"
    using codes_list_ex by blast
  obtain tb where tb: "type_bytes tc t tb" by (rule type_bytes_ex [OF inv t(1)])
  show ?case using 13(4) k(1) c_set [OF tb t(2) ps(1) k(2)] ps(2) by auto
next
  case (14 tc k t es)
  then have inv: "tc_inv tc" and t: "t < length (tc_types tc)" "kind_at tc t = MapKind" and k: "k = MapKind" "length es < 2 ^ 32"
    by (auto simp: ready_def has_kind_def)
  have "(\<exists>bs. codes tc (fst e) bs (decoded (fst e))) \<and> (\<exists>bs. codes tc (snd e) bs (decoded (snd e)))" if "e \<in> set es" for e
    using 14 that by (simp add: list_all_iff)
  then obtain ps where ps: "list_all2 (\<lambda>e p. codes tc (fst e) (fst (fst p)) (snd (fst p)) \<and> codes tc (snd e) (fst (snd p)) (snd (snd p))) es ps"
    "map (\<lambda>p. (snd (fst p), snd (snd p))) ps = map (\<lambda>e. (decoded (fst e), decoded (snd e))) es"
    using codes_entries_ex by blast
  obtain tb where tb: "type_bytes tc t tb" by (rule type_bytes_ex [OF inv t(1)])
  show ?case using 14(5) k(1) c_map [OF tb t(2) ps(1) k(2)] ps(2) by auto
next
  case (15 tc k ms t)
  then have inv: "tc_inv tc" and t: "t < length (tc_types tc)" "kind_at tc t = k" and k: "length ms < 2 ^ 32"
    by (auto simp: ready_def has_kind_def)
  have "\<exists>rb kb. codes tc (RefV (mt_ref m)) rb (RefV (mt_ref m)) \<and> codes_key tc (mt_key m) kb (decoded_key (mt_key m))"
    if "m \<in> set ms" for m using 15 that by (simp add: list_all_iff)
  then obtain ps where ps: "list_all2 (\<lambda>m p. codes tc (RefV (mt_ref m)) (fst p) (RefV (mt_ref m)) \<and> codes_key tc (mt_key m) (fst (snd p)) (snd (snd p))) ms ps"
    "map2 (\<lambda>m p. metaTuple (mt_ref m) (snd (snd p)) (mt_numLeaves m) None) ms ps = map decoded_tuple ms"
    using codes_tuples_ex by blast
  obtain tb where tb: "type_bytes tc t tb" by (rule type_bytes_ex [OF inv t(1)])
  have "collection (kind_at tc t) (metaSequence (map2 (\<lambda>m p. metaTuple (mt_ref m) (snd (snd p)) (mt_numLeaves m) None) ms ps) t) = Some (decoded v')"
    using 15(4) unfolding ps(2) t(2) by (cases k) auto
  from c_meta [OF tb _ ps(1) k this] 15(4) t(2) show ?case by blast
next
  case (16 tc r key nl child)
  then show ?case using ref_ok_codes by (auto simp: ready_def)
next
  case (17 tc v h)
  then show ?case using c_key_value by fastforce
next
  case (18 tc h)
  then show ?case by simp
next
  case (19 tc vo h)
  then obtain rb where inv: "tc_inv tc" and rb: "rb < length (tc_types tc)" "MakeRefType BoolType tc = Inr (rb, tc)"
    "ty_Desc (tc_types tc ! rb) = CompoundDesc RefKind [BoolType]" by (auto simp: ready_def)
  have "ref_ok tc \<lparr>ref_target = h, ref_height = 0, ref_t = rb\<rparr>" using rb by (simp add: ref_ok_def BoolType_def ValueType_def)
  from ref_ok_codes [OF inv this] show ?case using c_key_hash [OF _ rb(2)] 19(2) by auto
qed

lemma codes_nonempty: "codes tc v bs w \<Longrightarrow> 0 < length bs"
  by (erule codes.cases) (auto dest: type_bytes_pos)

lemma Encode_Decode:
  assumes "codes tc v bs w" "length bs < n" "length bs + 20 \<le> 2 ^ 31"
  shows "\<exists>log. EncodeValue n vw v tc = Inr (NewChunk (Some bs), tc, log)"
    and "DecodeValue n (NewChunk (Some bs)) tc = Inr (w, tc)"
proof -
  let ?e = "newValueEncoder newBinaryNomsWriter tc"
  have new: "wr_ok (ve_w ?e)" "written (ve_w ?e) = []" "ve_tc ?e = tc"
    by (auto simp: newValueEncoder_def wr_ok_def written_def newBinaryNomsWriter_def initialBufferSize_def intro!: exI [of _ 11])
  have "encodes tc (writeValue n vw v) bs" using codes_encodes(1) [OF assms(1)] assms(2) by blast
  moreover have "length (written (ve_w ?e)) + length bs + 20 \<le> 2 ^ 31" using new(2) assms(3) by simp
  ultimately obtain e' where e': "writeValue n vw v ?e = Inr e'" "ve_tc e' = tc" "wr_ok (ve_w e')" "written (ve_w e') = bs"
    using encodesD [OF _ new(3,1)] new(2) by (metis append_Nil)
  then show "\<exists>log. EncodeValue n vw v tc = Inr (NewChunk (Some bs), tc, log)"
    by (simp add: EncodeValue_def wr_data_written)
  let ?r = "newValueDecoder bs tc"
  have r: "vd_tc ?r = tc" "\<not> vd_validating ?r" "rd_ok (vd_reader ?r)" "rest_of (vd_reader ?r) = bs @ []"
    using assms(3) by (simp_all add: newValueDecoder_def rd_ok_def rest_of_def)
  have "decodes tc (readValue n) bs w" using codes_decodes(1) [OF assms(1)] assms(2) by blast
  from decodesD [OF this r]
  have "DecodeFromBytes n bs tc = Inr (w, tc)"
    by (simp add: DecodeFromBytes_def newValueDecoder_def rd_pos_def rd_skip_def)
  then show "DecodeValue n (NewChunk (Some bs)) tc = Inr (w, tc)"
    using codes_nonempty [OF assms(1)] by (simp add: DecodeValue_def Chunk_IsEmpty_def Chunk_Data_def NewChunk_def)
qed

lemma ready_made:
  assumes "types_made tc" "length (tc_types tc) < 2 ^ 31" "MakeRefType BoolType tc = Inr (rb, tc)"
  shows "ready tc"
proof -
  note inv = types_made_inv [OF assms(1)]
  have c: "container RefKind (length [BoolType])" "list_all (\<lambda>t. t < length (tc_types tc)) [BoolType]"
    using prim_kinds(6) [OF inv] by (simp_all add: container_def)
  from getCompoundType_inv [OF inv assms(2) c] assms(3) inv show ?thesis
    by (auto simp: ready_def MakeRefType_def desc_at_def)
qed



end
