(* ===== verification/ValueLoop.thy ===== *)
theory ValueLoop
  imports ValueRoundtrip
begin

text \<open>Bytes on which the decoder does not return.\<close>

subsection \<open>Malformed input\<close>

text \<open>
  A list of two elements whose first is the string \<open>80 80 00\<close> and whose second, at offset 15, is a list of
  two numbers. The mantissa of its first number, at offset 23, is a varint of more than ten bytes: \<open>Varint\<close>
  reports the overflow by the count -11, the reader moves back to offset 12, reads the exponent there from
  the string, and is again at offset 15 for the second number.
\<close>

definition looping_bytes :: bytes where
  "looping_bytes = [5, 1, 0, 0, 0, 0, 2, 2, 0, 0, 0, 3, 0x80, 0x80, 0, 5, 1, 0, 0, 0, 0, 2, 1,
     0x80, 0x80, 0x80, 0x80, 0x80, 0x80, 0x80, 0x80, 0x80, 0x80, 0]"

definition looping_at :: "uint32 \<Rightarrow> TypeCache \<Rightarrow> valueDecoder" where
  "looping_at pos tc = \<lparr>vd_reader = \<lparr>rd_buff = looping_bytes, rd_offset = pos\<rparr>, vd_tc = tc, vd_typeDepth = 0, vd_validating = False\<rparr>"

lemma looping_ok: "unat pos \<le> 34 \<Longrightarrow> rd_ok (vd_reader (looping_at pos tc))"
  by (simp add: rd_ok_def looping_at_def looping_bytes_def)

lemma looping_rest: "rest_of (vd_reader (looping_at pos tc)) = drop (unat pos) looping_bytes"
  by (simp add: rest_of_def looping_at_def)

lemma looping_skip: "vd_skip n (looping_at pos tc) = looping_at (pos + of_nat n) tc"
  by (simp add: vd_skip_def looping_at_def rd_skip_def)

lemma looping_decodes:
  assumes "decodes tc f bs v" "take (length bs) (drop (unat pos) looping_bytes) = bs" "unat pos \<le> 34"
  shows "f (looping_at pos tc) = Inr (v, looping_at (pos + of_nat (length bs)) tc)"
proof -
  have "rest_of (vd_reader (looping_at pos tc)) = bs @ drop (length bs) (drop (unat pos) looping_bytes)"
    unfolding looping_rest using assms(2) by (metis append_take_drop_id)
  moreover have "vd_tc (looping_at pos tc) = tc" "\<not> vd_validating (looping_at pos tc)" by (simp_all add: looping_at_def)
  ultimately have "f (looping_at pos tc) = Inr (v, vd_skip (length bs) (looping_at pos tc))"
    using decodesD [OF assms(1)] looping_ok [OF assms(3)] by blast
  then show ?thesis by (simp add: looping_skip)
qed

lemma looping_number:
  "\<exists>f. rd readNumber (looping_at 23 tc) = Inr (f, looping_at 15 tc)"
  by (simp add: rd_def readNumber_def looping_at_def looping_bytes_def from_res_def Varint_def Uvarint_def rd_skip_def Let_def)

lemma prim_types_found:
  assumes "tc_inv tc"
  shows "found tc (EPrim NumberKind) NumberType" "found tc (EPrim StringKind) StringType"
  using prim_kinds(7,8) [OF assms] by (auto intro!: found.fprim simp: IsPrimitiveKind_def)

lemma sbind_Inr: "m s = Inr (x, s') \<Longrightarrow> sbind m k s = k x s'"
  by (simp add: sbind_def)

lemma sbind_assoc: "sbind (sbind m f) g = sbind m (\<lambda>x. sbind (f x) g)"
proof
  fix s show "sbind (sbind m f) g s = sbind m (\<lambda>x. sbind (f x) g) s" by (cases "m s") (auto simp: sbind_def)
qed

lemma sbind_sreturn: "sbind (sreturn x) f = f x"
  by (rule ext) (simp add: sbind_def sreturn_def)

text \<open>Reading the type of the list; with too small a stack that does not return either.\<close>

lemma list_type_read:
  fixes r :: valueDecoder
  assumes inv: "tc_inv tc" and get: "getCompoundType ListKind [NumberType] tc = Inr (t, tc')"
    and r: "vd_tc r = tc" "\<not> vd_validating r" "rd_ok (vd_reader r)" "rest_of (vd_reader r) = [5, 1] @ xs"
  shows "readType n r = Inl Diverges \<or> readType n r = Inr (t, (vd_skip 2 r)\<lparr>vd_tc := tc'\<rparr>)"
proof (cases n)
  case (Suc m)
  define r1 where "r1 = r\<lparr>vd_typeDepth := vd_typeDepth r + 1\<rparr>"
  have r1: "vd_tc r1 = tc" "\<not> vd_validating r1" "rd_ok (vd_reader r1)" "rest_of (vd_reader r1) = [kind_code ListKind] @ (1 # xs)"
    using r by (simp_all add: r1_def)
  define r2 where "r2 = vd_skip 1 r1"
  have k: "readKind r1 = Inr (Some ListKind, r2)" using decodesD [OF decodes_readKind r1] by (simp add: r2_def)
  have r2: "vd_tc r2 = tc" "\<not> vd_validating r2" "rd_ok (vd_reader r2)" "rest_of (vd_reader r2) = tbytes (EPrim NumberKind) @ xs"
    using r1(1,2) rd_skip_ok [OF r1(3,4)] by (simp_all add: r2_def)
  have num: "readType m r2 = Inl Diverges \<or> readType m r2 = Inr (NumberType, vd_skip 1 r2)"
  proof (cases m)
    case (Suc l)
    then have "length (tbytes (EPrim NumberKind)) \<le> m" by simp
    from decodesD [OF readType_decodes [OF prim_types_found(1) [OF inv] this] r2] show ?thesis by simp
  qed simp
  show ?thesis
  proof (cases "readType m r2 = Inl Diverges")
    case True
    then show ?thesis by (simp add: Suc sbind_def readTypeInner_def k flip: r1_def)
  next
    case False
    then have "readType m r2 = Inr (NumberType, vd_skip 1 r2)" using num by blast
    moreover have "vd_tc (vd_skip 1 r2) = tc" by (simp add: r2(1))
    ultimately have inner: "readTypeInner m (readType m) r1 = Inr (t, (vd_skip 2 r1)\<lparr>vd_tc := tc'\<rparr>)"
      using get by (simp add: sbind_def readTypeInner_def k on_tc_def r2_def numeral_2_eq_2)
    have "((vd_skip 2 r1)\<lparr>vd_tc := tc'\<rparr>)\<lparr>vd_typeDepth := vd_typeDepth r\<rparr> = (vd_skip 2 r)\<lparr>vd_tc := tc'\<rparr>"
      by (simp add: r1_def vd_skip_def)
    then show ?thesis using inner r(2)
      by (simp add: Suc sbind_def r1_def [symmetric]) (simp add: r1_def vd_skip_def Let_def)
  qed
qed simp

lemma looping_list:
  assumes inv: "tc_inv tc" and get: "getCompoundType ListKind [NumberType] tc = Inr (t, tc')" and pos: "pos = 0 \<or> pos = 15"
    and t: "t < length (tc_types tc')" "ty_Desc (tc_types tc' ! t) = CompoundDesc ListKind [NumberType]"
  shows "readValue (Suc n) (looping_at pos tc) = Inl Diverges
    \<or> readValue (Suc n) (looping_at pos tc)
      = sbind (times_st 2 (readValue n)) (\<lambda>vs. sreturn (List (listLeafSequence t vs))) (looping_at (pos + 7) tc')"
proof -
  have here: "vd_tc (looping_at pos tc) = tc" "\<not> vd_validating (looping_at pos tc)" "rd_ok (vd_reader (looping_at pos tc))"
    using pos by (auto simp: looping_at_def rd_ok_def looping_bytes_def)
  have rest: "rest_of (vd_reader (looping_at pos tc)) = [5, 1] @ drop 2 (drop (unat pos) looping_bytes)"
    using pos by (auto simp: looping_rest looping_bytes_def)
  have two: "bytes32 2 = [0, 0, 0, 2]" by (simp add: bytes32_def)
  show ?thesis
  proof (cases "readType n (looping_at pos tc) = Inl Diverges")
    case True
    then show ?thesis by (simp add: sbind_def)
  next
    case False
    then have ty: "readType n (looping_at pos tc) = Inr (t, looping_at (pos + 2) tc')"
      using list_type_read [OF inv get here rest, of n]
      by (simp add: looping_skip) (simp add: looping_at_def)
    have desc: "desc_of t (looping_at (pos + 2) tc') = Inr (CompoundDesc ListKind [NumberType], looping_at (pos + 2) tc')"
      using t by (simp add: desc_of_def on_tc_def looping_at_def)
    have flag: "rd readBool (looping_at (pos + 2) tc') = Inr (False, looping_at (pos + 3) tc')"
      using looping_decodes [OF decodes_bool [of tc' False], of "pos + 2"] pos by (auto simp: looping_bytes_def add.assoc)
    then have flag: "sbind (rd readBool) k (looping_at (pos + 2) tc') = k False (looping_at (pos + 3) tc')" for k :: "bool \<Rightarrow> (Value, valueDecoder) st"
      by (simp add: sbind_def)
    have cnt: "rd readUint32 (looping_at (pos + 3) tc') = Inr (2, looping_at (pos + 7) tc')"
      using looping_decodes [OF decodes_rd [OF consumes_readUint32 [of 2]], of "pos + 3" tc'] pos
      by (auto simp: looping_bytes_def add.assoc two)
    have "readValue (Suc n) (looping_at pos tc)
        = sbind (times_st 2 (readValue n)) (\<lambda>vs. sreturn (List (listLeafSequence t vs))) (looping_at (pos + 7) tc')"
      by (simp add: sbind_Inr ty desc flag cnt read_kind_of_def read_collection_def
          readListLeafSequence_def readValueSequence_def sbind_assoc sbind_sreturn)
    then show ?thesis by blast
  qed
qed

text \<open>At offset 15 the decoder comes back to offset 15, one level deeper.\<close>

lemma looping_back:
  assumes inv: "tc_inv tc" and get: "getCompoundType ListKind [NumberType] tc = Inr (t, tc)"
    and t: "t < length (tc_types tc)" "ty_Desc (tc_types tc ! t) = CompoundDesc ListKind [NumberType]"
  shows "readValue n (looping_at 15 tc) = Inl Diverges"
proof (induction n)
  case (Suc n)
  have num: "readValue n (looping_at 22 tc) = Inl Diverges \<or> (\<exists>f. readValue n (looping_at 22 tc) = Inr (Number f, looping_at 15 tc))"
  proof (cases "1 < n")
    case True
    then obtain m where m: "n = Suc m" "length (tbytes (EPrim NumberKind)) \<le> m" by (cases n) auto
    have ty: "readType m (looping_at 22 tc) = Inr (NumberType, looping_at 23 tc)"
      using looping_decodes [OF readType_decodes [OF prim_types_found(1) [OF inv] m(2)], of 22]
      by (simp add: looping_bytes_def)
    have desc: "desc_of NumberType (looping_at 23 tc) = Inr (PrimitiveDesc NumberKind, looping_at 23 tc)"
      using tc_inv_prim [OF inv, of 1] prim_kinds(7) [OF inv]
      by (simp add: desc_of_def on_tc_def looping_at_def desc_at_def NumberType_def prim_types_def makePrimitiveType_def)
    obtain f where "rd readNumber (looping_at 23 tc) = Inr (f, looping_at 15 tc)" using looping_number by blast
    then show ?thesis by (simp add: m(1) sbind_Inr ty desc read_kind_of_def sreturn_def)
  next
    case False
    then consider "n = 0" | "n = Suc 0" by linarith
    then show ?thesis by cases (simp_all add: sbind_def)
  qed
  have "times_st 2 (readValue n) (looping_at 22 tc) = Inl Diverges"
    using num Suc by (auto simp: numeral_2_eq_2 sbind_def)
  then have "sbind (times_st 2 (readValue n)) k (looping_at 22 tc) = Inl Diverges" for k :: "Value list \<Rightarrow> (Value, valueDecoder) st"
    by (simp add: sbind_def)
  then show ?case using looping_list [OF inv get _ t, of 15 n] by auto
qed simp

text \<open>
  C34. There are 34 bytes on which \<open>DecodeFromBytes\<close> does not return, whatever the depth of the stack: a
  varint with more than ten bytes makes \<open>readNumber\<close> move backwards, and the decoder recurses into the
  same list forever. The program dies of a stack overflow, which is not a panic that could be recovered.
\<close>

theorem decode_diverges:
  assumes "types_made tc" "length (tc_types tc) < 2 ^ 31"
  shows "DecodeFromBytes n looping_bytes tc = Inl Diverges"
proof -
  note inv = types_made_inv [OF assms(1)]
  have c: "container ListKind (length [NumberType])" "list_all (\<lambda>t. t < length (tc_types tc)) [NumberType]"
    using prim_kinds(7) [OF inv] by (simp_all add: container_def)
  obtain t tc1 where get: "getCompoundType ListKind [NumberType] tc = Inr (t, tc1)" and inv1: "tc_inv tc1"
    and t: "6 \<le> t" "t < length (tc_types tc1)" "desc_at tc1 t = CompoundDesc ListKind [NumberType]"
    using getCompoundType_inv [OF inv assms(2) c] by blast
  have t': "ty_Desc (tc_types tc1 ! t) = CompoundDesc ListKind [NumberType]" using t(3) by (simp add: desc_at_def)
  have node: "node_t tc1 (ListKind, map (id_at tc1) [NumberType]) = Some t"
    using tc_invD(3) [OF inv1 t(1,2)] by (simp add: t(3))
  have get1: "getCompoundType ListKind [NumberType] tc1 = Inr (t, tc1)"
    by (rule getCompoundType_there [OF _ node]) (use prim_kinds(7) [OF inv1] in simp)
  note again = looping_back [OF inv1 get1 t(2) t']
  have "readValue n (looping_at 0 tc) = Inl Diverges"
  proof (cases n)
    case (Suc m)
    have str: "readValue m (looping_at 7 tc1) = Inl Diverges \<or> readValue m (looping_at 7 tc1) = Inr (String [0x80, 0x80, 0], looping_at 15 tc1)"
    proof (cases "1 < m")
      case True
      then obtain l where l: "m = Suc l" "length (tbytes (EPrim StringKind)) \<le> l" by (cases m) auto
      have ty: "readType l (looping_at 7 tc1) = Inr (StringType, looping_at 8 tc1)"
        using looping_decodes [OF readType_decodes [OF prim_types_found(2) [OF inv1] l(2)], of 7]
        by (simp add: looping_bytes_def)
      have desc: "desc_of StringType (looping_at 8 tc1) = Inr (PrimitiveDesc StringKind, looping_at 8 tc1)"
        using tc_inv_prim [OF inv1, of 2] prim_kinds(8) [OF inv1]
        by (simp add: desc_of_def on_tc_def looping_at_def desc_at_def StringType_def prim_types_def makePrimitiveType_def)
      have "rd readString (looping_at 8 tc1) = Inr ([0x80, 0x80, 0], looping_at 15 tc1)"
        using looping_decodes [OF decodes_rd [OF consumes_readBytes(2) [of "[0x80, 0x80, 0]"]], of 8 tc1]
        by (simp add: looping_bytes_def bytes32_def)
      then show ?thesis by (simp add: l(1) sbind_Inr ty desc read_kind_of_def sreturn_def)
    next
      case False
      then consider "m = 0" | "m = Suc 0" by linarith
      then show ?thesis by cases (simp_all add: sbind_def)
    qed
    have "times_st 2 (readValue m) (looping_at 7 tc1) = Inl Diverges"
      using str again by (auto simp: numeral_2_eq_2 sbind_def)
    then have "sbind (times_st 2 (readValue m)) k (looping_at 7 tc1) = Inl Diverges" for k :: "Value list \<Rightarrow> (Value, valueDecoder) st"
      by (simp add: sbind_def)
    then show ?thesis using looping_list [OF inv get _ t(2) t', of 0 m] Suc by auto
  qed simp
  moreover have "newValueDecoder looping_bytes tc = looping_at 0 tc" by (simp add: newValueDecoder_def looping_at_def)
  ultimately show ?thesis by (simp add: DecodeFromBytes_def)
qed

theorem decode_diverges_witness: "DecodeFromBytes 1000000 looping_bytes NewTypeCache = Inl Diverges"
  by (rule decode_diverges [OF made_new]) (simp add: NewTypeCache_def prim_types_def)

end
