(* ===== verification/Rolling.thy ===== *)
theory Rolling
  imports ValueCodec
begin

text \<open>
  The rolling hash that decides where a prolly tree is cut into chunks: \<open>BuzHash\<close> (the vendored package
  \<open>buzhash\<close>) and \<open>rolling_value_hasher.go\<close>, which feeds it the bytes of the encoding of values without their
  types. The sum depends on the last bytes only, as many as the window holds.
\<close>

subsection \<open>BuzHash\<close>

definition bytehash :: "uint32 list" where
  "bytehash =
    [0x12bd9527, 0xf4140cea, 0x987bd6e1, 0x79079850, 0xafbfd539, 0xd350ce0a, 0x82973931, 0x9fc32b9c,
     0x28003b88, 0xc30c13aa, 0x6b678c34, 0x5844ef1d, 0xaa552c18, 0x4a77d3e8, 0xd1f62ea0, 0x6599417c,
     0xfbe30e7a, 0xf9e2d5ee, 0xa1fca42e, 0x41548969, 0x116d5b59, 0xaeda1e1a, 0xc5191c17, 0x54b9a3cb,
     0x727e492a, 0x5c432f91, 0x31a50bce, 0xc2696af6, 0x217c8020, 0x1262aefc, 0xace75924, 0x9876a04f,
     0xaf300bc2, 0x3ffce3f6, 0xd6680fb5, 0xd0b1ced8, 0x6651f842, 0x736fadef, 0xbc2d3429, 0xb03d2904,
     0x7e634ba4, 0xdfd87d8c, 0x7988d63a, 0x4be4d933, 0x6a8d0382, 0x9e132d62, 0x3ee9c95f, 0xfec05b97,
     0x6907ad34, 0x8616cfcc, 0xa6aabf24, 0x8ad1c92e, 0x4f2affc0, 0xb87519db, 0x6576eaf6, 0x15dbe00a,
     0x63e1dd82, 0xa36b6a81, 0xeead99b3, 0xbc6a4309, 0x3478d1a7, 0x2182bcc0, 0xdd50cfce, 0x7cb25580,
     0x73075483, 0x503b7f42, 0x4cd50d63, 0x3f4d94c9, 0x385fcbb7, 0x90daf16c, 0xece10b8e, 0x11c1cb04,
     0x816a899b, 0x69a29d06, 0xfb090b37, 0xf98ef13c, 0x07653435, 0x9f15dc42, 0x3b43abdf, 0x1334283f,
     0x93f3d9af, 0x0cbdfe71, 0xa788a614, 0x4f54d2f0, 0xd4374fc7, 0x70557ce7, 0xf741fce8, 0xe4b6f661,
     0xc630cb98, 0x387a6366, 0x72f428fd, 0x539009db, 0xc53e3810, 0x1e1a52e5, 0x7d6816b0, 0x040f9b81,
     0x9c99c9fb, 0x9f3af3d2, 0x774d1061, 0xd5c840ea, 0x8e1480fe, 0x6ee4023c, 0x2fbda535, 0xd88eff7a,
     0xd8632a2a, 0x43c4e024, 0x3ef27971, 0xc72866fd, 0xe35cc630, 0x46d96220, 0x437a8384, 0xe92caf0c,
     0x6290a47e, 0xa7bb9238, 0x0e1000f9, 0x49e76bdc, 0x3acfb4b8, 0x03582b8e, 0x6ea2de4e, 0x2ec1008d,
     0xfcc8df69, 0x91c2fe0a, 0xb471c7d9, 0x778be812, 0x70d29ad1, 0x76411cbf, 0xc302e81c, 0x4e445194,
     0x22e3aa72, 0xb65762e9, 0xa280db05, 0x827aa70e, 0x4c531a9d, 0x7a60bf4a, 0x8fd95a44, 0x2289aef0,
     0xcd50ddc4, 0x639aae69, 0x5fe85ed6, 0x4ed724ff, 0x00f04f7d, 0x95a5fcb0, 0x88255d15, 0xa603d2c9,
     0xf6956a5b, 0x53ea7f3e, 0xb570f225, 0x2b3be203, 0xa181e40e, 0xc413cdce, 0xa7cb1ebb, 0xcf258b1f,
     0x516eb016, 0xca204586, 0xd1e69894, 0xe85a73d3, 0x7db2d382, 0xae73b463, 0x3598d643, 0x5087c864,
     0xd91f30b6, 0xe1d4d1e7, 0x73b3b337, 0xceac1233, 0x8edf7845, 0xa69c45c9, 0xdb5db3ab, 0x28cfade8,
     0xebfa49e7, 0xcbc2a659, 0x59cce971, 0x959a01af, 0x8ee9aae7, 0xfb2f01c6, 0x5a752836, 0x9ed12981,
     0x618d05b6, 0x93ec12b3, 0x4590c779, 0xed1317a2, 0x03fe5835, 0x7ad3c6f7, 0xd4aad5b5, 0x1a995ed7,
     0x247bfaa4, 0x69c2c799, 0x745fa405, 0xc5b9f239, 0xc3d9aebc, 0xa6f60e0b, 0xdf1e91d7, 0xab8e041c,
     0xee3188c6, 0x37377a9e, 0xc0e1a3bf, 0x19a5a9e4, 0x56cb9556, 0xc4d33d3f, 0xfb1eb03e, 0xf9557057,
     0x1be31d37, 0xd1fa65f1, 0xf518d714, 0x570ac722, 0xf26cf66a, 0x24794d47, 0x8ba2e402, 0x3f5137e6,
     0x35be1453, 0x43350478, 0x9f05ee88, 0x364cf9cf, 0x39a23ee7, 0xa4db8d49, 0xc2ebb3d2, 0xc6fb99d5,
     0xe014dfb0, 0x7156d425, 0xe090a87a, 0x4cc12f78, 0x1b30f503, 0x06694a7a, 0x68198cd1, 0x2f8345bd,
     0x9d79198e, 0xd871943f, 0x22ef6cf4, 0xe81b1c15, 0x067b61d8, 0xfc4ea4f5, 0xfe6dab57, 0x1bf744ba,
     0xa70b6a25, 0xafe6e412, 0xc6c1a05c, 0x8ffbe3ce, 0xc4270af1, 0xf3f36373, 0xc4507dd8, 0x5e6fd1e2,
     0x58cd9739, 0x47d3c5b5, 0xe1d5a343, 0x3d4dea4a, 0x893d91ae, 0xbb2a5e2a, 0x0d57b800, 0x652a7cc9,
     0x6a68ccfd, 0x62529f0b, 0xec5f36d6, 0x766cceda, 0x96ca63ef, 0xa0499838, 0xd9030f59, 0x8185f4d2]"

record BuzHash =
  bh_state :: uint32
  bh_buf :: bytes
  bh_n :: uint32
  bh_bshiftn :: nat
  bh_bshiftm :: nat
  bh_bufpos :: uint32
  bh_overflow :: bool

definition bh_Reset :: "BuzHash \<Rightarrow> BuzHash" where
  "bh_Reset bh = bh\<lparr>bh_state := 0, bh_bufpos := 0, bh_overflow := False\<rparr>"

definition NewBuzHash :: "uint32 \<Rightarrow> BuzHash" where
  "NewBuzHash n =
     bh_Reset \<lparr>bh_state = 0, bh_buf = replicate (unat n) 0, bh_n = n, bh_bshiftn = unat (n mod 32),
                bh_bshiftm = 32 - unat (n mod 32), bh_bufpos = 0, bh_overflow = False\<rparr>"

definition bh_HashByte :: "byte \<Rightarrow> BuzHash \<Rightarrow> BuzHash" where
  "bh_HashByte b bh =
     (let bh = (if bh_bufpos bh = bh_n bh then bh\<lparr>bh_overflow := True, bh_bufpos := 0\<rparr> else bh);
          st = bh_state bh;
          st = push_bit 1 st OR drop_bit 31 st;
          toshift = bytehash ! unat (bh_buf bh ! unat (bh_bufpos bh));
          st = (if bh_overflow bh then st XOR (push_bit (bh_bshiftn bh) toshift OR drop_bit (bh_bshiftm bh) toshift) else st)
      in bh\<lparr>bh_buf := (bh_buf bh)[unat (bh_bufpos bh) := b], bh_bufpos := bh_bufpos bh + 1,
            bh_state := st XOR bytehash ! unat b\<rparr>)"

definition Sum32 :: "BuzHash \<Rightarrow> uint32" where
  "Sum32 bh = bh_state bh"

subsection \<open>The hasher of values\<close>

definition defaultChunkPattern :: uint32 where
  "defaultChunkPattern = push_bit 12 1 - 1"

definition defaultChunkWindow :: uint32 where
  "defaultChunkWindow = 64"

text \<open>The configuration; only tests change it.\<close>

definition chunkingConfig :: "uint32 \<times> uint32" where
  "chunkingConfig = (defaultChunkPattern, defaultChunkWindow)"

record rollingValueHasher =
  rv_bz :: BuzHash
  rv_bytesHashed :: uint32
  rv_lengthOnly :: bool
  rv_crossedBoundary :: bool
  rv_pattern :: uint32
  rv_window :: uint32

definition newRollingValueHasher :: rollingValueHasher where
  "newRollingValueHasher =
     (case chunkingConfig of (pattern, window) \<Rightarrow>
        \<lparr>rv_bz = NewBuzHash window, rv_bytesHashed = 0, rv_lengthOnly = False, rv_crossedBoundary = False,
         rv_pattern = pattern, rv_window = window\<rparr>)"

text \<open>The test is against the global \<open>chunkPattern\<close>, not against the pattern the hasher was made with.\<close>

definition rv_HashByte :: "byte \<Rightarrow> rollingValueHasher \<Rightarrow> rollingValueHasher" where
  "rv_HashByte b rv =
     (let rv = rv\<lparr>rv_bytesHashed := rv_bytesHashed rv + 1\<rparr>
      in if rv_lengthOnly rv then rv
         else let bz = bh_HashByte b (rv_bz rv); chunkPattern = fst chunkingConfig
              in rv\<lparr>rv_bz := bz,
                    rv_crossedBoundary := rv_crossedBoundary rv \<or> Sum32 bz AND chunkPattern = chunkPattern\<rparr>)"

definition ClearLastBoundary :: "rollingValueHasher \<Rightarrow> rollingValueHasher" where
  "ClearLastBoundary rv = rv\<lparr>rv_crossedBoundary := False, rv_bytesHashed := 0\<rparr>"

text \<open>The hasher as a \<open>nomsWriter\<close>: every method hashes bytes.\<close>

definition rv_writeBytes :: "bytes \<Rightarrow> rollingValueHasher \<Rightarrow> rollingValueHasher" where
  "rv_writeBytes v rv = fold rv_HashByte v rv"

definition rv_writeUint8 :: "byte \<Rightarrow> rollingValueHasher \<Rightarrow> rollingValueHasher" where
  "rv_writeUint8 v rv = rv_HashByte v rv"

definition rv_writeUint32 :: "uint32 \<Rightarrow> rollingValueHasher \<Rightarrow> rollingValueHasher" where
  "rv_writeUint32 v rv = fold rv_HashByte (be_encode 4 (unat v)) rv"

definition rv_writeUint64 :: "uint64 \<Rightarrow> rollingValueHasher \<Rightarrow> rollingValueHasher" where
  "rv_writeUint64 v rv = fold rv_HashByte (be_encode 8 (unat v)) rv"

definition hashVarint :: "uint64 \<Rightarrow> rollingValueHasher \<Rightarrow> rollingValueHasher" where
  "hashVarint n rv = fold rv_HashByte (PutVarint n) rv"

definition rv_writeNumber :: "float64 \<Rightarrow> rollingValueHasher \<Rightarrow> rollingValueHasher res" where
  "rv_writeNumber v rv =
     rbind (float64ToIntExp v) (\<lambda>(i, ex). Inr (hashVarint (of_int ex) (hashVarint i rv)))"

definition rv_writeBool :: "bool \<Rightarrow> rollingValueHasher \<Rightarrow> rollingValueHasher" where
  "rv_writeBool v rv = (if v then rv_writeUint8 1 rv else rv_writeUint8 0 rv)"

definition rv_writeString :: "bytes \<Rightarrow> rollingValueHasher \<Rightarrow> rollingValueHasher" where
  "rv_writeString v rv = fold rv_HashByte v (rv_writeUint32 (of_nat (length v)) rv)"

definition rv_writeHash :: "hash \<Rightarrow> rollingValueHasher \<Rightarrow> rollingValueHasher" where
  "rv_writeHash h rv = fold rv_HashByte (hash_bytes h) rv"

text \<open>
  \<open>HashValue\<close> runs the encoder of \<open>value_encoder.go\<close> on the hasher: \<open>appendType\<close> does nothing and there is no
  value writer. The type of a type value goes through \<open>writeUint8\<close>, \<open>writeUint32\<close> and \<open>writeString\<close>, which give
  the same bytes for every writer, so its bytes are those of \<open>writeType\<close> on a byte buffer.
\<close>

type_synonym hasher_state = "rollingValueHasher \<times> TypeCache"

definition on_rv :: "(rollingValueHasher \<Rightarrow> rollingValueHasher) \<Rightarrow> hasher_state \<Rightarrow> hasher_state res" where
  "on_rv f = (\<lambda>(rv, tc). Inr (f rv, tc))"

definition hash_slice :: "(Value \<Rightarrow> hasher_state \<Rightarrow> hasher_state res) \<Rightarrow> Value list \<Rightarrow> hasher_state \<Rightarrow> hasher_state res" where
  "hash_slice hashValue vs s =
     rbind (on_rv (rv_writeUint32 (of_nat (length vs))) s) (\<lambda>s. foldM_res (\<lambda>s v. hashValue v s) s vs)"

definition hash_tuple :: "(Value \<Rightarrow> hasher_state \<Rightarrow> hasher_state res) \<Rightarrow> metaTuple \<Rightarrow> hasher_state \<Rightarrow> hasher_state res" where
  "hash_tuple hashValue tuple s =
     rbind (hashValue (RefV (mt_ref tuple)) s) (\<lambda>(rv, tc).
     rbind (key_value (mt_key tuple) tc) (\<lambda>(v, tc).
     rbind (hashValue v (rv, tc)) (on_rv (rv_writeUint64 (mt_numLeaves tuple)))))"

definition hash_sequence :: "(Value \<Rightarrow> hasher_state \<Rightarrow> hasher_state res) \<Rightarrow> sequence \<Rightarrow> hasher_state \<Rightarrow> hasher_state res" where
  "hash_sequence hashValue seq s =
     (case seq of
        metaSequence tuples t \<Rightarrow>
          rbind (on_rv (rv_writeBool True) s) (\<lambda>s. rbind (on_rv (rv_writeUint32 (of_nat (length tuples))) s) (\<lambda>s.
            foldM_res (\<lambda>s tuple. hash_tuple hashValue tuple s) s tuples))
      | blobLeafSequence dat \<Rightarrow> rbind (on_rv (rv_writeBool False) s) (on_rv (rv_writeBytes dat))
      | listLeafSequence t vs \<Rightarrow> rbind (on_rv (rv_writeBool False) s) (hash_slice hashValue vs)
      | setLeafSequence t vs \<Rightarrow> rbind (on_rv (rv_writeBool False) s) (hash_slice hashValue vs)
      | mapLeafSequence t es \<Rightarrow>
          rbind (on_rv (rv_writeBool False) s) (\<lambda>s. rbind (on_rv (rv_writeUint32 (of_nat (length es))) s) (\<lambda>s.
            foldM_res (\<lambda>s e. rbind (hashValue (fst e) s) (hashValue (snd e))) s es)))"

primrec HashValue :: "nat \<Rightarrow> Value \<Rightarrow> hasher_state \<Rightarrow> hasher_state res" where
  "HashValue 0 = (\<lambda>v s. Inl Diverges)"
| "HashValue (Suc n) = (\<lambda>v s.
     case v of
       Bool b \<Rightarrow> on_rv (rv_writeBool b) s
     | Number f \<Rightarrow>
         (case f of
            Fin q \<Rightarrow> (case s of (rv, tc) \<Rightarrow> rbind (rv_writeNumber f rv) (\<lambda>rv. Inr (rv, tc)))
          | _ \<Rightarrow> Inl (Panic ''%f is not a supported number''))
     | String str \<Rightarrow> on_rv (rv_writeString str) s
     | Blob seq \<Rightarrow> hash_sequence (HashValue n) seq s
     | List seq \<Rightarrow> hash_sequence (HashValue n) seq s
     | Map seq \<Rightarrow> hash_sequence (HashValue n) seq s
     | Set seq \<Rightarrow> hash_sequence (HashValue n) seq s
     | RefV r \<Rightarrow> on_rv (\<lambda>rv. rv_writeUint64 (ref_height r) (rv_writeHash (ref_target r) rv)) s
     | Struct t vs \<Rightarrow> foldM_res (\<lambda>s v. HashValue n v s) s vs
     | TypeV t \<Rightarrow> (case s of (rv, tc) \<Rightarrow>
         rbind (ensureTypeSerialization n tc t) (\<lambda>dat. Inr (fold rv_HashByte dat rv, tc))))"

text \<open>The functions that hash the items of the four kinds of sequences.\<close>

definition hashValueBytes :: "nat \<Rightarrow> sequenceItem \<Rightarrow> hasher_state \<Rightarrow> hasher_state res" where
  "hashValueBytes n item s =
     (case item of ValueItem v \<Rightarrow> HashValue n v s | _ \<Rightarrow> Inl (Panic ''interface conversion: not a Value''))"

definition hashValueByte :: "sequenceItem \<Rightarrow> hasher_state \<Rightarrow> hasher_state res" where
  "hashValueByte item s =
     (case item of ByteItem b \<Rightarrow> on_rv (rv_HashByte b) s | _ \<Rightarrow> Inl (Panic ''interface conversion: not a byte''))"

definition mapHashValueBytes :: "nat \<Rightarrow> sequenceItem \<Rightarrow> hasher_state \<Rightarrow> hasher_state res" where
  "mapHashValueBytes n item s =
     (case item of
        EntryItem e \<Rightarrow> rbind (HashValue n (fst e) s) (HashValue n (snd e))
      | _ \<Rightarrow> Inl (Panic ''interface conversion: not a mapEntry''))"

definition metaHashValueBytes :: "nat \<Rightarrow> sequenceItem \<Rightarrow> hasher_state \<Rightarrow> hasher_state res" where
  "metaHashValueBytes n item s =
     (case item of
        TupleItem mt \<Rightarrow>
          (case s of (rv, tc) \<Rightarrow>
             rbind (key_value (mt_key mt) tc) (\<lambda>(v, tc).
             rbind (HashValue n (RefV (mt_ref mt)) (rv, tc)) (HashValue n v)))
      | _ \<Rightarrow> Inl (Panic ''interface conversion: not a metaTuple''))"

subsection \<open>The window\<close>

text \<open>The sum of some bytes from scratch.\<close>

definition window_sum :: "bytes \<Rightarrow> uint32" where
  "window_sum bs = fold (\<lambda>b st. word_rotl 1 st XOR bytehash ! unat b) bs 0"

lemma bit_rotl: "bit (word_rotl m x) i \<longleftrightarrow> i < 32 \<and> bit (x :: uint32) ((i + (32 - m mod 32)) mod 32)"
  by (simp add: bit_word_rotl_iff)

lemma rotl_shifts:
  assumes "s < 32"
  shows "push_bit s x OR drop_bit (32 - s) x = word_rotl s (x :: uint32)"
proof (rule bit_word_eqI)
  fix i
  assume "i < LENGTH(32)"
  then have i: "i < 32" by simp
  show "bit (push_bit s x OR drop_bit (32 - s) x) i = bit (word_rotl s x) i"
  proof (cases "s \<le> i")
    case True
    then have "(i + (32 - s mod 32)) mod 32 = i - s" using i assms by (simp add: mod_if)
    moreover have "32 \<le> 32 - s + i" using True by simp
    then have "\<not> bit x (32 - s + i)" using bit_imp_le_length [of x "32 - s + i"] by auto
    ultimately show ?thesis using True i by (simp add: bit_rotl bit_push_bit_iff bit_drop_bit_eq bit_or_iff)
  next
    case False
    then have "(i + (32 - s mod 32)) mod 32 = 32 - s + i" using i assms by auto
    then show ?thesis using False i by (simp add: bit_rotl bit_push_bit_iff bit_drop_bit_eq bit_or_iff)
  qed
qed

lemma rotl_xor: "word_rotl m (x XOR y) = word_rotl m x XOR word_rotl m (y :: uint32)"
  by (rule bit_word_eqI) (simp add: bit_simps)

lemma rotl_index: "int ((i + (32 - m mod 32)) mod 32) = (int i - int m) mod 32"
proof -
  have "m mod 32 \<le> 32" by (rule less_imp_le) simp
  then have "int ((i + (32 - m mod 32)) mod 32) = ((int i - int m mod 32) + 32) mod 32"
    by (simp add: zmod_int of_nat_diff algebra_simps)
  also have "\<dots> = (int i - int m mod 32) mod 32" by (rule mod_add_self2)
  finally show ?thesis by (simp add: mod_diff_right_eq)
qed

lemma rotl_rotl: "word_rotl m (word_rotl k x) = word_rotl (m + k) (x :: uint32)"
proof (rule bit_word_eqI)
  fix i
  have "int (((i + (32 - m mod 32)) mod 32 + (32 - k mod 32)) mod 32) = int ((i + (32 - (m + k) mod 32)) mod 32)"
    unfolding rotl_index by (simp add: mod_diff_left_eq algebra_simps)
  then have "((i + (32 - m mod 32)) mod 32 + (32 - k mod 32)) mod 32 = (i + (32 - (m + k) mod 32)) mod 32"
    by (simp only: of_nat_eq_iff)
  then show "bit (word_rotl m (word_rotl k x)) i = bit (word_rotl (m + k) x) i" by (simp add: bit_rotl del: mod_add_left_eq)
qed

lemma rotl_mod: "word_rotl (m mod 32) x = word_rotl m (x :: uint32)"
  by (rule bit_word_eqI) (simp add: bit_simps)

lemma fold_window: "fold (\<lambda>b st. word_rotl 1 st XOR bytehash ! unat b) bs st = word_rotl (length bs) st XOR window_sum bs"
proof (induction bs arbitrary: st)
  case Nil
  have "word_rotl 0 st = st" by (rule bit_word_eqI) (simp add: bit_rotl)
  then show ?case by (simp add: window_sum_def)
next
  case (Cons b bs)
  show ?case
    using Cons.IH [of "word_rotl 1 st XOR bytehash ! unat b"] Cons.IH [of "bytehash ! unat b"]
    by (simp add: window_sum_def rotl_xor rotl_rotl ac_simps)
qed

lemma window_sum_Cons: "window_sum (b # bs) = word_rotl (length bs) (bytehash ! unat b) XOR window_sum bs"
  using fold_window [of bs "bytehash ! unat b"] by (simp add: window_sum_def)

lemma window_sum_snoc: "window_sum (bs @ [b]) = word_rotl 1 (window_sum bs) XOR bytehash ! unat b"
  by (simp add: window_sum_def)

text \<open>
  What \<open>HashByte\<close> keeps: the buffer is a ring of the last \<open>n\<close> bytes, each at its index modulo \<open>n\<close>.
\<close>

definition last_bytes :: "nat \<Rightarrow> bytes \<Rightarrow> bytes" where
  "last_bytes n bs = drop (length bs - n) bs"

definition ring :: "nat \<Rightarrow> bytes \<Rightarrow> BuzHash \<Rightarrow> bool" where
  "ring n bs bh \<longleftrightarrow>
     unat (bh_n bh) = n \<and> bh_bshiftn bh = n mod 32 \<and> bh_bshiftm bh = 32 - n mod 32 \<and> length (bh_buf bh) = n
     \<and> unat (bh_bufpos bh) = (if bs = [] then 0 else (length bs - 1) mod n + 1)
     \<and> (bh_overflow bh \<longleftrightarrow> n < length bs)
     \<and> (\<forall>j. length bs - n \<le> j \<and> j < length bs \<longrightarrow> bh_buf bh ! (j mod n) = bs ! j)
     \<and> bh_state bh = window_sum (last_bytes n bs)"

lemma ring_New: "ring (unat n) [] (NewBuzHash n)"
  by (simp add: ring_def NewBuzHash_def bh_Reset_def last_bytes_def window_sum_def unat_mod)

lemma last_bytes_snoc:
  "n \<le> length bs \<Longrightarrow> 0 < n \<Longrightarrow> last_bytes n bs = bs ! (length bs - n) # drop (length bs - n + 1) bs
    \<and> last_bytes n (bs @ [b]) = drop (length bs - n + 1) bs @ [b]"
  by (simp add: last_bytes_def Cons_nth_drop_Suc Suc_diff_le)

lemma bh_HashByte_eq:
  "bh_bshiftn bh < 32 \<Longrightarrow> bh_bshiftm bh = 32 - bh_bshiftn bh \<Longrightarrow>
   bh_overflow bh \<or> bh_bufpos bh = bh_n bh \<longleftrightarrow> over \<Longrightarrow> (if bh_bufpos bh = bh_n bh then 0 else bh_bufpos bh) = p \<Longrightarrow>
   bh_HashByte b bh = bh\<lparr>bh_overflow := over, bh_buf := (bh_buf bh)[unat p := b], bh_bufpos := p + 1,
     bh_state := (if over then word_rotl 1 (bh_state bh) XOR word_rotl (bh_bshiftn bh) (bytehash ! unat (bh_buf bh ! unat p))
                  else word_rotl 1 (bh_state bh)) XOR bytehash ! unat b\<rparr>"
  using rotl_shifts [of 1 "bh_state bh"] rotl_shifts [of "bh_bshiftn bh"]
  by (cases "bh_bufpos bh = bh_n bh"; cases "bh_overflow bh") (auto simp: bh_HashByte_def Let_def)

lemma ring_step:
  assumes r: "ring n bs bh" and n: "0 < n"
  shows "ring n (bs @ [b]) (bh_HashByte b bh)"
proof -
  define k where "k = length bs"
  let ?wrap = "bh_bufpos bh = bh_n bh" and ?p = "if bh_bufpos bh = bh_n bh then 0 else bh_bufpos bh"
  note r = r [unfolded ring_def, folded k_def]
  have wrap: "?wrap \<longleftrightarrow> k \<noteq> 0 \<and> k mod n = 0"
  proof (cases k)
    case 0
    then show ?thesis using r n by (auto simp: k_def)
  next
    case (Suc m)
    then have "?wrap \<longleftrightarrow> Suc (m mod n) = n" using r by (auto simp: k_def word_unat_eq_iff)
    then show ?thesis using Suc by (simp add: mod_Suc)
  qed
  have pos: "unat ?p = k mod n"
  proof (cases k)
    case (Suc m)
    then show ?thesis using r wrap by (auto simp: k_def mod_Suc)
  qed (use r in \<open>auto simp: k_def\<close>)
  have over: "bh_overflow bh \<or> ?wrap \<longleftrightarrow> n \<le> k"
  proof (cases "k < n")
    case True
    then show ?thesis using r wrap by auto
  next
    case False
    then show ?thesis using r wrap n by (cases "k = n") auto
  qed
  have small: "k mod n < n" using n by simp
  have "unat (?p + 1) = (unat ?p + 1) mod 2 ^ 32" by (simp only: unat_word_ariths(1) unat_1 len_num1) simp
  moreover have "unat ?p + 1 \<le> unat (bh_n bh)" using pos small r by simp
  moreover have "unat (bh_n bh) < 2 ^ 32" using unsigned_less [of "bh_n bh", where ?'a = nat] by simp
  ultimately have next_pos: "unat (?p + 1) = k mod n + 1" using pos by simp
  have old: "bh_buf bh ! (k mod n) = bs ! (k - n)" if "n \<le> k"
  proof -
    have "(k - n) mod n = k mod n" using that by (simp add: le_mod_geq)
    moreover have "bh_buf bh ! ((k - n) mod n) = bs ! (k - n)" using r that n by simp
    ultimately show ?thesis by simp
  qed
  have buf: "(bh_buf bh)[k mod n := b] ! (j mod n) = (bs @ [b]) ! j" if "length (bs @ [b]) - n \<le> j" "j < length (bs @ [b])" for j
  proof (cases "j = k")
    case True
    then show ?thesis using r small by (simp add: k_def)
  next
    case False
    then have j: "j < k" "k < j + n" using that n by (simp_all add: k_def)
    have "j mod n \<noteq> k mod n"
    proof
      assume "j mod n = k mod n"
      then have "n dvd k - j" using j(1) mod_eq_dvd_iff_nat [of j k n] by simp
      then show False using j dvd_imp_le [of n "k - j"] by simp
    qed
    then show ?thesis using r j n by (simp add: nth_append k_def)
  qed
  have "n mod 32 < 32" by simp
  then have eq: "bh_HashByte b bh = bh\<lparr>bh_overflow := n \<le> k, bh_buf := (bh_buf bh)[k mod n := b], bh_bufpos := ?p + 1,
     bh_state := (if n \<le> k then word_rotl 1 (bh_state bh) XOR word_rotl n (bytehash ! unat (bh_buf bh ! (k mod n)))
                  else word_rotl 1 (bh_state bh)) XOR bytehash ! unat b\<rparr>"
    using bh_HashByte_eq [of bh "n \<le> k" ?p b, OF _ _ over refl] r unfolding pos by (simp only: rotl_mod)
  have st: "bh_state (bh_HashByte b bh) = window_sum (last_bytes n (bs @ [b]))"
  proof (cases "n \<le> k")
    case True
    let ?w = "drop (k - n + 1) bs"
    have "last_bytes n bs = bs ! (k - n) # ?w" "last_bytes n (bs @ [b]) = ?w @ [b]"
      using last_bytes_snoc [of n bs b] True n by (simp_all add: k_def)
    moreover have "length ?w = n - 1" using True n by (simp add: k_def)
    ultimately have sum: "bh_state bh = word_rotl (n - 1) (bytehash ! unat (bs ! (k - n))) XOR window_sum ?w"
      "window_sum (last_bytes n (bs @ [b])) = word_rotl 1 (window_sum ?w) XOR bytehash ! unat b"
      using r by (simp_all add: window_sum_Cons window_sum_snoc)
    have "word_rotl 1 (bh_state bh) = word_rotl n (bytehash ! unat (bs ! (k - n))) XOR word_rotl 1 (window_sum ?w)"
      unfolding sum(1) using n by (simp add: rotl_xor rotl_rotl)
    then show ?thesis using sum(2) old [OF True] True by (simp add: eq ac_simps)
  next
    case False
    then have "last_bytes n (bs @ [b]) = bs @ [b]" "last_bytes n bs = bs" by (simp_all add: last_bytes_def k_def)
    then show ?thesis using False r by (simp add: eq window_sum_snoc)
  qed
  show ?thesis
    unfolding ring_def using r next_pos buf st by (simp add: eq k_def less_Suc_eq_le)
qed

lemma ring_fold: "ring n bs bh \<Longrightarrow> 0 < n \<Longrightarrow> ring n (bs @ cs) (fold bh_HashByte cs bh)"
proof (induction cs arbitrary: bs bh)
  case (Cons c cs)
  then show ?case using Cons.IH [OF ring_step [OF Cons.prems]] by simp
qed simp

text \<open>
  C37. The sum of \<open>BuzHash\<close> after any bytes is the sum of the last \<open>n\<close> of them from scratch, where \<open>n\<close> is the
  size of the window: the ring buffer and the rotations take out exactly the byte that leaves the window.
\<close>

theorem buzhash_window:
  assumes "0 < n"
  shows "Sum32 (fold bh_HashByte bs (NewBuzHash n)) = window_sum (last_bytes (unat n) bs)"
proof -
  have "0 < unat n" using assms by (simp add: word_less_nat_alt)
  then show ?thesis using ring_fold [OF ring_New, of n bs] by (simp add: ring_def Sum32_def)
qed

theorem buzhash_window_witness: "Sum32 (fold bh_HashByte [7, 8, 9] (NewBuzHash 2)) = window_sum [8, 9]"
  using buzhash_window [of 2 "[7, 8, 9]"] by (simp add: last_bytes_def)

end
