(* ===== verification/Cursor.thy ===== *)
theory Cursor
  imports Values
begin

text \<open>
  Cursors over prolly trees (\<open>sequence_cursor.go\<close>, \<open>sequence_iterator.go\<close>, the searches of
  \<open>indexed_sequences.go\<close> and \<open>ordered_sequences.go\<close>) and the reading operations of lists, maps and sets
  that use them. A cursor is the list of its levels, the leaf first and its parents behind it; an empty
  list is a nil cursor. Reading ahead only changes when a chunk is fetched and is left out. The first
  argument of a loop that walks down a tree is a bound on its height.
\<close>

subsection \<open>Cursors\<close>

record level =
  cl_seq :: sequence
  cl_idx :: int

type_synonym sequenceCursor = "level list"

definition new_level :: "sequence \<Rightarrow> int \<Rightarrow> level" where
  "new_level seq idx = \<lparr>cl_seq = seq, cl_idx = idx\<rparr>"

text \<open>\<open>v.(Collection).sequence()\<close>\<close>

fun value_sequence :: "Value \<Rightarrow> sequence res" where
  "value_sequence (Blob seq) = Inr seq"
| "value_sequence (List seq) = Inr seq"
| "value_sequence (Map seq) = Inr seq"
| "value_sequence (Set seq) = Inr seq"
| "value_sequence v = Inl (Panic ''interface conversion: not a Collection'')"

definition tuple_getChildSequence :: "ValueReader \<Rightarrow> metaTuple \<Rightarrow> sequence res" where
  "tuple_getChildSequence vr mt =
     (case mt_child mt of
        Some child \<Rightarrow> value_sequence child
      | None \<Rightarrow> (case vr (ref_target (mt_ref mt)) of
                   Some v \<Rightarrow> value_sequence v
                 | None \<Rightarrow> Inl (Panic ''interface conversion: nil'')))"

fun getChildSequence :: "ValueReader \<Rightarrow> sequence \<Rightarrow> int \<Rightarrow> sequence option res" where
  "getChildSequence vr (metaSequence tuples t) idx =
     rbind (nth_int tuples idx) (\<lambda>mt. rbind (tuple_getChildSequence vr mt) (\<lambda>cs. Inr (Some cs)))"
| "getChildSequence vr seq idx = Inr None"

definition newSequenceCursor :: "sequenceCursor \<Rightarrow> sequence \<Rightarrow> int \<Rightarrow> sequenceCursor res" where
  "newSequenceCursor parent seq idx =
     (if idx < 0 then chk (idx + seqLen seq \<ge> 0) (Inr (new_level seq (idx + seqLen seq) # parent))
      else Inr (new_level seq idx # parent))"

definition cur_length :: "sequenceCursor \<Rightarrow> int res" where
  "cur_length cur = (case cur of [] \<Rightarrow> Inl NilDereference | l # _ \<Rightarrow> Inr (seqLen (cl_seq l)))"

definition valid :: "sequenceCursor \<Rightarrow> bool res" where
  "valid cur = (case cur of [] \<Rightarrow> Inl NilDereference | l # _ \<Rightarrow> Inr (cl_idx l \<ge> 0 \<and> cl_idx l < seqLen (cl_seq l)))"

definition current :: "sequenceCursor \<Rightarrow> sequenceItem res" where
  "current cur = rbind (valid cur) (\<lambda>ok. chk ok (getItem (cl_seq (hd cur)) (cl_idx (hd cur))))"

fun cur_depth :: "sequenceCursor \<Rightarrow> int" where
  "cur_depth (l # p # ps) = 1 + cur_depth (p # ps)"
| "cur_depth cur = 1"

definition indexInChunk :: "sequenceCursor \<Rightarrow> int res" where
  "indexInChunk cur = (case cur of [] \<Rightarrow> Inl NilDereference | l # _ \<Rightarrow> Inr (cl_idx l))"

text \<open>\<open>cur.parent.getChildSequence()\<close>, the sequence \<open>sync\<close> moves to.\<close>

definition sync :: "ValueReader \<Rightarrow> sequenceCursor \<Rightarrow> sequence res" where
  "sync vr parent =
     (case parent of
        [] \<Rightarrow> Inl ChkFailed
      | p # _ \<Rightarrow> rbind (getChildSequence vr (cl_seq p) (cl_idx p)) (\<lambda>cs.
                   case cs of None \<Rightarrow> Inl NilDereference | Some seq \<Rightarrow> Inr seq))"

fun advanceMaybeAllowPastEnd :: "ValueReader \<Rightarrow> bool \<Rightarrow> sequenceCursor \<Rightarrow> (bool \<times> sequenceCursor) res" where
  "advanceMaybeAllowPastEnd vr allowPastEnd [] = Inl NilDereference"
| "advanceMaybeAllowPastEnd vr allowPastEnd (l # parent) =
     (if cl_idx l < seqLen (cl_seq l) - 1 then Inr (True, l\<lparr>cl_idx := cl_idx l + 1\<rparr> # parent)
      else if cl_idx l = seqLen (cl_seq l) then Inr (False, l # parent)
      else rbind (if parent = [] then Inr (False, []) else advanceMaybeAllowPastEnd vr False parent) (\<lambda>(ok, parent).
             if ok then rbind (sync vr parent) (\<lambda>seq. Inr (True, new_level seq 0 # parent))
             else Inr (False, (if allowPastEnd then l\<lparr>cl_idx := cl_idx l + 1\<rparr> else l) # parent)))"

definition cur_advance :: "ValueReader \<Rightarrow> sequenceCursor \<Rightarrow> (bool \<times> sequenceCursor) res" where
  "cur_advance vr cur = advanceMaybeAllowPastEnd vr True cur"

fun retreatMaybeAllowBeforeStart :: "ValueReader \<Rightarrow> bool \<Rightarrow> sequenceCursor \<Rightarrow> (bool \<times> sequenceCursor) res" where
  "retreatMaybeAllowBeforeStart vr allowBeforeStart [] = Inl NilDereference"
| "retreatMaybeAllowBeforeStart vr allowBeforeStart (l # parent) =
     (if cl_idx l > 0 then Inr (True, l\<lparr>cl_idx := cl_idx l - 1\<rparr> # parent)
      else if cl_idx l = -1 then Inr (False, l # parent)
      else chk (cl_idx l = 0)
        (rbind (if parent = [] then Inr (False, []) else retreatMaybeAllowBeforeStart vr False parent) (\<lambda>(ok, parent).
           if ok then rbind (sync vr parent) (\<lambda>seq. Inr (True, new_level seq (seqLen seq - 1) # parent))
           else Inr (False, (if allowBeforeStart then l\<lparr>cl_idx := cl_idx l - 1\<rparr> else l) # parent))))"

definition retreat :: "ValueReader \<Rightarrow> sequenceCursor \<Rightarrow> (bool \<times> sequenceCursor) res" where
  "retreat vr cur = retreatMaybeAllowBeforeStart vr True cur"

text \<open>\<open>clone\<close> goes through \<open>newSequenceCursor\<close>, which reads an index before the start as one from the end.\<close>

fun clone :: "sequenceCursor \<Rightarrow> sequenceCursor res" where
  "clone [] = Inr []"
| "clone (l # parent) = rbind (clone parent) (\<lambda>parent. newSequenceCursor parent (cl_seq l) (cl_idx l))"

subsection \<open>Iteration\<close>

text \<open>
  The loop of \<open>iterSequence\<close>, with the state the callback changes; the first argument bounds the number
  of items.
\<close>

definition not_a_leaf :: "sequenceCursor \<Rightarrow> bool" where
  "not_a_leaf cur \<longleftrightarrow> (case cur of [] \<Rightarrow> False | l # _ \<Rightarrow> isMetaSequence (cl_seq l))"

primrec iter_loop ::
    "nat \<Rightarrow> ValueReader \<Rightarrow> (sequenceItem \<Rightarrow> 's \<Rightarrow> (bool \<times> 's) res) \<Rightarrow> sequenceCursor \<Rightarrow> 's \<Rightarrow> 's res" where
  "iter_loop 0 = (\<lambda>vr cb cur s. Inl Diverges)"
| "iter_loop (Suc n) = (\<lambda>vr cb cur s.
     rbind (valid cur) (\<lambda>more.
       if \<not> more then Inr s
       else rbind (current cur) (\<lambda>x. rbind (cb x s) (\<lambda>(stop, s).
              if stop then Inr s
              else rbind (cur_advance vr cur) (\<lambda>(_, cur). iter_loop n vr cb cur s)))))"

definition iterSequence ::
    "nat \<Rightarrow> ValueReader \<Rightarrow> sequenceCursor \<Rightarrow> (sequenceItem \<Rightarrow> 's \<Rightarrow> (bool \<times> 's) res) \<Rightarrow> 's \<Rightarrow> 's res" where
  "iterSequence n vr cur cb s = chk (\<not> not_a_leaf cur) (iter_loop n vr cb cur s)"

subsection \<open>Positions by index\<close>

text \<open>The loop of \<open>advanceCursorToOffset\<close> over the tuples from the current one on.\<close>

fun skip_tuples :: "metaTuple list \<Rightarrow> uint64 \<Rightarrow> int \<Rightarrow> uint64 \<Rightarrow> int \<times> uint64" where
  "skip_tuples (mt # mt' # tuples) idx i cum =
     (if idx \<ge> cum + mt_numLeaves mt then skip_tuples (mt' # tuples) idx (i + 1) (cum + mt_numLeaves mt) else (i, cum))"
| "skip_tuples tuples idx i cum = (i, cum)"

definition advanceCursorToOffset :: "sequence \<Rightarrow> uint64 \<Rightarrow> int \<times> uint64" where
  "advanceCursorToOffset seq idx =
     (case seq of
        metaSequence tuples t \<Rightarrow> skip_tuples tuples idx 0 0
      | _ \<Rightarrow> let i = sint idx; i = (if i > seqLen seq then seqLen seq else i) in (i, of_int i))"

primrec newCursorAtIndex :: "nat \<Rightarrow> ValueReader \<Rightarrow> sequenceCursor \<Rightarrow> sequence \<Rightarrow> uint64 \<Rightarrow> sequenceCursor res" where
  "newCursorAtIndex 0 = (\<lambda>vr parent seq idx. Inl Diverges)"
| "newCursorAtIndex (Suc n) = (\<lambda>vr parent seq idx.
     rbind (newSequenceCursor parent seq 0) (\<lambda>_.
       let (i, off) = advanceCursorToOffset seq idx; cur = new_level seq i # parent
       in rbind (getChildSequence vr seq i) (\<lambda>cs.
            case cs of None \<Rightarrow> Inr cur | Some s \<Rightarrow> newCursorAtIndex n vr cur s (idx - off))))"

subsection \<open>Positions by key\<close>

text \<open>\<open>sort.Search\<close>: binary search for the smallest index in \<open>[i, j)\<close> where \<open>f\<close> holds, or \<open>j\<close>.\<close>

function Search_loop :: "(int \<Rightarrow> bool res) \<Rightarrow> int \<Rightarrow> int \<Rightarrow> int res" where
  "Search_loop f i j =
     (if i < j
      then let h = i + (j - i) div 2
           in rbind (f h) (\<lambda>b. if \<not> b then Search_loop f (h + 1) j else Search_loop f i h)
      else Inr i)"
  by auto
termination by (relation "measure (\<lambda>(f, i, j). nat (j - i))") auto

definition Search :: "int \<Rightarrow> (int \<Rightarrow> bool res) \<Rightarrow> int res" where
  "Search n f = Search_loop f 0 n"

definition seekTo :: "hash_fn \<Rightarrow> sequence \<Rightarrow> orderedKey \<Rightarrow> bool \<Rightarrow> (int \<times> bool) res" where
  "seekTo H seq key lastPositionIfNotFound =
     rbind (Search (seqLen seq) (\<lambda>i. rbind (getKey H seq i) (\<lambda>k. rbind (orderedKey_Less H k key) (\<lambda>b. Inr (\<not> b))))) (\<lambda>idx.
     rbind (if idx = seqLen seq \<and> lastPositionIfNotFound then chk (idx > 0) (Inr (idx - 1)) else Inr idx) (\<lambda>idx.
       Inr (idx, idx < seqLen seq)))"

primrec newCursorAt ::
    "nat \<Rightarrow> hash_fn \<Rightarrow> ValueReader \<Rightarrow> sequenceCursor \<Rightarrow> sequence \<Rightarrow> orderedKey \<Rightarrow> bool \<Rightarrow> bool \<Rightarrow> sequenceCursor res" where
  "newCursorAt 0 = (\<lambda>H vr parent seq key forInsertion last'. Inl Diverges)"
| "newCursorAt (Suc n) = (\<lambda>H vr parent seq key forInsertion last'.
     rbind (newSequenceCursor parent seq (if last' then -1 else 0)) (\<lambda>cur.
     rbind (if key \<noteq> emptyKey then seekTo H seq key (forInsertion \<and> isMetaSequence seq)
            else Inr (cl_idx (hd cur), True)) (\<lambda>(idx, found).
       let cur = new_level seq idx # parent
       in if \<not> found then Inr cur
          else rbind (getChildSequence vr seq idx) (\<lambda>cs.
                 case cs of None \<Rightarrow> Inr cur | Some s \<Rightarrow> newCursorAt n H vr cur s key forInsertion last'))))"

definition newCursorAtValue ::
    "nat \<Rightarrow> hash_fn \<Rightarrow> ValueReader \<Rightarrow> sequence \<Rightarrow> Value option \<Rightarrow> bool \<Rightarrow> bool \<Rightarrow> sequenceCursor res" where
  "newCursorAtValue n H vr seq val forInsertion last' =
     newCursorAt n H vr [] seq (case val of Some v \<Rightarrow> newOrderedKey H v | None \<Rightarrow> emptyKey) forInsertion last'"

definition getCurrentKey :: "hash_fn \<Rightarrow> sequenceCursor \<Rightarrow> orderedKey res" where
  "getCurrentKey H cur = (case cur of [] \<Rightarrow> Inl NilDereference | l # _ \<Rightarrow> getKey H (cl_seq l) (cl_idx l))"

subsection \<open>Reading lists\<close>

fun item_value :: "sequenceItem \<Rightarrow> Value res" where
  "item_value (ValueItem v) = Inr v"
| "item_value _ = Inl (Panic ''interface conversion: not a Value'')"

fun item_entry :: "sequenceItem \<Rightarrow> (Value \<times> Value) res" where
  "item_entry (EntryItem e) = Inr e"
| "item_entry _ = Inl (Panic ''interface conversion: not a mapEntry'')"

definition List_Len :: "sequence \<Rightarrow> uint64 res" where
  "List_Len seq = numLeaves seq"

definition List_Empty :: "sequence \<Rightarrow> bool res" where
  "List_Empty seq = rbind (List_Len seq) (\<lambda>l. Inr (l = 0))"

definition List_Get :: "nat \<Rightarrow> ValueReader \<Rightarrow> sequence \<Rightarrow> uint64 \<Rightarrow> Value res" where
  "List_Get n vr seq idx =
     rbind (List_Len seq) (\<lambda>len. chk (idx < len)
       (rbind (newCursorAtIndex n vr [] seq idx) (\<lambda>cur. rbind (current cur) item_value)))"

definition List_Iter ::
    "nat \<Rightarrow> nat \<Rightarrow> ValueReader \<Rightarrow> sequence \<Rightarrow> (Value \<Rightarrow> uint64 \<Rightarrow> 's \<Rightarrow> (bool \<times> 's) res) \<Rightarrow> 's \<Rightarrow> 's res" where
  "List_Iter n k vr seq f s =
     rbind (newCursorAtIndex n vr [] seq 0) (\<lambda>cur.
     rbind (iterSequence k vr cur (\<lambda>x (idx, s). rbind (item_value x) (\<lambda>v. rbind (f v idx s) (\<lambda>(stop, s).
              if stop then Inr (True, (idx, s)) else Inr (False, (idx + 1, s))))) (0, s)) (\<lambda>(_, s). Inr s))"

definition List_IterAll ::
    "nat \<Rightarrow> nat \<Rightarrow> ValueReader \<Rightarrow> sequence \<Rightarrow> (Value \<Rightarrow> uint64 \<Rightarrow> 's \<Rightarrow> 's res) \<Rightarrow> 's \<Rightarrow> 's res" where
  "List_IterAll n k vr seq f s =
     rbind (newCursorAtIndex n vr [] seq 0) (\<lambda>cur.
     rbind (iterSequence k vr cur (\<lambda>x (idx, s). rbind (item_value x) (\<lambda>v. rbind (f v idx s) (\<lambda>s. Inr (False, (idx + 1, s))))) (0, s)) (\<lambda>(_, s).
       Inr s))"

definition IteratorAt :: "nat \<Rightarrow> ValueReader \<Rightarrow> sequence \<Rightarrow> uint64 \<Rightarrow> sequenceCursor res" where
  "IteratorAt n vr seq index = newCursorAtIndex n vr [] seq index"

definition ListIterator_Next :: "ValueReader \<Rightarrow> sequenceCursor \<Rightarrow> (Value option \<times> sequenceCursor) res" where
  "ListIterator_Next vr cur =
     (if cur = [] then Inl (Panic ''Cannot use a nil ListIterator'')
      else rbind (valid cur) (\<lambda>ok.
             if ok then rbind (current cur) (\<lambda>x. rbind (item_value x) (\<lambda>v. rbind (cur_advance vr cur) (\<lambda>(_, cur). Inr (Some v, cur))))
             else Inr (None, cur)))"

subsection \<open>Reading maps and sets\<close>

definition Map_firstOrLast :: "nat \<Rightarrow> hash_fn \<Rightarrow> ValueReader \<Rightarrow> sequence \<Rightarrow> bool \<Rightarrow> (Value \<times> Value) option res" where
  "Map_firstOrLast n H vr seq last' =
     rbind (newCursorAt n H vr [] seq emptyKey False last') (\<lambda>cur. rbind (valid cur) (\<lambda>ok.
       if \<not> ok then Inr None else rbind (current cur) (\<lambda>x. rbind (item_entry x) (\<lambda>e. Inr (Some e)))))"

definition Map_At :: "nat \<Rightarrow> ValueReader \<Rightarrow> sequence \<Rightarrow> uint64 \<Rightarrow> (Value \<times> Value) res" where
  "Map_At n vr seq idx =
     rbind (numLeaves seq) (\<lambda>len.
       if idx \<ge> len then Inl (Panic ''Out of bounds'')
       else rbind (newCursorAtIndex n vr [] seq idx) (\<lambda>cur. rbind (current cur) item_entry))"

definition Map_MaybeGet :: "nat \<Rightarrow> hash_fn \<Rightarrow> ValueReader \<Rightarrow> sequence \<Rightarrow> Value \<Rightarrow> Value option res" where
  "Map_MaybeGet n H vr seq key =
     rbind (newCursorAtValue n H vr seq (Some key) False False) (\<lambda>cur. rbind (valid cur) (\<lambda>ok.
       if \<not> ok then Inr None
       else rbind (current cur) (\<lambda>x. rbind (item_entry x) (\<lambda>e.
              if \<not> value_Equals H (fst e) key then Inr None else Inr (Some (snd e))))))"

definition Map_Has :: "nat \<Rightarrow> hash_fn \<Rightarrow> ValueReader \<Rightarrow> sequence \<Rightarrow> Value \<Rightarrow> bool res" where
  "Map_Has n H vr seq key =
     rbind (newCursorAtValue n H vr seq (Some key) False False) (\<lambda>cur. rbind (valid cur) (\<lambda>ok.
       if \<not> ok then Inr False
       else rbind (current cur) (\<lambda>x. rbind (item_entry x) (\<lambda>e. Inr (value_Equals H (fst e) key)))))"

definition Map_Get :: "nat \<Rightarrow> hash_fn \<Rightarrow> ValueReader \<Rightarrow> sequence \<Rightarrow> Value \<Rightarrow> Value option res" where
  "Map_Get n H vr seq key = Map_MaybeGet n H vr seq key"

definition Map_IterFrom ::
    "nat \<Rightarrow> nat \<Rightarrow> hash_fn \<Rightarrow> ValueReader \<Rightarrow> sequence \<Rightarrow> Value \<Rightarrow> (Value \<Rightarrow> Value \<Rightarrow> 's \<Rightarrow> (bool \<times> 's) res) \<Rightarrow> 's \<Rightarrow> 's res" where
  "Map_IterFrom n k H vr seq start cb s =
     rbind (newCursorAtValue n H vr seq (Some start) False False) (\<lambda>cur.
       iterSequence k vr cur (\<lambda>x s. rbind (item_entry x) (\<lambda>e. cb (fst e) (snd e) s)) s)"

definition Map_Iter ::
    "nat \<Rightarrow> nat \<Rightarrow> hash_fn \<Rightarrow> ValueReader \<Rightarrow> sequence \<Rightarrow> (Value \<Rightarrow> Value \<Rightarrow> 's \<Rightarrow> (bool \<times> 's) res) \<Rightarrow> 's \<Rightarrow> 's res" where
  "Map_Iter n k H vr seq cb s =
     rbind (newCursorAt n H vr [] seq emptyKey False False) (\<lambda>cur.
       iterSequence k vr cur (\<lambda>x s. rbind (item_entry x) (\<lambda>e. cb (fst e) (snd e) s)) s)"

definition Set_First :: "nat \<Rightarrow> hash_fn \<Rightarrow> ValueReader \<Rightarrow> sequence \<Rightarrow> Value option res" where
  "Set_First n H vr seq =
     rbind (newCursorAt n H vr [] seq emptyKey False False) (\<lambda>cur. rbind (valid cur) (\<lambda>ok.
       if \<not> ok then Inr None else rbind (current cur) (\<lambda>x. rbind (item_value x) (\<lambda>v. Inr (Some v)))))"

definition Set_At :: "nat \<Rightarrow> ValueReader \<Rightarrow> sequence \<Rightarrow> uint64 \<Rightarrow> Value res" where
  "Set_At n vr seq idx =
     rbind (numLeaves seq) (\<lambda>len.
       if idx \<ge> len then Inl (Panic ''Out of bounds'')
       else rbind (newCursorAtIndex n vr [] seq idx) (\<lambda>cur. rbind (current cur) item_value))"

definition Set_Has :: "nat \<Rightarrow> hash_fn \<Rightarrow> ValueReader \<Rightarrow> sequence \<Rightarrow> Value \<Rightarrow> bool res" where
  "Set_Has n H vr seq v =
     rbind (newCursorAtValue n H vr seq (Some v) False False) (\<lambda>cur. rbind (valid cur) (\<lambda>ok.
       if \<not> ok then Inr False
       else rbind (current cur) (\<lambda>x. rbind (item_value x) (\<lambda>w. Inr (value_Equals H w v)))))"

definition Set_Iter ::
    "nat \<Rightarrow> nat \<Rightarrow> hash_fn \<Rightarrow> ValueReader \<Rightarrow> sequence \<Rightarrow> (Value \<Rightarrow> 's \<Rightarrow> (bool \<times> 's) res) \<Rightarrow> 's \<Rightarrow> 's res" where
  "Set_Iter n k H vr seq cb s =
     rbind (newCursorAt n H vr [] seq emptyKey False False) (\<lambda>cur.
       iterSequence k vr cur (\<lambda>x s. rbind (item_value x) (\<lambda>v. cb v s)) s)"

end
