(* ===== verification/Chunker.thy ===== *)
theory Chunker
  imports Rolling Cursor
begin

text \<open>
  The chunker of \<open>sequence_chunker.go\<close>, which builds prolly trees and edits them, the functions that make
  chunks of blobs, lists, maps and sets, and the operations of these collections that go through it.

  A chunker is the list of its levels, this one first and its parents behind it. The functions and the
  value reader it was made with are its configuration; those of a parent are \<open>parent_cf\<close> of it. The argument
  \<open>n\<close> bounds the number of levels (a level is added whenever a chunk ends, so the tower is finite only if
  some level does not end a chunk at its first tuple) and \<open>k\<close> the number of items the loops visit.
\<close>

subsection \<open>Data\<close>

type_synonym makeChunkFn = "sequenceItem list \<Rightarrow> (Value \<times> orderedKey \<times> uint64, TypeCache) st"

record chunkConfig =
  cf_vr :: ValueReader
  cf_vw :: "(Value \<Rightarrow> (Ref, TypeCache) st) option"
  cf_H :: hash_fn
  cf_makeChunk :: makeChunkFn
  cf_parentMakeChunk :: makeChunkFn
  cf_hash :: "sequenceItem \<Rightarrow> hasher_state \<Rightarrow> hasher_state res"
  cf_metaHash :: "sequenceItem \<Rightarrow> hasher_state \<Rightarrow> hasher_state res"

record chunkLevel =
  sc_cur :: sequenceCursor
  sc_current :: "sequenceItem list"
  sc_isLeaf :: bool
  sc_rv :: rollingValueHasher
  sc_done :: bool

type_synonym sequenceChunker = "chunkLevel list"

definition parent_cf :: "chunkConfig \<Rightarrow> chunkConfig" where
  "parent_cf cf = cf\<lparr>cf_makeChunk := cf_parentMakeChunk cf, cf_hash := cf_metaHash cf\<rparr>"

definition new_chunk_level :: "sequenceCursor \<Rightarrow> chunkLevel" where
  "new_chunk_level cur =
     \<lparr>sc_cur = cur, sc_current = [], sc_isLeaf = True, sc_rv = newRollingValueHasher, sc_done = False\<rparr>"

subsection \<open>Chunks\<close>

text \<open>The reference is never the zero \<open>Ref\<close>, whose hash pointer is nil.\<close>

definition newMetaTuple :: "Ref \<Rightarrow> orderedKey \<Rightarrow> uint64 \<Rightarrow> Value option \<Rightarrow> metaTuple" where
  "newMetaTuple r key leaves child = metaTuple r key leaves child"

definition createSequence :: "chunkConfig \<Rightarrow> chunkLevel \<Rightarrow> (sequence \<times> metaTuple \<times> chunkLevel, TypeCache) st" where
  "createSequence cf sc tc =
     rbind (cf_makeChunk cf (sc_current sc) tc) (\<lambda>((col, key, leaves), tc).
     rbind (value_sequence col) (\<lambda>seq.
     rbind (case cf_vw cf of
              Some w \<Rightarrow> rbind (w col tc) (\<lambda>(r, tc). Inr (r, None, tc))
            | None \<Rightarrow> rbind (NewRef (cf_H cf) col tc) (\<lambda>(r, tc). Inr (r, Some col, tc))) (\<lambda>(r, child, tc).
       Inr ((seq, newMetaTuple r key leaves child, sc\<lparr>sc_current := []\<rparr>), tc))))"

text \<open>The operations of the level above are arguments of the ones that call them.\<close>

type_synonym new_fn = "chunkConfig \<Rightarrow> sequenceCursor \<Rightarrow> (sequenceChunker, TypeCache) st"
type_synonym append_fn = "chunkConfig \<Rightarrow> sequenceChunker \<Rightarrow> sequenceItem \<Rightarrow> (sequenceChunker, TypeCache) st"

definition createParent :: "new_fn \<Rightarrow> chunkConfig \<Rightarrow> chunkLevel \<Rightarrow> sequenceChunker \<Rightarrow> (sequenceChunker, TypeCache) st" where
  "createParent newP cf sc parent tc =
     chk (parent = [])
       (rbind (clone (tl (sc_cur sc))) (\<lambda>cur. rbind (newP (parent_cf cf) cur tc) (\<lambda>(cs, tc).
          case cs of [] \<Rightarrow> Inl NilDereference | p # ps \<Rightarrow> Inr (p\<lparr>sc_isLeaf := False\<rparr> # ps, tc))))"

definition handle_with :: "new_fn \<Rightarrow> append_fn \<Rightarrow> chunkConfig \<Rightarrow> sequenceChunker \<Rightarrow> (sequenceChunker, TypeCache) st" where
  "handle_with newP app cf cs tc =
     (case cs of
        [] \<Rightarrow> Inl NilDereference
      | sc # parent \<Rightarrow>
          chk (sc_current sc \<noteq> [])
            (rbind (createSequence cf sc tc) (\<lambda>((_, mt, sc), tc).
             rbind (if parent = [] then createParent newP cf sc parent tc else Inr (parent, tc)) (\<lambda>(parent, tc).
             rbind (app (parent_cf cf) parent (TupleItem mt) tc) (\<lambda>(parent, tc). Inr (sc # parent, tc))))))"

definition append_with :: "new_fn \<Rightarrow> append_fn \<Rightarrow> chunkConfig \<Rightarrow> sequenceChunker \<Rightarrow> sequenceItem \<Rightarrow> (sequenceChunker, TypeCache) st" where
  "append_with newP app cf cs item tc =
     (case cs of
        [] \<Rightarrow> Inl NilDereference
      | sc # parent \<Rightarrow>
          rbind (cf_hash cf item (ClearLastBoundary (sc_rv sc), tc)) (\<lambda>(rv, tc).
            let cs = sc\<lparr>sc_current := sc_current sc @ [item], sc_rv := rv\<rparr> # parent
            in if rv_crossedBoundary rv then handle_with newP app cf cs tc else Inr (cs, tc)))"

subsection \<open>Resuming at a cursor\<close>

text \<open>
  The three loops of \<open>resume\<close>: back to the start of the chunk, further back until the window is full, and
  forward again. The counts are \<open>appendCount\<close> and \<open>primeHashCount\<close>; \<open>b\<close> is \<open>primeHashBytes\<close>.
\<close>

function walk_to_start ::
    "chunkConfig \<Rightarrow> sequenceCursor \<Rightarrow> nat \<Rightarrow> nat \<Rightarrow> int \<Rightarrow> hasher_state
      \<Rightarrow> (sequenceCursor \<times> nat \<times> nat \<times> int \<times> hasher_state) res" where
  "walk_to_start cf cur a p b s =
     rbind (indexInChunk cur) (\<lambda>i.
       if i > 0
       then rbind (retreatMaybeAllowBeforeStart (cf_vr cf) False cur) (\<lambda>(ok, cur').
              if ok
              then if b > 0
                   then rbind (current cur') (\<lambda>item. rbind (cf_hash cf item (ClearLastBoundary (fst s), snd s)) (\<lambda>s.
                          walk_to_start cf cur' (a + 1) (p + 1) (b - int (unat (rv_bytesHashed (fst s)))) s))
                   else walk_to_start cf cur' (a + 1) p b s
              else Inr (cur', a, p, b, s))
       else Inr (cur, a, p, b, s))"
  by pat_completeness auto
termination
proof (relation "measure (\<lambda>(cf, cur, a, p, b, s). nat (cl_idx (hd cur)))", goal_cases)
  case (2 cf cur a p b s i okc ok cur')
  then show ?case by (cases cur) (auto simp: indexInChunk_def)
next
  case (3 cf cur a p b s i okc ok cur')
  then show ?case by (cases cur) (auto simp: indexInChunk_def)
qed simp

primrec prime_back ::
    "nat \<Rightarrow> chunkConfig \<Rightarrow> sequenceCursor \<Rightarrow> nat \<Rightarrow> int \<Rightarrow> hasher_state \<Rightarrow> (sequenceCursor \<times> nat \<times> hasher_state) res" where
  "prime_back 0 = (\<lambda>cf cur p b s. Inl Diverges)"
| "prime_back (Suc k) = (\<lambda>cf cur p b s.
     if b > 0
     then rbind (retreatMaybeAllowBeforeStart (cf_vr cf) False cur) (\<lambda>(ok, cur).
            if ok
            then rbind (current cur) (\<lambda>item. rbind (cf_hash cf item (ClearLastBoundary (fst s), snd s)) (\<lambda>s.
                   prime_back k cf cur (p + 1) (b - int (unat (rv_bytesHashed (fst s)))) s))
            else Inr (cur, p, s))
     else Inr (cur, p, s))"

function resume_forward ::
    "(sequenceChunker \<Rightarrow> (sequenceChunker, TypeCache) st) \<Rightarrow> chunkConfig \<Rightarrow> bool \<Rightarrow> nat \<Rightarrow> nat
      \<Rightarrow> chunkLevel \<Rightarrow> sequenceChunker \<Rightarrow> (sequenceChunker, TypeCache) st" where
  "resume_forward handle cf beyond p a sc parent tc =
     (if p = 0 \<and> a = 0 then Inr (sc # parent, tc)
      else rbind (current (sc_cur sc)) (\<lambda>item. rbind (cur_advance (cf_vr cf) (sc_cur sc)) (\<lambda>(_, cur).
        if p > a
        then rbind (cf_hash cf item (sc_rv sc, tc)) (\<lambda>(rv, tc).
               resume_forward handle cf beyond (p - 1) a (sc\<lparr>sc_cur := cur, sc_rv := rv\<rparr>) parent tc)
        else if a > p
        then resume_forward handle cf beyond p (a - 1) (sc\<lparr>sc_cur := cur, sc_current := sc_current sc @ [item]\<rparr>) parent tc
        else rbind (cf_hash cf item (ClearLastBoundary (sc_rv sc), tc)) (\<lambda>(rv, tc).
               let cs = sc\<lparr>sc_cur := cur, sc_rv := rv, sc_current := sc_current sc @ [item]\<rparr> # parent
               in rbind (if rv_crossedBoundary rv \<and> beyond \<and> a = 1 then handle cs tc else Inr (cs, tc)) (\<lambda>(cs, tc).
                    case cs of
                      [] \<Rightarrow> Inl NilDereference
                    | sc # parent \<Rightarrow> resume_forward handle cf beyond (p - 1) (a - 1) sc parent tc)))))"
  by pat_completeness auto
termination by (relation "measure (\<lambda>(handle, cf, beyond, p, a, sc, parent, tc). p + a)") auto

declare walk_to_start.simps [simp del] resume_forward.simps [simp del]

definition resume_with :: "new_fn \<Rightarrow> append_fn \<Rightarrow> nat \<Rightarrow> chunkConfig \<Rightarrow> chunkLevel \<Rightarrow> (sequenceChunker, TypeCache) st" where
  "resume_with newP app k cf sc tc =
     rbind (if tl (sc_cur sc) \<noteq> [] then createParent newP cf sc [] tc else Inr ([], tc)) (\<lambda>(parent, tc).
     rbind (indexInChunk (sc_cur sc)) (\<lambda>idx. rbind (cur_length (sc_cur sc)) (\<lambda>len.
       let b = int (unat (rv_window (sc_rv sc))); beyond = (idx = len)
       in rbind (if beyond then retreatMaybeAllowBeforeStart (cf_vr cf) False (sc_cur sc) else Inr (False, sc_cur sc)) (\<lambda>(ok, cur).
          rbind (walk_to_start cf cur (if ok then 1 else 0) (if ok then 1 else 0) b ((sc_rv sc)\<lparr>rv_lengthOnly := True\<rparr>, tc))
            (\<lambda>(cur, a, p, b, s).
          rbind (prime_back k cf cur p b s) (\<lambda>(cur, p, s).
            resume_forward (handle_with newP app cf) cf beyond p a
              (sc\<lparr>sc_cur := cur, sc_rv := (fst s)\<lparr>rv_lengthOnly := False\<rparr>\<rparr>) parent (snd s)))))))"

definition new_with :: "new_fn \<Rightarrow> append_fn \<Rightarrow> nat \<Rightarrow> chunkConfig \<Rightarrow> sequenceCursor \<Rightarrow> (sequenceChunker, TypeCache) st" where
  "new_with newP app k cf cur tc =
     (let sc = new_chunk_level cur in if cur \<noteq> [] then resume_with newP app k cf sc tc else Inr ([sc], tc))"

subsection \<open>The operations\<close>

fun newSequenceChunker :: "nat \<Rightarrow> nat \<Rightarrow> new_fn" and chunker_Append :: "nat \<Rightarrow> nat \<Rightarrow> append_fn" where
  "newSequenceChunker 0 k cf cur tc = Inl Diverges"
| "newSequenceChunker (Suc n) k cf cur tc = new_with (newSequenceChunker n k) (chunker_Append n k) k cf cur tc"
| "chunker_Append 0 k cf cs item tc = Inl Diverges"
| "chunker_Append (Suc n) k cf cs item tc = append_with (newSequenceChunker n k) (chunker_Append n k) cf cs item tc"

definition newEmptySequenceChunker :: "nat \<Rightarrow> nat \<Rightarrow> chunkConfig \<Rightarrow> (sequenceChunker, TypeCache) st" where
  "newEmptySequenceChunker n k cf = newSequenceChunker n k cf []"

definition handleChunkBoundary :: "nat \<Rightarrow> nat \<Rightarrow> chunkConfig \<Rightarrow> sequenceChunker \<Rightarrow> (sequenceChunker, TypeCache) st" where
  "handleChunkBoundary n k = handle_with (newSequenceChunker n k) (chunker_Append n k)"

fun Skip :: "ValueReader \<Rightarrow> sequenceChunker \<Rightarrow> sequenceChunker res" where
  "Skip vr [] = Inl NilDereference"
| "Skip vr (sc # parent) =
     rbind (cur_advance vr (sc_cur sc)) (\<lambda>(ok, cur).
     rbind (if ok then rbind (indexInChunk cur) (\<lambda>i. Inr (i = 0)) else Inr False) (\<lambda>moved.
     rbind (if moved \<and> parent \<noteq> [] \<and> sc_cur (hd parent) \<noteq> [] then Skip vr parent else Inr parent) (\<lambda>parent.
       Inr (sc\<lparr>sc_cur := cur\<rparr> # parent))))"

definition skipParentIfExists :: "ValueReader \<Rightarrow> sequenceChunker \<Rightarrow> sequenceChunker res" where
  "skipParentIfExists vr parent = (if parent \<noteq> [] \<and> sc_cur (hd parent) \<noteq> [] then Skip vr parent else Inr parent)"

fun anyPending :: "sequenceChunker \<Rightarrow> bool" where
  "anyPending [] \<longleftrightarrow> False"
| "anyPending (sc # parent) \<longleftrightarrow> (if sc_current sc \<noteq> [] then True else anyPending parent)"

primrec finalize_loop ::
    "nat \<Rightarrow> (sequenceChunker \<Rightarrow> (sequenceChunker, TypeCache) st) \<Rightarrow> chunkConfig \<Rightarrow> bool \<Rightarrow> int \<Rightarrow> bool
      \<Rightarrow> chunkLevel \<Rightarrow> sequenceChunker \<Rightarrow> (sequenceChunker, TypeCache) st" where
  "finalize_loop 0 = (\<lambda>handle cf first hashWindow isBoundary sc parent tc. Inl Diverges)"
| "finalize_loop (Suc k) = (\<lambda>handle cf first hashWindow isBoundary sc parent tc.
     rbind (valid (sc_cur sc)) (\<lambda>ok. rbind (indexInChunk (sc_cur sc)) (\<lambda>idx.
       if ok \<and> (hashWindow > 0 \<or> idx > 0 \<or> \<not> isBoundary)
       then rbind (if first \<or> idx = 0 then skipParentIfExists (cf_vr cf) parent else Inr parent) (\<lambda>parent.
            rbind (current (sc_cur sc)) (\<lambda>item. rbind (cur_advance (cf_vr cf) (sc_cur sc)) (\<lambda>(_, cur).
            rbind (if hashWindow > 0
                   then rbind (cf_hash cf item (ClearLastBoundary (sc_rv sc), tc)) (\<lambda>(rv, tc).
                          Inr (rv, hashWindow - int (unat (rv_bytesHashed rv)), rv_crossedBoundary rv, tc))
                   else rbind (indexInChunk cur) (\<lambda>i. Inr (sc_rv sc, hashWindow, i = 0, tc))) (\<lambda>(rv, hashWindow, isBoundary, tc).
            let cs = sc\<lparr>sc_cur := cur, sc_rv := rv, sc_current := sc_current sc @ [item]\<rparr> # parent
            in rbind (if isBoundary then handle cs tc else Inr (cs, tc)) (\<lambda>(cs, tc).
                 case cs of
                   [] \<Rightarrow> Inl NilDereference
                 | sc # parent \<Rightarrow> finalize_loop k handle cf False hashWindow isBoundary sc parent tc)))))
       else Inr (sc # parent, tc))))"

definition finalizeCursor ::
    "(sequenceChunker \<Rightarrow> (sequenceChunker, TypeCache) st) \<Rightarrow> nat \<Rightarrow> chunkConfig
      \<Rightarrow> chunkLevel \<Rightarrow> sequenceChunker \<Rightarrow> (sequenceChunker, TypeCache) st" where
  "finalizeCursor handle k cf sc parent tc =
     rbind (valid (sc_cur sc)) (\<lambda>ok.
       if \<not> ok then rbind (skipParentIfExists (cf_vr cf) parent) (\<lambda>parent. Inr (sc # parent, tc))
       else finalize_loop k handle cf True (int (unat (rv_window (sc_rv sc)))) (sc_current sc = []) sc parent tc)"

text \<open>The loop of \<open>Done\<close> that looks for the canonical root below a single tuple.\<close>

primrec canonical_root :: "nat \<Rightarrow> ValueReader \<Rightarrow> metaTuple \<Rightarrow> sequence res" where
  "canonical_root 0 = (\<lambda>vr mt. Inl Diverges)"
| "canonical_root (Suc n) = (\<lambda>vr mt.
     rbind (tuple_getChildSequence vr mt) (\<lambda>child.
       if \<not> isMetaSequence child \<or> seqLen child > 1 then Inr child
       else rbind (getItem child 0) (\<lambda>item.
              case item of TupleItem mt \<Rightarrow> canonical_root n vr mt | _ \<Rightarrow> Inl (Panic ''interface conversion: not a metaTuple''))))"

primrec Done :: "nat \<Rightarrow> nat \<Rightarrow> chunkConfig \<Rightarrow> sequenceChunker \<Rightarrow> (sequence, TypeCache) st" where
  "Done 0 k = (\<lambda>cf cs tc. Inl Diverges)"
| "Done (Suc n) k = (\<lambda>cf cs tc.
     case cs of
       [] \<Rightarrow> Inl NilDereference
     | sc # parent \<Rightarrow>
         chk (\<not> sc_done sc)
           (let sc = sc\<lparr>sc_done := True\<rparr>
            in rbind (if sc_cur sc \<noteq> [] then finalizeCursor (handleChunkBoundary n k cf) k cf sc parent tc else Inr (sc # parent, tc))
                 (\<lambda>(cs, tc).
               case cs of
                 [] \<Rightarrow> Inl NilDereference
               | sc # parent \<Rightarrow>
                   if parent \<noteq> [] \<and> anyPending parent
                   then rbind (if sc_current sc \<noteq> [] then handleChunkBoundary n k cf (sc # parent) tc else Inr (sc # parent, tc))
                          (\<lambda>(cs, tc). Done n k (parent_cf cf) (tl cs) tc)
                   else if sc_isLeaf sc \<or> length (sc_current sc) > 1
                   then rbind (createSequence cf sc tc) (\<lambda>((seq, _, _), tc). Inr (seq, tc))
                   else chk (length (sc_current sc) = 1)
                          (case hd (sc_current sc) of
                             TupleItem mt \<Rightarrow> rbind (canonical_root n (cf_vr cf) mt) (\<lambda>seq. Inr (seq, tc))
                           | _ \<Rightarrow> Inl (Panic ''interface conversion: not a metaTuple'')))))"

end
