(* ===== verification/Collections.thy ===== *)
theory Collections
  imports Chunker
begin

text \<open>
  The operations of blobs, lists, maps and sets that make new collections: \<open>blob.go\<close>, \<open>list.go\<close>, \<open>map.go\<close>,
  \<open>set.go\<close>, the functions of \<open>indexed_sequences.go\<close> and \<open>ordered_sequences.go\<close> that make chunks of tuples, and
  \<open>sequence_concat.go\<close>.

  A collection is its sequence; the value reader of the sequence is an argument, \<open>\<lambda>_. None\<close> for the nil one
  of a collection made in memory, whose tuples have their children at hand. \<open>n\<close> bounds the levels of a
  tree, \<open>k\<close> the items a loop visits and \<open>m\<close> the nesting of the values that are hashed and of their types.
\<close>

subsection \<open>Items\<close>

fun item_byte :: "sequenceItem \<Rightarrow> byte res" where
  "item_byte (ByteItem b) = Inr b"
| "item_byte _ = Inl (Panic ''interface conversion: not a byte'')"

fun item_tuple :: "sequenceItem \<Rightarrow> metaTuple res" where
  "item_tuple (TupleItem mt) = Inr mt"
| "item_tuple _ = Inl (Panic ''interface conversion: not a metaTuple'')"

text \<open>\<open>len\<close> as an \<open>int\<close>, and as the \<open>uint64\<close> it is converted to.\<close>

definition go_len :: "'a list \<Rightarrow> int" where
  "go_len xs = sint (of_nat (length xs) :: uint64)"

subsection \<open>Chunks of tuples\<close>

definition newIndexedMetaSequenceChunkFn :: "nat \<Rightarrow> hash_fn \<Rightarrow> NomsKind \<Rightarrow> makeChunkFn" where
  "newIndexedMetaSequenceChunkFn m H kind items tc =
     rbind (mapM_res item_tuple items) (\<lambda>tuples.
     let leaves = foldl (\<lambda>s mt. s + mt_numLeaves mt) 0 tuples
     in rbind (if kind = ListKind
               then rbind (newListMetaSequence m tuples tc) (\<lambda>(seq, tc). Inr (List seq, tc))
               else chk (kind = BlobKind) (Inr (Blob (newBlobMetaSequence tuples), tc))) (\<lambda>(col, tc).
          Inr ((col, orderedKeyFromSum H tuples, leaves), tc)))"

definition newOrderedMetaSequenceChunkFn :: "nat \<Rightarrow> NomsKind \<Rightarrow> makeChunkFn" where
  "newOrderedMetaSequenceChunkFn m kind items tc =
     rbind (mapM_res item_tuple items) (\<lambda>tuples.
     let leaves = foldl (\<lambda>s mt. s + mt_numLeaves mt) 0 tuples
     in rbind (if kind = SetKind
               then rbind (newSetMetaSequence m tuples tc) (\<lambda>(seq, tc). Inr (Set seq, tc))
               else chk (kind = MapKind) (rbind (newMapMetaSequence m tuples tc) (\<lambda>(seq, tc). Inr (Map seq, tc)))) (\<lambda>(col, tc).
        rbind (nth_int tuples (int (length tuples) - 1)) (\<lambda>mt. Inr ((col, mt_key mt, leaves), tc))))"

subsection \<open>Edits\<close>

text \<open>The part the \<open>Splice\<close> and \<open>splice\<close> methods share, with the chunker's functions as \<open>cf\<close>.\<close>

definition splice_with ::
    "nat \<Rightarrow> nat \<Rightarrow> chunkConfig \<Rightarrow> sequenceCursor \<Rightarrow> uint64 \<Rightarrow> sequenceItem list \<Rightarrow> (sequence, TypeCache) st" where
  "splice_with n k cf cur deleteCount items tc =
     rbind (newSequenceChunker n k cf cur tc) (\<lambda>(ch, tc).
     rbind (foldM_res (\<lambda>ch _. Skip (cf_vr cf) ch) ch [0..<unat deleteCount]) (\<lambda>ch.
     rbind (foldM_res (\<lambda>(ch, tc) v. chunker_Append n k cf ch v tc) (ch, tc) items) (\<lambda>(ch, tc).
       Done n k cf ch tc)))"

text \<open>The guards of \<open>Blob.Splice\<close> and \<open>List.Splice\<close>. The sum of index and count wraps around.\<close>

definition indexed_splice ::
    "nat \<Rightarrow> nat \<Rightarrow> chunkConfig \<Rightarrow> sequence \<Rightarrow> uint64 \<Rightarrow> uint64 \<Rightarrow> sequenceItem list \<Rightarrow> (sequence, TypeCache) st" where
  "indexed_splice n k cf seq idx deleteCount items tc =
     (if deleteCount = 0 \<and> items = [] then Inr (seq, tc)
      else rbind (numLeaves seq) (\<lambda>len.
           chk (idx \<le> len) (chk (idx + deleteCount \<le> len)
             (rbind (newCursorAtIndex n (cf_vr cf) [] seq idx) (\<lambda>cur.
                splice_with n k cf cur deleteCount items tc)))))"

definition build_with :: "nat \<Rightarrow> nat \<Rightarrow> chunkConfig \<Rightarrow> sequenceItem list \<Rightarrow> (sequence, TypeCache) st" where
  "build_with n k cf items tc =
     rbind (newEmptySequenceChunker n k cf tc) (\<lambda>(ch, tc).
     rbind (foldM_res (\<lambda>(ch, tc) v. chunker_Append n k cf ch v tc) (ch, tc) items) (\<lambda>(ch, tc).
       Done n k cf ch tc))"

text \<open>
  \<open>concat\<close>: the loop swaps the cursors of the chunker's levels for those into the second sequence, and adds
  levels where the second is deeper. Its test for sequences of different databases never fires here, where
  both have the reader of \<open>cf\<close>.
\<close>

fun swap_cursors :: "nat \<Rightarrow> nat \<Rightarrow> chunkConfig \<Rightarrow> sequenceCursor \<Rightarrow> sequenceChunker \<Rightarrow> (sequenceChunker, TypeCache) st" where
  "swap_cursors n k cf [] ch tc = Inr (ch, tc)"
| "swap_cursors n k cf (l # cur) [] tc = Inl NilDereference"
| "swap_cursors n k cf (l # cur) (sc # parent) tc =
     rbind (if parent = [] then createParent (newSequenceChunker n k) cf sc parent tc else Inr (parent, tc)) (\<lambda>(parent, tc).
     rbind (clone (l # cur)) (\<lambda>c.
     rbind (swap_cursors n k (parent_cf cf) cur parent tc) (\<lambda>(parent, tc). Inr (sc\<lparr>sc_cur := c\<rparr> # parent, tc))))"

definition seq_concat :: "nat \<Rightarrow> nat \<Rightarrow> chunkConfig \<Rightarrow> sequence \<Rightarrow> sequence \<Rightarrow> (sequence, TypeCache) st" where
  "seq_concat n k cf fst' snd' tc =
     rbind (numLeaves fst') (\<lambda>l.
       if l = 0 then Inr (snd', tc)
       else rbind (numLeaves snd') (\<lambda>r.
         if r = 0 then Inr (fst', tc)
         else rbind (newCursorAtIndex n (cf_vr cf) [] fst' l) (\<lambda>cur. rbind (newSequenceChunker n k cf cur tc) (\<lambda>(ch, tc).
              rbind (newCursorAtIndex n (cf_vr cf) [] snd' 0) (\<lambda>cur. rbind (swap_cursors n k cf cur ch tc) (\<lambda>(ch, tc).
                Done n k cf ch tc))))))"

subsection \<open>Blobs\<close>

definition NewEmptyBlob :: sequence where
  "NewEmptyBlob = blobLeafSequence []"

definition chunkBlobLeaf :: "hash_fn \<Rightarrow> bytes \<Rightarrow> Value \<times> orderedKey \<times> uint64" where
  "chunkBlobLeaf H buff = (Blob (blobLeafSequence buff), orderedKeyFromInt H (go_len buff), of_nat (length buff))"

definition makeBlobLeafChunkFn :: "hash_fn \<Rightarrow> makeChunkFn" where
  "makeBlobLeafChunkFn H items tc = rbind (mapM_res item_byte items) (\<lambda>buff. Inr (chunkBlobLeaf H buff, tc))"

definition blob_newChunker :: "nat \<Rightarrow> hash_fn \<Rightarrow> ValueReader \<Rightarrow> chunkConfig" where
  "blob_newChunker m H vr =
     \<lparr>cf_vr = vr, cf_vw = None, cf_H = H, cf_makeChunk = makeBlobLeafChunkFn H,
      cf_parentMakeChunk = newIndexedMetaSequenceChunkFn m H BlobKind,
      cf_hash = hashValueByte, cf_metaHash = metaHashValueBytes m\<rparr>"

definition Blob_Splice ::
    "nat \<Rightarrow> nat \<Rightarrow> nat \<Rightarrow> hash_fn \<Rightarrow> ValueReader \<Rightarrow> sequence \<Rightarrow> uint64 \<Rightarrow> uint64 \<Rightarrow> bytes \<Rightarrow> (sequence, TypeCache) st" where
  "Blob_Splice n k m H vr b idx deleteCount dat =
     indexed_splice n k (blob_newChunker m H vr) b idx deleteCount (map ByteItem dat)"

definition Blob_Concat :: "nat \<Rightarrow> nat \<Rightarrow> nat \<Rightarrow> hash_fn \<Rightarrow> ValueReader \<Rightarrow> sequence \<Rightarrow> sequence \<Rightarrow> (sequence, TypeCache) st" where
  "Blob_Concat n k m H vr b other = seq_concat n k (blob_newChunker m H vr) b other"

definition Blob_Len :: "sequence \<Rightarrow> uint64 res" where
  "Blob_Len b = numLeaves b"

definition Blob_Empty :: "sequence \<Rightarrow> bool res" where
  "Blob_Empty b = rbind (Blob_Len b) (\<lambda>l. Inr (l = 0))"

subsection \<open>Lists\<close>

definition makeListLeafChunkFn :: "nat \<Rightarrow> hash_fn \<Rightarrow> makeChunkFn" where
  "makeListLeafChunkFn m H items tc =
     rbind (mapM_res item_value items) (\<lambda>values. rbind (newListLeafSequence m values tc) (\<lambda>(seq, tc).
       Inr ((List seq, orderedKeyFromInt H (go_len values), of_nat (length values)), tc)))"

definition list_newChunker :: "nat \<Rightarrow> hash_fn \<Rightarrow> ValueReader \<Rightarrow> chunkConfig" where
  "list_newChunker m H vr =
     \<lparr>cf_vr = vr, cf_vw = None, cf_H = H, cf_makeChunk = makeListLeafChunkFn m H,
      cf_parentMakeChunk = newIndexedMetaSequenceChunkFn m H ListKind,
      cf_hash = hashValueBytes m, cf_metaHash = metaHashValueBytes m\<rparr>"

definition newEmptyListSequenceChunker ::
    "nat \<Rightarrow> hash_fn \<Rightarrow> ValueReader \<Rightarrow> (Value \<Rightarrow> (Ref, TypeCache) st) option \<Rightarrow> chunkConfig" where
  "newEmptyListSequenceChunker m H vr vw = (list_newChunker m H vr)\<lparr>cf_vw := vw\<rparr>"

definition NewList :: "nat \<Rightarrow> nat \<Rightarrow> nat \<Rightarrow> hash_fn \<Rightarrow> Value list \<Rightarrow> (sequence, TypeCache) st" where
  "NewList n k m H values = build_with n k (newEmptyListSequenceChunker m H (\<lambda>_. None) None) (map ValueItem values)"

text \<open>The values a caller sends before it closes the channel.\<close>

definition NewStreamingList ::
    "nat \<Rightarrow> nat \<Rightarrow> nat \<Rightarrow> hash_fn \<Rightarrow> ValueReader \<Rightarrow> (Value \<Rightarrow> (Ref, TypeCache) st) \<Rightarrow> Value list \<Rightarrow> (sequence, TypeCache) st" where
  "NewStreamingList n k m H vr vw values = build_with n k (newEmptyListSequenceChunker m H vr (Some vw)) (map ValueItem values)"

definition List_Splice ::
    "nat \<Rightarrow> nat \<Rightarrow> nat \<Rightarrow> hash_fn \<Rightarrow> ValueReader \<Rightarrow> sequence \<Rightarrow> uint64 \<Rightarrow> uint64 \<Rightarrow> Value list \<Rightarrow> (sequence, TypeCache) st" where
  "List_Splice n k m H vr l idx deleteCount vs =
     indexed_splice n k (list_newChunker m H vr) l idx deleteCount (map ValueItem vs)"

definition List_Set ::
    "nat \<Rightarrow> nat \<Rightarrow> nat \<Rightarrow> hash_fn \<Rightarrow> ValueReader \<Rightarrow> sequence \<Rightarrow> uint64 \<Rightarrow> Value \<Rightarrow> (sequence, TypeCache) st" where
  "List_Set n k m H vr l idx v tc =
     rbind (List_Len l) (\<lambda>len. chk (idx < len) (List_Splice n k m H vr l idx 1 [v] tc))"

definition List_Append ::
    "nat \<Rightarrow> nat \<Rightarrow> nat \<Rightarrow> hash_fn \<Rightarrow> ValueReader \<Rightarrow> sequence \<Rightarrow> Value list \<Rightarrow> (sequence, TypeCache) st" where
  "List_Append n k m H vr l vs tc = rbind (List_Len l) (\<lambda>len. List_Splice n k m H vr l len 0 vs tc)"

definition List_Insert ::
    "nat \<Rightarrow> nat \<Rightarrow> nat \<Rightarrow> hash_fn \<Rightarrow> ValueReader \<Rightarrow> sequence \<Rightarrow> uint64 \<Rightarrow> Value list \<Rightarrow> (sequence, TypeCache) st" where
  "List_Insert n k m H vr l idx vs = List_Splice n k m H vr l idx 0 vs"

definition List_Concat :: "nat \<Rightarrow> nat \<Rightarrow> nat \<Rightarrow> hash_fn \<Rightarrow> ValueReader \<Rightarrow> sequence \<Rightarrow> sequence \<Rightarrow> (sequence, TypeCache) st" where
  "List_Concat n k m H vr l other = seq_concat n k (list_newChunker m H vr) l other"

definition List_Remove ::
    "nat \<Rightarrow> nat \<Rightarrow> nat \<Rightarrow> hash_fn \<Rightarrow> ValueReader \<Rightarrow> sequence \<Rightarrow> uint64 \<Rightarrow> uint64 \<Rightarrow> (sequence, TypeCache) st" where
  "List_Remove n k m H vr l start end' tc = chk (start \<le> end') (List_Splice n k m H vr l start (end' - start) [] tc)"

definition List_RemoveAt ::
    "nat \<Rightarrow> nat \<Rightarrow> nat \<Rightarrow> hash_fn \<Rightarrow> ValueReader \<Rightarrow> sequence \<Rightarrow> uint64 \<Rightarrow> (sequence, TypeCache) st" where
  "List_RemoveAt n k m H vr l idx = List_Splice n k m H vr l idx 1 []"

subsection \<open>Maps\<close>

text \<open>\<open>sort.Stable\<close> by \<open>less\<close>: a stable insertion sort, which has the one result a stable sort can have.\<close>

fun stable_insert :: "('a \<Rightarrow> 'a \<Rightarrow> bool) \<Rightarrow> 'a \<Rightarrow> 'a list \<Rightarrow> 'a list" where
  "stable_insert lt x [] = [x]"
| "stable_insert lt x (y # ys) = (if lt y x then y # stable_insert lt x ys else x # y # ys)"

definition sort_stable :: "('a \<Rightarrow> 'a \<Rightarrow> bool) \<Rightarrow> 'a list \<Rightarrow> 'a list" where
  "sort_stable lt xs = foldr (stable_insert lt) xs []"

text \<open>The loop of \<open>buildMapData\<close> and \<open>buildSetData\<close> that keeps the last of equal neighbours.\<close>

fun keep_last :: "('a \<Rightarrow> 'a \<Rightarrow> bool) \<Rightarrow> 'a \<Rightarrow> 'a list \<Rightarrow> 'a list" where
  "keep_last equals last' [] = [last']"
| "keep_last equals last' (x # xs) =
     (if \<not> equals x last' then last' # keep_last equals x xs else keep_last equals x xs)"

fun pair_up :: "Value list \<Rightarrow> (Value \<times> Value) list res" where
  "pair_up [] = Inr []"
| "pair_up [v] = Inl (Panic ''Must specify even number of key/value pairs'')"
| "pair_up (u # v # vs) = rbind (pair_up vs) (\<lambda>es. Inr ((u, v) # es))"

definition buildMapData :: "hash_fn \<Rightarrow> Value list \<Rightarrow> (Value \<times> Value) list res" where
  "buildMapData H values =
     rbind (pair_up values) (\<lambda>kvs.
       case sort_stable (mapEntrySlice_Less H) kvs of
         [] \<Rightarrow> Inr []
       | kv # kvs \<Rightarrow> Inr (keep_last (\<lambda>x y. value_Equals H (fst x) (fst y)) kv kvs))"

definition makeMapLeafChunkFn :: "nat \<Rightarrow> hash_fn \<Rightarrow> makeChunkFn" where
  "makeMapLeafChunkFn m H items tc =
     rbind (mapM_res item_entry items) (\<lambda>mapData. rbind (newMapLeafSequence m mapData tc) (\<lambda>(seq, tc).
       Inr ((Map seq, if mapData \<noteq> [] then newOrderedKey H (fst (last mapData)) else emptyKey, of_nat (length items)), tc)))"

definition newEmptyMapSequenceChunker :: "nat \<Rightarrow> hash_fn \<Rightarrow> ValueReader \<Rightarrow> chunkConfig" where
  "newEmptyMapSequenceChunker m H vr =
     \<lparr>cf_vr = vr, cf_vw = None, cf_H = H, cf_makeChunk = makeMapLeafChunkFn m H,
      cf_parentMakeChunk = newOrderedMetaSequenceChunkFn m MapKind,
      cf_hash = mapHashValueBytes m, cf_metaHash = metaHashValueBytes m\<rparr>"

definition NewMap :: "nat \<Rightarrow> nat \<Rightarrow> nat \<Rightarrow> hash_fn \<Rightarrow> Value list \<Rightarrow> (sequence, TypeCache) st" where
  "NewMap n k m H kv tc =
     rbind (buildMapData H kv) (\<lambda>entries.
       build_with n k (newEmptyMapSequenceChunker m H (\<lambda>_. None)) (map EntryItem entries) tc)"

definition Map_splice ::
    "nat \<Rightarrow> nat \<Rightarrow> nat \<Rightarrow> hash_fn \<Rightarrow> ValueReader \<Rightarrow> sequenceCursor \<Rightarrow> uint64 \<Rightarrow> (Value \<times> Value) list \<Rightarrow> (sequence, TypeCache) st" where
  "Map_splice n k m H vr cur deleteCount vs =
     splice_with n k (newEmptyMapSequenceChunker m H vr) cur deleteCount (map EntryItem vs)"

definition Map_getCursorAtValue :: "nat \<Rightarrow> hash_fn \<Rightarrow> ValueReader \<Rightarrow> sequence \<Rightarrow> Value \<Rightarrow> (sequenceCursor \<times> bool) res" where
  "Map_getCursorAtValue n H vr seq v =
     rbind (newCursorAtValue n H vr seq (Some v) True False) (\<lambda>cur. rbind (indexInChunk cur) (\<lambda>i. rbind (cur_length cur) (\<lambda>len.
     rbind (if i < len then rbind (current cur) (\<lambda>x. rbind (item_entry x) (\<lambda>e. Inr (value_Equals H (fst e) v))) else Inr False) (\<lambda>found.
       Inr (cur, found)))))"

fun Map_SetM ::
    "nat \<Rightarrow> nat \<Rightarrow> nat \<Rightarrow> hash_fn \<Rightarrow> ValueReader \<Rightarrow> sequence \<Rightarrow> Value list \<Rightarrow> (sequence, TypeCache) st" where
  "Map_SetM n k m H vr seq [] tc = Inr (seq, tc)"
| "Map_SetM n k m H vr seq [x] tc = Inl ChkFailed"
| "Map_SetM n k m H vr seq (x # v # kv) tc =
     chk (even (length kv))
       (rbind (Map_getCursorAtValue n H vr seq x) (\<lambda>(cur, found).
        rbind (Map_splice n k m H vr cur (if found then 1 else 0) [(x, v)] tc) (\<lambda>(seq, tc). Map_SetM n k m H vr seq kv tc)))"

definition Map_Set ::
    "nat \<Rightarrow> nat \<Rightarrow> nat \<Rightarrow> hash_fn \<Rightarrow> ValueReader \<Rightarrow> sequence \<Rightarrow> Value \<Rightarrow> Value \<Rightarrow> (sequence, TypeCache) st" where
  "Map_Set n k m H vr seq key val = Map_SetM n k m H vr seq [key, val]"

definition Map_Remove ::
    "nat \<Rightarrow> nat \<Rightarrow> nat \<Rightarrow> hash_fn \<Rightarrow> ValueReader \<Rightarrow> sequence \<Rightarrow> Value \<Rightarrow> (sequence, TypeCache) st" where
  "Map_Remove n k m H vr seq key tc =
     rbind (Map_getCursorAtValue n H vr seq key) (\<lambda>(cur, found).
       if found then Map_splice n k m H vr cur 1 [] tc else Inr (seq, tc))"

subsection \<open>Sets\<close>

definition buildSetData :: "hash_fn \<Rightarrow> Value list \<Rightarrow> Value list" where
  "buildSetData H values =
     (case sort_stable (value_Less H) values of [] \<Rightarrow> [] | v # vs \<Rightarrow> keep_last (value_Equals H) v vs)"

definition makeSetLeafChunkFn :: "nat \<Rightarrow> hash_fn \<Rightarrow> makeChunkFn" where
  "makeSetLeafChunkFn m H items tc =
     rbind (mapM_res item_value items) (\<lambda>setData. rbind (newSetLeafSequence m setData tc) (\<lambda>(seq, tc).
       Inr ((Set seq, if setData \<noteq> [] then newOrderedKey H (last setData) else emptyKey, of_nat (length items)), tc)))"

definition newEmptySetSequenceChunker :: "nat \<Rightarrow> hash_fn \<Rightarrow> ValueReader \<Rightarrow> chunkConfig" where
  "newEmptySetSequenceChunker m H vr =
     \<lparr>cf_vr = vr, cf_vw = None, cf_H = H, cf_makeChunk = makeSetLeafChunkFn m H,
      cf_parentMakeChunk = newOrderedMetaSequenceChunkFn m SetKind,
      cf_hash = hashValueBytes m, cf_metaHash = metaHashValueBytes m\<rparr>"

definition NewSet :: "nat \<Rightarrow> nat \<Rightarrow> nat \<Rightarrow> hash_fn \<Rightarrow> Value list \<Rightarrow> (sequence, TypeCache) st" where
  "NewSet n k m H v =
     build_with n k (newEmptySetSequenceChunker m H (\<lambda>_. None)) (map ValueItem (buildSetData H v))"

definition Set_splice ::
    "nat \<Rightarrow> nat \<Rightarrow> nat \<Rightarrow> hash_fn \<Rightarrow> ValueReader \<Rightarrow> sequenceCursor \<Rightarrow> uint64 \<Rightarrow> Value list \<Rightarrow> (sequence, TypeCache) st" where
  "Set_splice n k m H vr cur deleteCount vs =
     splice_with n k (newEmptySetSequenceChunker m H vr) cur deleteCount (map ValueItem vs)"

definition Set_getCursorAtValue :: "nat \<Rightarrow> hash_fn \<Rightarrow> ValueReader \<Rightarrow> sequence \<Rightarrow> Value \<Rightarrow> (sequenceCursor \<times> bool) res" where
  "Set_getCursorAtValue n H vr seq v =
     rbind (newCursorAtValue n H vr seq (Some v) True False) (\<lambda>cur. rbind (indexInChunk cur) (\<lambda>i. rbind (cur_length cur) (\<lambda>len.
     rbind (if i < len then rbind (current cur) (\<lambda>x. rbind (item_value x) (\<lambda>w. Inr (value_Equals H w v))) else Inr False) (\<lambda>found.
       Inr (cur, found)))))"

fun Set_Insert ::
    "nat \<Rightarrow> nat \<Rightarrow> nat \<Rightarrow> hash_fn \<Rightarrow> ValueReader \<Rightarrow> sequence \<Rightarrow> Value list \<Rightarrow> (sequence, TypeCache) st" where
  "Set_Insert n k m H vr seq [] tc = Inr (seq, tc)"
| "Set_Insert n k m H vr seq (head # tail) tc =
     rbind (Set_getCursorAtValue n H vr seq head) (\<lambda>(cur, found).
     rbind (if \<not> found then Set_splice n k m H vr cur 0 [head] tc else Inr (seq, tc)) (\<lambda>(seq, tc).
       Set_Insert n k m H vr seq tail tc))"

fun Set_Remove ::
    "nat \<Rightarrow> nat \<Rightarrow> nat \<Rightarrow> hash_fn \<Rightarrow> ValueReader \<Rightarrow> sequence \<Rightarrow> Value list \<Rightarrow> (sequence, TypeCache) st" where
  "Set_Remove n k m H vr seq [] tc = Inr (seq, tc)"
| "Set_Remove n k m H vr seq (head # tail) tc =
     rbind (Set_getCursorAtValue n H vr seq head) (\<lambda>(cur, found).
     rbind (if found then Set_splice n k m H vr cur 1 [] tc else Inr (seq, tc)) (\<lambda>(seq, tc).
       Set_Remove n k m H vr seq tail tc))"

end
