(* ===== verification/CursorTree.thy ===== *)
theory CursorTree
  imports Cursor
begin

text \<open>
  What cursors see of a well-formed prolly tree: the sequence of its leaves. Positions by index and
  iteration are those of that sequence.
\<close>

subsection \<open>Trees and their leaves\<close>

text \<open>
  \<open>tree vr seq h xs\<close>: the sequence is the root of a tree of height \<open>h\<close>, whose chunks \<open>vr\<close> provides, with the
  leaves \<open>xs\<close>; every tuple counts the leaves below it, and there are some.
\<close>

inductive tree :: "ValueReader \<Rightarrow> sequence \<Rightarrow> nat \<Rightarrow> sequenceItem list \<Rightarrow> bool" for vr where
  tree_leaf: "\<not> isMetaSequence seq \<Longrightarrow> tree vr seq 0 (seq_items seq)"
| tree_meta: "ms \<noteq> [] \<Longrightarrow>
    list_all2 (\<lambda>m ls. ls \<noteq> [] \<and> mt_numLeaves m = of_nat (length ls)
      \<and> (\<exists>cs. tuple_getChildSequence vr m = Inr cs \<and> tree vr cs h ls)) ms lss \<Longrightarrow>
    tree vr (metaSequence ms t) (Suc h) (concat lss)"

definition child_of :: "ValueReader \<Rightarrow> nat \<Rightarrow> metaTuple \<Rightarrow> sequenceItem list \<Rightarrow> bool" where
  "child_of vr h m ls \<longleftrightarrow> ls \<noteq> [] \<and> mt_numLeaves m = of_nat (length ls)
     \<and> (\<exists>cs. tuple_getChildSequence vr m = Inr cs \<and> tree vr cs h ls)"

inductive_cases tree_SucE: "tree vr seq (Suc h) xs"
inductive_cases tree_0E: "tree vr seq 0 xs"

lemma tree_metaI: "ms \<noteq> [] \<Longrightarrow> list_all2 (child_of vr h) ms lss \<Longrightarrow> tree vr (metaSequence ms t) (Suc h) (concat lss)"
  unfolding child_of_def [abs_def] by (rule tree_meta)

lemma tree_Suc:
  assumes "tree vr seq (Suc h) xs"
  obtains ms t lss where "seq = metaSequence ms t" "xs = concat lss" "ms \<noteq> []" "list_all2 (child_of vr h) ms lss"
  using assms by (elim tree_SucE) (simp add: child_of_def [abs_def])

lemma getChildSequence_at:
  assumes "list_all2 (child_of vr h) ms lss" "j < length ms"
  obtains cs where "getChildSequence vr (metaSequence ms t) (int j) = Inr (Some cs)" "tree vr cs h (lss ! j)" "lss ! j \<noteq> []"
  using list_all2_nthD [OF assms] assms(2) by (auto simp: child_of_def nth_int_def)

subsection \<open>The number of leaves\<close>

lemma upto_int_nat: "[0..int n - 1] = map int [0..<n]"
  by (induction n) (simp_all add: upto_rec2)

lemma numLeaves_sum:
  assumes "list_all2 (\<lambda>m ls. mt_numLeaves m = of_nat (length ls)) ms lss"
  shows "n \<le> length ms \<Longrightarrow> foldM_res (\<lambda>cum i. rbind (nth_int ms i) (\<lambda>mt. Inr (cum + mt_numLeaves mt))) 0 (map int [0..<n])
    = Inr (of_nat (length (concat (take n lss))))"
proof (induction n)
  case (Suc n)
  have "mt_numLeaves (ms ! n) = of_nat (length (lss ! n))" "n < length lss"
    using Suc.prems list_all2_nthD [OF assms, of n] list_all2_lengthD [OF assms] by simp_all
  then show ?case using Suc by (simp add: foldM_res_append nth_int_def take_Suc_conv_app_nth)
qed simp

lemma numLeaves_tree:
  assumes "tree vr seq h xs"
  shows "numLeaves seq = Inr (of_nat (length xs))"
  using assms
proof cases
  case tree_leaf
  then show ?thesis by (cases seq) (simp_all add: isMetaSequence_def seqLen_def)
next
  case (tree_meta ms h lss t)
  have "list_all2 (\<lambda>m ls. mt_numLeaves m = of_nat (length ls)) ms lss"
    by (rule list_all2_mono [OF tree_meta(5)]) simp
  from numLeaves_sum [OF this, of "length ms"] tree_meta(4)
  show ?thesis using list_all2_lengthD [OF tree_meta(5)]
    by (simp add: tree_meta(1-3) cumulativeNumberOfLeaves_def upto_int_nat)
qed

subsection \<open>Positions in a tree\<close>

text \<open>The leaves behind the current items of the parents of a cursor whose sequence has height \<open>h\<close>.\<close>

inductive afters :: "ValueReader \<Rightarrow> nat \<Rightarrow> sequenceCursor \<Rightarrow> sequenceItem list \<Rightarrow> bool" for vr where
  no_parents: "afters vr h [] []"
| parents: "list_all2 (child_of vr h) ms lss \<Longrightarrow> j < length ms \<Longrightarrow> afters vr (Suc h) ps r \<Longrightarrow>
    afters vr h (new_level (metaSequence ms t) (int j) # ps) (concat (drop (Suc j) lss) @ r)"

text \<open>\<open>cursor_rest vr cur xs\<close>: the leaves from the current one on are \<open>xs\<close>.\<close>

definition cursor_rest :: "ValueReader \<Rightarrow> sequenceCursor \<Rightarrow> sequenceItem list \<Rightarrow> bool" where
  "cursor_rest vr cur xs \<longleftrightarrow>
     (\<exists>seq i ps r. cur = new_level seq (int i) # ps \<and> \<not> isMetaSequence seq \<and> afters vr 0 ps r
        \<and> i \<le> length (seq_items seq) \<and> (i = length (seq_items seq) \<longrightarrow> r = []) \<and> xs = drop i (seq_items seq) @ r)"

lemma new_level_sel [simp]: "cl_seq (new_level s i) = s" "cl_idx (new_level s i) = i"
  "(new_level s i)\<lparr>cl_idx := k\<rparr> = new_level s k"
  by (simp_all add: new_level_def)

lemma seqLen_meta [simp]: "seqLen (metaSequence ms t) = int (length ms)"
  by (simp add: seqLen_def)

lemma advance_parents:
  assumes "afters vr h ps r" "ps \<noteq> []"
  shows "(r = [] \<longrightarrow> advanceMaybeAllowPastEnd vr False ps = Inr (False, ps))
    \<and> (r \<noteq> [] \<longrightarrow> (\<exists>ps' cs ls r'. advanceMaybeAllowPastEnd vr False ps = Inr (True, ps') \<and> sync vr ps' = Inr cs
          \<and> tree vr cs h ls \<and> ls \<noteq> [] \<and> afters vr h ps' r' \<and> r = ls @ r'))"
  using assms
proof (induction rule: afters.induct)
  case (parents h ms lss j ps r t)
  have len: "length lss = length ms" using list_all2_lengthD [OF parents(1)] by simp
  show ?case
  proof (cases "Suc j < length ms")
    case True
    have drop: "concat (drop (Suc j) lss) = lss ! Suc j @ concat (drop (Suc (Suc j)) lss)"
      using True len by (simp flip: Cons_nth_drop_Suc)
    obtain cs where cs: "getChildSequence vr (metaSequence ms t) (int (Suc j)) = Inr (Some cs)" "tree vr cs h (lss ! Suc j)" "lss ! Suc j \<noteq> []"
      using getChildSequence_at [OF parents(1) True] by blast
    let ?ps = "new_level (metaSequence ms t) (int (Suc j)) # ps"
    have "advanceMaybeAllowPastEnd vr False (new_level (metaSequence ms t) (int j) # ps) = Inr (True, ?ps)"
      using True by (simp add: add.commute)
    moreover have "sync vr ?ps = Inr cs" using cs(1) by (simp add: sync_def)
    moreover have "afters vr h ?ps (concat (drop (Suc (Suc j)) lss) @ r)" by (rule afters.parents [OF parents(1) True parents(3)])
    moreover have "concat (drop (Suc j) lss) @ r = lss ! Suc j @ concat (drop (Suc (Suc j)) lss) @ r" using drop by simp
    moreover have "concat (drop (Suc j) lss) @ r \<noteq> []" using drop cs(3) by simp
    ultimately show ?thesis using cs(2,3) by blast
  next
    case False
    then have j: "int j = int (length ms) - 1" and drop: "concat (drop (Suc j) lss) = []" using parents(2) len by simp_all
    show ?thesis
    proof (cases "ps = []")
      case True
      then have "r = []" using parents(3) by (auto elim: afters.cases)
      then show ?thesis using True j drop by simp
    next
      case ps: False
      note IH = parents.IH [OF ps]
      show ?thesis
      proof (cases "r = []")
        case True
        then show ?thesis using IH ps j drop by simp
      next
        case False
        then obtain ps' cs ls r' where up: "advanceMaybeAllowPastEnd vr False ps = Inr (True, ps')" "sync vr ps' = Inr cs"
          "tree vr cs (Suc h) ls" "afters vr (Suc h) ps' r'" "r = ls @ r'" using IH by blast
        obtain ms' t' lss' where m': "cs = metaSequence ms' t'" "ls = concat lss'" "ms' \<noteq> []" "list_all2 (child_of vr h) ms' lss'"
          by (rule tree_Suc [OF up(3)])
        have l': "length lss' = length ms'" "0 < length ms'" using list_all2_lengthD [OF m'(4)] m'(3) by auto
        obtain cs' where cs': "getChildSequence vr cs (int 0) = Inr (Some cs')" "tree vr cs' h (lss' ! 0)" "lss' ! 0 \<noteq> []"
          using getChildSequence_at [OF m'(4) l'(2)] m'(1) by blast
        let ?ps = "new_level cs (int 0) # ps'"
        have "advanceMaybeAllowPastEnd vr False (new_level (metaSequence ms t) (int j) # ps) = Inr (True, ?ps)"
          using up(1,2) ps j by simp
        moreover have "sync vr ?ps = Inr cs'" using cs'(1) by (simp add: sync_def)
        moreover have "afters vr h ?ps (concat (drop (Suc 0) lss') @ r')"
          unfolding m'(1) by (rule afters.parents [OF m'(4) l'(2) up(4)])
        moreover have "concat (drop (Suc j) lss) @ r = lss' ! 0 @ concat (drop (Suc 0) lss') @ r'"
          using l' m'(2) drop up(5) by (cases lss') simp_all
        moreover have "concat (drop (Suc j) lss) @ r \<noteq> []" using False by simp
        ultimately show ?thesis using cs'(2,3) by blast
      qed
    qed
  qed
qed simp

lemma cursor_rest_Nil: "cursor_rest vr cur [] \<Longrightarrow> valid cur = Inr False"
  by (auto simp: cursor_rest_def valid_def seqLen_def)

lemma cursor_rest_Cons:
  assumes "cursor_rest vr cur (x # xs)"
  shows "valid cur = Inr True" "current cur = Inr x" "\<exists>ok cur'. cur_advance vr cur = Inr (ok, cur') \<and> cursor_rest vr cur' xs"
proof -
  obtain seq i ps r where cur: "cur = new_level seq (int i) # ps" and seq: "\<not> isMetaSequence seq" and ps: "afters vr 0 ps r"
    and i: "i < length (seq_items seq)" and xs: "x # xs = drop i (seq_items seq) @ r"
    using assms by (auto simp: cursor_rest_def le_less)
  have x: "x = seq_items seq ! i" "xs = drop (Suc i) (seq_items seq) @ r" using i xs by (simp_all flip: Cons_nth_drop_Suc)
  show v: "valid cur = Inr True" using i by (simp add: cur valid_def seqLen_def)
  show "current cur = Inr x" using i by (simp add: current_def v) (simp add: cur getItem_def nth_int_def x)
  show "\<exists>ok cur'. cur_advance vr cur = Inr (ok, cur') \<and> cursor_rest vr cur' xs"
  proof (cases "Suc i < length (seq_items seq)")
    case True
    have "cur_advance vr cur = Inr (True, new_level seq (int (Suc i)) # ps)"
      using True by (simp add: cur cur_advance_def seqLen_def add.commute)
    moreover have "cursor_rest vr (new_level seq (int (Suc i)) # ps) xs"
      using True seq ps x(2) unfolding cursor_rest_def by (intro exI [of _ seq] exI [of _ "Suc i"] exI [of _ ps] exI [of _ r]) simp
    ultimately show ?thesis by blast
  next
    case False
    then have end_seq: "int i = seqLen seq - 1" "xs = r" "Suc i = length (seq_items seq)" using i x(2) by (simp_all add: seqLen_def)
    show ?thesis
    proof (cases "r = []")
      case True
      have "(if ps = [] then Inr (False, []) else advanceMaybeAllowPastEnd vr False ps) = Inr (False, ps)"
        using advance_parents [OF ps] True by auto
      then have "cur_advance vr cur = Inr (False, new_level seq (int (Suc i)) # ps)"
        using end_seq(1) by (simp add: cur cur_advance_def add.commute)
      moreover have "cursor_rest vr (new_level seq (int (Suc i)) # ps) xs"
        using True end_seq(2,3) seq ps unfolding cursor_rest_def
        by (intro exI [of _ seq] exI [of _ "Suc i"] exI [of _ ps] exI [of _ r]) simp
      ultimately show ?thesis by blast
    next
      case False
      then have "ps \<noteq> []" using ps by (auto elim: afters.cases)
      then obtain ps' cs ls r' where up: "advanceMaybeAllowPastEnd vr False ps = Inr (True, ps')" "sync vr ps' = Inr cs"
        "tree vr cs 0 ls" "ls \<noteq> []" "afters vr 0 ps' r'" "r = ls @ r'" using advance_parents [OF ps] False by blast
      have cs: "\<not> isMetaSequence cs" "ls = seq_items cs" using up(3) by (auto elim: tree_0E)
      have "cur_advance vr cur = Inr (True, new_level cs (int 0) # ps')"
        using end_seq(1) up(1,2) \<open>ps \<noteq> []\<close> by (simp add: cur cur_advance_def)
      moreover have "cursor_rest vr (new_level cs (int 0) # ps') xs"
        using end_seq(2) up(4-6) cs unfolding cursor_rest_def
        by (intro exI [of _ cs] exI [of _ 0] exI [of _ ps'] exI [of _ r']) simp
      ultimately show ?thesis by blast
    qed
  qed
qed

subsection \<open>Positions by index\<close>

lemma skip_tuples_at:
  assumes "list_all2 (\<lambda>m ls. mt_numLeaves m = of_nat (length ls)) ms lss" "ms \<noteq> []" "c + length (concat lss) < 2 ^ 64"
    "i \<le> length (concat lss)"
  obtains j where "j < length ms" "skip_tuples ms (of_nat (c + i)) k (of_nat c) = (k + int j, of_nat (c + length (concat (take j lss))))"
    "length (concat (take j lss)) \<le> i" "i \<le> length (concat (take j lss)) + length (lss ! j)"
    "i < length (concat lss) \<Longrightarrow> i < length (concat (take j lss)) + length (lss ! j)"
  using assms
proof (induction ms arbitrary: lss c i k thesis)
  case (Cons m ms)
  obtain ls lss' where lss: "lss = ls # lss'" "mt_numLeaves m = of_nat (length ls)"
    "list_all2 (\<lambda>m ls. mt_numLeaves m = of_nat (length ls)) ms lss'" using Cons.prems(2) by (auto simp: list_all2_Cons1)
  show ?case
  proof (cases ms)
    case Nil
    then have "lss' = []" using lss(3) by simp
    then show ?thesis using Cons.prems(1) [of 0] Cons.prems(5) lss Nil by simp
  next
    case ms: (Cons m' ms')
    have le: "of_nat c + mt_numLeaves m \<le> (of_nat (c + i) :: uint64) \<longleftrightarrow> length ls \<le> i"
    proof -
      have "of_nat c + mt_numLeaves m = (of_nat (c + length ls) :: uint64)" using lss(2) by simp
      moreover have "unat (of_nat (c + length ls) :: uint64) = c + length ls" "unat (of_nat (c + i) :: uint64) = c + i"
        using Cons.prems(4,5) lss(1) by (subst unat_of_nat, simp)+
      ultimately show ?thesis by (simp add: word_le_nat_alt)
    qed
    show ?thesis
    proof (cases "length ls \<le> i")
      case True
      have p: "ms \<noteq> []" "(c + length ls) + length (concat lss') < 2 ^ 64" "i - length ls \<le> length (concat lss')"
        using ms Cons.prems(4,5) lss(1) by simp_all
      obtain j where j: "j < length ms" "skip_tuples ms (of_nat (c + length ls + (i - length ls))) (k + 1) (of_nat (c + length ls))
          = (k + 1 + int j, of_nat (c + length ls + length (concat (take j lss'))))"
        "length (concat (take j lss')) \<le> i - length ls" "i - length ls \<le> length (concat (take j lss')) + length (lss' ! j)"
        "i - length ls < length (concat lss') \<Longrightarrow> i - length ls < length (concat (take j lss')) + length (lss' ! j)"
        using Cons.IH [OF _ lss(3) p] by metis
      have "skip_tuples (m # ms) (of_nat (c + i)) k (of_nat c) = skip_tuples ms (of_nat (c + length ls + (i - length ls))) (k + 1) (of_nat (c + length ls))"
        using le True lss(2) ms by simp
      then show ?thesis
        using j True lss(1) by (intro Cons.prems(1) [of "Suc j"]) (simp_all, linarith+)
    next
      case False
      then have "skip_tuples (m # ms) (of_nat (c + i)) k (of_nat c) = (k, of_nat c)" using le ms by simp
      then show ?thesis using Cons.prems(1) [of 0] False lss(1) by simp
    qed
  qed
qed simp

lemma concat_split: "j < length lss \<Longrightarrow> concat lss = concat (take j lss) @ lss ! j @ concat (drop (Suc j) lss)"
  by (metis append_take_drop_id concat.simps(2) concat_append Cons_nth_drop_Suc)

lemma newCursorAtIndex_rest:
  "tree vr seq h xs \<Longrightarrow> length xs < 2 ^ 63 \<Longrightarrow> i \<le> length xs \<Longrightarrow> afters vr h ps r \<Longrightarrow> (i = length xs \<longrightarrow> r = []) \<Longrightarrow> h < n \<Longrightarrow>
    \<exists>cur. newCursorAtIndex n vr ps seq (of_nat i) = Inr cur \<and> cursor_rest vr cur (drop i xs @ r)"
proof (induction h arbitrary: seq xs i ps r n)
  case 0
  then obtain m where n: "n = Suc m" by (cases n) auto
  have seq: "\<not> isMetaSequence seq" "xs = seq_items seq" using 0(1) by (auto elim: tree_0E)
  have "sint (of_nat i :: uint64) = int i" using 0(2,3) by (simp add: signed_of_nat signed_take_bit_int_eq_self)
  then have "advanceCursorToOffset seq (of_nat i) = (int i, of_nat i)"
    using seq 0(3) by (cases seq) (simp_all add: advanceCursorToOffset_def isMetaSequence_def seqLen_def)
  moreover have "getChildSequence vr seq (int i) = Inr None" using seq(1) by (cases seq) (simp_all add: isMetaSequence_def)
  ultimately have "newCursorAtIndex n vr ps seq (of_nat i) = Inr (new_level seq (int i) # ps)"
    by (simp add: n newSequenceCursor_def)
  then show ?case using 0 seq unfolding cursor_rest_def by blast
next
  case (Suc h)
  then obtain m where n: "n = Suc m" "h < m" by (cases n) auto
  obtain ms t lss where seq: "seq = metaSequence ms t" "xs = concat lss" "ms \<noteq> []" "list_all2 (child_of vr h) ms lss"
    by (rule tree_Suc [OF Suc.prems(1)])
  have len: "length lss = length ms" using list_all2_lengthD [OF seq(4)] by simp
  have counts: "list_all2 (\<lambda>m ls. mt_numLeaves m = of_nat (length ls)) ms lss"
    by (rule list_all2_mono [OF seq(4)]) (simp add: child_of_def)
  have small: "0 + length (concat lss) < 2 ^ 64" "i \<le> length (concat lss)" using Suc.prems(2,3) seq(2) by simp_all
  obtain j where j: "j < length ms" "skip_tuples ms (of_nat (0 + i)) 0 (of_nat 0) = (0 + int j, of_nat (0 + length (concat (take j lss))))"
    "length (concat (take j lss)) \<le> i" "i \<le> length (concat (take j lss)) + length (lss ! j)"
    "i < length (concat lss) \<Longrightarrow> i < length (concat (take j lss)) + length (lss ! j)"
    using skip_tuples_at [OF counts seq(3) small, where k = 0] by metis
  note split = concat_split [of j lss]
  have jl: "j < length lss" using j(1) len by simp
  obtain cs where cs: "getChildSequence vr (metaSequence ms t) (int j) = Inr (Some cs)" "tree vr cs h (lss ! j)" "lss ! j \<noteq> []"
    using getChildSequence_at [OF seq(4) j(1)] by blast
  let ?i = "i - length (concat (take j lss))" and ?ps = "new_level seq (int j) # ps" and ?r = "concat (drop (Suc j) lss) @ r"
  have step: "newCursorAtIndex n vr ps seq (of_nat i) = newCursorAtIndex m vr ?ps cs (of_nat ?i)"
    using j(2,3) cs(1) by (simp add: n(1) newSequenceCursor_def seq(1) advanceCursorToOffset_def of_nat_diff)
  have "length (lss ! j) < 2 ^ 63" using Suc.prems(2) split [OF jl] seq(2) by simp
  moreover have "?i \<le> length (lss ! j)" using j(4) by simp
  moreover have "afters vr h ?ps ?r" unfolding seq(1) by (rule afters.parents [OF seq(4) j(1) Suc.prems(4)])
  moreover have "?i = length (lss ! j) \<longrightarrow> ?r = []"
  proof
    assume "?i = length (lss ! j)"
    then have full: "i = length (concat (take j lss)) + length (lss ! j)" using j(3) by simp
    then have "\<not> i < length (concat lss)" using j(5) by linarith
    then have "i = length xs" "concat (drop (Suc j) lss) = []" using small(2) seq(2) full split [OF jl] by simp_all
    then show "?r = []" using Suc.prems(5) by simp
  qed
  ultimately obtain cur where "newCursorAtIndex m vr ?ps cs (of_nat ?i) = Inr cur" "cursor_rest vr cur (drop ?i (lss ! j) @ ?r)"
    using Suc.IH [OF cs(2) _ _ _ _ n(2)] by blast
  moreover have "drop ?i (lss ! j) @ ?r = drop i xs @ r"
    using split [OF jl] j(3,4) seq(2) by simp
  ultimately show ?case using step by auto
qed

lemma iter_loop_rest:
  assumes "cursor_rest vr cur xs" "length xs < k"
  shows "iter_loop k vr (\<lambda>x s. rbind (f x s) (\<lambda>s. Inr (False, s))) cur s = foldM_res (\<lambda>s x. f x s) s xs"
  using assms
proof (induction xs arbitrary: cur k s)
  case Nil
  then show ?case by (cases k) (simp_all add: cursor_rest_Nil)
next
  case (Cons x xs)
  then obtain k' where k: "k = Suc k'" "length xs < k'" by (cases k) auto
  obtain ok cur' where cur': "cur_advance vr cur = Inr (ok, cur')" "cursor_rest vr cur' xs"
    using cursor_rest_Cons(3) [OF Cons.prems(1)] by blast
  show ?case
    using cursor_rest_Cons(1,2) [OF Cons.prems(1)] cur'(1) Cons.IH [OF cur'(2) k(2)]
    by (cases "f x s") (simp_all add: k(1))
qed

lemma cursor_rest_leaf: "cursor_rest vr cur xs \<Longrightarrow> \<not> not_a_leaf cur"
  by (auto simp: cursor_rest_def not_a_leaf_def)

subsection \<open>A chunked list\<close>

text \<open>A list of three booleans in two chunks, one read from the store.\<close>

definition sample_ref :: Ref where
  "sample_ref = \<lparr>ref_target = copy_hash [1], ref_height = 1, ref_t = 20\<rparr>"

definition sample_reader :: ValueReader where
  "sample_reader h = (if h = copy_hash [1] then Some (List (listLeafSequence 17 [Bool True, Bool False])) else None)"

definition sample_list :: sequence where
  "sample_list = metaSequence
     [metaTuple sample_ref (orderedKey True None emptyHash) 2 None,
      metaTuple sample_ref (orderedKey True None emptyHash) 1 (Some (List (listLeafSequence 17 [Bool True])))] 17"

lemma sample_tree: "tree sample_reader sample_list (Suc 0) (map ValueItem [Bool True, Bool False, Bool True])"
proof -
  let ?lss = "[map ValueItem [Bool True, Bool False], map ValueItem [Bool True]]"
  have leaf: "tree sample_reader (listLeafSequence 17 vs) 0 (map ValueItem vs)" for vs
    using tree_leaf [of "listLeafSequence 17 vs"] by (simp add: isMetaSequence_def)
  have "tree sample_reader sample_list (Suc 0) (concat ?lss)"
    unfolding sample_list_def using leaf [of "[Bool True, Bool False]"] leaf [of "[Bool True]"]
    by (intro tree_metaI)
      (simp_all add: child_of_def tuple_getChildSequence_def sample_ref_def sample_reader_def)
  then show ?thesis by simp
qed

text \<open>
  C35. \<open>Get\<close> on a list is access by index to the sequence of the tree's leaves, and panics for an index
  that is out of bounds, if the tree is well-formed, has fewer than \<open>2 ^ 63\<close> leaves and the search may go as
  deep as the tree is high.
\<close>

theorem List_Get_nth:
  assumes "tree vr seq h (map ValueItem vs)" "length vs < 2 ^ 63" "h < n"
  shows "List_Get n vr seq idx = (if unat idx < length vs then Inr (vs ! unat idx) else Inl ChkFailed)"
proof -
  have len: "List_Len seq = Inr (of_nat (length vs))" using numLeaves_tree [OF assms(1)] by (simp add: List_Len_def)
  have less: "idx < of_nat (length vs) \<longleftrightarrow> unat idx < length vs"
    using assms(2) by (simp add: word_less_nat_alt unat_of_nat)
  show ?thesis
  proof (cases "unat idx < length vs")
    case True
    then have "length (map ValueItem vs) < 2 ^ 63" "unat idx \<le> length (map ValueItem vs)"
      "unat idx = length (map ValueItem vs) \<longrightarrow> ([] :: sequenceItem list) = []" using assms(2) by simp_all
    from newCursorAtIndex_rest [OF assms(1) this(1,2) no_parents this(3) assms(3)]
    obtain cur where cur: "newCursorAtIndex n vr [] seq idx = Inr cur" "cursor_rest vr cur (drop (unat idx) (map ValueItem vs))"
      by auto
    have "drop (unat idx) (map ValueItem vs) = ValueItem (vs ! unat idx) # drop (Suc (unat idx)) (map ValueItem vs)"
      using True by (simp flip: Cons_nth_drop_Suc)
    then show ?thesis using cursor_rest_Cons(2) cur True less len by (simp add: List_Get_def)
  next
    case False
    then show ?thesis using less len by (simp add: List_Get_def chk_def)
  qed
qed

theorem List_Get_nth_witness:
  "List_Get 2 sample_reader sample_list 1 = Inr (Bool False) \<and> List_Get 2 sample_reader sample_list 3 = Inl ChkFailed"
  using List_Get_nth [OF sample_tree, of 2 1] List_Get_nth [OF sample_tree, of 2 3] by simp

text \<open>
  C36. \<open>IterAll\<close> visits every leaf of the list once, in order, with its index, and then ends: it is the fold
  of the callback over the elements. (The second argument of \<open>List_IterAll\<close> bounds the number of steps.)
\<close>

theorem List_IterAll_fold:
  assumes "tree vr seq h (map ValueItem vs)" "length vs < 2 ^ 63" "h < n" "length vs < k"
  shows "List_IterAll n k vr seq f s = foldM_res (\<lambda>s (i, v). f v (of_nat i) s) s (zip [0..<length vs] vs)"
proof -
  let ?f = "\<lambda>x (idx, s). rbind (item_value x) (\<lambda>v. rbind (f v idx s) (\<lambda>s. Inr (idx + 1 :: uint64, s)))"
  let ?cb = "\<lambda>x (idx, s). rbind (item_value x) (\<lambda>v. rbind (f v idx s) (\<lambda>s. Inr (False, (idx + 1 :: uint64, s))))"
  have cb: "?cb = (\<lambda>x s. rbind (?f x s) (\<lambda>s. Inr (False, s)))" by (auto simp: fun_eq_iff rbind_assoc)
  have "length (map ValueItem vs) < 2 ^ 63" "0 \<le> length (map ValueItem vs)"
    "0 = length (map ValueItem vs) \<longrightarrow> ([] :: sequenceItem list) = []" using assms(2) by simp_all
  from newCursorAtIndex_rest [OF assms(1) this(1,2) no_parents this(3) assms(3)]
  obtain cur where cur: "newCursorAtIndex n vr [] seq 0 = Inr cur" "cursor_rest vr cur (map ValueItem vs)" by auto
  have "iterSequence k vr cur ?cb (0, s) = foldM_res (\<lambda>s x. ?f x s) (0, s) (map ValueItem vs)"
    unfolding cb iterSequence_def using cursor_rest_leaf [OF cur(2)] iter_loop_rest [OF cur(2)] assms(4) by simp
  moreover have "rbind (foldM_res (\<lambda>s x. ?f x s) (of_nat i, s) (map ValueItem ws)) (\<lambda>(_, s). Inr s)
      = foldM_res (\<lambda>s (i, v). f v (of_nat i) s) s (zip [i..<i + length ws] ws)" for i s ws
  proof (induction ws arbitrary: i s)
    case (Cons w ws)
    have zip: "zip [i..<i + length (w # ws)] (w # ws) = (i, w) # zip [Suc i..<Suc i + length ws] ws"
      by (simp add: upt_conv_Cons del: upt_Suc)
    show ?case using Cons.IH [of "Suc i"] unfolding zip by (cases "f w (of_nat i) s") (simp_all add: add.commute)
  qed simp
  from this [of 0] have "rbind (foldM_res (\<lambda>s x. ?f x s) (0, s) (map ValueItem vs)) (\<lambda>(_, s). Inr s)
      = foldM_res (\<lambda>s (i, v). f v (of_nat i) s) s (zip [0..<length vs] vs)" by simp
  ultimately show ?thesis using cur(1) by (simp add: List_IterAll_def)
qed

theorem List_IterAll_fold_witness:
  "List_IterAll 2 4 sample_reader sample_list (\<lambda>v i s. Inr (s @ [(i, v)])) [] = Inr [(0, Bool True), (1, Bool False), (2, Bool True)]"
  using List_IterAll_fold [OF sample_tree, of 2 4 "\<lambda>v i s. Inr (s @ [(i, v)])" "[]"] by (simp add: upt_rec)

end
