(* ===== verification/ChunkTree.thy ===== *)
theory ChunkTree
  imports CursorTree
begin

text \<open>
  Prolly trees of every height, and cursors at any of their levels: which leaves lie before a cursor and
  which from it on, and what moving it does to them. These are the facts about trees that the proofs about
  the chunker and about searches rest on.
\<close>

subsection \<open>Trees\<close>

text \<open>
  What a tree is relative to: the reader of its chunks, the items its leaves may have, and the key a tuple
  has above given leaves.
\<close>

record tree_spec =
  ts_vr :: ValueReader
  ts_leaf :: "sequenceItem \<Rightarrow> bool"
  ts_key :: "sequenceItem list \<Rightarrow> orderedKey \<Rightarrow> bool"

definition above :: "tree_spec \<Rightarrow> nat \<Rightarrow> (sequenceItem \<Rightarrow> sequenceItem list \<Rightarrow> bool) \<Rightarrow> metaTuple \<Rightarrow> sequence \<Rightarrow> sequenceItem list \<Rightarrow> bool" where
  "above S h item m cs ls \<longleftrightarrow>
     tuple_getChildSequence (ts_vr S) m = Inr cs \<and> (isMetaSequence cs \<longleftrightarrow> h \<noteq> 0) \<and> seq_items cs \<noteq> []
     \<and> (\<exists>lss. list_all2 item (seq_items cs) lss \<and> ls = concat lss)
     \<and> mt_numLeaves m = of_nat (length ls) \<and> ts_key S ls (mt_key m)"

text \<open>\<open>item_tree S h x ls\<close>: the item \<open>x\<close> of a sequence at height \<open>h\<close> has the leaves \<open>ls\<close> below it.\<close>

primrec item_tree :: "tree_spec \<Rightarrow> nat \<Rightarrow> sequenceItem \<Rightarrow> sequenceItem list \<Rightarrow> bool" where
  "item_tree S 0 = (\<lambda>x ls. ts_leaf S x \<and> (\<forall>m. x \<noteq> TupleItem m) \<and> ls = [x])"
| "item_tree S (Suc h) = (\<lambda>x ls. \<exists>m cs. x = TupleItem m \<and> above S h (item_tree S h) m cs ls)"

definition items_tree :: "tree_spec \<Rightarrow> nat \<Rightarrow> sequenceItem list \<Rightarrow> sequenceItem list \<Rightarrow> bool" where
  "items_tree S h xs ls \<longleftrightarrow> (\<exists>lss. list_all2 (item_tree S h) xs lss \<and> ls = concat lss)"

definition seq_tree :: "tree_spec \<Rightarrow> nat \<Rightarrow> sequence \<Rightarrow> sequenceItem list \<Rightarrow> bool" where
  "seq_tree S h seq ls \<longleftrightarrow>
     (isMetaSequence seq \<longleftrightarrow> h \<noteq> 0) \<and> items_tree S h (seq_items seq) ls \<and> (h \<noteq> 0 \<longrightarrow> seq_items seq \<noteq> [])"

lemma items_tree_Nil [simp]: "items_tree S h [] ls \<longleftrightarrow> ls = []"
  by (auto simp: items_tree_def)

lemma items_tree_append: "items_tree S h (xs @ ys) ls \<longleftrightarrow> (\<exists>a b. items_tree S h xs a \<and> items_tree S h ys b \<and> ls = a @ b)"
proof
  assume "items_tree S h (xs @ ys) ls"
  then obtain lss where "list_all2 (item_tree S h) (xs @ ys) lss" "ls = concat lss" by (auto simp: items_tree_def)
  then show "\<exists>a b. items_tree S h xs a \<and> items_tree S h ys b \<and> ls = a @ b"
    by (auto simp: list_all2_append1 items_tree_def) blast
next
  assume "\<exists>a b. items_tree S h xs a \<and> items_tree S h ys b \<and> ls = a @ b"
  then obtain ass bss where "list_all2 (item_tree S h) xs ass" "list_all2 (item_tree S h) ys bss" "ls = concat (ass @ bss)"
    by (auto simp: items_tree_def)
  then show "items_tree S h (xs @ ys) ls" unfolding items_tree_def by (metis list_all2_appendI)
qed

lemma items_tree_Cons: "items_tree S h (x # xs) ls \<longleftrightarrow> (\<exists>a b. item_tree S h x a \<and> items_tree S h xs b \<and> ls = a @ b)"
proof -
  have "items_tree S h [x] a \<longleftrightarrow> item_tree S h x a" for a by (auto simp: items_tree_def list_all2_Cons1)
  then show ?thesis using items_tree_append [of S h "[x]" xs ls] by auto
qed

lemma items_tree_single [simp]: "items_tree S h [x] ls \<longleftrightarrow> item_tree S h x ls"
  by (auto simp: items_tree_Cons)

lemma items_tree_appendI: "items_tree S h xs a \<Longrightarrow> items_tree S h ys b \<Longrightarrow> items_tree S h (xs @ ys) (a @ b)"
  by (auto simp: items_tree_append)

lemma item_tree_nonempty: "item_tree S h x ls \<Longrightarrow> ls \<noteq> []"
proof (induction h arbitrary: x ls)
  case (Suc h)
  then obtain m cs where "above S h (item_tree S h) m cs ls" by auto
  then obtain lss where lss: "list_all2 (item_tree S h) (seq_items cs) lss" "ls = concat lss" "seq_items cs \<noteq> []"
    by (auto simp: above_def)
  then obtain y ys l ls' where "seq_items cs = y # ys" "lss = l # ls'" "item_tree S h y l"
    by (cases "seq_items cs") (auto simp: list_all2_Cons1)
  then show ?case using Suc.IH lss(2) by auto
qed simp

lemma items_tree_nonempty: "items_tree S h xs ls \<Longrightarrow> xs \<noteq> [] \<Longrightarrow> ls \<noteq> []"
  using item_tree_nonempty by (cases xs) (auto simp: items_tree_Cons)

lemma items_tree_leaf: "items_tree S 0 xs ls \<longleftrightarrow> ls = xs \<and> (\<forall>x\<in>set xs. ts_leaf S x \<and> (\<forall>m. x \<noteq> TupleItem m))"
  by (induction xs arbitrary: ls) (auto simp: items_tree_Cons)

lemma above_seq: "above S h (item_tree S h) m cs ls \<Longrightarrow> seq_tree S h cs ls \<and> seq_items cs \<noteq> []"
  by (auto simp: above_def seq_tree_def items_tree_def)

lemma aboveI:
  "tuple_getChildSequence (ts_vr S) m = Inr cs \<Longrightarrow> seq_tree S h cs ls \<Longrightarrow> seq_items cs \<noteq> [] \<Longrightarrow>
   mt_numLeaves m = of_nat (length ls) \<Longrightarrow> ts_key S ls (mt_key m) \<Longrightarrow> above S h (item_tree S h) m cs ls"
  by (auto simp: above_def seq_tree_def items_tree_def)

lemma item_tree_Suc: "item_tree S (Suc h) x ls \<longleftrightarrow> (\<exists>m cs. x = TupleItem m \<and> above S h (item_tree S h) m cs ls)"
  by simp

text \<open>A tree in this sense is one in the sense of the previous theory, which forgets the keys.\<close>

lemma seq_tree_tree: "seq_tree S h seq ls \<Longrightarrow> tree (ts_vr S) seq h ls"
proof (induction h arbitrary: seq ls)
  case 0
  then show ?case using tree_leaf [of seq "ts_vr S"] by (auto simp: seq_tree_def items_tree_leaf)
next
  case (Suc h)
  then obtain ms t where seq: "seq = metaSequence ms t" by (cases seq) (auto simp: seq_tree_def isMetaSequence_def)
  obtain lss where lss: "list_all2 (item_tree S (Suc h)) (map TupleItem ms) lss" "ls = concat lss"
    using Suc.prems by (auto simp: seq seq_tree_def items_tree_def)
  have "list_all2 (child_of (ts_vr S) h) ms lss"
    unfolding list_all2_conv_all_nth
  proof (intro conjI allI impI)
    show len: "length ms = length lss" using list_all2_lengthD [OF lss(1)] by simp
    fix i
    assume i: "i < length ms"
    then have "item_tree S (Suc h) (TupleItem (ms ! i)) (lss ! i)"
      using list_all2_nthD [OF lss(1), of i] by simp
    then obtain cs where cs: "above S h (item_tree S h) (ms ! i) cs (lss ! i)" by auto
    then have "lss ! i \<noteq> []" using above_seq [OF cs] items_tree_nonempty by (auto simp: seq_tree_def)
    then show "child_of (ts_vr S) h (ms ! i) (lss ! i)"
      using cs Suc.IH above_seq [OF cs] by (auto simp: child_of_def above_def)
  qed
  moreover have "ms \<noteq> []" using Suc.prems by (auto simp: seq seq_tree_def)
  ultimately show ?case unfolding seq lss(2) by (intro tree_metaI)
qed

lemma item_tree_det: "item_tree S h x ls \<Longrightarrow> item_tree S h x ls' \<Longrightarrow> ls = ls'"
proof (induction h arbitrary: x ls ls')
  case (Suc h)
  then obtain m cs cs' where m: "above S h (item_tree S h) m cs ls" "above S h (item_tree S h) m cs' ls'" by auto
  then obtain lss lss' where lss: "list_all2 (item_tree S h) (seq_items cs) lss" "ls = concat lss"
    "list_all2 (item_tree S h) (seq_items cs) lss'" "ls' = concat lss'"
    by (auto simp: above_def)
  have "list_all2 (=) lss lss'"
    using lss(1,3) Suc.IH unfolding list_all2_conv_all_nth by auto
  then have "lss = lss'" by (simp only: list.rel_eq)
  then show ?case using lss by simp
qed simp

lemma items_tree_det: "items_tree S h xs ls \<Longrightarrow> items_tree S h xs ls' \<Longrightarrow> ls = ls'"
proof (induction xs arbitrary: ls ls')
  case (Cons x xs)
  then show ?case unfolding items_tree_Cons using item_tree_det by blast
qed simp

subsection \<open>Cursors\<close>

text \<open>
  \<open>chunk_at S h ps s P Q\<close>: the parents \<open>ps\<close> lead to the chunk \<open>s\<close> at height \<open>h\<close>, with the leaves \<open>P\<close> before it
  and \<open>Q\<close> after it.
\<close>

inductive chunk_at :: "tree_spec \<Rightarrow> nat \<Rightarrow> sequenceCursor \<Rightarrow> sequence \<Rightarrow> sequenceItem list \<Rightarrow> sequenceItem list \<Rightarrow> bool" for S where
  chunk_root: "chunk_at S h [] s [] []"
| chunk_child: "chunk_at S (Suc h) ps s' P Q \<Longrightarrow> isMetaSequence s' \<Longrightarrow> seq_items s' = xs @ TupleItem m # ys \<Longrightarrow>
    items_tree S (Suc h) xs a \<Longrightarrow> items_tree S (Suc h) ys b \<Longrightarrow> above S h (item_tree S h) m s ls \<Longrightarrow>
    chunk_at S h (new_level s' (int (length xs)) # ps) s (P @ a) (b @ Q)"

inductive_cases chunk_at_NilE: "chunk_at S h [] s P Q"
inductive_cases chunk_at_ConsE: "chunk_at S h (p # ps) s P Q"

definition item_at ::
    "tree_spec \<Rightarrow> nat \<Rightarrow> sequenceCursor \<Rightarrow> sequenceItem \<Rightarrow> sequenceItem list \<Rightarrow> sequenceItem list \<Rightarrow> sequenceItem list \<Rightarrow> bool" where
  "item_at S h c x pre lx post \<longleftrightarrow>
     (\<exists>s ps xs ys P Q a b. c = new_level s (int (length xs)) # ps \<and> chunk_at S h ps s P Q \<and> (isMetaSequence s \<longleftrightarrow> h \<noteq> 0)
       \<and> seq_items s = xs @ x # ys \<and> items_tree S h xs a \<and> item_tree S h x lx \<and> items_tree S h ys b
       \<and> pre = P @ a \<and> post = b @ Q)"

definition end_at :: "tree_spec \<Rightarrow> nat \<Rightarrow> sequenceCursor \<Rightarrow> sequenceItem list \<Rightarrow> bool" where
  "end_at S h c pre \<longleftrightarrow>
     (\<exists>s ps P a. c = new_level s (seqLen s) # ps \<and> chunk_at S h ps s P [] \<and> (isMetaSequence s \<longleftrightarrow> h \<noteq> 0)
       \<and> (ps \<noteq> [] \<or> h \<noteq> 0 \<longrightarrow> seq_items s \<noteq> []) \<and> items_tree S h (seq_items s) a \<and> pre = P @ a)"

lemma item_atI:
  "chunk_at S h ps s P Q \<Longrightarrow> (isMetaSequence s \<longleftrightarrow> h \<noteq> 0) \<Longrightarrow> seq_items s = xs @ x # ys \<Longrightarrow> items_tree S h xs a \<Longrightarrow>
   item_tree S h x lx \<Longrightarrow> items_tree S h ys b \<Longrightarrow> item_at S h (new_level s (int (length xs)) # ps) x (P @ a) lx (b @ Q)"
  unfolding item_at_def by blast

lemma item_atE:
  assumes "item_at S h c x pre lx post"
  obtains s ps xs ys P Q a b where "c = new_level s (int (length xs)) # ps" "chunk_at S h ps s P Q" "isMetaSequence s \<longleftrightarrow> h \<noteq> 0"
    "seq_items s = xs @ x # ys" "items_tree S h xs a" "item_tree S h x lx" "items_tree S h ys b" "pre = P @ a" "post = b @ Q"
  using assms unfolding item_at_def by blast

lemma end_atI:
  "chunk_at S h ps s P [] \<Longrightarrow> (isMetaSequence s \<longleftrightarrow> h \<noteq> 0) \<Longrightarrow> (ps \<noteq> [] \<or> h \<noteq> 0 \<Longrightarrow> seq_items s \<noteq> []) \<Longrightarrow>
   items_tree S h (seq_items s) a \<Longrightarrow> end_at S h (new_level s (seqLen s) # ps) (P @ a)"
  unfolding end_at_def by blast

text \<open>The parents of a chunk are a cursor at the tuple above it.\<close>

lemma chunk_at_parents:
  "ps \<noteq> [] \<Longrightarrow> chunk_at S h ps s P Q \<longleftrightarrow> (\<exists>m ls. item_at S (Suc h) ps (TupleItem m) P ls Q \<and> above S h (item_tree S h) m s ls)"
proof
  assume "ps \<noteq> []" "chunk_at S h ps s P Q"
  then obtain p ps' where ps: "ps = p # ps'" "chunk_at S h (p # ps') s P Q" by (cases ps) auto
  from ps(2) show "\<exists>m ls. item_at S (Suc h) ps (TupleItem m) P ls Q \<and> above S h (item_tree S h) m s ls"
  proof (rule chunk_at_ConsE, goal_cases)
    case (1 s' P' Q' xs m ys a b ls)
    moreover have "item_tree S (Suc h) (TupleItem m) ls" using 1(9) by auto
    ultimately show ?case using item_atI [of S "Suc h" ps' s' P' Q' xs "TupleItem m" ys a ls b] ps(1) by auto
  qed
next
  assume "ps \<noteq> []" "\<exists>m ls. item_at S (Suc h) ps (TupleItem m) P ls Q \<and> above S h (item_tree S h) m s ls"
  then obtain m ls where m: "item_at S (Suc h) ps (TupleItem m) P ls Q" "above S h (item_tree S h) m s ls" by blast
  from m(1) show "chunk_at S h ps s P Q"
    by (rule item_atE) (use m(2) in \<open>auto intro: chunk_child\<close>)
qed

lemma getChildSequence_tuple:
  assumes "isMetaSequence s" "seq_items s = xs @ TupleItem m # ys"
  shows "getChildSequence vr s (int (length xs)) = rbind (tuple_getChildSequence vr m) (\<lambda>cs. Inr (Some cs))"
proof -
  obtain ms t where s: "s = metaSequence ms t" using assms(1) by (cases s) (auto simp: isMetaSequence_def)
  then have "map TupleItem ms ! length xs = TupleItem m" "length xs < length ms"
    using assms(2) by (simp_all add: nth_append) (metis add_Suc_right length_Cons length_append length_map less_add_Suc1)
  then show ?thesis by (simp add: s nth_int_def)
qed

lemma sync_at:
  assumes "item_at S (Suc h) ps (TupleItem m) P ls Q" "above S h (item_tree S h) m s ls"
  shows "sync (ts_vr S) ps = Inr s"
  using assms(1)
  by (rule item_atE) (use assms(2) in \<open>auto simp: sync_def new_level_sel getChildSequence_tuple above_def\<close>)

lemma item_at_current:
  assumes "item_at S h c x pre lx post"
  shows "c \<noteq> []" "valid c = Inr True" "current c = Inr x" "indexInChunk c = Inr (cl_idx (hd c))" "0 \<le> cl_idx (hd c)"
    "item_tree S h x lx"
  using assms by (auto elim!: item_atE simp: valid_def current_def indexInChunk_def seqLen_def getItem_def nth_int_def nth_append)

lemma end_at_current:
  assumes "end_at S h c pre"
  shows "c \<noteq> []" "valid c = Inr False" "indexInChunk c = Inr (cl_idx (hd c))" "0 \<le> cl_idx (hd c)"
  using assms by (auto simp: end_at_def valid_def indexInChunk_def seqLen_def)

lemma advance_end: "end_at S h c pre \<Longrightarrow> advanceMaybeAllowPastEnd vr f c = Inr (False, c)"
  by (auto simp: end_at_def)

text \<open>
  Advancing a cursor on an item: to the next item of the chunk, to the first item of the next chunk, to
  which the parents move, or past the end.
\<close>

definition advanced :: "tree_spec \<Rightarrow> nat \<Rightarrow> sequenceCursor \<Rightarrow> sequenceItem list \<Rightarrow> sequenceItem list \<Rightarrow> bool" where
  "advanced S h c pre post \<longleftrightarrow>
     (post = [] \<and> advanceMaybeAllowPastEnd (ts_vr S) False c = Inr (False, c)
        \<and> (\<exists>c'. advanceMaybeAllowPastEnd (ts_vr S) True c = Inr (False, c') \<and> end_at S h c' pre \<and> tl c' = tl c \<and> 0 < cl_idx (hd c')))
     \<or> (\<exists>c' y ly post'. post = ly @ post' \<and> (\<forall>f. advanceMaybeAllowPastEnd (ts_vr S) f c = Inr (True, c'))
          \<and> item_at S h c' y pre ly post'
          \<and> (if cl_idx (hd c') = 0 then tl c \<noteq> [] \<and> advanceMaybeAllowPastEnd (ts_vr S) False (tl c) = Inr (True, tl c') else tl c' = tl c))"

lemma advance_at: "item_at S h c x pre lx post \<Longrightarrow> advanced S h c (pre @ lx) post"
proof (induction c arbitrary: h x pre lx post)
  case Nil
  then show ?case by (auto simp: item_at_def)
next
  case (Cons l ps)
  from Cons.prems obtain s xs ys P Q a b where c: "l = new_level s (int (length xs))" "chunk_at S h ps s P Q" "isMetaSequence s \<longleftrightarrow> h \<noteq> 0"
    "seq_items s = xs @ x # ys" "items_tree S h xs a" "item_tree S h x lx" "items_tree S h ys b" "pre = P @ a" "post = b @ Q"
    by (elim item_atE) auto
  have len: "seqLen s = int (length xs) + 1 + int (length ys)" using c(4) by (simp add: seqLen_def)
  have xs: "items_tree S h (xs @ [x]) (a @ lx)" using c(5,6) by (intro items_tree_appendI) simp_all
  show ?case
  proof (cases ys)
    case (Cons y ys')
    then obtain ly b' where y: "item_tree S h y ly" "items_tree S h ys' b'" "b = ly @ b'" using c(7) by (auto simp: items_tree_Cons)
    have "item_at S h (new_level s (int (length (xs @ [x]))) # ps) y (P @ a @ lx) ly (b' @ Q)"
      using item_atI [OF c(2,3) _ xs y(1,2)] c(4) Cons by simp
    moreover have "advanceMaybeAllowPastEnd (ts_vr S) f (l # ps) = Inr (True, new_level s (int (length (xs @ [x]))) # ps)" for f
      using len Cons by (simp add: c(1))
    ultimately show ?thesis unfolding advanced_def using c(8,9) y(3) by (intro disjI2) fastforce
  next
    case Nil
    then have ls: "b = []" "items_tree S h (seq_items s) (a @ lx)" using c(4,7) xs by simp_all
    have stop: "int (length xs) \<noteq> seqLen s" "\<not> int (length xs) < seqLen s - 1" using len Nil by simp_all
    have past: "advanced S h (l # ps) (pre @ lx) post"
      if Q: "Q = []" and fail: "(if ps = [] then Inr (False, []) else advanceMaybeAllowPastEnd (ts_vr S) False ps) = Inr (False, ps)"
    proof -
      have "end_at S h (new_level s (seqLen s) # ps) (P @ a @ lx)"
        using end_atI [OF _ c(3) _ ls(2)] c(2,4) Q by simp
      moreover have "int (length xs) + 1 = seqLen s" using len Nil by simp
      ultimately show ?thesis
        unfolding advanced_def using stop fail Q ls(1) by (intro disjI1) (auto simp: c(1,8,9))
    qed
    show ?thesis
    proof (cases "ps = []")
      case True
      then show ?thesis using past c(2) by (auto elim: chunk_at_NilE)
    next
      case False
      then obtain m ls' where m: "item_at S (Suc h) ps (TupleItem m) P ls' Q" "above S h (item_tree S h) m s ls'"
        using c(2) chunk_at_parents by blast
      then have ls': "ls' = a @ lx" using ls(2) items_tree_det above_seq [OF m(2)] by (auto simp: seq_tree_def)
      have up: "advanced S (Suc h) ps (P @ ls') Q" by (rule Cons.IH [OF m(1)])
      show ?thesis
      proof (cases "Q = []")
        case True
        then have "advanceMaybeAllowPastEnd (ts_vr S) False ps = Inr (False, ps)"
          using up item_at_current(6) item_tree_nonempty unfolding advanced_def by (metis append_is_Nil_conv)
        then show ?thesis using past True False by simp
      next
        case nonempty: False
        then obtain ps' y ly Q' where up: "Q = ly @ Q'" "\<And>f. advanceMaybeAllowPastEnd (ts_vr S) f ps = Inr (True, ps')"
          "item_at S (Suc h) ps' y (P @ ls') ly Q'" using up unfolding advanced_def by blast
        then obtain m' s' where y: "y = TupleItem m'" "above S h (item_tree S h) m' s' ly"
          using item_at_current(6) [OF up(3)] by auto
        then obtain z zs where z: "seq_items s' = z # zs" using above_seq by (cases "seq_items s'") auto
        then obtain lz lzs where lz: "item_tree S h z lz" "items_tree S h zs lzs" "ly = lz @ lzs"
          using above_seq [OF y(2)] by (auto simp: seq_tree_def items_tree_Cons)
        have ps': "ps' \<noteq> []" using item_at_current(1) [OF up(3)] .
        have "chunk_at S h ps' s' (P @ ls') Q'" using chunk_at_parents [OF ps'] up(3) y by blast
        from item_atI [OF this, of "[]" z zs "[]" lz lzs] have "item_at S h (new_level s' 0 # ps') z (P @ ls') lz (lzs @ Q')"
          using above_seq [OF y(2)] lz z by (simp add: seq_tree_def)
        moreover have "advanceMaybeAllowPastEnd (ts_vr S) f (l # ps) = Inr (True, new_level s' 0 # ps')" for f
          using stop False up(2) [of False] sync_at [of S h ps' m'] up(3) y by (simp add: c(1))
        ultimately show ?thesis
          unfolding advanced_def using up(1,2) lz(3) ls' ls(1) c(8,9) False by (intro disjI2) fastforce
      qed
    qed
  qed
qed

lemma advance_last:
  assumes "item_at S h c x pre lx []"
  shows "advanceMaybeAllowPastEnd (ts_vr S) False c = Inr (False, c)"
    "\<exists>c'. advanceMaybeAllowPastEnd (ts_vr S) True c = Inr (False, c') \<and> end_at S h c' (pre @ lx) \<and> tl c' = tl c \<and> 0 < cl_idx (hd c')"
proof -
  have "\<not> item_at S h c' y (pre @ lx) [] post'" for c' y post'
    using item_at_current(6) item_tree_nonempty by blast
  then show "advanceMaybeAllowPastEnd (ts_vr S) False c = Inr (False, c)"
    "\<exists>c'. advanceMaybeAllowPastEnd (ts_vr S) True c = Inr (False, c') \<and> end_at S h c' (pre @ lx) \<and> tl c' = tl c \<and> 0 < cl_idx (hd c')"
    using advance_at [OF assms] unfolding advanced_def by auto
qed

lemma item_at_tl:
  assumes "item_at S h c x pre lx post" "tl c \<noteq> []"
  shows "\<exists>m P ls Q. item_at S (Suc h) (tl c) (TupleItem m) P ls Q"
  using assms(1)
proof (rule item_atE, goal_cases)
  case (1 s ps xs ys P Q a b)
  then have "ps = tl c" by simp
  then show ?case using chunk_at_parents [of ps S h s P Q] 1(2) assms(2) by blast
qed

lemma advance_cases:
  assumes "item_at S h c x pre lx post"
  obtains (past) c' where "post = []" "cur_advance (ts_vr S) c = Inr (False, c')" "end_at S h c' (pre @ lx)" "tl c' = tl c" "0 < cl_idx (hd c')"
  | (same) c' y ly post' where "post = ly @ post'" "cur_advance (ts_vr S) c = Inr (True, c')" "item_at S h c' y (pre @ lx) ly post'"
      "tl c' = tl c" "0 < cl_idx (hd c')"
  | (next_chunk) c' y ly post' where "post = ly @ post'" "cur_advance (ts_vr S) c = Inr (True, c')" "item_at S h c' y (pre @ lx) ly post'"
      "cl_idx (hd c') = 0" "tl c \<noteq> []" "tl c' \<noteq> []" "cur_advance (ts_vr S) (tl c) = Inr (True, tl c')"
proof (cases "post = []")
  case True
  then show ?thesis using advance_last(2) assms past unfolding cur_advance_def by blast
next
  case False
  then obtain c' y ly post' where c': "post = ly @ post'" "\<And>f. advanceMaybeAllowPastEnd (ts_vr S) f c = Inr (True, c')"
    "item_at S h c' y (pre @ lx) ly post'"
    "if cl_idx (hd c') = 0 then tl c \<noteq> [] \<and> advanceMaybeAllowPastEnd (ts_vr S) False (tl c) = Inr (True, tl c') else tl c' = tl c"
    using advance_at [OF assms] unfolding advanced_def by blast
  show ?thesis
  proof (cases "cl_idx (hd c') = 0")
    case True
    then have tl: "tl c \<noteq> []" "advanceMaybeAllowPastEnd (ts_vr S) False (tl c) = Inr (True, tl c')" using c'(4) by simp_all
    obtain m P ls Q where up: "item_at S (Suc h) (tl c) (TupleItem m) P ls Q"
      using item_at_tl [OF assms tl(1)] by blast
    then have "advanced S (Suc h) (tl c) (P @ ls) Q" by (rule advance_at)
    then have "advanceMaybeAllowPastEnd (ts_vr S) True (tl c) = Inr (True, tl c')" "tl c' \<noteq> []"
      using tl(2) item_at_current(1) unfolding advanced_def by auto
    then show ?thesis using next_chunk c'(1-3) True tl(1) unfolding cur_advance_def by blast
  next
    case False
    then have "0 < cl_idx (hd c')" using item_at_current(5) [OF c'(3)] by simp
    then show ?thesis using same c' False unfolding cur_advance_def by auto
  qed
qed

text \<open>Retreating, and that advancing undoes it.\<close>

definition retreated :: "tree_spec \<Rightarrow> nat \<Rightarrow> sequenceCursor \<Rightarrow> sequenceItem list \<Rightarrow> sequenceItem list \<Rightarrow> bool" where
  "retreated S h c pre post \<longleftrightarrow>
     (pre = [] \<and> retreatMaybeAllowBeforeStart (ts_vr S) False c = Inr (False, c) \<and> cl_idx (hd c) = 0)
     \<or> (\<exists>c' y pre' ly. pre = pre' @ ly \<and> retreatMaybeAllowBeforeStart (ts_vr S) False c = Inr (True, c')
          \<and> item_at S h c' y pre' ly post
          \<and> (0 < cl_idx (hd c) \<longrightarrow> cl_idx (hd c') = cl_idx (hd c) - 1 \<and> tl c' = tl c \<and> cl_seq (hd c') = cl_seq (hd c)))"

lemma retreat_in_chunk:
  assumes "chunk_at S h ps s P Q" "isMetaSequence s \<longleftrightarrow> h \<noteq> 0" "seq_items s = xs @ ys" "items_tree S h xs a" "items_tree S h ys b" "xs \<noteq> []"
  shows "\<exists>y pre' ly. P @ a = pre' @ ly
    \<and> retreatMaybeAllowBeforeStart vr False (new_level s (int (length xs)) # ps) = Inr (True, new_level s (int (length xs) - 1) # ps)
    \<and> item_at S h (new_level s (int (length xs) - 1) # ps) y pre' ly (b @ Q)"
proof -
  obtain xs' y where xs: "xs = xs' @ [y]" using assms(6) by (cases xs rule: rev_cases) auto
  then obtain a' ly where a: "items_tree S h xs' a'" "item_tree S h y ly" "a = a' @ ly" using assms(4) by (auto simp: items_tree_append)
  have idx: "int (length xs) - 1 = int (length xs')" using xs by simp
  have "item_at S h (new_level s (int (length xs) - 1) # ps) y (P @ a') ly (b @ Q)"
    unfolding idx by (rule item_atI [OF assms(1,2) _ a(1,2) assms(5)]) (simp add: assms(3) xs)
  moreover have "retreatMaybeAllowBeforeStart vr False (new_level s (int (length xs)) # ps) = Inr (True, new_level s (int (length xs) - 1) # ps)"
    using xs by simp
  ultimately show ?thesis using a(3) by (metis append.assoc)
qed

lemma retreat_at: "item_at S h c x pre lx post \<Longrightarrow>
  retreated S h c pre (lx @ post)
  \<and> (\<forall>c' f. retreatMaybeAllowBeforeStart (ts_vr S) False c = Inr (True, c') \<longrightarrow> advanceMaybeAllowPastEnd (ts_vr S) f c' = Inr (True, c))"
proof (induction c arbitrary: h x pre lx post)
  case Nil
  then show ?case by (auto simp: item_at_def)
next
  case (Cons l ps)
  from Cons.prems obtain s xs ys P Q a b where c: "l = new_level s (int (length xs))" "chunk_at S h ps s P Q" "isMetaSequence s \<longleftrightarrow> h \<noteq> 0"
    "seq_items s = xs @ x # ys" "items_tree S h xs a" "item_tree S h x lx" "items_tree S h ys b" "pre = P @ a" "post = b @ Q"
    by (elim item_atE) auto
  have xys: "items_tree S h (x # ys) (lx @ b)" using c(6,7) by (auto simp: items_tree_Cons)
  show ?case
  proof (cases "xs = []")
    case False
    from retreat_in_chunk [OF c(2,3,4,5) xys this, where vr = "ts_vr S"] obtain y pre' ly where r: "P @ a = pre' @ ly"
      "retreatMaybeAllowBeforeStart (ts_vr S) False (l # ps) = Inr (True, new_level s (int (length xs) - 1) # ps)"
      "item_at S h (new_level s (int (length xs) - 1) # ps) y pre' ly (lx @ b @ Q)" unfolding c(1) append.assoc by blast
    have "int (length xs) - 1 < seqLen s - 1" using c(4) by (simp add: seqLen_def)
    then have "advanceMaybeAllowPastEnd (ts_vr S) f (new_level s (int (length xs) - 1) # ps) = Inr (True, l # ps)" for f
      by (simp add: c(1))
    moreover have "retreated S h (l # ps) pre (lx @ post)"
      unfolding retreated_def using r c(8,9) by (intro disjI2) (auto simp: c(1))
    ultimately show ?thesis using r(2) by simp
  next
    case nil: True
    then have a: "a = []" using c(5) by simp
    show ?thesis
    proof (cases "ps = []")
      case True
      then have "P = []" using c(2) by (auto elim: chunk_at_NilE)
      then show ?thesis using True nil a c(8) by (auto simp: retreated_def c(1))
    next
      case False
      then obtain m ls' where m: "item_at S (Suc h) ps (TupleItem m) P ls' Q" "above S h (item_tree S h) m s ls'"
        using c(2) chunk_at_parents by blast
      then have ls': "ls' = lx @ b" using xys nil c(4) items_tree_det above_seq [OF m(2)] by (auto simp: seq_tree_def)
      note IH = Cons.IH [OF m(1)]
      consider "P = []" "retreatMaybeAllowBeforeStart (ts_vr S) False ps = Inr (False, ps)"
        | ps' y P' ly where "P = P' @ ly" "retreatMaybeAllowBeforeStart (ts_vr S) False ps = Inr (True, ps')"
            "item_at S (Suc h) ps' y P' ly (ls' @ Q)" "\<And>f. advanceMaybeAllowPastEnd (ts_vr S) f ps' = Inr (True, ps)"
        using IH unfolding retreated_def by blast
      then show ?thesis
      proof cases
        case 1
        then show ?thesis using nil False a c(8) by (auto simp: retreated_def c(1))
      next
        case 2
        then obtain m' s' where y: "y = TupleItem m'" "above S h (item_tree S h) m' s' ly"
          using item_at_current(6) [OF 2(3)] by auto
        then obtain zs z where z: "seq_items s' = zs @ [z]" using above_seq by (cases "seq_items s'" rule: rev_cases) auto
        then obtain lz lzs where lz: "items_tree S h zs lzs" "item_tree S h z lz" "ly = lzs @ lz"
          using above_seq [OF y(2)] by (auto simp: seq_tree_def items_tree_append)
        have ps': "ps' \<noteq> []" using item_at_current(1) [OF 2(3)] .
        have "chunk_at S h ps' s' P' (ls' @ Q)" using chunk_at_parents [OF ps'] 2(3) y by blast
        from item_atI [OF this, of zs z "[]" lzs lz "[]"]
        have "item_at S h (new_level s' (int (length zs)) # ps') z (P' @ lzs) lz (ls' @ Q)"
          using above_seq [OF y(2)] lz z by (simp add: seq_tree_def)
        moreover have len: "seqLen s' - 1 = int (length zs)" using z by (simp add: seqLen_def)
        then have "retreatMaybeAllowBeforeStart (ts_vr S) False (l # ps) = Inr (True, new_level s' (int (length zs)) # ps')"
          using nil False 2(2) sync_at [of S h ps' m'] 2(3) y by (simp add: c(1))
        moreover have "advanceMaybeAllowPastEnd (ts_vr S) f (new_level s' (int (length zs)) # ps') = Inr (True, l # ps)" for f
          using len 2(4) [of False] ps' sync_at [OF m(1,2)] nil by (simp add: c(1))
        ultimately show ?thesis
          unfolding retreated_def using 2(1) lz(3) ls' a c(1,8,9) nil by fastforce
      qed
    qed
  qed
qed

lemma retreat_end:
  assumes "end_at S h c pre"
  shows "retreated S h c pre []"
    "retreatMaybeAllowBeforeStart (ts_vr S) False c = Inr (True, c') \<Longrightarrow> advanceMaybeAllowPastEnd (ts_vr S) True c' = Inr (False, c)"
proof -
  obtain s ps P a where c: "c = new_level s (seqLen s) # ps" "chunk_at S h ps s P []" "isMetaSequence s \<longleftrightarrow> h \<noteq> 0"
    "ps \<noteq> [] \<or> h \<noteq> 0 \<longrightarrow> seq_items s \<noteq> []" "items_tree S h (seq_items s) a" "pre = P @ a"
    using assms by (auto simp: end_at_def)
  have "retreated S h c pre [] \<and> (\<forall>c'. retreatMaybeAllowBeforeStart (ts_vr S) False c = Inr (True, c')
    \<longrightarrow> advanceMaybeAllowPastEnd (ts_vr S) True c' = Inr (False, c))"
  proof (cases "seq_items s = []")
    case True
    then have "P = []" "ps = []" using c(2,4) by (auto elim: chunk_at_NilE)
    then show ?thesis using True c by (simp add: retreated_def seqLen_def)
  next
    case False
    have "seq_items s = seq_items s @ []" "items_tree S h [] []" by simp_all
    from retreat_in_chunk [OF c(2,3) this(1) c(5) this(2) False, where vr = "ts_vr S"] obtain y pre' ly where r: "P @ a = pre' @ ly"
      "retreatMaybeAllowBeforeStart (ts_vr S) False c = Inr (True, new_level s (seqLen s - 1) # ps)"
      "item_at S h (new_level s (seqLen s - 1) # ps) y pre' ly []" unfolding c(1) seqLen_def append_Nil by blast
    have "retreated S h c pre []" unfolding retreated_def using r c(6) by (intro disjI2) (auto simp: c(1))
    moreover obtain c2 where c2: "advanceMaybeAllowPastEnd (ts_vr S) True (new_level s (seqLen s - 1) # ps) = Inr (False, c2)" "tl c2 = ps"
      using advance_last(2) [OF r(3)] unfolding list.sel by blast
    then have "c2 = c" by (auto simp: c(1) rbind_eq_Inr split: prod.splits if_splits)
    ultimately show ?thesis using r(2) c2(1) by (simp only: prod.inject sum.inject) blast
  qed
  then show "retreated S h c pre []" "retreatMaybeAllowBeforeStart (ts_vr S) False c = Inr (True, c')
    \<Longrightarrow> advanceMaybeAllowPastEnd (ts_vr S) True c' = Inr (False, c)" by blast+
qed

text \<open>A cursor with the leaves \<open>pre\<close> before it and \<open>post\<close> from it on.\<close>

definition cursor_at :: "tree_spec \<Rightarrow> nat \<Rightarrow> sequenceCursor \<Rightarrow> sequenceItem list \<Rightarrow> sequenceItem list \<Rightarrow> bool" where
  "cursor_at S h c pre post \<longleftrightarrow> (\<exists>x lx post'. item_at S h c x pre lx post' \<and> post = lx @ post') \<or> (end_at S h c pre \<and> post = [])"

lemma cursor_atI:
  assumes "chunk_at S h ps s P Q" "isMetaSequence s \<longleftrightarrow> h \<noteq> 0" "seq_items s = xs @ ys" "items_tree S h xs a" "items_tree S h ys b"
    "ps \<noteq> [] \<or> h \<noteq> 0 \<Longrightarrow> seq_items s \<noteq> []" "ys = [] \<Longrightarrow> Q = []"
  shows "cursor_at S h (new_level s (int (length xs)) # ps) (P @ a) (b @ Q)"
proof (cases ys)
  case Nil
  then have "end_at S h (new_level s (int (length xs)) # ps) (P @ a)"
    using end_atI [of S h ps s P a] assms by (simp add: seqLen_def)
  then show ?thesis using Nil assms(5,7) by (simp add: cursor_at_def)
next
  case (Cons y ys')
  then obtain ly b' where y: "item_tree S h y ly" "items_tree S h ys' b'" "b = ly @ b'" using assms(5) by (auto simp: items_tree_Cons)
  have "item_at S h (new_level s (int (length xs)) # ps) y (P @ a) ly (b' @ Q)"
    using item_atI [OF assms(1,2) _ assms(4) y(1,2)] assms(3) Cons by simp
  then show ?thesis using y(3) unfolding cursor_at_def by auto
qed

lemma cursor_at_item: "cursor_at S h c pre post \<Longrightarrow> post \<noteq> [] \<Longrightarrow> \<exists>x lx post'. item_at S h c x pre lx post' \<and> post = lx @ post'"
  by (auto simp: cursor_at_def)

lemma cursor_at_end: "cursor_at S h c pre [] \<Longrightarrow> end_at S h c pre"
  unfolding cursor_at_def using item_at_current(6) item_tree_nonempty by blast

lemma cursor_at_nonempty: "cursor_at S h c pre post \<Longrightarrow> c \<noteq> []"
  unfolding cursor_at_def using item_at_current(1) end_at_current(1) by blast

lemma clone_parents: "chunk_at S h ps s P Q \<Longrightarrow> clone ps = Inr ps"
  by (induction rule: chunk_at.induct) (simp_all add: newSequenceCursor_def)

lemma clone_at: "cursor_at S h c pre post \<Longrightarrow> clone c = Inr c"
  using clone_parents by (fastforce simp: cursor_at_def newSequenceCursor_def end_at_def seqLen_def elim!: item_atE)

subsection \<open>Positions by index\<close>

lemma newCursorAtIndex_at:
  "seq_tree S h seq xs \<Longrightarrow> length xs < 2 ^ 63 \<Longrightarrow> i \<le> length xs \<Longrightarrow> chunk_at S h ps seq P Q \<Longrightarrow> (ps \<noteq> [] \<longrightarrow> seq_items seq \<noteq> []) \<Longrightarrow>
   (i = length xs \<longrightarrow> Q = []) \<Longrightarrow> h < n \<Longrightarrow>
   \<exists>c. newCursorAtIndex n (ts_vr S) ps seq (of_nat i) = Inr c \<and> cursor_at S 0 c (P @ take i xs) (drop i xs @ Q)"
proof (induction h arbitrary: seq xs i ps P Q n)
  case 0
  then obtain m where n: "n = Suc m" by (cases n) auto
  have seq: "\<not> isMetaSequence seq" "seq_items seq = xs" "items_tree S 0 xs xs"
    using 0(1) by (auto simp: seq_tree_def items_tree_leaf)
  have "sint (of_nat i :: uint64) = int i" using 0(2,3) by (simp add: signed_of_nat signed_take_bit_int_eq_self)
  then have "advanceCursorToOffset seq (of_nat i) = (int i, of_nat i)"
    using seq 0(3) by (cases seq) (simp_all add: advanceCursorToOffset_def isMetaSequence_def seqLen_def)
  moreover have "getChildSequence (ts_vr S) seq (int i) = Inr None" using seq(1) by (cases seq) (simp_all add: isMetaSequence_def)
  ultimately have "newCursorAtIndex n (ts_vr S) ps seq (of_nat i) = Inr (new_level seq (int (length (take i xs))) # ps)"
    using 0(3) by (simp add: n newSequenceCursor_def)
  moreover have "items_tree S 0 (take i xs) (take i xs)" "items_tree S 0 (drop i xs) (drop i xs)"
    using seq(3) by (auto simp: items_tree_leaf dest: in_set_takeD in_set_dropD)
  from cursor_atI [OF 0(4) _ _ this] have "cursor_at S 0 (new_level seq (int (length (take i xs))) # ps) (P @ take i xs) (drop i xs @ Q)"
    using 0 seq by simp
  ultimately show ?case by blast
next
  case (Suc h)
  then obtain m where n: "n = Suc m" "h < m" by (cases n) auto
  obtain ms t where seq: "seq = metaSequence ms t" using Suc.prems(1) by (cases seq) (auto simp: seq_tree_def isMetaSequence_def)
  obtain lss where lss: "list_all2 (item_tree S (Suc h)) (map TupleItem ms) lss" "xs = concat lss" and ms: "ms \<noteq> []"
    using Suc.prems(1) by (auto simp: seq seq_tree_def items_tree_def)
  have len: "length lss = length ms" using list_all2_lengthD [OF lss(1)] by simp
  have child: "\<exists>cs. above S h (item_tree S h) (ms ! j) cs (lss ! j)" if "j < length ms" for j
    using list_all2_nthD [OF lss(1), of j] that by auto
  then have counts: "list_all2 (\<lambda>m ls. mt_numLeaves m = of_nat (length ls)) ms lss"
    using len by (auto simp: list_all2_conv_all_nth above_def)
  have small: "0 + length (concat lss) < 2 ^ 64" "i \<le> length (concat lss)" using Suc.prems(2,3) lss(2) by simp_all
  obtain j where j: "j < length ms" "skip_tuples ms (of_nat (0 + i)) 0 (of_nat 0) = (0 + int j, of_nat (0 + length (concat (take j lss))))"
    "length (concat (take j lss)) \<le> i" "i \<le> length (concat (take j lss)) + length (lss ! j)"
    "i < length (concat lss) \<Longrightarrow> i < length (concat (take j lss)) + length (lss ! j)"
    using skip_tuples_at [OF counts ms small, where k = 0] by metis
  have jl: "j < length lss" using j(1) len by simp
  note split = concat_split [OF jl]
  obtain cs where cs: "above S h (item_tree S h) (ms ! j) cs (lss ! j)" using child [OF j(1)] by blast
  let ?i = "i - length (concat (take j lss))" and ?ps = "new_level seq (int j) # ps" and ?Q = "concat (drop (Suc j) lss) @ Q"
  have "getChildSequence (ts_vr S) seq (int j) = Inr (Some cs)" using cs j(1) by (simp add: seq nth_int_def above_def)
  then have step: "newCursorAtIndex n (ts_vr S) ps seq (of_nat i) = newCursorAtIndex m (ts_vr S) ?ps cs (of_nat ?i)"
    using j(2,3) by (simp add: n(1) newSequenceCursor_def seq advanceCursorToOffset_def of_nat_diff)
  have cuts: "list_all2 (item_tree S (Suc h)) (map TupleItem (take j ms)) (take j lss)"
    "list_all2 (item_tree S (Suc h)) (map TupleItem (drop (Suc j) ms)) (drop (Suc j) lss)"
    using list_all2_takeI [OF lss(1), of j] list_all2_dropI [OF lss(1), of "Suc j"] by (simp_all add: take_map drop_map)
  have "seq_items seq = map TupleItem (take j ms) @ TupleItem (ms ! j) # map TupleItem (drop (Suc j) ms)"
    using id_take_nth_drop [OF j(1)] by (metis list.simps(9) map_append seq seq_items.simps(5))
  from chunk_child [OF Suc.prems(4) _ this _ _ cs, of "concat (take j lss)" "concat (drop (Suc j) lss)"] cuts
  have chunk: "chunk_at S h ?ps cs (P @ concat (take j lss)) ?Q" using j(1) by (auto simp: seq isMetaSequence_def items_tree_def)
  have "?i = length (lss ! j) \<longrightarrow> ?Q = []"
  proof
    assume "?i = length (lss ! j)"
    then have full: "i = length (concat (take j lss)) + length (lss ! j)" using j(3) by simp
    then have "\<not> i < length (concat lss)" using j(5) by linarith
    then have "i = length xs" "concat (drop (Suc j) lss) = []" using small(2) lss(2) full split by simp_all
    then show "?Q = []" using Suc.prems(6) by simp
  qed
  moreover have "length (lss ! j) < 2 ^ 63" using Suc.prems(2) split lss(2) by simp
  moreover have "?i \<le> length (lss ! j)" using j(4) by simp
  ultimately obtain c where c: "newCursorAtIndex m (ts_vr S) ?ps cs (of_nat ?i) = Inr c"
    "cursor_at S 0 c ((P @ concat (take j lss)) @ take ?i (lss ! j)) (drop ?i (lss ! j) @ ?Q)"
    using Suc.IH [OF _ _ _ chunk _ _ n(2), of "lss ! j" ?i] above_seq [OF cs] by blast
  have "take i xs = concat (take j lss) @ take ?i (lss ! j)" "drop i xs = drop ?i (lss ! j) @ concat (drop (Suc j) lss)"
    using split j(3,4) lss(2) by simp_all
  then show ?case using c step by auto
qed

corollary newCursorAtIndex_root:
  assumes "seq_tree S h seq xs" "length xs < 2 ^ 63" "unat idx \<le> length xs" "h < n"
  obtains c where "newCursorAtIndex n (ts_vr S) [] seq idx = Inr c" "cursor_at S 0 c (take (unat idx) xs) (drop (unat idx) xs)"
  using newCursorAtIndex_at [OF assms(1-3) chunk_root _ _ assms(4)] by auto

end
