(* ===== verification/ChunkerProof.thy ===== *)
theory ChunkerProof
  imports Chunker ChunkTree
begin

text \<open>
  The chunker builds the tree it should: from a cursor into a tree, skipping and appending items and
  finishing give a tree whose leaves are those before the cursor, the appended ones and those behind the
  skipped ones. The functions that make and hash chunks are an interface; every kind of collection provides
  it.
\<close>

subsection \<open>Results up to certain failures\<close>

text \<open>\<open>yields F m Q\<close>: \<open>m\<close> has a result with \<open>Q\<close>, or fails in a way \<open>F\<close> admits.\<close>

definition yields :: "(panic \<Rightarrow> bool) \<Rightarrow> 'a res \<Rightarrow> ('a \<Rightarrow> bool) \<Rightarrow> bool" where
  "yields F m Q \<longleftrightarrow> (case m of Inl e \<Rightarrow> F e | Inr x \<Rightarrow> Q x)"

named_theorems yields_intros

lemma yields_Inr [yields_intros]: "Q x \<Longrightarrow> yields F (Inr x) Q"
  by (simp add: yields_def)

lemma yields_Inr_iff [simp]: "yields F (Inr x) Q \<longleftrightarrow> Q x"
  by (simp add: yields_def)

lemma yields_Inl_iff [simp]: "yields F (Inl e) Q \<longleftrightarrow> F e"
  by (simp add: yields_def)

lemma yields_bind: "yields F m P \<Longrightarrow> (\<And>x. P x \<Longrightarrow> yields F (f x) Q) \<Longrightarrow> yields F (rbind m f) Q"
  by (cases m) simp_all

lemma yields_mono: "yields F m P \<Longrightarrow> (\<And>x. P x \<Longrightarrow> Q x) \<Longrightarrow> yields F m Q"
  by (auto simp: yields_def split: sum.splits)

lemma yields_chk: "b \<Longrightarrow> yields F m Q \<Longrightarrow> yields F (chk b m) Q"
  by simp

subsection \<open>The interface\<close>

text \<open>What a function that makes chunks promises, and what is left to do for the reference to the chunk.\<close>

definition chunk_made ::
    "tree_spec \<Rightarrow> (panic \<Rightarrow> bool) \<Rightarrow> (TypeCache \<Rightarrow> bool) \<Rightarrow> hash_fn \<Rightarrow> nat \<Rightarrow> sequenceItem list \<Rightarrow> sequenceItem list
      \<Rightarrow> (Value \<times> orderedKey \<times> uint64) \<times> TypeCache \<Rightarrow> bool" where
  "chunk_made S F I H h xs ls = (\<lambda>((col, key, leaves), tc).
     (\<exists>seq. value_sequence col = Inr seq \<and> seq_items seq = xs \<and> (isMetaSequence seq \<longleftrightarrow> h \<noteq> 0))
     \<and> leaves = of_nat (length ls) \<and> (xs \<noteq> [] \<longrightarrow> ts_key S ls key) \<and> I tc \<and> yields F (NewRef H col tc) (\<lambda>(_, tc). I tc))"

definition hashed :: "(TypeCache \<Rightarrow> bool) \<Rightarrow> rollingValueHasher \<Rightarrow> hasher_state \<Rightarrow> bool" where
  "hashed I rv = (\<lambda>(rv', tc). rv_window rv' = rv_window rv \<and> I tc)"

locale chunking =
  fixes cf :: chunkConfig and S :: tree_spec and F :: "panic \<Rightarrow> bool" and I :: "TypeCache \<Rightarrow> bool"
  assumes reader: "cf_vr cf = ts_vr S" and no_writer: "cf_vw cf = None" and bounded: "F Diverges"
    and leaf_chunk: "I tc \<Longrightarrow> items_tree S 0 xs ls \<Longrightarrow> yields F (cf_makeChunk cf xs tc) (chunk_made S F I (cf_H cf) 0 xs ls)"
    and meta_chunk: "I tc \<Longrightarrow> items_tree S (Suc h) xs ls \<Longrightarrow> xs \<noteq> [] \<Longrightarrow>
      yields F (cf_parentMakeChunk cf xs tc) (chunk_made S F I (cf_H cf) (Suc h) xs ls)"
    and leaf_hash: "I tc \<Longrightarrow> ts_leaf S x \<Longrightarrow> yields F (cf_hash cf x (rv, tc)) (hashed I rv)"
    and meta_hash: "I tc \<Longrightarrow> item_tree S (Suc h) x ls \<Longrightarrow> yields F (cf_metaHash cf x (rv, tc)) (hashed I rv)"

subsection \<open>The state of a chunker\<close>

text \<open>The leaves below the pending items of the levels, the upper levels first.\<close>

fun emitted :: "tree_spec \<Rightarrow> nat \<Rightarrow> sequenceChunker \<Rightarrow> sequenceItem list \<Rightarrow> bool" where
  "emitted S h [] ls \<longleftrightarrow> ls = []"
| "emitted S h (sc # ps) ls \<longleftrightarrow> (\<exists>a b. emitted S (Suc h) ps a \<and> items_tree S h (sc_current sc) b \<and> ls = a @ b)"

definition state_ok :: "tree_spec \<Rightarrow> nat \<Rightarrow> sequenceChunker \<Rightarrow> sequenceItem list \<Rightarrow> bool" where
  "state_ok S h cs ls \<longleftrightarrow>
     cs \<noteq> [] \<and> emitted S h cs ls \<and> (\<forall>sc\<in>set cs. rv_window (sc_rv sc) \<noteq> 0)
     \<and> (\<forall>sc\<in>set (tl cs). \<not> sc_isLeaf sc \<and> \<not> sc_done sc)"

definition cursors :: "sequenceChunker \<Rightarrow> sequenceCursor list" where
  "cursors cs = map sc_cur cs"

text \<open>
  The cursor of a level is the one of the level below without its last step. Levels above the root of the
  tree have none.
\<close>

fun linked :: "sequenceCursor list \<Rightarrow> bool" where
  "linked (c # c' # cs) \<longleftrightarrow> c' = tl c \<and> linked (c' # cs)"
| "linked [c] \<longleftrightarrow> tl c = []"
| "linked [] \<longleftrightarrow> True"

definition topped :: "sequenceCursor list \<Rightarrow> bool" where
  "topped cs \<longleftrightarrow> (cs \<noteq> [] \<longrightarrow> tl (last cs) = [])"

definition grows :: "sequenceChunker \<Rightarrow> sequenceChunker \<Rightarrow> bool" where
  "grows cs cs' \<longleftrightarrow> (\<exists>m. cursors cs' = cursors cs @ replicate m []) \<and> cs' \<noteq> []
     \<and> sc_isLeaf (hd cs') = sc_isLeaf (hd cs) \<and> sc_done (hd cs') = sc_done (hd cs)"

lemma linked_topped: "linked cs \<Longrightarrow> topped cs"
  by (induction cs rule: linked.induct) (auto simp: topped_def)

lemma linked_replicate: "linked (replicate m [])"
proof (induction m)
  case (Suc m)
  then show ?case by (cases m) auto
qed simp

lemma linked_grow: "linked cs \<Longrightarrow> linked (cs @ replicate m [])"
proof (induction cs rule: linked.induct)
  case (2 c)
  then show ?case using linked_replicate [of m] by (cases m) auto
qed (auto simp: linked_replicate)

lemma topped_grow: "topped cs \<Longrightarrow> topped (cs @ replicate m [])"
  by (cases m) (auto simp: topped_def last_append)

lemma topped_tl: "topped (c # cs) \<Longrightarrow> topped cs"
  by (auto simp: topped_def)

lemma grows_refl: "cs \<noteq> [] \<Longrightarrow> grows cs cs"
  by (auto simp: grows_def intro: exI [of _ 0])

lemma grows_trans: "grows a b \<Longrightarrow> grows b c \<Longrightarrow> grows a c"
  by (auto simp: grows_def simp flip: replicate_add)

lemma emitted_pending: "emitted S h cs ls \<Longrightarrow> ls \<noteq> [] \<Longrightarrow> anyPending cs"
proof (induction cs arbitrary: h ls)
  case (Cons sc cs)
  then show ?case by (cases "sc_current sc = []") auto
qed simp

lemma pending_emitted: "anyPending cs \<Longrightarrow> emitted S h cs ls \<Longrightarrow> ls \<noteq> []"
proof (induction cs arbitrary: h ls)
  case (Cons sc cs)
  then show ?case
    using items_tree_nonempty [of S h "sc_current sc" "[]"] by (cases "sc_current sc = []") auto
qed simp

lemma emitted_not_pending: "\<not> anyPending cs \<Longrightarrow> emitted S h cs ls \<Longrightarrow> ls = []"
  using emitted_pending by blast

subsection \<open>Appending\<close>

text \<open>What appending an item promises, at a given height.\<close>

definition appended ::
    "tree_spec \<Rightarrow> (TypeCache \<Rightarrow> bool) \<Rightarrow> nat \<Rightarrow> sequenceChunker \<Rightarrow> sequenceItem list \<Rightarrow> sequenceChunker \<times> TypeCache \<Rightarrow> bool" where
  "appended S I h cs ls = (\<lambda>(cs', tc). state_ok S h cs' ls \<and> grows cs cs' \<and> I tc)"

lemma state_ok_Cons:
  "state_ok S h (sc # ps) ls \<longleftrightarrow>
     rv_window (sc_rv sc) \<noteq> 0 \<and> (\<exists>a b. emitted S (Suc h) ps a \<and> items_tree S h (sc_current sc) b \<and> ls = a @ b)
     \<and> (ps \<noteq> [] \<longrightarrow> \<not> sc_isLeaf (hd ps) \<and> \<not> sc_done (hd ps) \<and> (\<exists>a. state_ok S (Suc h) ps a))"
  by (cases ps) (auto simp: state_ok_def)

lemma state_ok_parents:
  "state_ok S h (sc # ps) ls \<Longrightarrow> ps \<noteq> [] \<Longrightarrow> emitted S (Suc h) ps a \<Longrightarrow>
   state_ok S (Suc h) ps a \<and> \<not> sc_isLeaf (hd ps) \<and> \<not> sc_done (hd ps)"
  by (cases ps) (auto simp: state_ok_def)

context chunking
begin

definition cfh :: "nat \<Rightarrow> chunkConfig" where
  "cfh h = (if h = 0 then cf else parent_cf cf)"

lemma cfh_sel: "parent_cf (cfh h) = cfh (Suc h)" "cf_vr (cfh h) = ts_vr S" "cf_vw (cfh h) = None" "cf_H (cfh h) = cf_H cf"
  by (auto simp: cfh_def parent_cf_def reader no_writer)

lemma make_chunk:
  "I tc \<Longrightarrow> items_tree S h xs ls \<Longrightarrow> (h \<noteq> 0 \<longrightarrow> xs \<noteq> []) \<Longrightarrow>
   yields F (cf_makeChunk (cfh h) xs tc) (chunk_made S F I (cf_H cf) h xs ls)"
  using leaf_chunk meta_chunk by (cases h) (auto simp: cfh_def parent_cf_def)

lemma hash_item: "I tc \<Longrightarrow> item_tree S h x lx \<Longrightarrow> yields F (cf_hash (cfh h) x (rv, tc)) (hashed I rv)"
  using leaf_hash meta_hash by (cases h) (auto simp: cfh_def parent_cf_def)

lemma createSequence_ok:
  assumes "I tc" "items_tree S h (sc_current sc) ls" "h \<noteq> 0 \<longrightarrow> sc_current sc \<noteq> []"
  shows "yields F (createSequence (cfh h) sc tc) (\<lambda>((seq, mt, sc'), tc').
    seq_items seq = sc_current sc \<and> (isMetaSequence seq \<longleftrightarrow> h \<noteq> 0) \<and> (sc_current sc \<noteq> [] \<longrightarrow> item_tree S (Suc h) (TupleItem mt) ls)
    \<and> sc' = sc\<lparr>sc_current := []\<rparr> \<and> I tc')"
  unfolding createSequence_def
proof (rule yields_bind [OF make_chunk [OF assms]], goal_cases)
  case made: (1 x)
  obtain col key leaves tc1 where x: "x = ((col, key, leaves), tc1)" by (metis prod.exhaust)
  obtain seq where seq: "value_sequence col = Inr seq" "seq_items seq = sc_current sc" "isMetaSequence seq \<longleftrightarrow> h \<noteq> 0"
    and key: "leaves = of_nat (length ls)" "sc_current sc \<noteq> [] \<longrightarrow> ts_key S ls key"
    and ref: "yields F (NewRef (cf_H cf) col tc1) (\<lambda>(_, tc). I tc)"
    using made by (auto simp: chunk_made_def x)
  have item: "item_tree S (Suc h) (TupleItem (newMetaTuple r key leaves (Some col))) ls" if "sc_current sc \<noteq> []" for r
  proof -
    have "above S h (item_tree S h) (newMetaTuple r key leaves (Some col)) seq ls"
      using that seq key assms(2) by (intro aboveI) (simp_all add: newMetaTuple_def tuple_getChildSequence_def seq_tree_def)
    then show ?thesis by auto
  qed
  have "yields F (rbind (NewRef (cf_H cf) col tc1) (\<lambda>(r, tc). Inr (r, Some col, tc))) (\<lambda>(r, child, tc). child = Some col \<and> I tc)"
    by (rule yields_bind [OF ref]) auto
  note bind = yields_bind [OF this]
  show ?case
    unfolding x prod.case seq(1) rbind_Inr cfh_sel option.case
    by (rule bind) (use seq item in \<open>auto simp del: item_tree.simps\<close>)
qed

text \<open>Handling a boundary and appending, over the operations of the level above.\<close>

definition level_ok :: "nat \<Rightarrow> new_fn \<Rightarrow> append_fn \<Rightarrow> bool" where
  "level_ok h newP app \<longleftrightarrow>
     (\<forall>tc. I tc \<longrightarrow> yields F (newP (cfh h) [] tc) (\<lambda>(cs, tc'). cs = [new_chunk_level []] \<and> I tc'))
     \<and> (\<forall>cs ls x lx tc. state_ok S h cs ls \<longrightarrow> topped (cursors cs) \<longrightarrow> item_tree S h x lx \<longrightarrow> I tc \<longrightarrow>
          yields F (app (cfh h) cs x tc) (appended S I h cs (ls @ lx)))"

lemma new_level_ok: "state_ok S h [new_chunk_level c] []"
  by (simp add: state_ok_def new_chunk_level_def newRollingValueHasher_def chunkingConfig_def defaultChunkWindow_def)

lemma handle_with_ok:
  assumes level: "level_ok (Suc h) newP app" and st: "state_ok S h (sc # ps) ls" and top: "topped (cursors (sc # ps))"
    and pending: "sc_current sc \<noteq> []" and tc: "I tc"
  shows "yields F (handle_with newP app (cfh h) (sc # ps) tc)
    (\<lambda>(cs', tc'). appended S I h (sc # ps) ls (cs', tc') \<and> sc_current (hd cs') = [] \<and> (ls \<noteq> [] \<longrightarrow> anyPending (tl cs')))"
proof -
  obtain a b where ls: "emitted S (Suc h) ps a" "items_tree S h (sc_current sc) b" "ls = a @ b" using st by (auto simp: state_ok_Cons)
  let ?sc = "sc\<lparr>sc_current := []\<rparr>"
  let ?P = "\<lambda>(ps', tc'). state_ok S (Suc h) ps' a \<and> topped (cursors ps') \<and> \<not> sc_isLeaf (hd ps') \<and> \<not> sc_done (hd ps')
    \<and> (\<exists>m. cursors ps' = cursors ps @ replicate m []) \<and> I tc'"
  have parent: "yields F (if ps = [] then createParent newP (cfh h) ?sc ps tc1 else Inr (ps, tc1)) ?P" if tc1: "I tc1" for tc1
  proof (cases "ps = []")
    case True
    then have nil: "tl (sc_cur sc) = []" "a = []" using top ls(1) by (auto simp: topped_def cursors_def)
    have "yields F (newP (cfh (Suc h)) [] tc1) (\<lambda>(cs, tc'). cs = [new_chunk_level []] \<and> I tc')" using level tc1 by (auto simp: level_ok_def)
    then show ?thesis
      using True nil new_level_ok [of "Suc h" "[]"] unfolding createParent_def
      by (auto simp: cfh_sel intro!: yields_bind exI [of _ "Suc 0"])
        (auto simp: state_ok_def topped_def cursors_def new_chunk_level_def)
  next
    case False
    then have "state_ok S (Suc h) ps a" "\<not> sc_isLeaf (hd ps) \<and> \<not> sc_done (hd ps)"
      using st ls(1) by (auto simp: state_ok_Cons) (simp add: state_ok_def)
    then show ?thesis using False top tc1 topped_tl by (auto simp: cursors_def intro: exI [of _ 0])
  qed
  show ?thesis
    unfolding handle_with_def list.case
  proof (intro yields_chk [OF pending] yields_bind [OF createSequence_ok [OF tc ls(2)]], goal_cases)
    case (2 x)
    then obtain seq mt tc1 where x: "x = ((seq, mt, ?sc), tc1)" "item_tree S (Suc h) (TupleItem mt) b" "I tc1"
      using pending by (auto simp del: item_tree.simps)
    show ?case
      unfolding x(1) prod.case
    proof (rule yields_bind [OF parent [OF x(3)]], goal_cases)
      case (1 y)
      then obtain ps' tc2 m where y: "y = (ps', tc2)" "state_ok S (Suc h) ps' a" "topped (cursors ps')" "I tc2"
        "\<not> sc_isLeaf (hd ps')" "\<not> sc_done (hd ps')" "cursors ps' = cursors ps @ replicate m []" by auto
      have "yields F (app (cfh (Suc h)) ps' (TupleItem mt) tc2) (appended S I (Suc h) ps' (a @ b))"
        using level y x(2) unfolding level_ok_def by blast
      then show ?case
        unfolding y(1) prod.case cfh_sel(1)
      proof (rule yields_bind, goal_cases)
        case (1 z)
        then obtain ps2 tc3 m' where z: "z = (ps2, tc3)" "state_ok S (Suc h) ps2 (a @ b)" "I tc3" "ps2 \<noteq> []"
          "\<not> sc_isLeaf (hd ps2)" "\<not> sc_done (hd ps2)" "cursors ps2 = cursors ps' @ replicate m' []"
          using y(5,6) by (auto simp: appended_def grows_def)
        have "state_ok S h (?sc # ps2) ls" using z st ls(3) by (auto simp: state_ok_Cons) (auto simp: state_ok_def)
        moreover have "grows (sc # ps) (?sc # ps2)"
          using z(7) y(7) by (auto simp: grows_def cursors_def simp flip: replicate_add)
        moreover have "ls \<noteq> [] \<longrightarrow> anyPending ps2" using z(2) ls(3) emitted_pending by (auto simp: state_ok_def)
        ultimately show ?case using z by (simp add: appended_def)
      qed
    qed
  qed (use pending in simp)
qed

lemma append_with_ok:
  assumes level: "level_ok (Suc h) newP app" and st: "state_ok S h cs ls" and top: "topped (cursors cs)"
    and x: "item_tree S h x lx" and tc: "I tc"
  shows "yields F (append_with newP app (cfh h) cs x tc) (appended S I h cs (ls @ lx))"
proof -
  obtain sc ps where cs: "cs = sc # ps" using st by (cases cs) (auto simp: state_ok_def)
  show ?thesis
    unfolding append_with_def cs list.case
  proof (rule yields_bind [OF hash_item [OF tc x]], goal_cases)
    case (1 y)
    then obtain rv tc1 where y: "y = (rv, tc1)" "rv_window rv = rv_window (sc_rv sc)" "I tc1"
      by (auto simp: hashed_def ClearLastBoundary_def)
    let ?sc = "sc\<lparr>sc_current := sc_current sc @ [x], sc_rv := rv\<rparr>"
    have st': "state_ok S h (?sc # ps) (ls @ lx)"
    proof -
      obtain a b where ls: "emitted S (Suc h) ps a" "items_tree S h (sc_current sc) b" "ls = a @ b"
        using st by (auto simp: state_ok_Cons cs)
      then have "items_tree S h (sc_current sc @ [x]) (b @ lx)" using x by (intro items_tree_appendI) simp_all
      then show ?thesis using st ls y(2) by (auto simp: state_ok_Cons cs)
    qed
    have top': "topped (cursors (?sc # ps))" using top by (simp add: cursors_def cs)
    have g: "grows (sc # ps) (?sc # ps)" by (auto simp: grows_def cursors_def intro: exI [of _ 0])
    show ?case
    proof (cases "rv_crossedBoundary rv")
      case True
      have "yields F (handle_with newP app (cfh h) (?sc # ps) tc1) (appended S I h (sc # ps) (ls @ lx))"
        by (rule yields_mono [OF handle_with_ok [OF level st' top' _ y(3)]])
          (use grows_trans [OF g] in \<open>auto simp: appended_def\<close>)
      then show ?thesis using True by (simp add: y(1))
    next
      case False
      then show ?thesis using st' g y by (simp add: appended_def)
    qed
  qed
qed

lemma levels_ok: "level_ok h (newSequenceChunker n k) (chunker_Append n k)"
proof (induction n arbitrary: h)
  case 0
  then show ?case by (simp add: level_ok_def bounded)
next
  case (Suc n)
  then show ?case using append_with_ok [OF Suc.IH [of "Suc h"]] by (auto simp: level_ok_def new_with_def)
qed

text \<open>What handling a boundary promises.\<close>

definition handles :: "nat \<Rightarrow> (sequenceChunker \<Rightarrow> (sequenceChunker, TypeCache) st) \<Rightarrow> bool" where
  "handles h f \<longleftrightarrow>
     (\<forall>sc ps ls tc. state_ok S h (sc # ps) ls \<longrightarrow> topped (cursors (sc # ps)) \<longrightarrow> sc_current sc \<noteq> [] \<longrightarrow> I tc \<longrightarrow>
        yields F (f (sc # ps) tc) (\<lambda>(cs', tc'). appended S I h (sc # ps) ls (cs', tc')
          \<and> sc_current (hd cs') = [] \<and> (ls \<noteq> [] \<longrightarrow> anyPending (tl cs'))))"

lemmas handlesD = handles_def [THEN iffD1, rule_format]

lemma handles_with: "handles h (handle_with (newSequenceChunker n k) (chunker_Append n k) (cfh h))"
  unfolding handles_def using handle_with_ok [OF levels_ok] by blast

lemma handles_boundary: "handles h (handleChunkBoundary n k (cfh h))"
  unfolding handleChunkBoundary_def by (rule handles_with)

lemmas Append_ok = levels_ok [unfolded level_ok_def, THEN conjunct2, rule_format]

subsection \<open>Resuming\<close>

text \<open>The items met when advancing from one cursor to another.\<close>

fun advances :: "ValueReader \<Rightarrow> sequenceCursor \<Rightarrow> sequenceItem list \<Rightarrow> sequenceCursor \<Rightarrow> bool" where
  "advances vr c [] c' \<longleftrightarrow> c = c'"
| "advances vr c (x # xs) c' \<longleftrightarrow> current c = Inr x \<and> (\<exists>ok c1. cur_advance vr c = Inr (ok, c1) \<and> advances vr c1 xs c')"

definition real_item :: "nat \<Rightarrow> sequenceItem \<Rightarrow> bool" where
  "real_item h x \<longleftrightarrow> (\<exists>lx. item_tree S h x lx)"

lemma items_real: "items_tree S h xs ls \<Longrightarrow> x \<in> set xs \<Longrightarrow> real_item h x"
  by (induction xs arbitrary: ls) (auto simp: items_tree_Cons real_item_def)

lemma walk_to_start_ok:
  assumes "seq_items s = zs @ ys" "items_tree S h zs lz"
  shows "i \<le> length zs \<Longrightarrow> I tc \<Longrightarrow>
    yields F (walk_to_start (cfh h) (new_level s (int i) # ps) a p b (rv, tc)) (\<lambda>(c, a', p', b', s').
      c = new_level s 0 # ps \<and> a' = a + i \<and> p' \<le> p + i \<and> b' \<le> b \<and> (b' > 0 \<longrightarrow> p' = p + i) \<and> hashed I rv s')"
proof (induction i arbitrary: a p b rv tc)
  case 0
  then show ?case by (subst walk_to_start.simps) (simp add: indexInChunk_def hashed_def)
next
  case (Suc i)
  have i: "i < length zs" using Suc.prems(1) by simp
  have "zs = take i zs @ zs ! i # drop (Suc i) zs" using id_take_nth_drop [OF i] .
  then obtain lx where lx: "item_tree S h (zs ! i) lx"
    using assms(2) items_tree_append [of S h "take i zs" "zs ! i # drop (Suc i) zs"] by (auto simp: items_tree_Cons)
  have cur: "current (new_level s (int i) # ps) = Inr (zs ! i)"
    using assms(1) i by (simp add: current_def valid_def seqLen_def getItem_def nth_int_def nth_append)
  show ?case
  proof (cases "b > 0")
    case True
    have "yields F (rbind (cf_hash (cfh h) (zs ! i) (ClearLastBoundary rv, tc)) (\<lambda>s'.
        walk_to_start (cfh h) (new_level s (int i) # ps) (a + 1) (p + 1) (b - int (unat (rv_bytesHashed (fst s')))) s'))
      (\<lambda>(c, a', p', b', s'). c = new_level s 0 # ps \<and> a' = a + Suc i \<and> p' \<le> p + Suc i \<and> b' \<le> b \<and> (b' > 0 \<longrightarrow> p' = p + Suc i) \<and> hashed I rv s')"
    proof (rule yields_bind [OF hash_item [OF Suc.prems(2) lx]], goal_cases)
      case (1 s')
      then obtain rv' tc' where s': "s' = (rv', tc')" "rv_window rv' = rv_window rv" "I tc'"
        by (cases s') (auto simp: hashed_def ClearLastBoundary_def)
      show ?case
        unfolding s'(1)
        by (rule yields_mono [OF Suc.IH])
          (use i s' in \<open>auto simp: hashed_def intro: order_trans [of _ "b - uint (rv_bytesHashed rv')"]\<close>)
    qed
    then show ?thesis using True cur by (subst walk_to_start.simps) (simp add: indexInChunk_def)
  next
    case False
    have "yields F (walk_to_start (cfh h) (new_level s (int i) # ps) (a + 1) p b (rv, tc))
      (\<lambda>(c, a', p', b', s'). c = new_level s 0 # ps \<and> a' = a + Suc i \<and> p' \<le> p + Suc i \<and> b' \<le> b \<and> (b' > 0 \<longrightarrow> p' = p + Suc i) \<and> hashed I rv s')"
      by (rule yields_mono [OF Suc.IH]) (use i False Suc.prems(2) in \<open>auto simp: hashed_def\<close>)
    then show ?thesis using False by (subst walk_to_start.simps) (simp add: indexInChunk_def)
  qed
qed

lemma prime_back_ok:
  "(\<exists>x pre lx post. item_at S h c1 x pre lx post) \<or> retreatMaybeAllowBeforeStart (ts_vr S) False c1 = Inr (False, c1) \<Longrightarrow>
   advances (ts_vr S) c1 zs c \<Longrightarrow> I tc \<Longrightarrow>
   yields F (prime_back k (cfh h) c1 p b (rv, tc)) (\<lambda>(c2, p', s').
     \<exists>ws. advances (ts_vr S) c2 (ws @ zs) c \<and> p' = p + length ws \<and> (ws \<noteq> [] \<longrightarrow> b > 0)
       \<and> (\<forall>w\<in>set ws. real_item h w) \<and> hashed I rv s')"
proof (induction k arbitrary: c1 zs p b rv tc)
  case 0
  then show ?case by (simp add: bounded)
next
  case (Suc k)
  have stop: ?case if "b \<le> 0 \<or> retreatMaybeAllowBeforeStart (ts_vr S) False c1 = Inr (False, c1)"
    using that Suc.prems(2,3) by (auto simp: cfh_sel hashed_def intro!: exI [of _ "[]"])
  show ?case
  proof (cases "b \<le> 0 \<or> retreatMaybeAllowBeforeStart (ts_vr S) False c1 = Inr (False, c1)")
    case True
    then show ?thesis by (rule stop)
  next
    case False
    then obtain x pre lx post where at: "item_at S h c1 x pre lx post" using Suc.prems(1) by blast
    with False obtain c2 y pre' ly where c2: "retreatMaybeAllowBeforeStart (ts_vr S) False c1 = Inr (True, c2)"
      "item_at S h c2 y pre' ly (lx @ post)" "cur_advance (ts_vr S) c2 = Inr (True, c1)"
      using retreat_at [OF at] unfolding retreated_def cur_advance_def by blast
    note y = item_at_current(3,6) [OF c2(2)]
    have adv: "advances (ts_vr S) c2 (y # zs) c" using y(1) c2(3) Suc.prems(2) by auto
    have "yields F (rbind (cf_hash (cfh h) y (ClearLastBoundary rv, tc)) (\<lambda>s.
        prime_back k (cfh h) c2 (p + 1) (b - int (unat (rv_bytesHashed (fst s)))) s))
      (\<lambda>(c2, p', s'). \<exists>ws. advances (ts_vr S) c2 (ws @ zs) c \<and> p' = p + length ws \<and> (ws \<noteq> [] \<longrightarrow> b > 0)
         \<and> (\<forall>w\<in>set ws. real_item h w) \<and> hashed I rv s')"
    proof (rule yields_bind [OF hash_item [OF Suc.prems(3) y(2)]], goal_cases)
      case (1 s')
      then obtain rv' tc' where s': "s' = (rv', tc')" "rv_window rv' = rv_window rv" "I tc'"
        by (cases s') (auto simp: hashed_def ClearLastBoundary_def)
      have "(\<exists>x pre lx post. item_at S h c2 x pre lx post) \<or> retreatMaybeAllowBeforeStart (ts_vr S) False c2 = Inr (False, c2)"
        using c2(2) by blast
      from Suc.IH [OF this adv s'(3), of "p + 1" "b - int (unat (rv_bytesHashed (fst s')))" rv']
      show ?case
        unfolding s'(1)
      proof (rule yields_mono, goal_cases)
        case (1 r)
        then obtain c3 ws s3 where "r = (c3, p + 1 + length ws, s3)" "advances (ts_vr S) c3 (ws @ y # zs) c"
          "\<forall>w\<in>set ws. real_item h w" "hashed I rv' s3" by auto
        moreover have "real_item h y" using y(2) by (auto simp: real_item_def)
        ultimately show ?case using False s'(2) by (auto simp: hashed_def intro!: exI [of _ "ws @ [y]"])
      qed
    qed
    then show ?thesis using False c2(1) y(1) by (simp add: cfh_sel)
  qed
qed

text \<open>
  The forward loop: the last \<open>a\<close> of the items become pending, and are moved up if they end a chunk.
\<close>

lemma resume_forward_ok:
  assumes handle: "handles h handle"
  shows "advances (ts_vr S) (sc_cur sc) ws c \<Longrightarrow> length ws = max p a \<Longrightarrow> (\<forall>w\<in>set ws. real_item h w) \<Longrightarrow>
    items_tree S h (drop (length ws - a) ws) lv \<Longrightarrow> state_ok S h (sc # ps) ls \<Longrightarrow> topped (c # cursors ps) \<Longrightarrow> I tc \<Longrightarrow>
    yields F (resume_forward handle (cfh h) beyond p a sc ps tc) (\<lambda>(cs, tc').
      appended S I h (sc\<lparr>sc_cur := c\<rparr> # ps) (ls @ lv) (cs, tc'))"
proof (induction ws arbitrary: p a sc ps ls lv tc)
  case Nil
  then show ?case
    by (subst resume_forward.simps) (auto simp: appended_def grows_def cursors_def intro!: exI [of _ 0])
next
  case (Cons w ws)
  obtain ok c1 where step: "current (sc_cur sc) = Inr w" "cur_advance (ts_vr S) (sc_cur sc) = Inr (ok, c1)" "advances (ts_vr S) c1 ws c"
    using Cons.prems(1) by auto
  obtain lw where lw: "item_tree S h w lw" using Cons.prems(3) by (auto simp: real_item_def)
  have ws: "\<forall>w\<in>set ws. real_item h w" using Cons.prems(3) by simp
  have len: "Suc (length ws) = max p a" using Cons.prems(2) by simp
  obtain la lb where ls: "emitted S (Suc h) ps la" "items_tree S h (sc_current sc) lb" "ls = la @ lb"
    using Cons.prems(5) by (auto simp: state_ok_Cons)
  have more: "items_tree S h (sc_current sc @ [w]) (lb @ lw)" using ls(2) lw by (intro items_tree_appendI) simp_all
  consider (hash) "a < p" | (item) "p < a" | (both) "p = a" by linarith
  then show ?case
  proof cases
    case hash
    have "yields F (rbind (cf_hash (cfh h) w (sc_rv sc, tc)) (\<lambda>(rv, tc).
        resume_forward handle (cfh h) beyond (p - 1) a (sc\<lparr>sc_cur := c1, sc_rv := rv\<rparr>) ps tc))
      (\<lambda>(cs, tc'). appended S I h (sc\<lparr>sc_cur := c\<rparr> # ps) (ls @ lv) (cs, tc'))"
    proof (rule yields_bind [OF hash_item [OF Cons.prems(7) lw]], goal_cases)
      case (1 s')
      then obtain rv' tc' where s': "s' = (rv', tc')" "rv_window rv' = rv_window (sc_rv sc)" "I tc'"
        by (cases s') (auto simp: hashed_def)
      let ?sc = "sc\<lparr>sc_cur := c1, sc_rv := rv'\<rparr>"
      have st: "state_ok S h (?sc # ps) ls" using Cons.prems(5) s'(2) by (simp add: state_ok_Cons)
      have "length (w # ws) - a = Suc (length ws - a)" using hash len by simp
      then have "items_tree S h (drop (length ws - a) ws) lv" using Cons.prems(4) by (simp only: drop_Suc_Cons)
      from Cons.IH [OF _ _ ws this st Cons.prems(6) s'(3), of "p - 1"] show ?case
        unfolding s'(1) prod.case using step(3) hash len
        by (rule_tac yields_mono) (auto simp: appended_def grows_def cursors_def)
    qed
    then show ?thesis using step hash by (subst resume_forward.simps) (simp add: cfh_sel)
  next
    case item
    let ?sc = "sc\<lparr>sc_cur := c1, sc_current := sc_current sc @ [w]\<rparr>"
    have st: "state_ok S h (?sc # ps) (ls @ lw)" using Cons.prems(5) more ls by (auto simp: state_ok_Cons)
    obtain lv' where lv: "lv = lw @ lv'" "items_tree S h ws lv'"
      using Cons.prems(4) item len item_tree_det [OF lw] by (auto simp: items_tree_Cons)
    then have "items_tree S h (drop (length ws - (a - 1)) ws) lv'" using item len by simp
    from Cons.IH [OF _ _ ws this st Cons.prems(6,7), of p]
    have "yields F (resume_forward handle (cfh h) beyond p (a - 1) ?sc ps tc)
      (\<lambda>(cs, tc'). appended S I h (sc\<lparr>sc_cur := c\<rparr> # ps) (ls @ lv) (cs, tc'))"
      using step(3) item len lv by (rule_tac yields_mono) (auto simp: appended_def grows_def cursors_def)
    then show ?thesis using step item by (subst resume_forward.simps) (simp add: cfh_sel)
  next
    case both
    then obtain a' where a': "a = Suc a'" "p = Suc a'" "length ws = a'" using len by (cases a) auto
    obtain lv' where lv: "lv = lw @ lv'" "items_tree S h ws lv'"
      using Cons.prems(4) a' item_tree_det [OF lw] by (auto simp: items_tree_Cons)
    have "yields F (rbind (cf_hash (cfh h) w (ClearLastBoundary (sc_rv sc), tc)) (\<lambda>(rv, tc).
        let cs = sc\<lparr>sc_cur := c1, sc_rv := rv, sc_current := sc_current sc @ [w]\<rparr> # ps
        in rbind (if rv_crossedBoundary rv \<and> beyond \<and> a = 1 then handle cs tc else Inr (cs, tc)) (\<lambda>(cs, tc).
             case cs of [] \<Rightarrow> Inl NilDereference | sc # ps \<Rightarrow> resume_forward handle (cfh h) beyond (p - 1) (a - 1) sc ps tc)))
      (\<lambda>(cs, tc'). appended S I h (sc\<lparr>sc_cur := c\<rparr> # ps) (ls @ lv) (cs, tc'))"
    proof (rule yields_bind [OF hash_item [OF Cons.prems(7) lw]], goal_cases)
      case (1 s')
      then obtain rv' tc' where s': "s' = (rv', tc')" "rv_window rv' = rv_window (sc_rv sc)" "I tc'"
        by (cases s') (auto simp: hashed_def ClearLastBoundary_def)
      let ?sc = "sc\<lparr>sc_cur := c1, sc_rv := rv', sc_current := sc_current sc @ [w]\<rparr>"
      have st: "state_ok S h (?sc # ps) (ls @ lw)" using Cons.prems(5) more ls s'(2) by (auto simp: state_ok_Cons)
      show ?case
      proof (cases "rv_crossedBoundary rv' \<and> beyond \<and> a = 1")
        case True
        then have last': "ws = []" "c1 = c" "lv' = []" using a' step(3) lv(2) by auto
        have top: "topped (cursors (?sc # ps))" using Cons.prems(6) last' by (simp add: cursors_def)
        from handlesD [OF handle st top _ s'(3)] True last' a' show ?thesis
          unfolding s'(1) prod.case Let_def
          by (auto intro!: yields_bind simp: resume_forward.simps appended_def lv(1) grows_def cursors_def
              split: list.splits prod.splits)
      next
        case False
        from Cons.IH [OF _ _ ws _ st Cons.prems(6) s'(3), of a' a' lv'] show ?thesis
          unfolding s'(1) prod.case Let_def using step(3) a' lv False
          by (rule_tac yields_mono) (auto simp: appended_def grows_def cursors_def)
      qed
    qed
    then show ?thesis using step a' by (subst resume_forward.simps) (simp add: cfh_sel)
  qed
qed

lemma cursor_atE:
  assumes "cursor_at S h c pre post"
  obtains s ps xs ys P Q a b where "c = new_level s (int (length xs)) # ps" "chunk_at S h ps s P Q" "isMetaSequence s \<longleftrightarrow> h \<noteq> 0"
    "seq_items s = xs @ ys" "items_tree S h xs a" "items_tree S h ys b" "ps \<noteq> [] \<or> h \<noteq> 0 \<longrightarrow> seq_items s \<noteq> []"
    "ys = [] \<longrightarrow> Q = []" "pre = P @ a" "post = b @ Q"
  using assms unfolding cursor_at_def
proof (elim disjE exE conjE, goal_cases)
  case (1 x lx post')
  from 1(2) show ?case
  proof (rule item_atE, goal_cases)
    case (1 s ps xs ys P Q a b)
    have "items_tree S h (x # ys) (lx @ b)" using 1(6,7) by (auto simp: items_tree_Cons)
    then show ?case using that [OF 1(1,2,3,4,5)] 1 \<open>post = lx @ post'\<close> by simp
  qed
next
  case 2
  then obtain s ps P a where "c = new_level s (seqLen s) # ps" "chunk_at S h ps s P []" "isMetaSequence s \<longleftrightarrow> h \<noteq> 0"
    "ps \<noteq> [] \<or> h \<noteq> 0 \<longrightarrow> seq_items s \<noteq> []" "items_tree S h (seq_items s) a" "pre = P @ a" by (auto simp: end_at_def)
  then show ?case using that [of s "seq_items s" ps P "[]" "[]" a "[]"] 2(3) by (simp add: seqLen_def)
qed

lemma advances_chunk:
  assumes "chunk_at S h ps s P Q" "seq_items s = zs @ ys" "ys = [] \<longrightarrow> Q = []"
  shows "i \<le> length zs \<Longrightarrow> advances (ts_vr S) (new_level s (int i) # ps) (drop i zs) (new_level s (int (length zs)) # ps)"
proof (induction "length zs - i" arbitrary: i)
  case (Suc d)
  then have i: "i < length zs" "d = length zs - Suc i" by simp_all
  have cur: "current (new_level s (int i) # ps) = Inr (zs ! i)"
    using assms(2) i by (simp add: current_def valid_def seqLen_def getItem_def nth_int_def nth_append)
  have "\<exists>ok. cur_advance (ts_vr S) (new_level s (int i) # ps) = Inr (ok, new_level s (int (Suc i)) # ps)"
  proof (cases "int i < seqLen s - 1")
    case True
    then show ?thesis by (intro exI [of _ True]) (simp add: cur_advance_def ac_simps)
  next
    case False
    then have ys: "ys = []" using i assms(2) by (cases ys) (simp_all add: seqLen_def)
    then have last': "ys = []" "seqLen s = int i + 1" using False i assms(2) by (simp_all add: seqLen_def)
    have "(if ps = [] then Inr (False, []) else advanceMaybeAllowPastEnd (ts_vr S) False ps) = Inr (False, ps)"
    proof (cases "ps = []")
      case nonempty: False
      then obtain m ls where "item_at S (Suc h) ps (TupleItem m) P ls []" using assms(1,3) last' chunk_at_parents by blast
      then show ?thesis using advance_last(1) nonempty by simp
    qed simp
    then show ?thesis using last' False by (intro exI [of _ False]) (simp add: cur_advance_def ac_simps)
  qed
  moreover have "drop i zs = zs ! i # drop (Suc i) zs" using i(1) by (simp add: Cons_nth_drop_Suc)
  ultimately show ?case using cur Suc(1) [OF i(2)] i(1) by auto
qed simp

lemma new_ok:
  "cursor_at S h c pre post \<Longrightarrow> I tc \<Longrightarrow> yields F (newSequenceChunker n k (cfh h) c tc) (\<lambda>(cs, tc').
     state_ok S h cs pre \<and> linked (cursors cs) \<and> sc_cur (hd cs) = c \<and> sc_isLeaf (hd cs) \<and> \<not> sc_done (hd cs) \<and> I tc')"
proof (induction n arbitrary: h c pre post tc)
  case 0
  then show ?case by (simp add: bounded)
next
  case (Suc n)
  from Suc.prems(1) obtain s ps zs ys P Q a b where c: "c = new_level s (int (length zs)) # ps" "chunk_at S h ps s P Q"
    "isMetaSequence s \<longleftrightarrow> h \<noteq> 0" "seq_items s = zs @ ys" "items_tree S h zs a" "items_tree S h ys b"
    "ps \<noteq> [] \<or> h \<noteq> 0 \<longrightarrow> seq_items s \<noteq> []" "ys = [] \<longrightarrow> Q = []" "pre = P @ a" by (rule cursor_atE)
  let ?new = "newSequenceChunker n k" and ?app = "chunker_Append n k" and ?sc = "new_chunk_level c"
  let ?P = "\<lambda>(parent, tc'). I tc' \<and> linked (c # cursors parent)
    \<and> (\<forall>sc. sc_current sc = [] \<longrightarrow> rv_window (sc_rv sc) \<noteq> 0 \<longrightarrow> state_ok S h (sc # parent) P)"
  have "yields F (if ps \<noteq> [] then createParent ?new (cfh h) ?sc [] tc else Inr ([], tc)) ?P"
  proof (cases "ps = []")
    case True
    then have "P = []" using c(2) by (auto elim: chunk_at_NilE)
    then show ?thesis using True Suc.prems(2) by (simp add: cursors_def state_ok_Cons c(1))
  next
    case False
    then obtain m ls where "item_at S (Suc h) ps (TupleItem m) P ls Q" using c(2) chunk_at_parents by blast
    then have "cursor_at S (Suc h) ps P (ls @ Q)" by (auto simp: cursor_at_def)
    from Suc.IH [OF this Suc.prems(2)] show ?thesis
      using False clone_parents [OF c(2)] unfolding createParent_def
      by (auto simp: cfh_sel new_chunk_level_def c(1) intro!: yields_bind split: list.splits)
        (auto simp: state_ok_def cursors_def)
  qed
  note parent = this
  have rest: "yields F (resume_forward (handle_with ?new ?app (cfh h)) (cfh h) beyond p'' (length zs)
      (?sc\<lparr>sc_cur := c2, sc_rv := rv\<rparr>) par tc2)
    (\<lambda>(cs, tc'). state_ok S h cs pre \<and> linked (cursors cs) \<and> sc_cur (hd cs) = c \<and> sc_isLeaf (hd cs) \<and> \<not> sc_done (hd cs) \<and> I tc')"
    if par: "?P (par, tc2)" and adv: "advances (ts_vr S) c2 (ws @ zs) c" "length (ws @ zs) = max p'' (length zs)"
      "\<forall>w\<in>set ws. real_item h w" and rv: "rv_window rv \<noteq> 0" for beyond p'' c2 rv par tc2 ws
  proof -
    let ?sc' = "?sc\<lparr>sc_cur := c2, sc_rv := rv\<rparr>"
    have st: "state_ok S h (?sc' # par) P" using par rv by (auto simp: new_chunk_level_def)
    have top: "topped (c # cursors par)" using par linked_topped by auto
    have real: "\<forall>w\<in>set (ws @ zs). real_item h w" using adv(3) items_real [OF c(5)] by auto
    have drop': "items_tree S h (drop (length (ws @ zs) - length zs) (ws @ zs)) a" using c(5) by simp
    have tc2: "I tc2" using par by simp
    have "advances (ts_vr S) (sc_cur ?sc') (ws @ zs) c" using adv(1) by simp
    from resume_forward_ok [OF handles_with this adv(2) real drop' st top tc2, where beyond = beyond]
    show ?thesis
    proof (rule yields_mono, goal_cases)
      case (1 r)
      then obtain cs tc' m where r: "r = (cs, tc')" "state_ok S h cs (P @ a)" "cursors cs = (c # cursors par) @ replicate m []" "cs \<noteq> []"
        "sc_isLeaf (hd cs)" "\<not> sc_done (hd cs)" "I tc'"
        by (auto simp: appended_def grows_def cursors_def new_chunk_level_def)
      have "linked (cursors cs)" unfolding r(3) using par by (intro linked_grow) simp
      moreover have "sc_cur (hd cs) = c" using r(3,4) by (cases cs) (auto simp: cursors_def)
      ultimately show ?case using r c(9) by simp
    qed
  qed
  let ?Q = "\<lambda>(cs, tc'). state_ok S h cs pre \<and> linked (cursors cs) \<and> sc_cur (hd cs) = c \<and> sc_isLeaf (hd cs) \<and> \<not> sc_done (hd cs) \<and> I tc'"
  let ?rv = "(sc_rv ?sc)\<lparr>rv_lengthOnly := True\<rparr>"
  have win: "rv_window (sc_rv ?sc) \<noteq> 0" using new_level_ok [of h c] by (simp add: state_ok_def)
  have start: "(\<exists>x pre lx post. item_at S h (new_level s 0 # ps) x pre lx post)
      \<or> retreatMaybeAllowBeforeStart (ts_vr S) False (new_level s 0 # ps) = Inr (False, new_level s 0 # ps)"
  proof (cases "seq_items s = []")
    case True
    then show ?thesis using c(7) by simp
  next
    case False
    have "items_tree S h (seq_items s) (a @ b)" using c(4,5,6) by (auto simp: items_tree_append)
    from cursor_atI [OF c(2,3) _ _ this, of "[]" "[]"] False have "cursor_at S h (new_level s 0 # ps) P ((a @ b) @ Q)" by simp
    moreover have "(a @ b) @ Q \<noteq> []" using items_tree_nonempty [OF \<open>items_tree S h (seq_items s) (a @ b)\<close> False] by auto
    ultimately show ?thesis using cursor_at_item by blast
  qed
  have adv: "advances (ts_vr S) (new_level s 0 # ps) zs c" using advances_chunk [OF c(2,4,8), of 0] by (simp add: c(1))
  have walk: "yields F (rbind (walk_to_start (cfh h) (new_level s (int i) # ps) d d w (?rv, tc1)) (\<lambda>(cur, a, p, b, s).
        rbind (prime_back k (cfh h) cur p b s) (\<lambda>(cur, p, s).
          resume_forward (handle_with ?new ?app (cfh h)) (cfh h) beyond p a
            (?sc\<lparr>sc_cur := cur, sc_rv := (fst s)\<lparr>rv_lengthOnly := False\<rparr>\<rparr>) par (snd s)))) ?Q"
    if par: "?P (par, tc1)" and i: "i + d = length zs" for i d w par tc1 beyond
  proof (rule yields_bind [OF walk_to_start_ok [OF c(4,5)]], goal_cases)
    case (3 r)
    then obtain p' b' rv' tc' where r: "r = (new_level s 0 # ps, length zs, p', b', rv', tc')" "p' \<le> length zs"
      "b' > 0 \<longrightarrow> p' = length zs" "rv_window rv' = rv_window ?rv" "I tc'"
      using i by (auto simp: hashed_def ac_simps)
    show ?case
      unfolding r(1) prod.case
    proof (rule yields_bind [OF prime_back_ok [OF start adv r(5)]], goal_cases)
      case (1 q)
      then obtain c2 ws rv2 tc2 where q: "q = (c2, p' + length ws, rv2, tc2)" "advances (ts_vr S) c2 (ws @ zs) c" "ws \<noteq> [] \<longrightarrow> b' > 0"
        "\<forall>w\<in>set ws. real_item h w" "rv_window rv2 = rv_window rv'" "I tc2" by (auto simp: hashed_def)
      have "length (ws @ zs) = max (p' + length ws) (length zs)" using q(3) r(2,3) by (cases "ws = []") auto
      from rest [OF _ q(2) this q(4), of par tc2 "rv2\<lparr>rv_lengthOnly := False\<rparr>" beyond] show ?case
        using par q(1,5,6) r(4) win by simp
    qed
  qed (use i par in simp_all)
  have idx: "indexInChunk c = Inr (int (length zs))" "cur_length c = Inr (seqLen s)" "tl c = ps" "sc_cur ?sc = c"
    by (simp_all add: new_chunk_level_def c(1) indexInChunk_def cur_length_def)
  have "yields F (resume_with ?new ?app k (cfh h) ?sc tc) ?Q"
    unfolding resume_with_def idx(4) idx(3)
  proof (rule yields_bind [OF parent], goal_cases)
    case (1 r)
    then obtain par tc1 where r: "r = (par, tc1)" "?P (par, tc1)" by (cases r) auto
    show ?case
    proof (cases "ys = [] \<and> zs \<noteq> []")
      case True
      then have "retreatMaybeAllowBeforeStart (cf_vr (cfh h)) False c = Inr (True, new_level s (int (length zs - 1)) # ps)"
        "seqLen s = int (length zs)" using c(4) by (simp_all add: c(1) of_nat_diff seqLen_def Suc_le_eq)
      then show ?thesis using walk [OF r(2), of "length zs - 1" 1] True unfolding r(1) prod.case idx rbind_Inr Let_def by simp
    next
      case False
      have "(if int (length zs) = seqLen s then retreatMaybeAllowBeforeStart (cf_vr (cfh h)) False c else Inr (False, c)) = Inr (False, c)"
        using False c(4,7) by (cases ys) (auto simp: c(1) seqLen_def)
      then show ?thesis using walk [OF r(2), of "length zs" 0] unfolding r(1) prod.case idx rbind_Inr Let_def by (simp add: c(1))
    qed
  qed
  then show ?case by (simp add: new_with_def c(1))
qed

subsection \<open>Skipping\<close>

text \<open>Two chunkers that differ in their cursors only.\<close>

definition moved_level :: "chunkLevel \<Rightarrow> chunkLevel \<Rightarrow> bool" where
  "moved_level sc sc' \<longleftrightarrow> sc_current sc' = sc_current sc \<and> sc_rv sc' = sc_rv sc \<and> sc_isLeaf sc' = sc_isLeaf sc \<and> sc_done sc' = sc_done sc"

definition moved :: "sequenceChunker \<Rightarrow> sequenceChunker \<Rightarrow> bool" where
  "moved cs cs' \<longleftrightarrow> list_all2 moved_level cs cs'"

lemma moved_refl: "moved cs cs"
  by (simp add: moved_def moved_level_def list_all2_refl)

lemma moved_emitted: "moved cs cs' \<Longrightarrow> emitted S' h cs' ls \<longleftrightarrow> emitted S' h cs ls"
  unfolding moved_def by (induction cs cs' arbitrary: h ls rule: list_all2_induct) (simp_all add: moved_level_def)

lemma moved_pending: "moved cs cs' \<Longrightarrow> anyPending cs' \<longleftrightarrow> anyPending cs"
  unfolding moved_def by (induction cs cs' rule: list_all2_induct) (simp_all add: moved_level_def)

lemma moved_all:
  assumes "moved cs cs'"
  shows "(\<forall>sc\<in>set cs'. rv_window (sc_rv sc) \<noteq> 0) \<longleftrightarrow> (\<forall>sc\<in>set cs. rv_window (sc_rv sc) \<noteq> 0)"
    "(\<forall>sc\<in>set cs'. \<not> sc_isLeaf sc \<and> \<not> sc_done sc) \<longleftrightarrow> (\<forall>sc\<in>set cs. \<not> sc_isLeaf sc \<and> \<not> sc_done sc)"
  using assms unfolding moved_def by (induction cs cs' rule: list_all2_induct) (simp_all add: moved_level_def)

lemma moved_Nil: "moved cs cs' \<Longrightarrow> cs' = [] \<longleftrightarrow> cs = []"
  by (auto simp: moved_def)

lemma moved_Cons: "moved (sc # cs) (sc' # cs') \<longleftrightarrow> moved_level sc sc' \<and> moved cs cs'"
  by (simp add: moved_def)

lemma moved_state_ok: "moved cs cs' \<Longrightarrow> state_ok S' h cs' ls \<longleftrightarrow> state_ok S' h cs ls"
proof (cases cs)
  case (Cons sc ps)
  assume m: "moved cs cs'"
  then obtain sc' ps' where cs': "cs' = sc' # ps'" "moved ps ps'" using Cons moved_Nil [OF m] by (cases cs') (auto simp: moved_Cons)
  show ?thesis
    using moved_emitted [OF m] moved_all(1) [OF m] moved_all(2) [OF cs'(2)] by (simp add: state_ok_def Cons cs'(1))
qed (auto simp: moved_def)

lemma Skip_ok:
  "linked (cursors (sc # ps)) \<Longrightarrow> item_at S h (sc_cur sc) x pre lx post \<Longrightarrow>
   \<exists>cs'. Skip (ts_vr S) (sc # ps) = Inr cs' \<and> moved (sc # ps) cs' \<and> linked (cursors cs')
     \<and> (\<exists>ok. cur_advance (ts_vr S) (sc_cur sc) = Inr (ok, sc_cur (hd cs')))"
proof (induction ps arbitrary: sc h x pre lx post)
  case Nil
  have tl: "tl (sc_cur sc) = []" using Nil(1) by (simp add: cursors_def)
  from Nil(2) show ?case
    by (cases rule: advance_cases) (use tl item_at_current(4) in \<open>auto simp: cursors_def moved_def moved_level_def\<close>)
next
  case (Cons p ps)
  let ?c = "sc_cur sc"
  have link: "sc_cur p = tl ?c" "linked (cursors (p # ps))" using Cons.prems(1) by (auto simp: cursors_def)
  from Cons.prems(2) show ?case
  proof (cases rule: advance_cases)
    case (past c')
    then show ?thesis using link moved_refl [of "p # ps"] by (auto simp: cursors_def moved_def moved_level_def)
  next
    case (same c')
    then show ?thesis using link moved_refl [of "p # ps"] item_at_current(4) [OF same(3)]
      by (auto simp: cursors_def moved_def moved_level_def)
  next
    case (next_chunk c')
    obtain m P ly Q where up: "item_at S (Suc h) (sc_cur p) (TupleItem m) P ly Q" using item_at_tl [OF Cons.prems(2) next_chunk(5)] link(1) by auto
    from Cons.IH [OF link(2) up] obtain ps' ok where ps': "Skip (ts_vr S) (p # ps) = Inr ps'" "moved (p # ps) ps'" "linked (cursors ps')"
      "cur_advance (ts_vr S) (sc_cur p) = Inr (ok, sc_cur (hd ps'))" by blast
    have "sc_cur (hd ps') = tl c'" using ps'(4) next_chunk(7) link(1) by simp
    moreover have "ps' \<noteq> []" using moved_Nil [OF ps'(2)] by simp
    ultimately have "linked (c' # cursors ps')" using ps'(3) by (cases ps') (auto simp: cursors_def)
    moreover have "Skip (ts_vr S) (sc # p # ps) = Inr (sc\<lparr>sc_cur := c'\<rparr> # ps')"
      using next_chunk ps'(1) link(1) item_at_current(4) [OF next_chunk(3)] by simp
    ultimately show ?thesis using ps'(2) next_chunk(2) by (auto simp: cursors_def moved_def moved_level_def)
  qed
qed

subsection \<open>Finishing\<close>

text \<open>
  While a level takes in the rest of the old sequence, the cursor above is one chunk ahead, unless a new
  chunk is about to begin.
\<close>

definition ahead :: "sequenceCursor \<Rightarrow> sequenceCursor list \<Rightarrow> bool" where
  "ahead c C \<longleftrightarrow> (if tl c = [] then C = [] \<or> hd C = [] else C \<noteq> [] \<and> (\<exists>ok. cur_advance (ts_vr S) (tl c) = Inr (ok, hd C)))"

definition in_step :: "bool \<Rightarrow> sequenceCursor \<Rightarrow> sequenceCursor list \<Rightarrow> bool" where
  "in_step first c C \<longleftrightarrow>
     (if first \<or> cl_idx (hd c) = 0 then linked (c # C) \<and> (\<not> first \<longrightarrow> tl c \<noteq> []) else linked C \<and> ahead c C)"

definition remaining :: "nat \<Rightarrow> sequenceCursor list \<Rightarrow> sequenceItem list \<Rightarrow> bool" where
  "remaining h C post \<longleftrightarrow> (if C = [] \<or> hd C = [] then post = [] else \<exists>pre. cursor_at S h (hd C) pre post)"

lemma linked_Cons: "linked (c # C) \<longleftrightarrow> (if C = [] then tl c = [] else hd C = tl c \<and> linked C)"
  by (cases C) auto

lemma ahead_topped: "linked C \<Longrightarrow> ahead c C \<Longrightarrow> topped (c # C)"
  using linked_topped [of C] by (cases C) (auto simp: ahead_def topped_def split: if_splits)

lemma in_step_topped: "in_step first c C \<Longrightarrow> topped (c # C)"
  using ahead_topped linked_topped by (auto simp: in_step_def split: if_splits)

lemma in_step_grow: "in_step first c C \<Longrightarrow> in_step first c (C @ replicate m [])"
  using linked_grow [of "c # C" m] linked_grow [of C m]
  by (cases m) (auto simp: in_step_def ahead_def hd_append split: if_splits)

lemma skipParent_ok:
  assumes "linked (c # cursors ps)" "tl c \<noteq> [] \<Longrightarrow> \<exists>m P ly Q. item_at S (Suc h) (tl c) (TupleItem m) P ly Q"
  shows "\<exists>ps'. skipParentIfExists (ts_vr S) ps = Inr ps' \<and> moved ps ps' \<and> linked (cursors ps') \<and> ahead c (cursors ps')"
proof (cases "tl c = []")
  case True
  then show ?thesis using assms(1) moved_refl
    by (cases ps) (auto simp: skipParentIfExists_def ahead_def linked_Cons cursors_def)
next
  case False
  then obtain p ps1 where ps: "ps = p # ps1" "sc_cur p = tl c" "linked (cursors ps)"
    using assms(1) by (cases ps) (auto simp: cursors_def)
  obtain m P ly Q where "item_at S (Suc h) (sc_cur p) (TupleItem m) P ly Q" using assms(2) [OF False] ps(2) by auto
  from Skip_ok [OF ps(3) [unfolded ps(1)] this] obtain cs' ok where cs': "Skip (ts_vr S) (p # ps1) = Inr cs'" "moved (p # ps1) cs'"
    "linked (cursors cs')" "cur_advance (ts_vr S) (sc_cur p) = Inr (ok, sc_cur (hd cs'))" by blast
  moreover have "cs' \<noteq> []" using moved_Nil [OF cs'(2)] by simp
  ultimately show ?thesis using False ps(2)
    by (auto simp: skipParentIfExists_def ps(1) ahead_def cursors_def hd_map)
qed

lemma end_at_tl: "end_at S h c pre \<Longrightarrow> tl c \<noteq> [] \<Longrightarrow> \<exists>m P ly. item_at S (Suc h) (tl c) (TupleItem m) P ly []"
proof -
  assume "end_at S h c pre" "tl c \<noteq> []"
  then obtain s ps P where "c = new_level s (seqLen s) # ps" "chunk_at S h ps s P []" "ps \<noteq> []" by (auto simp: end_at_def)
  then show ?thesis using chunk_at_parents [of ps S h s P "[]"] by auto
qed

lemma remaining_end:
  assumes "end_at S h c pre" "ahead c C"
  shows "remaining (Suc h) C []"
proof (cases "tl c = []")
  case True
  then show ?thesis using assms(2) by (auto simp: ahead_def remaining_def)
next
  case False
  then obtain m P ly where "item_at S (Suc h) (tl c) (TupleItem m) P ly []" using end_at_tl [OF assms(1)] by blast
  from advance_last(2) [OF this] obtain c' where "cur_advance (ts_vr S) (tl c) = Inr (False, c')" "end_at S (Suc h) c' (P @ ly)"
    by (auto simp: cur_advance_def)
  moreover have "C \<noteq> []" "\<exists>ok. cur_advance (ts_vr S) (tl c) = Inr (ok, hd C)" using assms(2) False by (auto simp: ahead_def)
  ultimately show ?thesis by (auto simp: remaining_def cursor_at_def)
qed

lemma remaining_start:
  assumes "cursor_at S h c pre post" "cl_idx (hd c) = 0" "tl c \<noteq> []" "linked (c # C)"
  shows "remaining (Suc h) C post"
proof -
  from assms(1) obtain s ps xs ys P Q a b where c: "c = new_level s (int (length xs)) # ps" "chunk_at S h ps s P Q"
    "seq_items s = xs @ ys" "items_tree S h xs a" "items_tree S h ys b" "post = b @ Q" by (rule cursor_atE)
  have xs: "xs = []" "ps \<noteq> []" using assms(2,3) c(1) by auto
  obtain m ls where m: "item_at S (Suc h) ps (TupleItem m) P ls Q" "above S h (item_tree S h) m s ls"
    using c(2) chunk_at_parents [OF xs(2)] by blast
  have "ls = b" using above_seq [OF m(2)] c(3,5) xs(1) items_tree_det by (auto simp: seq_tree_def)
  then have "cursor_at S (Suc h) ps P post" using m(1) c(6) by (auto simp: cursor_at_def)
  moreover have "C \<noteq> []" "hd C = ps" using assms(3,4) c(1) by (auto simp: linked_Cons split: if_splits)
  ultimately show ?thesis using xs(2) by (auto simp: remaining_def)
qed

definition finalized :: "nat \<Rightarrow> chunkLevel \<Rightarrow> sequenceItem list \<Rightarrow> sequenceChunker \<times> TypeCache \<Rightarrow> bool" where
  "finalized h sc all_leaves = (\<lambda>(cs, tc). I tc \<and> topped (cursors cs) \<and> linked (cursors (tl cs))
     \<and> sc_isLeaf (hd cs) = sc_isLeaf sc \<and> sc_done (hd cs) = sc_done sc
     \<and> (\<exists>ls post. state_ok S h cs ls \<and> remaining (Suc h) (cursors (tl cs)) post \<and> ls @ post = all_leaves
          \<and> (post \<noteq> [] \<longrightarrow> sc_current (hd cs) = [] \<and> ls \<noteq> [])))"

lemma finalizedI:
  "state_ok S h (sc # ps) ls \<Longrightarrow> topped (sc_cur sc # cursors ps) \<Longrightarrow> linked (cursors ps) \<Longrightarrow> remaining (Suc h) (cursors ps) post \<Longrightarrow>
   (post \<noteq> [] \<Longrightarrow> sc_current sc = [] \<and> ls \<noteq> []) \<Longrightarrow> I tc \<Longrightarrow> sc_isLeaf sc = sc_isLeaf sc' \<Longrightarrow> sc_done sc = sc_done sc' \<Longrightarrow>
   finalized h sc' (ls @ post) (sc # ps, tc)"
  unfolding finalized_def by (auto simp: cursors_def)

lemma finalized_flags: "sc_isLeaf a = sc_isLeaf b \<Longrightarrow> sc_done a = sc_done b \<Longrightarrow> finalized h a ls = finalized h b ls"
  by (simp add: finalized_def)

lemma finalize_loop_ok:
  assumes handle: "handles h handle"
  shows "cursor_at S h (sc_cur sc) pre post \<Longrightarrow> state_ok S h (sc # ps) ls \<Longrightarrow> in_step first (sc_cur sc) (cursors ps) \<Longrightarrow>
    (first \<longrightarrow> post \<noteq> [] \<and> w > 0) \<Longrightarrow> (\<not> first \<longrightarrow> ls \<noteq> []) \<Longrightarrow> (isBoundary \<longrightarrow> sc_current sc = []) \<Longrightarrow> I tc \<Longrightarrow>
    yields F (finalize_loop k handle (cfh h) first w isBoundary sc ps tc) (finalized h sc (ls @ post))"
proof (induction k arbitrary: sc ps ls pre post first w isBoundary tc)
  case 0
  then show ?case by (simp add: bounded)
next
  case (Suc k)
  let ?c = "sc_cur sc"
  show ?case
  proof (cases "post = []")
    case True
    then have e: "end_at S h ?c pre" using Suc.prems(1) cursor_at_end by blast
    have nf: "\<not> first" using Suc.prems(4) True by blast
    have out: "finalize_loop (Suc k) handle (cfh h) first w isBoundary sc ps tc = Inr (sc # ps, tc)"
      using end_at_current(2,3) [OF e] by simp
    have "remaining (Suc h) (cursors ps) []"
    proof (cases "cl_idx (hd ?c) = 0")
      case True
      then have "linked (?c # cursors ps)" "tl ?c \<noteq> []" using Suc.prems(3) nf by (simp_all add: in_step_def)
      then show ?thesis using remaining_start [OF Suc.prems(1) True] \<open>post = []\<close> by simp
    next
      case False
      then show ?thesis using Suc.prems(3) nf remaining_end [OF e] by (simp add: in_step_def)
    qed
    moreover have "linked (cursors ps)" using Suc.prems(3) by (auto simp: in_step_def linked_Cons split: if_splits)
    ultimately show ?thesis
      unfolding out using finalizedI [OF Suc.prems(2) in_step_topped [OF Suc.prems(3)], of "[]" tc sc] Suc.prems(7) True by simp
  next
    case False
    then obtain x lx post' where at: "item_at S h ?c x pre lx post'" "post = lx @ post'" using cursor_at_item [OF Suc.prems(1)] by blast
    note cur = item_at_current [OF at(1)]
    show ?thesis
    proof (cases "w > 0 \<or> cl_idx (hd ?c) > 0 \<or> \<not> isBoundary")
      case stop: False
      then have z: "cl_idx (hd ?c) = 0" "isBoundary" "\<not> first" using cur(5) Suc.prems(4) by auto
      then have l: "linked (?c # cursors ps)" "tl ?c \<noteq> []" using Suc.prems(3) by (simp_all add: in_step_def)
      have "finalize_loop (Suc k) handle (cfh h) first w isBoundary sc ps tc = Inr (sc # ps, tc)" using stop cur by simp
      moreover have "linked (cursors ps)" using l by (auto simp: linked_Cons split: if_splits)
      ultimately show ?thesis
        using finalizedI [OF Suc.prems(2) in_step_topped [OF Suc.prems(3)] _ remaining_start [OF Suc.prems(1) z(1) l(2,1)], of tc sc]
          Suc.prems(5,6,7) z by simp
    next
      case go: True
      have skip: "\<exists>ps'. (if first \<or> cl_idx (hd ?c) = 0 then skipParentIfExists (ts_vr S) ps else Inr ps) = Inr ps'
        \<and> moved ps ps' \<and> linked (cursors ps') \<and> ahead ?c (cursors ps')"
        using Suc.prems(3) skipParent_ok [of ?c ps h] item_at_tl [OF at(1)] moved_refl [of ps] by (auto simp: in_step_def)
      then obtain ps' where ps': "(if first \<or> cl_idx (hd ?c) = 0 then skipParentIfExists (ts_vr S) ps else Inr ps) = Inr ps'"
        "moved ps ps'" "linked (cursors ps')" "ahead ?c (cursors ps')" by blast
      have st: "state_ok S h (sc # ps') ls" using Suc.prems(2) moved_state_ok [of "sc # ps" "sc # ps'"] ps'(2)
        by (simp add: moved_Cons moved_level_def)
      have "\<exists>ok c'. cur_advance (ts_vr S) ?c = Inr (ok, c') \<and> cursor_at S h c' (pre @ lx) post' \<and> in_step False c' (cursors ps')
        \<and> indexInChunk c' = Inr (cl_idx (hd c'))"
        using at(1)
      proof (cases rule: advance_cases)
        case (past c')
        then show ?thesis using ps'(3,4) end_at_current(3) [OF past(3)] by (auto simp: cursor_at_def in_step_def ahead_def)
      next
        case (same c')
        then show ?thesis using ps'(3,4) item_at_current(4) [OF same(3)] by (auto simp: cursor_at_def in_step_def ahead_def)
      next
        case (next_chunk c')
        then show ?thesis using ps'(3,4) item_at_current(4) [OF next_chunk(3)]
          by (auto simp: cursor_at_def in_step_def ahead_def linked_Cons)
      qed
      then obtain ok c' where c': "cur_advance (ts_vr S) ?c = Inr (ok, c')" "cursor_at S h c' (pre @ lx) post'"
        "in_step False c' (cursors ps')" "indexInChunk c' = Inr (cl_idx (hd c'))" by blast
      let ?hash = "if w > 0
        then rbind (cf_hash (cfh h) x (ClearLastBoundary (sc_rv sc), tc)) (\<lambda>(rv, tc).
               Inr (rv, w - int (unat (rv_bytesHashed rv)), rv_crossedBoundary rv, tc))
        else rbind (indexInChunk c') (\<lambda>i. Inr (sc_rv sc, w, i = 0, tc))"
      let ?go = "\<lambda>(rv, w, isBoundary, tc).
        let cs = sc\<lparr>sc_cur := c', sc_rv := rv, sc_current := sc_current sc @ [x]\<rparr> # ps'
        in rbind (if isBoundary then handle cs tc else Inr (cs, tc)) (\<lambda>(cs, tc).
             case cs of [] \<Rightarrow> Inl NilDereference | sc # ps \<Rightarrow> finalize_loop k handle (cfh h) False w isBoundary sc ps tc)"
      have eq: "finalize_loop (Suc k) handle (cfh h) first w isBoundary sc ps tc = rbind ?hash ?go"
        using go cur ps'(1) c'(1) by (simp add: cfh_sel cong: if_cong)
      have "yields F ?hash (\<lambda>(rv, _, _, tc'). rv_window rv = rv_window (sc_rv sc) \<and> I tc')"
      proof (cases "w > 0")
        case True
        have "yields F (rbind (cf_hash (cfh h) x (ClearLastBoundary (sc_rv sc), tc)) (\<lambda>(rv, tc).
               Inr (rv, w - int (unat (rv_bytesHashed rv)), rv_crossedBoundary rv, tc)))
          (\<lambda>(rv, _, _, tc'). rv_window rv = rv_window (sc_rv sc) \<and> I tc')"
          by (rule yields_bind [OF hash_item [OF Suc.prems(7) cur(6)]]) (auto simp: hashed_def ClearLastBoundary_def)
        then show ?thesis using True by simp
      next
        case False
        then show ?thesis using c'(4) Suc.prems(7) by simp
      qed
      then show ?thesis
        unfolding eq
      proof (rule yields_bind, goal_cases)
        case (1 r)
        then obtain rv w' isB tc' where r: "r = (rv, w', isB, tc')" "rv_window rv = rv_window (sc_rv sc)" "I tc'" by (cases r) auto
        let ?sc = "sc\<lparr>sc_cur := c', sc_rv := rv, sc_current := sc_current sc @ [x]\<rparr>"
        obtain la lb where ls: "emitted S (Suc h) ps' la" "items_tree S h (sc_current sc) lb" "ls = la @ lb"
          using st by (auto simp: state_ok_Cons)
        have "items_tree S h (sc_current sc @ [x]) (lb @ lx)" using ls(2) cur(6) by (intro items_tree_appendI) simp_all
        then have st': "state_ok S h (?sc # ps') (ls @ lx)" using st ls r(2) by (auto simp: state_ok_Cons)
        have ne: "ls @ lx \<noteq> []" using item_tree_nonempty [OF cur(6)] by simp
        have all': "ls @ post = (ls @ lx) @ post'" using at(2) by simp
        show ?case
        proof (cases isB)
          case True
          have "topped (cursors (?sc # ps'))" using in_step_topped [OF c'(3)] by (simp add: cursors_def)
          from handlesD [OF handle st' this _ r(3)]
          have "yields F (handle (?sc # ps') tc') (\<lambda>(cs', tc'). appended S I h (?sc # ps') (ls @ lx) (cs', tc')
            \<and> sc_current (hd cs') = [] \<and> (ls @ lx \<noteq> [] \<longrightarrow> anyPending (tl cs')))" by simp
          then have "yields F (rbind (handle (?sc # ps') tc') (\<lambda>(cs, tc).
             case cs of [] \<Rightarrow> Inl NilDereference | sc # ps \<Rightarrow> finalize_loop k handle (cfh h) False w' True sc ps tc)) (finalized h sc (ls @ post))"
          proof (rule yields_bind, goal_cases)
            case (1 q)
            then obtain sc2 ps2 tc2 m where q: "q = (sc2 # ps2, tc2)" "state_ok S h (sc2 # ps2) (ls @ lx)" "I tc2" "sc_current sc2 = []"
              "sc_cur sc2 = c'" "cursors ps2 = cursors ps' @ replicate m []" "sc_isLeaf sc2 = sc_isLeaf sc" "sc_done sc2 = sc_done sc"
              by (cases q, cases "fst q") (auto simp: appended_def grows_def cursors_def)
            have "in_step False (sc_cur sc2) (cursors ps2)" unfolding q(5,6) by (rule in_step_grow [OF c'(3)])
            from Suc.IH [OF c'(2) [folded q(5)] q(2) this _ _ _ q(3)] show ?case
              using q ne all' finalized_flags [of sc2 sc] by simp
          qed
          then show ?thesis using True by (simp add: r(1))
        next
          case False
          have "finalized h ?sc = finalized h sc" by (rule ext) (simp add: finalized_def)
          with Suc.IH [of ?sc "pre @ lx" post' ps' "ls @ lx" False w' isB tc'] show ?thesis
            using c'(2,3) st' ne all' False r by simp
        qed
      qed
    qed
  qed
qed

lemma finalizeCursor_ok:
  assumes "handles h handle" "cursor_at S h (sc_cur sc) pre post" "state_ok S h (sc # ps) ls" "linked (cursors (sc # ps))" "I tc"
  shows "yields F (finalizeCursor handle k (cfh h) sc ps tc) (finalized h sc (ls @ post))"
proof (cases "post = []")
  case True
  then have e: "end_at S h (sc_cur sc) pre" using assms(2) cursor_at_end by blast
  have link: "linked (sc_cur sc # cursors ps)" using assms(4) by (simp add: cursors_def)
  have "\<exists>m P ly Q. item_at S (Suc h) (tl (sc_cur sc)) (TupleItem m) P ly Q" if "tl (sc_cur sc) \<noteq> []"
    using end_at_tl [OF e that] by blast
  from skipParent_ok [OF link this] obtain ps' where ps': "skipParentIfExists (ts_vr S) ps = Inr ps'" "moved ps ps'"
    "linked (cursors ps')" "ahead (sc_cur sc) (cursors ps')" by blast
  have st: "state_ok S h (sc # ps') ls" using assms(3) moved_state_ok [of "sc # ps" "sc # ps'"] ps'(2)
    by (simp add: moved_Cons moved_level_def)
  have "finalizeCursor handle k (cfh h) sc ps tc = Inr (sc # ps', tc)"
    using ps'(1) end_at_current(2) [OF e] by (simp add: finalizeCursor_def cfh_sel)
  moreover have "finalized h sc (ls @ []) (sc # ps', tc)"
    by (rule finalizedI [OF st ahead_topped [OF ps'(3,4)] ps'(3) remaining_end [OF e ps'(4)]]) (use assms(5) in simp_all)
  ultimately show ?thesis using True by simp
next
  case False
  then obtain x lx post' where at: "item_at S h (sc_cur sc) x pre lx post'" using cursor_at_item [OF assms(2)] by blast
  have "rv_window (sc_rv sc) \<noteq> 0" using assms(3) by (simp add: state_ok_def)
  then have "unat (rv_window (sc_rv sc)) \<noteq> 0" by (simp add: unat_eq_zero)
  then have "int (unat (rv_window (sc_rv sc))) > 0" by (simp only: of_nat_0_less_iff)
  then show ?thesis
    using finalize_loop_ok [OF assms(1,2,3) _ _ _ _ assms(5), of True _ "sc_current sc = []" k] item_at_current(2) [OF at] assms(4) False
    by (simp add: finalizeCursor_def in_step_def cursors_def)
qed

lemma canonical_root_ok:
  "item_tree S (Suc h) (TupleItem mt) ls \<Longrightarrow> yields F (canonical_root n (ts_vr S) mt) (\<lambda>seq. \<exists>h'. seq_tree S h' seq ls)"
proof (induction n arbitrary: h mt)
  case 0
  then show ?case by (simp add: bounded)
next
  case (Suc n)
  then obtain cs where cs: "above S h (item_tree S h) mt cs ls" by auto
  then have child: "tuple_getChildSequence (ts_vr S) mt = Inr cs" by (simp add: above_def)
  note tree = above_seq [OF cs]
  show ?case
  proof (cases "\<not> isMetaSequence cs \<or> seqLen cs > 1")
    case True
    then show ?thesis using child tree by auto
  next
    case False
    then obtain x where x: "seq_items cs = [x]" "h \<noteq> 0" using tree
      by (cases "seq_items cs") (auto simp: seqLen_def seq_tree_def)
    then obtain h' where h: "h = Suc h'" by (cases h) auto
    have "item_tree S (Suc h') x ls" using tree x(1) by (simp add: seq_tree_def h del: item_tree.simps)
    moreover obtain mt' where "x = TupleItem mt'" using calculation by auto
    moreover have "getItem cs 0 = Inr x" using x(1) by (simp add: getItem_def nth_int_def)
    ultimately show ?thesis using Suc.IH [of h' mt'] child False by simp
  qed
qed

lemma createSequence_tree:
  assumes "I tc" "items_tree S h (sc_current sc) ls" "h \<noteq> 0 \<longrightarrow> sc_current sc \<noteq> []"
  shows "yields F (rbind (createSequence (cfh h) sc tc) (\<lambda>((seq, _, _), tc). Inr (seq, tc))) (\<lambda>(seq, tc'). (\<exists>h. seq_tree S h seq ls) \<and> I tc')"
  by (rule yields_bind [OF createSequence_ok [OF assms]]) (use assms(2,3) in \<open>auto simp: seq_tree_def\<close>)

lemma Done_ok:
  "state_ok S h cs ls \<Longrightarrow> linked (cursors cs) \<Longrightarrow> (sc_isLeaf (hd cs) \<longleftrightarrow> h = 0) \<Longrightarrow> \<not> sc_done (hd cs) \<Longrightarrow> (h \<noteq> 0 \<longrightarrow> ls \<noteq> []) \<Longrightarrow>
   remaining h (cursors cs) post \<Longrightarrow> I tc \<Longrightarrow>
   yields F (Done n k (cfh h) cs tc) (\<lambda>(seq, tc'). (\<exists>h. seq_tree S h seq (ls @ post)) \<and> I tc')"
proof (induction n arbitrary: h cs ls post tc)
  case 0
  then show ?case by (simp add: bounded)
next
  case (Suc n)
  obtain sc0 ps0 where cs: "cs = sc0 # ps0" using Suc.prems(1) by (cases cs) (auto simp: state_ok_def)
  let ?sc = "sc0\<lparr>sc_done := True\<rparr>"
  have st: "state_ok S h (?sc # ps0) ls" using Suc.prems(1) by (simp add: cs state_ok_Cons)
  have link: "linked (cursors (?sc # ps0))" using Suc.prems(2) by (simp add: cs cursors_def)
  have "yields F (if sc_cur ?sc \<noteq> [] then finalizeCursor (handleChunkBoundary n k (cfh h)) k (cfh h) ?sc ps0 tc else Inr (?sc # ps0, tc))
    (finalized h ?sc (ls @ post))"
  proof (cases "sc_cur sc0 = []")
    case True
    then have "post = []" using Suc.prems(6) by (simp add: remaining_def cs cursors_def)
    moreover have "cursors ps0 = [] \<or> hd (cursors ps0) = []" "linked (cursors ps0)"
      using link True by (auto simp: cursors_def linked_Cons split: if_splits)
    ultimately show ?thesis using True finalizedI [OF st, of "[]" tc ?sc] linked_topped [OF link] Suc.prems(7)
      by (simp add: remaining_def cursors_def)
  next
    case False
    then obtain pre where "cursor_at S h (sc_cur ?sc) pre post" using Suc.prems(6) by (auto simp: remaining_def cs cursors_def)
    from finalizeCursor_ok [OF handles_boundary this st link Suc.prems(7)] show ?thesis using False by simp
  qed
  note fin = this
  show ?case
    unfolding Done.simps cs list.case Let_def
  proof (rule yields_chk, goal_cases)
    case 2
    show ?case
    proof (rule yields_bind [OF fin], goal_cases)
      case (1 r)
      obtain sc ps tc1 where r0: "r = (sc # ps, tc1)" using 1 by (cases r, cases "fst r") (auto simp: finalized_def state_ok_def)
      with 1 obtain ls2 post2 where r: "state_ok S h (sc # ps) ls2" "remaining (Suc h) (cursors ps) post2" "ls2 @ post2 = ls @ post"
        "post2 \<noteq> [] \<longrightarrow> sc_current sc = [] \<and> ls2 \<noteq> []" "topped (cursors (sc # ps))" "linked (cursors ps)" "I tc1"
        "sc_isLeaf sc \<longleftrightarrow> h = 0"
        using Suc.prems(3) by (auto simp: finalized_def cs)
      obtain a b where ab: "emitted S (Suc h) ps a" "items_tree S h (sc_current sc) b" "ls2 = a @ b" using r(1) by (auto simp: state_ok_Cons)
      show ?case
      proof (cases "ps \<noteq> [] \<and> anyPending ps")
        case True
        then have ls2: "ls2 \<noteq> []" using ab(1,3) pending_emitted by auto
        have "yields F (if sc_current sc \<noteq> [] then handleChunkBoundary n k (cfh h) (sc # ps) tc1 else Inr (sc # ps, tc1))
          (\<lambda>(cs, tc). I tc \<and> state_ok S (Suc h) (tl cs) ls2 \<and> linked (cursors (tl cs)) \<and> remaining (Suc h) (cursors (tl cs)) post2
             \<and> \<not> sc_isLeaf (hd (tl cs)) \<and> \<not> sc_done (hd (tl cs)))"
        proof (cases "sc_current sc = []")
          case nil: True
          then have "ls2 = a" using ab by simp
          then show ?thesis using nil r state_ok_parents [OF r(1) _ ab(1)] True by simp
        next
          case False
          have "yields F (handleChunkBoundary n k (cfh h) (sc # ps) tc1)
            (\<lambda>(cs, tc). I tc \<and> state_ok S (Suc h) (tl cs) ls2 \<and> linked (cursors (tl cs)) \<and> remaining (Suc h) (cursors (tl cs)) post2
               \<and> \<not> sc_isLeaf (hd (tl cs)) \<and> \<not> sc_done (hd (tl cs)))"
          proof (rule yields_mono [OF handlesD [OF handles_boundary r(1,5) False r(7)]], goal_cases)
            case (1 q)
            then obtain sc2 ps2 tc2 m where q: "q = (sc2 # ps2, tc2)" "state_ok S h (sc2 # ps2) ls2" "I tc2" "sc_current sc2 = []"
              "cursors ps2 = cursors ps @ replicate m []"
              by (cases q, cases "fst q") (auto simp: appended_def grows_def cursors_def)
            have ps2: "ps2 \<noteq> []" "hd (cursors ps2) = hd (cursors ps)" "cursors ps \<noteq> []" using q(5) True by (auto simp: cursors_def)
            then have "state_ok S (Suc h) ps2 ls2" "\<not> sc_isLeaf (hd ps2)" "\<not> sc_done (hd ps2)"
              using state_ok_parents [OF q(2) ps2(1), of ls2] q(2,4) by (auto simp: state_ok_def)
            moreover have "linked (cursors ps2)" unfolding q(5) by (rule linked_grow [OF r(6)])
            moreover have "remaining (Suc h) (cursors ps2) post2" using r(2) ps2 q(5) by (auto simp: remaining_def cursors_def)
            ultimately show ?case using q(1,3) by simp
          qed
          then show ?thesis using False by simp
        qed
        then have "yields F (rbind (if sc_current sc \<noteq> [] then handleChunkBoundary n k (cfh h) (sc # ps) tc1 else Inr (sc # ps, tc1))
            (\<lambda>(cs, tc). Done n k (parent_cf (cfh h)) (tl cs) tc))
          (\<lambda>(seq, tc'). (\<exists>h. seq_tree S h seq (ls2 @ post2)) \<and> I tc')"
        proof (rule yields_bind, goal_cases)
          case (1 q)
          then show ?case using Suc.IH [of "Suc h" "tl (fst q)" ls2 post2 "snd q"] ls2 by (cases q) (simp add: cfh_sel)
        qed
        then show ?thesis using True by (simp add: r0 r(3))
      next
        case False
        then have a: "a = []" using ab(1) emitted_not_pending by (cases "ps = []") auto
        then have p2: "post2 = []" "ls @ post = b" using r(3,4) ab by (cases "sc_current sc = []"; auto)+
        have ne: "h \<noteq> 0 \<longrightarrow> sc_current sc \<noteq> []" using Suc.prems(5) p2(2) ab(2) by auto
        show ?thesis
        proof (cases "sc_isLeaf sc \<or> length (sc_current sc) > 1")
          case True
          then show ?thesis using createSequence_tree [OF r(7) ab(2) ne] False by (auto simp: r0 p2(2))
        next
          case nonleaf: False
          then obtain h' x where x: "h = Suc h'" "sc_current sc = [x]" using r(8) ne
            by (cases h; cases "sc_current sc") auto
          then obtain mt where mt: "x = TupleItem mt" "item_tree S (Suc h') (TupleItem mt) b" using ab(2) by auto
          have "yields F (rbind (canonical_root n (ts_vr S) mt) (\<lambda>seq. Inr (seq, tc1))) (\<lambda>(seq, tc'). (\<exists>h. seq_tree S h seq b) \<and> I tc')"
            by (rule yields_bind [OF canonical_root_ok [OF mt(2)]]) (use r(7) in simp)
          then show ?thesis using False nonleaf x(2) mt(1) by (auto simp: r0 p2(2) cfh_sel)
        qed
      qed
    qed
  qed (use Suc.prems(4) cs in simp)
qed

subsection \<open>Edits\<close>

lemma Append_all_ok:
  "state_ok S 0 cs ls \<Longrightarrow> linked (cursors cs) \<Longrightarrow> \<forall>x\<in>set xs. ts_leaf S x \<and> (\<forall>m. x \<noteq> TupleItem m) \<Longrightarrow> I tc \<Longrightarrow>
   yields F (foldM_res (\<lambda>(cs, tc) x. chunker_Append n k cf cs x tc) (cs, tc) xs) (\<lambda>(cs', tc').
     state_ok S 0 cs' (ls @ xs) \<and> grows cs cs' \<and> I tc')"
proof (induction xs arbitrary: cs ls tc)
  case Nil
  then show ?case by (simp add: grows_refl state_ok_def)
next
  case (Cons x xs)
  have cf: "cfh 0 = cf" by (simp add: cfh_def)
  have "yields F (chunker_Append n k cf cs x tc) (appended S I 0 cs (ls @ [x]))"
    using Append_ok [OF Cons.prems(1) linked_topped [OF Cons.prems(2)] _ Cons.prems(4), of x "[x]" n k] Cons.prems(3) cf by simp
  then show ?case
    unfolding foldM_res.simps prod.case
  proof (rule yields_bind, goal_cases)
    case (1 r)
    then obtain cs' tc' where r: "r = (cs', tc')" "state_ok S 0 cs' (ls @ [x])" "grows cs cs'" "I tc'" by (cases r) (auto simp: appended_def)
    then have "linked (cursors cs')" using Cons.prems(2) linked_grow by (auto simp: grows_def)
    from Cons.IH [OF r(2) this _ r(4)] Cons.prems(3) show ?case
      unfolding r(1) by (auto elim!: yields_mono intro: grows_trans [OF r(3)])
  qed
qed

lemma Skip_all_ok:
  "state_ok S 0 cs ls \<Longrightarrow> linked (cursors cs) \<Longrightarrow> cursor_at S 0 (sc_cur (hd cs)) pre post \<Longrightarrow>
   \<exists>cs' pre'. foldM_res (\<lambda>cs _. Skip (ts_vr S) cs) cs [0..<d] = Inr cs' \<and> state_ok S 0 cs' ls \<and> linked (cursors cs')
     \<and> cursor_at S 0 (sc_cur (hd cs')) pre' (drop d post)
     \<and> sc_isLeaf (hd cs') = sc_isLeaf (hd cs) \<and> sc_done (hd cs') = sc_done (hd cs)"
proof (induction d)
  case (Suc d)
  then obtain cs1 pre1 where cs1: "foldM_res (\<lambda>cs _. Skip (ts_vr S) cs) cs [0..<d] = Inr cs1" "state_ok S 0 cs1 ls" "linked (cursors cs1)"
    "cursor_at S 0 (sc_cur (hd cs1)) pre1 (drop d post)" "sc_isLeaf (hd cs1) = sc_isLeaf (hd cs)" "sc_done (hd cs1) = sc_done (hd cs)" by auto
  obtain sc ps where sc: "cs1 = sc # ps" using cs1(2) by (cases cs1) (auto simp: state_ok_def)
  show ?case
  proof (cases "drop d post = []")
    case True
    then have "end_at S 0 (sc_cur sc) pre1" using cursor_at_end cs1(4) by (simp add: sc)
    then have "Skip (ts_vr S) cs1 = Inr cs1" using advance_end by (simp add: sc cur_advance_def)
    moreover have "drop (Suc d) post = drop d post" using True by simp
    ultimately show ?thesis using cs1 by (auto simp: foldM_res_append)
  next
    case False
    then obtain x lx post' where at: "item_at S 0 (sc_cur sc) x pre1 lx post'" "drop d post = lx @ post'"
      using cursor_at_item [OF cs1(4)] by (auto simp: sc)
    have lx: "lx = [x]" using item_at_current(6) [OF at(1)] by simp
    from Skip_ok [OF cs1(3) [unfolded sc] at(1)] obtain cs2 ok where cs2: "Skip (ts_vr S) (sc # ps) = Inr cs2" "moved (sc # ps) cs2"
      "linked (cursors cs2)" "cur_advance (ts_vr S) (sc_cur sc) = Inr (ok, sc_cur (hd cs2))" by blast
    have "cursor_at S 0 (sc_cur (hd cs2)) (pre1 @ lx) post'"
      using at(1) by (cases rule: advance_cases) (use cs2(4) in \<open>auto simp: cursor_at_def\<close>)
    moreover have "post' = drop (Suc d) post" using at(2) lx by (metis append_Cons append_Nil drop_Suc list.sel(3) tl_drop)
    moreover have "sc_isLeaf (hd cs2) = sc_isLeaf sc" "sc_done (hd cs2) = sc_done sc" "state_ok S 0 cs2 ls"
      using cs2(2) moved_state_ok [OF cs2(2)] cs1(2) sc by (cases cs2; auto simp: moved_def moved_level_def)+
    ultimately show ?thesis using cs1 cs2 sc by (auto simp: foldM_res_append)
  qed
qed auto

text \<open>
  The edit every collection makes: a chunker at a cursor, items skipped, items appended, and the rest.
\<close>

theorem edit_ok:
  assumes "cursor_at S 0 c pre post" "\<forall>x\<in>set xs. ts_leaf S x \<and> (\<forall>m. x \<noteq> TupleItem m)" "I tc"
  shows "yields F
    (rbind (newSequenceChunker n k cf c tc) (\<lambda>(cs, tc).
     rbind (foldM_res (\<lambda>cs _. Skip (cf_vr cf) cs) cs [0..<d]) (\<lambda>cs.
     rbind (foldM_res (\<lambda>(cs, tc) x. chunker_Append n k cf cs x tc) (cs, tc) xs) (\<lambda>(cs, tc). Done n k cf cs tc))))
    (\<lambda>(seq, tc'). (\<exists>h. seq_tree S h seq (pre @ xs @ drop d post)) \<and> I tc')"
proof -
  have cf: "cfh 0 = cf" by (simp add: cfh_def)
  show ?thesis
  proof (rule yields_bind [OF new_ok [OF assms(1,3), unfolded cf]], goal_cases)
    case (1 r)
    then obtain cs tc1 where r: "r = (cs, tc1)" "state_ok S 0 cs pre" "linked (cursors cs)" "sc_cur (hd cs) = c" "sc_isLeaf (hd cs)"
      "\<not> sc_done (hd cs)" "I tc1" by (cases r) auto
    obtain cs2 pre2 where cs2: "foldM_res (\<lambda>cs _. Skip (ts_vr S) cs) cs [0..<d] = Inr cs2" "state_ok S 0 cs2 pre" "linked (cursors cs2)"
      "cursor_at S 0 (sc_cur (hd cs2)) pre2 (drop d post)" "sc_isLeaf (hd cs2)" "\<not> sc_done (hd cs2)"
      using Skip_all_ok [OF r(2,3), of pre post d] assms(1) r(4-6) by auto
    show ?case
      unfolding r(1) prod.case reader cs2(1) rbind_Inr
    proof (rule yields_bind [OF Append_all_ok [OF cs2(2,3) assms(2) r(7)]], goal_cases)
      case (1 q)
      then obtain cs3 tc3 m where q: "q = (cs3, tc3)" "state_ok S 0 cs3 (pre @ xs)" "I tc3" "cursors cs3 = cursors cs2 @ replicate m []"
        "sc_isLeaf (hd cs3)" "\<not> sc_done (hd cs3)" using cs2(5,6) by (cases q) (auto simp: grows_def)
      have "cs2 \<noteq> []" using cs2(2) by (simp add: state_ok_def)
      then have "remaining 0 (cursors cs3) (drop d post)"
        using cs2(4) q(4) cursor_at_nonempty [OF cs2(4)] by (auto simp: remaining_def cursors_def hd_append hd_map)
      from Done_ok [OF q(2) _ _ q(6) _ this q(3), unfolded cf] show ?case
        unfolding q(1) prod.case using linked_grow [OF cs2(3)] q(4,5) by simp
    qed
  qed
qed

text \<open>A tree from nothing.\<close>

theorem build_ok:
  assumes "\<forall>x\<in>set xs. ts_leaf S x \<and> (\<forall>m. x \<noteq> TupleItem m)" "I tc"
  shows "yields F
    (rbind (newEmptySequenceChunker n k cf tc) (\<lambda>(cs, tc).
     rbind (foldM_res (\<lambda>(cs, tc) x. chunker_Append n k cf cs x tc) (cs, tc) xs) (\<lambda>(cs, tc). Done n k cf cs tc)))
    (\<lambda>(seq, tc'). (\<exists>h. seq_tree S h seq xs) \<and> I tc')"
proof (cases n)
  case 0
  then show ?thesis using bounded by (simp add: newEmptySequenceChunker_def)
next
  case (Suc n')
  have cf: "cfh 0 = cf" by (simp add: cfh_def)
  have new: "newEmptySequenceChunker n k cf tc = Inr ([new_chunk_level []], tc)"
    by (simp add: Suc newEmptySequenceChunker_def new_with_def)
  have linked: "linked (cursors [new_chunk_level []])" by (simp add: cursors_def new_chunk_level_def)
  show ?thesis
    unfolding new rbind_Inr prod.case
  proof (rule yields_bind [OF Append_all_ok [OF new_level_ok linked assms]], goal_cases)
    case (1 q)
    then obtain cs tc1 m where q: "q = (cs, tc1)" "state_ok S 0 cs xs" "I tc1" "cursors cs = cursors [new_chunk_level []] @ replicate m []"
      "sc_isLeaf (hd cs)" "\<not> sc_done (hd cs)" by (cases q) (auto simp: grows_def new_chunk_level_def)
    then have "remaining 0 (cursors cs) []" by (auto simp: remaining_def cursors_def new_chunk_level_def)
    from Done_ok [OF q(2) _ _ q(6) _ this q(3), unfolded cf] show ?case
      unfolding q(1) prod.case using linked_grow [OF linked] q(4,5) by simp
  qed
qed

end

end
