(* ===== verification/BlobProof.thy ===== *)
theory BlobProof
  imports Collections ChunkerProof
begin

text \<open>
  Blobs provide the interface of the chunker, so \<open>Blob.Splice\<close> makes the blob with the bytes it should,
  whatever the shape of the tree it starts from. A blob whose bytes fit one chunk has one representation.
\<close>

subsection \<open>Counts as keys\<close>

text \<open>The key of a tuple is a count of leaves, rounded to a number; such a number can be written.\<close>

lemma round_half_even_bound:
  assumes "\<bar>x\<bar> \<le> of_int n"
  shows "\<bar>round_half_even x\<bar> \<le> n"
proof -
  have f: "- n \<le> \<lfloor>x\<rfloor>" "\<lfloor>x\<rfloor> \<le> n" using assms by (simp_all add: le_floor_iff floor_le_iff abs_le_iff)
  show ?thesis
  proof (cases "\<lfloor>x\<rfloor> = n")
    case True
    then have "x = of_int n" using assms by (simp add: abs_le_iff) (metis antisym of_int_floor_le)
    then show ?thesis using f by simp
  next
    case False
    then show ?thesis using f by (auto simp: round_half_even_def Let_def abs_le_iff)
  qed
qed

lemma is_float64I:
  assumes "\<bar>k\<bar> \<le> 2 ^ 53" "- 1074 \<le> e" "\<bar>of_int k * 2 powi e\<bar> < float_limit"
  shows "is_float64 (of_int k * 2 powi e)"
proof (cases "\<bar>k\<bar> = 2 ^ 53")
  case True
  then have "of_int k * 2 powi e = of_int (sgn k) * (2 :: rat) powi (e + 53)"
    by (cases "k = 2 ^ 53"; cases "k = - (2 ^ 53)") (simp_all add: powi_split)
  moreover have "\<bar>sgn k\<bar> < 2 ^ 53" by (simp add: sgn_if)
  ultimately show ?thesis using assms unfolding is_float64_def by (metis add_increasing2 zero_le_numeral)
next
  case False
  then show ?thesis using assms unfolding is_float64_def by (metis order_le_less)
qed

lemma round64_int:
  assumes "\<bar>i\<bar> < 2 ^ 64"
  obtains q where "round64 (of_int i) = Fin q" "is_float64 q"
proof (cases "i = 0")
  case True
  then show ?thesis using that [of 0] is_float64I [of 0 0] by (simp add: round64_def float_limit_def)
next
  case False
  define e where "e = max (- 1074) (ilog2 \<bar>of_int i\<bar> - 52)"
  define k where "k = round_half_even (of_int i / 2 powi e)"
  have b: "2 powi ilog2 \<bar>of_int i\<bar> \<le> \<bar>of_int i :: rat\<bar>" "\<bar>of_int i :: rat\<bar> < 2 powi (ilog2 \<bar>of_int i\<bar> + 1)"
    using ilog2_bounds [of "\<bar>of_int i\<bar>"] False by simp_all
  have "\<bar>of_int i :: rat\<bar> < 2 powi (e + 53)"
    by (rule less_le_trans [OF b(2)]) (auto simp: e_def intro!: power_int_increasing)
  then have "\<bar>of_int i / 2 powi e\<bar> \<le> (of_int (2 ^ 53) :: rat)" by (simp add: powi_split divide_le_eq abs_divide)
  then have k: "\<bar>k\<bar> \<le> 2 ^ 53" unfolding k_def by (rule round_half_even_bound)
  have "(of_int \<bar>i\<bar> :: rat) < of_int (2 ^ 64)" using assms by (simp only: of_int_less_iff)
  then have "(2 :: rat) powi ilog2 \<bar>of_int i\<bar> < 2 powi 64" using b(1) by simp
  then have "ilog2 \<bar>of_int i :: rat\<bar> < 64" by (simp only: powi_less_iff)
  then have e: "e \<le> 12" "- 1074 \<le> e" by (simp_all add: e_def)
  have "\<bar>of_int k * 2 powi e\<bar> = of_int \<bar>k\<bar> * (2 :: rat) powi e" by (simp add: abs_mult)
  also have "\<dots> \<le> of_int (2 ^ 53) * 2 powi 12"
    using k e(1) by (intro mult_mono power_int_increasing) (simp_all only: of_int_le_iff, simp_all)
  also have "\<dots> < float_limit" by (simp add: float_limit_def)
  finally have lim: "\<bar>of_int k * 2 powi e\<bar> < float_limit" .
  then have "round64 (of_int i) = Fin (of_int k * 2 powi e)" using False by (simp add: round64_def Let_def flip: e_def k_def)
  then show ?thesis using that is_float64I [OF k e(2) lim] by blast
qed
definition count_key :: "hash_fn \<Rightarrow> orderedKey \<Rightarrow> bool" where
  "count_key H key \<longleftrightarrow> (\<exists>i. \<bar>i\<bar> < 2 ^ 64 \<and> key = newOrderedKey H (Number (round64 (of_int i))))"

lemma count_key_len: "count_key H (orderedKeyFromInt H (go_len xs))"
proof -
  have "\<bar>go_len xs\<bar> < 2 ^ 64"
    unfolding go_len_def using sint_ge [of "of_nat (length xs) :: uint64"] sint_lt [of "of_nat (length xs) :: uint64"] by simp
  then show ?thesis by (auto simp: count_key_def orderedKeyFromInt_def)
qed

lemma count_key_sum: "count_key H (orderedKeyFromUint64 H w)"
proof -
  have "\<bar>int (unat w)\<bar> < 2 ^ 64" using unsigned_less [of w, where ?'a = int] by simp
  then show ?thesis unfolding count_key_def orderedKeyFromUint64_def by (intro exI [of _ "int (unat w)"]) simp
qed

lemma count_key_value:
  assumes "count_key H key"
  obtains q where "key_value key tc = Inr (Number (Fin q), tc)" "is_float64 q"
proof -
  obtain i where i: "\<bar>i\<bar> < 2 ^ 64" "key = newOrderedKey H (Number (round64 (of_int i)))" using assms by (auto simp: count_key_def)
  obtain q where "round64 (of_int i) = Fin q" "is_float64 q" using round64_int [OF i(1)] by blast
  then show ?thesis using that i(2) by (simp add: key_value_def newOrderedKey_def isKindOrderedByValue_def)
qed

subsection \<open>The hasher keeps its window\<close>

lemma window_HashByte [simp]: "rv_window (rv_HashByte b rv) = rv_window rv"
  by (simp add: rv_HashByte_def Let_def)

lemma window_fold [simp]: "rv_window (fold rv_HashByte bs rv) = rv_window rv"
  by (induction bs arbitrary: rv) simp_all

lemma hash_byte_ok: "hashValueByte (ByteItem b) (rv, tc) = Inr (rv_HashByte b rv, tc)"
  by (simp add: hashValueByte_def on_rv_def)

lemma window_writes [simp]:
  "rv_window (rv_writeHash h rv) = rv_window rv" "rv_window (rv_writeUint64 w rv) = rv_window rv" "rv_window (hashVarint w rv) = rv_window rv"
  unfolding rv_writeHash_def rv_writeUint64_def hashVarint_def by (rule window_fold)+

lemma hash_tuple_ok:
  assumes "count_key H (mt_key mt)" "I tc"
  shows "yields (\<lambda>e. e = Diverges) (metaHashValueBytes m (TupleItem mt) (rv, tc)) (hashed I rv)"
proof -
  obtain q where q: "key_value (mt_key mt) tc = Inr (Number (Fin q), tc)" "is_float64 q" using count_key_value [OF assms(1)] .
  obtain i ex where number: "float64ToIntExp (Fin q) = Inr (i, ex)" using float64ToIntExp_ok [OF q(2)] by metis
  show ?thesis
  proof (cases m)
    case 0
    then show ?thesis by (simp add: metaHashValueBytes_def q(1))
  next
    case (Suc m')
    show ?thesis
      unfolding metaHashValueBytes_def sequenceItem.case prod.case q(1) rbind_Inr Suc
      by (simp add: on_rv_def rv_writeNumber_def number hashed_def assms(2))
  qed
qed

subsection \<open>The interface\<close>

definition blob_spec :: "hash_fn \<Rightarrow> ValueReader \<Rightarrow> tree_spec" where
  "blob_spec H vr = \<lparr>ts_vr = vr, ts_leaf = (\<lambda>x. \<exists>b. x = ByteItem b), ts_key = (\<lambda>ls key. count_key H key)\<rparr>"

definition blob_types :: "TypeCache \<Rightarrow> bool" where
  "blob_types tc \<longleftrightarrow> BlobType < length (tc_types tc)"

lemma NewRef_blob:
  assumes "blob_types tc" "seq_Type seq = BlobType"
  obtains r tc' where "NewRef H (Blob seq) tc = Inr (r, tc')" "blob_types tc'"
proof -
  have "\<exists>t tc'. getCompoundType RefKind [BlobType] tc = Inr (t, tc') \<and> blob_types tc'"
    using assms(1)
    by (auto simp: getCompoundType_def ty_at_def blob_types_def tc_Traverse_def nextTypeId_def newType_def set_node_t_def Let_def
      split: option.split)
  then show ?thesis using that assms(2) by (auto simp: NewRef_def MakeRefType_def)
qed

lemma blob_leaf_chunk:
  assumes "blob_types tc" "items_tree (blob_spec H vr) 0 xs ls"
  shows "yields F (makeBlobLeafChunkFn H xs tc) (chunk_made (blob_spec H vr) F blob_types H 0 xs ls)"
proof -
  have ls: "ls = xs" "\<forall>x\<in>set xs. \<exists>b. x = ByteItem b" using assms(2) by (auto simp: items_tree_leaf blob_spec_def)
  from ls(2) have "\<exists>dat. xs = map ByteItem dat" by (induction xs) (auto intro: exI [of _ "_ # _"])
  then obtain dat where dat: "xs = map ByteItem dat" by blast
  then have "mapM_res item_byte xs = Inr dat" by (simp add: mapM_res_eq_Inr list_all2_map1 list_all2_same)
  moreover obtain r tc' where "NewRef H (Blob (blobLeafSequence dat)) tc = Inr (r, tc')" "blob_types tc'"
    using NewRef_blob [OF assms(1), of "blobLeafSequence dat"] by auto
  ultimately show ?thesis using ls(1) dat assms(1) count_key_len [of H dat]
    by (simp add: makeBlobLeafChunkFn_def chunkBlobLeaf_def chunk_made_def blob_spec_def isMetaSequence_def)
qed

lemma tuples_of:
  assumes "items_tree S (Suc h) xs ls"
  obtains ms where "xs = map TupleItem ms" "mapM_res item_tuple xs = Inr ms"
    "foldl (\<lambda>s mt. s + mt_numLeaves mt) 0 ms = of_nat (length ls)"
proof -
  have "\<exists>ms. xs = map TupleItem ms \<and> mapM_res item_tuple xs = Inr ms
    \<and> (\<forall>s. foldl (\<lambda>s mt. s + mt_numLeaves mt) s ms = s + of_nat (length ls))"
    using assms
  proof (induction xs arbitrary: ls)
    case (Cons x xs)
    from Cons.prems obtain a b m cs where x: "x = TupleItem m" "above S h (item_tree S h) m cs a" and b: "items_tree S (Suc h) xs b" "ls = a @ b"
      unfolding items_tree_Cons item_tree_Suc by blast
    from Cons.IH [OF b(1)] obtain ms where ms: "xs = map TupleItem ms" "mapM_res item_tuple xs = Inr ms"
      "\<forall>s. foldl (\<lambda>s mt. s + mt_numLeaves mt) s ms = s + of_nat (length b)" by blast
    have "mt_numLeaves m = of_nat (length a)" using x(2) by (simp add: above_def)
    then show ?case using ms x(1) b(2) by (intro exI [of _ "m # ms"]) (simp add: algebra_simps)
  qed auto
  then show ?thesis using that by force
qed

lemma blob_meta_chunk:
  assumes "blob_types tc" "items_tree (blob_spec H vr) (Suc h) xs ls"
  shows "yields F (newIndexedMetaSequenceChunkFn m H BlobKind xs tc) (chunk_made (blob_spec H vr) F blob_types H (Suc h) xs ls)"
proof -
  obtain ms where ms: "xs = map TupleItem ms" "mapM_res item_tuple xs = Inr ms" "foldl (\<lambda>s mt. s + mt_numLeaves mt) 0 ms = of_nat (length ls)"
    using tuples_of [OF assms(2)] .
  obtain r tc' where "NewRef H (Blob (newBlobMetaSequence ms)) tc = Inr (r, tc')" "blob_types tc'"
    using NewRef_blob [OF assms(1), of "newBlobMetaSequence ms"] by (auto simp: newBlobMetaSequence_def)
  then show ?thesis using ms assms(1) count_key_sum [of H "of_nat (length ls)"]
    by (simp add: newIndexedMetaSequenceChunkFn_def Let_def chunk_made_def newBlobMetaSequence_def blob_spec_def isMetaSequence_def
      orderedKeyFromSum_def)
qed

interpretation blobs: chunking "blob_newChunker m H vr" "blob_spec H vr" "\<lambda>e. e = Diverges" blob_types for m H vr
proof (unfold_locales, goal_cases)
  case (4 tc xs ls)
  then show ?case using blob_leaf_chunk by (simp add: blob_newChunker_def)
next
  case (5 tc h xs ls)
  then show ?case using blob_meta_chunk by (simp add: blob_newChunker_def)
next
  case (6 tc x rv)
  then show ?case by (auto simp: blob_newChunker_def blob_spec_def hash_byte_ok hashed_def)
next
  case (7 tc h x ls rv)
  then obtain mt cs where "x = TupleItem mt" "above (blob_spec H vr) h (item_tree (blob_spec H vr) h) mt cs ls" unfolding item_tree_Suc by blast
  then show ?case using hash_tuple_ok [of H mt blob_types tc] 7(1) by (simp add: blob_newChunker_def above_def blob_spec_def)
qed (simp_all add: blob_newChunker_def blob_spec_def)

subsection \<open>Splices\<close>

lemma tree_length: "seq_tree S h seq xs \<Longrightarrow> numLeaves seq = Inr (of_nat (length xs))"
  using numLeaves_tree [OF seq_tree_tree] by blast

lemma word_le_of_nat: "length xs < 2 ^ 63 \<Longrightarrow> i \<le> (of_nat (length xs) :: uint64) \<longleftrightarrow> unat i \<le> length xs"
  by (simp add: word_le_nat_alt unat_of_nat)

text \<open>
  A splice of an indexed sequence whose chunker builds trees: it fails with the guards and is right if they
  pass.
\<close>

context chunking
begin

theorem indexed_splice_ok:
  assumes "seq_tree S h seq xs" "length xs < 2 ^ 63" "h < n" "I tc" "\<forall>x\<in>set ys. ts_leaf S x \<and> (\<forall>m. x \<noteq> TupleItem m)"
  shows "if (dc \<noteq> 0 \<or> ys \<noteq> []) \<and> (length xs < unat idx \<or> length xs < unat (idx + dc))
    then indexed_splice n k cf seq idx dc ys tc = Inl ChkFailed
    else yields F (indexed_splice n k cf seq idx dc ys tc) (\<lambda>(seq', tc').
      (\<exists>h'. seq_tree S h' seq' (take (unat idx) xs @ ys @ drop (unat idx + unat dc) xs)) \<and> I tc')"
proof (cases "dc = 0 \<and> ys = []")
  case True
  then show ?thesis using assms(1,4) by (auto simp: indexed_splice_def)
next
  case edit: False
  show ?thesis
  proof (cases "length xs < unat idx \<or> length xs < unat (idx + dc)")
    case True
    then show ?thesis
      using edit by (auto simp: indexed_splice_def tree_length [OF assms(1)] word_le_of_nat [OF assms(2)] chk_def)
  next
    case False
    obtain c where c: "newCursorAtIndex n (ts_vr S) [] seq idx = Inr c" "cursor_at S 0 c (take (unat idx) xs) (drop (unat idx) xs)"
      using newCursorAtIndex_root [OF assms(1,2) _ assms(3), of idx] False by auto
    have "indexed_splice n k cf seq idx dc ys tc = splice_with n k cf c dc ys tc"
      using edit False c(1) by (auto simp: indexed_splice_def tree_length [OF assms(1)] word_le_of_nat [OF assms(2)] reader)
    then show ?thesis
      using edit_ok [OF c(2) assms(5,4), where d = "unat dc" and n = n and k = k] False
      by (simp add: splice_with_def add.commute)
  qed
qed

end

text \<open>
  C38. \<open>Blob.Splice\<close> on a blob of any shape: whatever tree of chunks holds the bytes \<open>bs\<close>, in memory or behind
  the value reader, the splice panics exactly if the index or the sum of index and count is past the end
  (the sum wraps around, see the finding on \<open>list.go\<close>), and otherwise never panics: its result is a well-formed
  tree of chunks that holds the bytes before the index, the new ones, and those behind the deleted ones. The
  one other outcome is to run out of the bounds \<open>n\<close> on the height and \<open>k\<close> on the loops, since the height of
  the new tree depends on the hashes of the chunks.
\<close>

theorem Blob_Splice_ok:
  assumes "seq_tree (blob_spec H vr) h b (map ByteItem bs)" "length bs < 2 ^ 63" "h < n" "blob_types tc"
  shows "if (dc \<noteq> 0 \<or> dat \<noteq> []) \<and> (length bs < unat idx \<or> length bs < unat (idx + dc))
    then Blob_Splice n k m H vr b idx dc dat tc = Inl ChkFailed
    else yields (\<lambda>e. e = Diverges) (Blob_Splice n k m H vr b idx dc dat tc) (\<lambda>(b', tc').
      (\<exists>h'. seq_tree (blob_spec H vr) h' b' (map ByteItem (take (unat idx) bs @ dat @ drop (unat idx + unat dc) bs))) \<and> blob_types tc')"
proof -
  have leaf: "\<forall>x\<in>set (map ByteItem dat). ts_leaf (blob_spec H vr) x \<and> (\<forall>m. x \<noteq> TupleItem m)" by (auto simp: blob_spec_def)
  have len: "length (map ByteItem bs) < 2 ^ 63" using assms(2) by (simp only: length_map)
  from blobs.indexed_splice_ok [OF assms(1) len assms(3,4) leaf, where dc = dc and idx = idx and k = k and m = m]
  show ?thesis by (simp only: Blob_Splice_def length_map map_is_Nil_conv take_map drop_map map_append)
qed

definition sample_tuple :: "bytes \<Rightarrow> metaTuple" where
  "sample_tuple bs = metaTuple \<lparr>ref_target = emptyHash, ref_height = 1, ref_t = BlobType\<rparr> (orderedKeyFromInt (\<lambda>_. emptyHash) (go_len bs))
     (of_nat (length bs)) (Some (Blob (blobLeafSequence bs)))"

definition sample_blob :: sequence where
  "sample_blob = metaSequence [sample_tuple [1, 2], sample_tuple [3]] BlobType"

lemma sample_item: "bs \<noteq> [] \<Longrightarrow> item_tree (blob_spec (\<lambda>_. emptyHash) vr) 1 (TupleItem (sample_tuple bs)) (map ByteItem bs)"
  using count_key_len [of "\<lambda>_. emptyHash" bs]
  by (auto simp: above_def sample_tuple_def tuple_getChildSequence_def isMetaSequence_def blob_spec_def list_all2_map1 list_all2_map2 list_all2_same
    intro!: exI [of _ "map (\<lambda>b. [ByteItem b]) bs"])

theorem Blob_Splice_ok_witness:
  "yields (\<lambda>e. e = Diverges) (Blob_Splice 3 9 3 (\<lambda>_. emptyHash) (\<lambda>_. None) sample_blob 1 1 [9] NewTypeCache) (\<lambda>(b', tc').
      (\<exists>h'. seq_tree (blob_spec (\<lambda>_. emptyHash) (\<lambda>_. None)) h' b' (map ByteItem [1, 9, 3])) \<and> blob_types tc')
   \<and> Blob_Splice 3 9 3 (\<lambda>_. emptyHash) (\<lambda>_. None) sample_blob 1 3 [] NewTypeCache = Inl ChkFailed"
proof -
  have "seq_tree (blob_spec (\<lambda>_. emptyHash) (\<lambda>_. None)) 1 sample_blob (map ByteItem [1, 2, 3])"
    using sample_item [of "[1, 2]" "\<lambda>_. None"] sample_item [of "[3]" "\<lambda>_. None"]
    by (auto simp: sample_blob_def seq_tree_def isMetaSequence_def items_tree_Cons simp del: item_tree.simps)
  then show ?thesis
    using Blob_Splice_ok [of "\<lambda>_. emptyHash" "\<lambda>_. None" 1 sample_blob "[1, 2, 3]" 3 NewTypeCache 1 "[9]" 1 9 3]
      Blob_Splice_ok [of "\<lambda>_. emptyHash" "\<lambda>_. None" 1 sample_blob "[1, 2, 3]" 3 NewTypeCache 3 "[]" 1 9 3]
    by (simp add: blob_types_def BlobType_def NewTypeCache_def prim_types_def)
qed
subsection \<open>Blobs of one chunk\<close>

text \<open>No window of the bytes ends a chunk.\<close>

definition no_boundary :: "bytes \<Rightarrow> bool" where
  "no_boundary bs \<longleftrightarrow>
     list_all (\<lambda>i. window_sum (last_bytes 64 (take (Suc i) bs)) AND defaultChunkPattern \<noteq> defaultChunkPattern) [0..<length bs]"

lemma no_boundary_take: "no_boundary bs \<Longrightarrow> no_boundary (take i bs)"
  by (auto simp: no_boundary_def list_all_iff min_def)

lemma no_boundary_snoc:
  "no_boundary (bs @ [b]) \<longleftrightarrow> no_boundary bs \<and> window_sum (last_bytes 64 (bs @ [b])) AND defaultChunkPattern \<noteq> defaultChunkPattern"
  by (auto simp: no_boundary_def list_all_iff less_Suc_eq)

lemma no_boundary_last: "no_boundary bs \<Longrightarrow> bs \<noteq> [] \<Longrightarrow> window_sum (last_bytes 64 bs) AND defaultChunkPattern \<noteq> defaultChunkPattern"
  by (cases bs rule: rev_cases) (simp_all add: no_boundary_snoc)

text \<open>A hasher that has seen bytes which agree with \<open>bs\<close> in the last 64.\<close>

definition primed :: "bytes \<Rightarrow> rollingValueHasher \<Rightarrow> bool" where
  "primed bs rv \<longleftrightarrow> \<not> rv_lengthOnly rv \<and> rv_window rv = 64
     \<and> (\<exists>hb. ring 64 hb (rv_bz rv) \<and> last_bytes 64 hb = last_bytes 64 bs)"

lemma last_bytes_append: "last_bytes n (as @ bs) = last_bytes n (last_bytes n as @ bs)"
proof (cases "length as \<le> n")
  case False
  then show ?thesis by (simp add: last_bytes_def drop_drop add.commute)
qed (simp add: last_bytes_def)

lemma last_bytes_cong: "last_bytes n as = last_bytes n bs \<Longrightarrow> last_bytes n (as @ cs) = last_bytes n (bs @ cs)"
  using last_bytes_append [of n as cs] last_bytes_append [of n bs cs] by simp

lemma primed_HashByte:
  assumes "primed bs rv"
  shows "primed (bs @ [b]) (rv_HashByte b rv)"
    "\<not> rv_crossedBoundary rv \<Longrightarrow> rv_crossedBoundary (rv_HashByte b rv) \<longleftrightarrow>
       window_sum (last_bytes 64 (bs @ [b])) AND defaultChunkPattern = defaultChunkPattern"
    "rv_bytesHashed (rv_HashByte b rv) = rv_bytesHashed rv + 1"
proof -
  obtain hb where hb: "ring 64 hb (rv_bz rv)" "last_bytes 64 hb = last_bytes 64 bs" and rv: "\<not> rv_lengthOnly rv" "rv_window rv = 64"
    using assms by (auto simp: primed_def)
  have step: "ring 64 (hb @ [b]) (bh_HashByte b (rv_bz rv))" using ring_step [OF hb(1)] by simp
  moreover have bytes: "last_bytes 64 (hb @ [b]) = last_bytes 64 (bs @ [b])" using last_bytes_cong [OF hb(2)] .
  moreover have "rv_bz (rv_HashByte b rv) = bh_HashByte b (rv_bz rv)" using rv by (simp add: rv_HashByte_def Let_def)
  ultimately show "primed (bs @ [b]) (rv_HashByte b rv)" using rv by (auto simp: primed_def rv_HashByte_def Let_def)
  have "Sum32 (bh_HashByte b (rv_bz rv)) = window_sum (last_bytes 64 (bs @ [b]))" using step bytes by (simp add: ring_def Sum32_def)
  then show "rv_crossedBoundary (rv_HashByte b rv) \<longleftrightarrow> window_sum (last_bytes 64 (bs @ [b])) AND defaultChunkPattern = defaultChunkPattern"
    if "\<not> rv_crossedBoundary rv" using rv that by (simp add: rv_HashByte_def Let_def chunkingConfig_def)
  show "rv_bytesHashed (rv_HashByte b rv) = rv_bytesHashed rv + 1" using rv by (simp add: rv_HashByte_def Let_def)
qed

lemma primed_Clear: "primed bs (ClearLastBoundary rv) \<longleftrightarrow> primed bs rv"
  by (simp add: primed_def ClearLastBoundary_def)

text \<open>What hashing a byte does after the boundary is cleared.\<close>

lemma primed_next:
  assumes "primed bs rv" "no_boundary (bs @ [b])"
  shows "primed (bs @ [b]) (rv_HashByte b (ClearLastBoundary rv))" "\<not> rv_crossedBoundary (rv_HashByte b (ClearLastBoundary rv))"
    "rv_bytesHashed (rv_HashByte b (ClearLastBoundary rv)) = 1"
  using primed_HashByte [of bs "ClearLastBoundary rv" b] assms by (simp_all add: primed_Clear no_boundary_snoc) (simp_all add: ClearLastBoundary_def)

text \<open>The states of a chunker on a blob that is one chunk.\<close>

definition leaf_at :: "bytes \<Rightarrow> nat \<Rightarrow> sequenceCursor" where
  "leaf_at bs i = [new_level (blobLeafSequence bs) (int i)]"

definition leaf_state :: "bytes \<Rightarrow> nat \<Rightarrow> bytes \<Rightarrow> chunkLevel \<Rightarrow> bool" where
  "leaf_state bs i out sc \<longleftrightarrow> sc_cur sc = leaf_at bs i \<and> sc_current sc = map ByteItem out \<and> sc_isLeaf sc \<and> primed out (sc_rv sc)"

lemma leaf_at_simps [simp]:
  "indexInChunk (leaf_at bs i) = Inr (int i)" "cur_length (leaf_at bs i) = Inr (int (length bs))" "leaf_at bs i \<noteq> []" "tl (leaf_at bs i) = []"
  "valid (leaf_at bs i) = Inr (i < length bs)"
  by (simp_all add: leaf_at_def indexInChunk_def cur_length_def new_level_def seqLen_def valid_def)

lemma leaf_at_current [simp]: "i < length bs \<Longrightarrow> current (leaf_at bs i) = Inr (ByteItem (bs ! i))"
  by (simp add: current_def leaf_at_def valid_def new_level_def seqLen_def getItem_def nth_int_def)

lemma leaf_at_advance: "i \<le> length bs \<Longrightarrow> cur_advance vr (leaf_at bs i) = Inr (Suc i < length bs, leaf_at bs (min (Suc i) (length bs)))"
  by (auto simp: cur_advance_def leaf_at_def new_level_def seqLen_def min_def)

lemma leaf_at_retreat:
  "retreatMaybeAllowBeforeStart vr False (leaf_at bs (Suc i)) = Inr (True, leaf_at bs i)"
  "retreatMaybeAllowBeforeStart vr False (leaf_at bs 0) = Inr (False, leaf_at bs 0)"
  by (simp_all add: leaf_at_def new_level_def)

subsubsection \<open>Resuming\<close>

definition counting :: "rollingValueHasher \<Rightarrow> rollingValueHasher \<Rightarrow> bool" where
  "counting rv rv' \<longleftrightarrow> rv_lengthOnly rv \<and> rv_lengthOnly rv' \<and> rv_bz rv' = rv_bz rv \<and> rv_window rv' = rv_window rv"

lemma counting_HashByte:
  "counting rv0 rv \<Longrightarrow> counting rv0 (rv_HashByte b (ClearLastBoundary rv)) \<and> rv_bytesHashed (rv_HashByte b (ClearLastBoundary rv)) = 1"
  by (simp add: counting_def rv_HashByte_def ClearLastBoundary_def Let_def)

lemma walk_leaf:
  assumes "cf_hash cf = hashValueByte" "i \<le> length bs" "counting rv0 rv"
  shows "\<exists>rv'. walk_to_start cf (leaf_at bs i) a p b (rv, tc)
      = Inr (leaf_at bs 0, a + i, p + min i (nat b), b - int (min i (nat b)), (rv', tc)) \<and> counting rv0 rv'"
  using assms(2,3)
proof (induction i arbitrary: a p b rv)
  case 0
  then show ?case by (subst walk_to_start.simps) (simp add: leaf_at_simps(1) [of bs 0, simplified])
next
  case (Suc i)
  note step = leaf_at_retreat(1)
  show ?case
  proof (cases "b > 0")
    case True
    let ?rv = "rv_HashByte (bs ! i) (ClearLastBoundary rv)"
    have rv: "counting rv0 ?rv" "rv_bytesHashed ?rv = 1" using counting_HashByte [OF Suc.prems(2)] by blast+
    have "walk_to_start cf (leaf_at bs (Suc i)) a p b (rv, tc) = walk_to_start cf (leaf_at bs i) (a + 1) (p + 1) (b - 1) (?rv, tc)"
      using True Suc.prems(1) rv(2) assms(1) by (subst walk_to_start.simps) (simp add: step hash_byte_ok)
    moreover have "min (Suc i) (nat b) = Suc (min i (nat (b - 1)))" using True by auto
    ultimately show ?thesis using Suc.IH [OF _ rv(1), of "a + 1" "p + 1" "b - 1"] Suc.prems(1) by auto
  next
    case False
    then have "walk_to_start cf (leaf_at bs (Suc i)) a p b (rv, tc) = walk_to_start cf (leaf_at bs i) (a + 1) p b (rv, tc)"
      by (subst walk_to_start.simps) (simp add: step)
    then show ?thesis using Suc.IH [OF _ Suc.prems(2), of "a + 1" p b] Suc.prems(1) False by auto
  qed
qed

lemma prime_leaf: "k \<noteq> 0 \<Longrightarrow> prime_back k cf (leaf_at bs 0) p b s = Inr (leaf_at bs 0, p, s)"
  by (cases k) (simp_all add: leaf_at_retreat(2))

lemma resume_leaf:
  assumes cf: "cf_hash cf = hashValueByte" and i: "i \<le> length bs" "P \<le> i"
    and last': "beyond \<Longrightarrow> i \<noteq> 0 \<Longrightarrow> window_sum (last_bytes 64 (drop (i - P) (take i bs))) AND defaultChunkPattern \<noteq> defaultChunkPattern"
  shows "a = i - j \<Longrightarrow> j \<le> i \<Longrightarrow> sc_cur sc = leaf_at bs j \<Longrightarrow> sc_current sc = map ByteItem (take j bs) \<Longrightarrow> primed (drop (i - P) (take j bs)) (sc_rv sc) \<Longrightarrow>
    \<exists>sc'. resume_forward handle cf beyond (min P a) a sc [] tc = Inr ([sc'], tc) \<and> sc_cur sc' = leaf_at bs i
      \<and> sc_current sc' = map ByteItem (take i bs) \<and> primed (drop (i - P) (take i bs)) (sc_rv sc')
      \<and> sc_isLeaf sc' = sc_isLeaf sc \<and> sc_done sc' = sc_done sc"
proof (induction a arbitrary: j sc)
  case 0
  then show ?case by (subst resume_forward.simps) auto
next
  case (Suc a)
  then have j: "j < i" "a = i - Suc j" "j < length bs" using i by simp_all
  have adv: "cur_advance (cf_vr cf) (sc_cur sc) = Inr (Suc j < length bs, leaf_at bs (Suc j))"
    using leaf_at_advance [of j bs "cf_vr cf"] j Suc.prems(3) by (simp add: min_def)
  have cur: "current (sc_cur sc) = Inr (ByteItem (bs ! j))" using j Suc.prems(3) by simp
  have taken: "map ByteItem (take (Suc j) bs) = sc_current sc @ [ByteItem (bs ! j)]" using j Suc.prems(4) by (simp add: take_Suc_conv_app_nth)
  show ?case
  proof (cases "P < Suc a")
    case True
    let ?sc = "sc\<lparr>sc_cur := leaf_at bs (Suc j), sc_current := sc_current sc @ [ByteItem (bs ! j)]\<rparr>"
    have "resume_forward handle cf beyond (min P (Suc a)) (Suc a) sc [] tc = resume_forward handle cf beyond (min P a) a ?sc [] tc"
      using True by (subst resume_forward.simps) (simp add: cur adv min_def)
    moreover have "drop (i - P) (take (Suc j) bs) = drop (i - P) (take j bs)" using True j by simp
    ultimately show ?thesis using Suc.IH [OF j(2), of ?sc] j(1) taken Suc.prems(5) by simp
  next
    case False
    let ?rv = "rv_HashByte (bs ! j) (ClearLastBoundary (sc_rv sc))"
    let ?sc = "sc\<lparr>sc_cur := leaf_at bs (Suc j), sc_rv := ?rv, sc_current := sc_current sc @ [ByteItem (bs ! j)]\<rparr>"
    have seen: "drop (i - P) (take (Suc j) bs) = drop (i - P) (take j bs) @ [bs ! j]"
      using False j by (simp add: take_Suc_conv_app_nth)
    have rv: "primed (drop (i - P) (take (Suc j) bs)) ?rv" "rv_crossedBoundary ?rv \<longleftrightarrow>
        window_sum (last_bytes 64 (drop (i - P) (take (Suc j) bs))) AND defaultChunkPattern = defaultChunkPattern"
      using primed_HashByte [of "drop (i - P) (take j bs)" "ClearLastBoundary (sc_rv sc)" "bs ! j"] Suc.prems(5) seen
      by (simp_all add: primed_Clear) (simp_all add: ClearLastBoundary_def)
    have quiet: "\<not> (rv_crossedBoundary ?rv \<and> beyond \<and> a = 0)"
    proof
      assume crossed: "rv_crossedBoundary ?rv \<and> beyond \<and> a = 0"
      then have "Suc j = i" using j by simp
      then show False using crossed last' j(1) unfolding rv(2) by simp
    qed
    have "resume_forward handle cf beyond (min P (Suc a)) (Suc a) sc [] tc = resume_forward handle cf beyond (min P a) a ?sc [] tc"
      using False quiet by (subst resume_forward.simps) (auto simp: cur adv cf hash_byte_ok Let_def)
    then show ?thesis using Suc.IH [OF j(2), of ?sc] j(1) taken rv(1) by simp
  qed
qed

lemma last_bytes_drop: "min 64 (length bs) \<le> P \<Longrightarrow> last_bytes 64 (drop (length bs - P) bs) = last_bytes 64 bs"
  by (simp add: last_bytes_def min_def split: if_splits)

lemma new_leaf:
  assumes cf: "cf_hash cf = hashValueByte" and i: "i \<le> length bs" and k: "k \<noteq> 0" and quiet: "no_boundary (take i bs)"
  obtains sc where "newSequenceChunker (Suc n) k cf (leaf_at bs i) tc = Inr ([sc], tc)" "leaf_state bs i (take i bs) sc" "\<not> sc_done sc"
proof -
  let ?beyond = "i = length bs" and ?fresh = "newRollingValueHasher"
  define ok where "ok \<longleftrightarrow> ?beyond \<and> i \<noteq> 0"
  define z :: nat where "z = (if ok then 1 else 0)"
  define P where "P = z + min (i - z) 64"
  have z: "z + (i - z) = i" "i - z \<le> length bs" "(if ok then 1 else 0) = z" using i by (auto simp: z_def ok_def)
  have P: "P \<le> i" "min 64 i \<le> P" "min P i = P" using z(1) unfolding P_def by linarith+
  have fresh: "unat (rv_window ?fresh) = 64" "\<not> rv_lengthOnly ?fresh" "rv_window ?fresh = 64" "ring 64 [] (rv_bz ?fresh)"
    using ring_New [of 64] by (simp_all add: newRollingValueHasher_def chunkingConfig_def defaultChunkWindow_def)
  have step_back: "(if ?beyond then retreatMaybeAllowBeforeStart (cf_vr cf) False (leaf_at bs i) else Inr (False, leaf_at bs i))
      = Inr (ok, leaf_at bs (i - z))"
    using leaf_at_retreat(1) [of "cf_vr cf" bs "i - 1"] leaf_at_retreat(2) [of "cf_vr cf" bs] by (cases "i = 0") (auto simp: ok_def z_def)
  have "counting (?fresh\<lparr>rv_lengthOnly := True\<rparr>) (?fresh\<lparr>rv_lengthOnly := True\<rparr>)" by (simp add: counting_def)
  from walk_leaf [OF cf z(2) this, of z z 64 tc] obtain rv where
    walk0: "walk_to_start cf (leaf_at bs (i - z)) z z 64 (?fresh\<lparr>rv_lengthOnly := True\<rparr>, tc)
      = Inr (leaf_at bs 0, i, P, 64 - int (min (i - z) 64), (rv, tc))" and rv: "counting (?fresh\<lparr>rv_lengthOnly := True\<rparr>) rv"
    by (auto simp: P_def z(1))
  let ?sc = "(new_chunk_level (leaf_at bs i))\<lparr>sc_cur := leaf_at bs 0, sc_rv := rv\<lparr>rv_lengthOnly := False\<rparr>\<rparr>"
  have bytes: "last_bytes 64 (drop (i - P) (take i bs)) = last_bytes 64 (take i bs)" using last_bytes_drop [of "take i bs" P] i P(2) by simp
  have prim: "primed [] (sc_rv ?sc)" using rv fresh by (auto simp: primed_def counting_def)
  have win: "window_sum (last_bytes 64 (drop (i - P) (take i bs))) AND defaultChunkPattern \<noteq> defaultChunkPattern" if ?beyond "i \<noteq> 0"
    using no_boundary_last [OF quiet] that i unfolding bytes by auto
  obtain sc where sc: "resume_forward (handle_with (newSequenceChunker n k) (chunker_Append n k) cf) cf ?beyond P i ?sc [] tc = Inr ([sc], tc)"
    "sc_cur sc = leaf_at bs i" "sc_current sc = map ByteItem (take i bs)" "primed (drop (i - P) (take i bs)) (sc_rv sc)" "sc_isLeaf sc" "\<not> sc_done sc"
    using resume_leaf [OF cf i P(1) win, where beyond = ?beyond and a = i and j = 0 and sc = ?sc] P(3) prim by (auto simp: new_chunk_level_def)
  have "newSequenceChunker (Suc n) k cf (leaf_at bs i) tc = Inr ([sc], tc)"
    unfolding newSequenceChunker.simps new_with_def resume_with_def Let_def new_chunk_level_def chunkLevel.simps
    using sc(1) by (simp add: new_chunk_level_def fresh(1) step_back z(3) walk0 prime_leaf [OF k] split del: if_split)
  moreover have "primed (take i bs) (sc_rv sc)" using sc(4) bytes by (simp add: primed_def)
  ultimately show ?thesis using that sc by (auto simp: leaf_state_def)
qed

subsubsection \<open>Appending, skipping and finishing\<close>

lemma no_boundary_prefix: "no_boundary (as @ bs) \<Longrightarrow> no_boundary as"
  using no_boundary_take [of "as @ bs" "length as"] by simp

lemma append_leaf:
  assumes cf: "cf_hash cf = hashValueByte"
  shows "leaf_state bs i out sc \<Longrightarrow> no_boundary (out @ dat) \<Longrightarrow>
    \<exists>sc'. foldM_res (\<lambda>(ch, tc) v. chunker_Append (Suc n) k cf ch v tc) ([sc], tc) (map ByteItem dat) = Inr ([sc'], tc)
      \<and> leaf_state bs i (out @ dat) sc' \<and> sc_done sc' = sc_done sc"
proof (induction dat arbitrary: out sc)
  case (Cons b dat)
  let ?rv = "rv_HashByte b (ClearLastBoundary (sc_rv sc))"
  let ?sc = "sc\<lparr>sc_current := sc_current sc @ [ByteItem b], sc_rv := ?rv\<rparr>"
  have "no_boundary (out @ [b])" using no_boundary_prefix [of "out @ [b]" dat] Cons.prems(2) by simp
  then have rv: "primed (out @ [b]) ?rv" "\<not> rv_crossedBoundary ?rv"
    using primed_next [of out "sc_rv sc" b] Cons.prems(1) by (auto simp: leaf_state_def)
  have "chunker_Append (Suc n) k cf [sc] (ByteItem b) tc = Inr ([?sc], tc)"
    using rv(2) by (simp add: append_with_def cf hash_byte_ok)
  moreover have "leaf_state bs i (out @ [b]) ?sc" using rv(1) Cons.prems(1) by (simp add: leaf_state_def)
  ultimately show ?case using Cons.IH [of "out @ [b]" ?sc] Cons.prems(2) by auto
qed auto

lemma skip_leaf:
  assumes "leaf_state bs i out sc" "i \<le> length bs"
  shows "\<exists>sc'. foldM_res (\<lambda>ch _. Skip vr ch) [sc] [0..<d] = Inr [sc'] \<and> leaf_state bs (min (i + d) (length bs)) out sc' \<and> sc_done sc' = sc_done sc"
proof (induction d)
  case 0
  then show ?case using assms by (simp add: min_def)
next
  case (Suc d)
  let ?i = "min (i + d) (length bs)"
  from Suc obtain sc' where sc': "foldM_res (\<lambda>ch _. Skip vr ch) [sc] [0..<d] = Inr [sc']" "leaf_state bs ?i out sc'" "sc_done sc' = sc_done sc" by blast
  have adv: "cur_advance vr (sc_cur sc') = Inr (Suc ?i < length bs, leaf_at bs (min (Suc ?i) (length bs)))"
    using leaf_at_advance [of ?i bs vr] sc'(2) by (simp add: leaf_state_def)
  let ?sc = "sc'\<lparr>sc_cur := leaf_at bs (min (Suc ?i) (length bs))\<rparr>"
  have "Skip vr [sc'] = Inr [?sc]" using adv by simp
  moreover have "min (Suc ?i) (length bs) = min (i + Suc d) (length bs)" by auto
  ultimately show ?case using sc' by (auto simp: foldM_res_append leaf_state_def)
qed

lemma finalize_leaf:
  assumes cf: "cf_hash cf = hashValueByte"
  shows "sc_cur sc = leaf_at bs i \<Longrightarrow> sc_current sc = map ByteItem out \<Longrightarrow> (hw > 0 \<Longrightarrow> primed out (sc_rv sc)) \<Longrightarrow> i \<le> length bs \<Longrightarrow>
    length bs - i < k \<Longrightarrow> hw > 0 \<or> i > 0 \<Longrightarrow> no_boundary (out @ drop i bs) \<Longrightarrow>
    \<exists>sc'. finalize_loop k handle cf first hw isB sc [] tc = Inr ([sc'], tc) \<and> sc_current sc' = map ByteItem (out @ drop i bs)
      \<and> sc_isLeaf sc' = sc_isLeaf sc"
proof (induction k arbitrary: first hw isB sc out i)
  case (Suc k)
  note sc = Suc.prems(1-3)
  show ?case
  proof (cases "i < length bs")
    case True
    let ?b = "bs ! i" and ?rv = "rv_HashByte (bs ! i) (ClearLastBoundary (sc_rv sc))"
    let ?sc = "sc\<lparr>sc_cur := leaf_at bs (Suc i), sc_rv := if hw > 0 then ?rv else sc_rv sc, sc_current := sc_current sc @ [ByteItem ?b]\<rparr>"
    let ?hw = "if hw > 0 then hw - 1 else hw"
    have drop: "drop i bs = ?b # drop (Suc i) bs" using True by (simp add: Cons_nth_drop_Suc)
    then have "no_boundary (out @ [?b])" using no_boundary_prefix [of "out @ [?b]" "drop (Suc i) bs"] Suc.prems(7) by simp
    then have rv: "primed (out @ [?b]) ?rv" "\<not> rv_crossedBoundary ?rv" "rv_bytesHashed ?rv = 1" if "hw > 0"
      using primed_next [OF sc(3) [OF that]] by blast+
    have adv: "cur_advance (cf_vr cf) (leaf_at bs i) = Inr (Suc i < length bs, leaf_at bs (Suc i))"
      using leaf_at_advance [of i bs "cf_vr cf"] True by (simp add: min_def)
    have "finalize_loop (Suc k) handle cf first hw isB sc [] tc = finalize_loop k handle cf False ?hw False ?sc [] tc"
      using Suc.prems(6) True rv
      by (cases "hw > 0") (auto simp: sc(1) adv cf hash_byte_ok skipParentIfExists_def Let_def)
    moreover have "\<exists>sc'. finalize_loop k handle cf False ?hw False ?sc [] tc = Inr ([sc'], tc)
        \<and> sc_current sc' = map ByteItem ((out @ [?b]) @ drop (Suc i) bs) \<and> sc_isLeaf sc' = sc_isLeaf ?sc"
      by (rule Suc.IH) (use True rv Suc.prems drop in \<open>auto split: if_splits\<close>)
    ultimately show ?thesis using drop by simp
  next
    case False
    then show ?thesis using Suc.prems by auto
  qed
qed simp

lemma done_leaf:
  assumes cf: "cf = blob_newChunker m H vr" and sc: "leaf_state bs i out sc" "\<not> sc_done sc" and i: "i \<le> length bs" and k: "length bs < k"
    and quiet: "no_boundary (out @ drop i bs)" and tc: "blob_types tc"
  shows "\<exists>tc'. Done (Suc n) k cf [sc] tc = Inr (blobLeafSequence (out @ drop i bs), tc') \<and> blob_types tc'"
proof -
  let ?sc = "sc\<lparr>sc_done := True\<rparr>" and ?res = "out @ drop i bs"
  have hash: "cf_hash cf = hashValueByte" by (simp add: cf blob_newChunker_def)
  have cur: "sc_cur sc = leaf_at bs i" "sc_current sc = map ByteItem out" "primed out (sc_rv sc)" "sc_isLeaf sc" using sc(1) by (auto simp: leaf_state_def)
  have window: "int (unat (rv_window (sc_rv sc))) = 64" using cur(3) by (simp add: primed_def)
  obtain sc' where fin: "finalizeCursor (handleChunkBoundary n k cf) k cf ?sc [] tc = Inr ([sc'], tc)" "sc_current sc' = map ByteItem ?res" "sc_isLeaf sc'"
  proof (cases "i < length bs")
    case True
    have "length bs - i < k" using k by simp
    then show ?thesis
      using True finalize_leaf [OF hash, of ?sc bs i out 64 k "handleChunkBoundary n k cf" True "out = []" tc] cur window i k quiet that
      by (auto simp: finalizeCursor_def)
  next
    case False
    then show ?thesis using cur i that by (auto simp: finalizeCursor_def skipParentIfExists_def)
  qed
  obtain r tc' where ref: "NewRef H (Blob (blobLeafSequence ?res)) tc = Inr (r, tc')" "blob_types tc'"
    using NewRef_blob [OF tc, of "blobLeafSequence ?res"] by auto
  have "mapM_res item_byte (map ByteItem ?res) = Inr ?res" by (simp add: mapM_res_eq_Inr list_all2_map1 list_all2_same del: map_append)
  then have "createSequence cf sc' tc = Inr ((blobLeafSequence ?res, newMetaTuple r (orderedKeyFromInt H (go_len ?res)) (of_nat (length ?res))
      (Some (Blob (blobLeafSequence ?res))), sc'\<lparr>sc_current := []\<rparr>), tc')"
    using ref(1) fin(2) by (simp add: createSequence_def cf blob_newChunker_def makeBlobLeafChunkFn_def chunkBlobLeaf_def del: map_append)
  then show ?thesis using fin sc(2) cur(1) ref(2) by simp
qed

lemma sint_of_length: "i < 2 ^ 63 \<Longrightarrow> sint (of_nat i :: uint64) = int i"
  by (simp add: signed_of_nat signed_take_bit_int_eq_self)

lemma splice_leaf:
  assumes quiet: "no_boundary bs" "no_boundary (take (unat idx) bs @ dat @ drop (unat idx + unat dc) bs)"
    and idx: "unat idx \<le> length bs" "unat (idx + dc) \<le> length bs" and len: "length bs < 2 ^ 63" "length bs < k" and tc: "blob_types tc"
  shows "\<exists>tc'. Blob_Splice (Suc n) k m H vr (blobLeafSequence bs) idx dc dat tc
      = Inr (blobLeafSequence (take (unat idx) bs @ dat @ drop (unat idx + unat dc) bs), tc') \<and> blob_types tc'"
proof (cases "dc = 0 \<and> dat = []")
  case True
  then show ?thesis using tc by (simp add: Blob_Splice_def indexed_splice_def)
next
  case False
  let ?cf = "blob_newChunker m H vr" and ?i = "unat idx" and ?j = "min (unat idx + unat dc) (length bs)"
  have hash: "cf_hash ?cf = hashValueByte" by (simp add: blob_newChunker_def)
  have int_le: "int ?i \<le> int (length bs)" using idx(1) by (simp only: of_nat_le_iff)
  have "sint idx = int ?i" using idx(1) len(1) sint_of_length [of ?i] by simp
  then have cur: "newCursorAtIndex (Suc n) vr [] (blobLeafSequence bs) idx = Inr (leaf_at bs ?i)"
    using int_le by (simp add: advanceCursorToOffset_def newSequenceCursor_def seqLen_def leaf_at_def Let_def)
  have drop: "drop ?j bs = drop (unat idx + unat dc) bs" by (auto simp: min_def)
  have k: "k \<noteq> 0" using len(2) by simp
  from new_leaf [OF hash idx(1) k no_boundary_take [OF quiet(1)]]
  obtain sc where sc: "newSequenceChunker (Suc n) k ?cf (leaf_at bs ?i) tc = Inr ([sc], tc)" "leaf_state bs ?i (take ?i bs) sc" "\<not> sc_done sc" by metis
  from skip_leaf [OF sc(2) idx(1), of vr "unat dc"] sc(3) obtain sc2 where
    sc2: "foldM_res (\<lambda>ch _. Skip vr ch) [sc] [0..<unat dc] = Inr [sc2]" "leaf_state bs ?j (take ?i bs) sc2" "\<not> sc_done sc2" by auto
  have "no_boundary (take ?i bs @ dat)" using no_boundary_prefix [of "take ?i bs @ dat"] quiet(2) by simp
  from append_leaf [OF hash sc2(2) this, of n k tc] sc2(3) obtain sc3 where
    sc3: "foldM_res (\<lambda>(ch, tc) v. chunker_Append (Suc n) k ?cf ch v tc) ([sc2], tc) (map ByteItem dat) = Inr ([sc3], tc)"
      "leaf_state bs ?j (take ?i bs @ dat) sc3" "\<not> sc_done sc3" by auto
  from done_leaf [OF refl sc3(2,3) _ len(2) _ tc, where m = m and H = H and vr = vr and n = n] quiet(2) drop obtain tc' where
    res: "Done (Suc n) k ?cf [sc3] tc = Inr (blobLeafSequence (take ?i bs @ dat @ drop (unat idx + unat dc) bs), tc')" "blob_types tc'" by auto
  have vr: "cf_vr ?cf = vr" by (simp add: blob_newChunker_def)
  have "idx \<le> of_nat (length bs)" "idx + dc \<le> of_nat (length bs)" using idx word_le_of_nat [OF len(1)] by blast+
  then have "Blob_Splice (Suc n) k m H vr (blobLeafSequence bs) idx dc dat tc = splice_with (Suc n) k ?cf (leaf_at bs ?i) dc (map ByteItem dat) tc"
    using False cur by (auto simp: Blob_Splice_def indexed_splice_def seqLen_def vr)
  also have "\<dots> = Done (Suc n) k ?cf [sc3] tc"
    unfolding splice_with_def sc(1) rbind_Inr prod.case vr sc2(1) sc3(1) ..
  finally show ?thesis using res by auto
qed

subsubsection \<open>The splice\<close>

lemma rotl_one: "word_rotl (Suc 0) x = push_bit 1 x OR drop_bit 31 (x :: uint32)"
  using rotl_shifts [of 1 x] by simp

text \<open>
  C39. \<open>Blob.Splice\<close> on a blob of one chunk, if no window of 64 bytes of the old or the new content ends a chunk:
  it returns, within one level and one step per byte, and its result is the one leaf with exactly the new
  content. So however a blob this small is edited, blobs with the same bytes have the same representation, and
  with it the same hash.
\<close>

theorem Blob_Splice_one_chunk:
  assumes "no_boundary bs" "no_boundary (take (unat idx) bs @ dat @ drop (unat idx + unat dc) bs)"
    "unat idx \<le> length bs" "unat (idx + dc) \<le> length bs" "length bs < 2 ^ 63" "length bs < k" "0 < n" "blob_types tc"
  shows "\<exists>tc'. Blob_Splice n k m H vr (blobLeafSequence bs) idx dc dat tc
      = Inr (blobLeafSequence (take (unat idx) bs @ dat @ drop (unat idx + unat dc) bs), tc')"
proof -
  obtain n' where "n = Suc n'" using assms(7) by (cases n) auto
  then show ?thesis using splice_leaf [OF assms(1-6,8), of n' m H vr] by blast
qed

theorem Blob_Splice_one_chunk_witness:
  "\<exists>tc'. Blob_Splice 1 4 1 (\<lambda>_. emptyHash) (\<lambda>_. None) (blobLeafSequence [1, 2, 3]) 1 1 [9] NewTypeCache = Inr (blobLeafSequence [1, 9, 3], tc')"
proof -
  have "no_boundary [1, 2, 3]" "no_boundary [1, 9, 3]"
    by (simp_all add: no_boundary_def window_sum_def last_bytes_def bytehash_def defaultChunkPattern_def upt_rec rotl_one)
  then show ?thesis
    using Blob_Splice_one_chunk [of "[1, 2, 3]" 1 "[9]" 1 4 1 NewTypeCache 1 "\<lambda>_. emptyHash" "\<lambda>_. None"]
    by (simp add: blob_types_def BlobType_def NewTypeCache_def prim_types_def)
qed

end
