(* ===== verification/Spec2Isabelle.thy ===== *)
theory Spec2Isabelle
  imports NbsStore EditDistance SizeCache ValueLoop BlobProof
begin

text \<open>
  Noms is a versioned database. Its values are encoded into chunks, byte strings addressed by a
  20-byte hash, and the chunks are kept in chunk stores; the Noms Block Store (NBS) keeps them in
  immutable table files listed by a manifest.

  The theories, bottom up:

  \<^item> Prelude: panics as values, byte strings and big-endian integers, writes into buffers.
  \<^item> GoStd: the parts of the Go standard library the code uses.
  \<^item> NomsHash: \<open>go/hash\<close>.
  \<^item> Chunks: \<open>go/chunks\<close>, with the interface of a chunk store as a locale.
  \<^item> NbsTable: \<open>go/nbs/table.go\<close> and \<open>go/nbs/table_writer.go\<close>.
  \<^item> NbsReader: \<open>go/nbs/table_reader.go\<close>, lookups and enumeration.
  \<^item> NbsReads: \<open>go/nbs/table_reader.go\<close>, batched reads.
\<close>

end
